(* ===== verification/Proton_Prelude.thy ===== *)
theory Proton_Prelude
  imports Main "HOL-Library.Word"
begin

unbundle bit_operations_syntax

text \<open>
  Shared vocabulary of the development: the machine types of the C sources, the
  wrap-around of \<open>uint32_t\<close> and \<open>size_t\<close> arithmetic on natural numbers, blocks of memory
  as byte lists with \<open>memcpy\<close>, the allocator as a parameter, and the error codes of
  \<open>proton/error.h\<close>. The lemma collections \<open>wrap_simps\<close> (wrap-around that does not happen)
  and \<open>mem_simps\<close> (reads after block writes) carry the proofs of the components.
\<close>

named_theorems wrap_simps \<open>machine arithmetic that stays in range\<close>
named_theorems mem_simps \<open>lengths and reads of memory blocks\<close>

section \<open>Machine types\<close>

type_synonym byte = "8 word"
type_synonym u16 = "16 word"
type_synonym u32 = "32 word"
type_synonym u64 = "64 word"

text \<open>
  A \<open>pn_bytes_t\<close> is a size and a start pointer. \<open>None\<close> is the null value \<open>{0, NULL}\<close>;
  \<open>Some bs\<close> is a non-null pointer to the bytes \<open>bs\<close>, of size \<open>length bs\<close> (possibly 0).
\<close>

type_synonym pn_bytes = "byte list option"

definition bytes_data :: "pn_bytes \<Rightarrow> byte list" where
  "bytes_data b = (case b of None \<Rightarrow> [] | Some bs \<Rightarrow> bs)"

definition bytes_size :: "pn_bytes \<Rightarrow> nat" where
  "bytes_size b = length (bytes_data b)"

lemma bytes_data_simps [simp]: "bytes_data None = []" "bytes_data (Some bs) = bs"
  by (simp_all add: bytes_data_def)

lemma bytes_size_simps [simp]: "bytes_size None = 0" "bytes_size (Some bs) = length bs"
  by (simp_all add: bytes_size_def)

section \<open>Wrap-around on natural numbers\<close>

text \<open>
  Counters and sizes are natural numbers; every C addition or subtraction that could wrap
  is written with one of these. Arguments of the subtractions are below the modulus.
\<close>

definition wrap32 :: "nat \<Rightarrow> nat" where
  "wrap32 n = n mod 2 ^ 32"

definition wrap64 :: "nat \<Rightarrow> nat" where
  "wrap64 n = n mod 2 ^ 64"

definition sub32 :: "nat \<Rightarrow> nat \<Rightarrow> nat" where
  "sub32 a b = (a + 2 ^ 32 - b) mod 2 ^ 32"

definition sub64 :: "nat \<Rightarrow> nat \<Rightarrow> nat" where
  "sub64 a b = (a + 2 ^ 64 - b) mod 2 ^ 64"

text \<open>The cast of a \<open>size_t\<close> to a (32-bit) \<open>int\<close>.\<close>

definition int_of_size :: "nat \<Rightarrow> int" where
  "int_of_size n = sint (word_of_nat n :: 32 word)"

lemma wrap32_id [wrap_simps]: "n < 2 ^ 32 \<Longrightarrow> wrap32 n = n"
  by (simp add: wrap32_def)

lemma wrap64_id [wrap_simps]: "n < 2 ^ 64 \<Longrightarrow> wrap64 n = n"
  by (simp add: wrap64_def)

lemma mod_sub_back: "b \<le> a \<Longrightarrow> a < m \<Longrightarrow> (a + m - b) mod m = a - (b::nat)"
proof -
  assume "b \<le> a" "a < m"
  then have "a + m - b = (a - b) + m" by simp
  with \<open>a < m\<close> show ?thesis by (simp only: mod_add_self2) simp
qed

lemma sub32_diff [wrap_simps]: "b \<le> a \<Longrightarrow> a < 2 ^ 32 \<Longrightarrow> sub32 a b = a - b"
  unfolding sub32_def by (rule mod_sub_back)

lemma sub64_diff [wrap_simps]: "b \<le> a \<Longrightarrow> a < 2 ^ 64 \<Longrightarrow> sub64 a b = a - b"
  unfolding sub64_def by (rule mod_sub_back)

lemma int_of_size_small [wrap_simps]:
  assumes "n < 2 ^ 31"
  shows "int_of_size n = int n"
proof -
  have "signed_take_bit 31 (int n) = int n"
    using assms by (intro signed_take_bit_int_eq_self) auto
  moreover have "take_bit 32 n = n"
    using assms by (intro take_bit_nat_eq_self) simp
  ultimately show ?thesis
    by (simp add: int_of_size_def sint_uint unsigned_of_nat)
qed

lemma unat_word_of_nat [wrap_simps]:
  "n < 2 ^ LENGTH('a::len) \<Longrightarrow> unat (word_of_nat n :: 'a word) = n"
  by (simp add: unsigned_of_nat take_bit_nat_eq_self)

lemma int_of_size_minus_one: "int_of_size (sub64 0 1) = - 1"
  by (simp add: int_of_size_def sub64_def)

section \<open>Memory blocks\<close>

text \<open>\<open>memcpy_at xs i ys\<close> is \<open>memcpy(xs + i, ys, size of ys)\<close>; the block keeps its length
  when the copy is in bounds.\<close>

definition memcpy_at :: "'a list \<Rightarrow> nat \<Rightarrow> 'a list \<Rightarrow> 'a list" where
  "memcpy_at xs i ys = take i xs @ ys @ drop (i + length ys) xs"

lemma length_memcpy_at [mem_simps]:
  "i + length ys \<le> length xs \<Longrightarrow> length (memcpy_at xs i ys) = length xs"
  by (simp add: memcpy_at_def)

lemma nth_memcpy_at [mem_simps]:
  assumes "i + length ys \<le> length xs" "j < length xs"
  shows "memcpy_at xs i ys ! j = (if i \<le> j \<and> j < i + length ys then ys ! (j - i) else xs ! j)"
  using assms by (auto simp: memcpy_at_def nth_append)

lemma nth_memcpy_at_inside:
  "i + length ys \<le> length xs \<Longrightarrow> j < length ys \<Longrightarrow> memcpy_at xs i ys ! (i + j) = ys ! j"
  by (simp add: nth_memcpy_at)

lemma memcpy_at_Nil [simp]: "memcpy_at xs i [] = xs"
  by (simp add: memcpy_at_def)

lemma take_memcpy_at [mem_simps]:
  assumes "i + length ys \<le> length xs"
  shows "take i (memcpy_at xs i ys) = take i xs"
    and "take (i + length ys) (memcpy_at xs i ys) = take i xs @ ys"
  using assms by (simp_all add: memcpy_at_def)

lemma take_memcpy_at_before:
  assumes "i + length ys \<le> length xs" "j \<le> i"
  shows "take j (memcpy_at xs i ys) = take j xs"
  using assms by (simp add: memcpy_at_def min_absorb1)

lemma take_memcpy_at_inside:
  assumes "i + length ys \<le> n" "n \<le> length xs"
  shows "take n (memcpy_at xs i ys) = memcpy_at (take n xs) i ys"
  using assms by (intro nth_equalityI) (simp_all add: length_memcpy_at nth_memcpy_at)

lemma memcpy_at_append:
  assumes "i + length ys + length zs \<le> length xs"
  shows "memcpy_at (memcpy_at xs i ys) (i + length ys) zs = memcpy_at xs i (ys @ zs)"
  using assms by (simp add: memcpy_at_def min_absorb2 ac_simps)

lemma memcpy_at_single:
  "i < length xs \<Longrightarrow> memcpy_at xs i [y] = xs[i := y]"
  by (simp add: memcpy_at_def upd_conv_take_nth_drop)

text \<open>
  The C heap is a parameter: \<open>alloc n\<close> is \<open>None\<close> when a request for \<open>n\<close> bytes fails and
  otherwise the (indeterminate) initial contents of the block.
\<close>

type_synonym allocator = "nat \<Rightarrow> (nat \<Rightarrow> byte) option"

definition mem_alloc :: "allocator \<Rightarrow> nat \<Rightarrow> byte list option" where
  "mem_alloc alloc n = map_option (\<lambda>f. map f [0..<n]) (alloc n)"

definition mem_realloc :: "allocator \<Rightarrow> byte list \<Rightarrow> nat \<Rightarrow> byte list option" where
  "mem_realloc alloc old n =
     map_option (\<lambda>f. take n old @ map f [length old..<n]) (alloc n)"

lemma mem_alloc_length: "mem_alloc alloc n = Some bs \<Longrightarrow> length bs = n"
  by (auto simp: mem_alloc_def)

lemma mem_realloc_length: "mem_realloc alloc old n = Some bs \<Longrightarrow> length bs = n"
  by (auto simp: mem_realloc_def)

lemma mem_realloc_nth:
  "mem_realloc alloc old n = Some bs \<Longrightarrow> i < length old \<Longrightarrow> i < n \<Longrightarrow> bs ! i = old ! i"
  by (auto simp: mem_realloc_def nth_append)

lemma mem_alloc_None_iff: "mem_alloc alloc n = None \<longleftrightarrow> alloc n = None"
  by (simp add: mem_alloc_def)

lemma mem_realloc_None_iff: "mem_realloc alloc old n = None \<longleftrightarrow> alloc n = None"
  by (simp add: mem_realloc_def)

section \<open>Error codes\<close>

definition PN_OK :: int where [simp]: "PN_OK = 0"
definition PN_EOS :: int where [simp]: "PN_EOS = - 1"
definition PN_ERR :: int where [simp]: "PN_ERR = - 2"
definition PN_OVERFLOW :: int where [simp]: "PN_OVERFLOW = - 3"
definition PN_UNDERFLOW :: int where [simp]: "PN_UNDERFLOW = - 4"
definition PN_STATE_ERR :: int where [simp]: "PN_STATE_ERR = - 5"
definition PN_ARG_ERR :: int where [simp]: "PN_ARG_ERR = - 6"
definition PN_OUT_OF_MEMORY :: int where [simp]: "PN_OUT_OF_MEMORY = - 10"

section \<open>Generic lemmas\<close>

lemma take_Suc_drop_nth: "i < length xs \<Longrightarrow> take (Suc n) (drop i xs) = xs ! i # take n (drop (Suc i) xs)"
  by (simp add: Cons_nth_drop_Suc [symmetric])

lemma list_eq_take_dropI:
  "take n xs = take n ys \<Longrightarrow> drop n xs = drop n ys \<Longrightarrow> xs = ys"
  by (metis append_take_drop_id)

end
