(* ===== verification/Bytes_Util.thy ===== *)
theory Bytes_Util
  imports Proton_Prelude
begin

text \<open>
  The helpers of \<open>core/util.h\<close> and \<open>core/util.c\<close>: byte strings, power-of-two rounding,
  big-endian integers, quoting of binary data for logs, case-insensitive comparison of C
  strings and the minimum of two optional timestamps. The lemmas show that the bit-smearing
  rounding is the least power of two above its argument, that big-endian writes and reads
  are inverse, that quoting fills the destination exactly when it fits and loses no
  information, and that the comparisons decide equality up to ASCII case.
\<close>

section \<open>Byte strings\<close>

definition pn_bytes_equal :: "pn_bytes \<Rightarrow> pn_bytes \<Rightarrow> bool" where
  "pn_bytes_equal a b \<longleftrightarrow> bytes_size a = bytes_size b \<and> bytes_data a = bytes_data b"

definition pn_bytes_dup :: "pn_bytes \<Rightarrow> pn_bytes" where
  "pn_bytes_dup b = (if bytes_size b \<noteq> 0 then Some (bytes_data b) else None)"

lemma pn_bytes_dup_equal [simp]: "pn_bytes_equal (pn_bytes_dup b) b"
  by (auto simp: pn_bytes_equal_def pn_bytes_dup_def bytes_size_def)

section \<open>Rounding up to a power of two\<close>

definition pni_round_up_pow2 :: "u32 \<Rightarrow> u32" where
  "pni_round_up_pow2 n =
     (let n = n - 1;
          n = n OR drop_bit 1 n;
          n = n OR drop_bit 2 n;
          n = n OR drop_bit 4 n;
          n = n OR drop_bit 8 n;
          n = n OR drop_bit 16 n
      in n + 1)"

text \<open>Each line doubles the window of higher bits that have been smeared down.\<close>

definition smeared :: "u32 \<Rightarrow> nat \<Rightarrow> u32 \<Rightarrow> bool" where
  "smeared m k w \<longleftrightarrow> (\<forall>i. bit w i \<longleftrightarrow> (\<exists>j<k. bit m (i + j)))"

lemma smeared_self: "smeared m 1 m"
  by (simp add: smeared_def)

lemma smeared_double:
  assumes "smeared m k w"
  shows "smeared m (2 * k) (w OR drop_bit k w)"
  unfolding smeared_def
proof (intro allI iffI)
  fix i
  assume "bit (w OR drop_bit k w) i"
  then consider "bit w i" | "bit w (k + i)"
    by (auto simp: bit_or_iff bit_drop_bit_eq)
  then show "\<exists>j<2 * k. bit m (i + j)"
  proof cases
    case 1
    with assms show ?thesis by (force simp: smeared_def)
  next
    case 2
    with assms obtain j where "j < k" "bit m (k + i + j)" by (auto simp: smeared_def)
    then show ?thesis by (intro exI [of _ "k + j"]) (simp add: ac_simps)
  qed
next
  fix i
  assume "\<exists>j<2 * k. bit m (i + j)"
  then obtain j where j: "j < 2 * k" "bit m (i + j)" by blast
  show "bit (w OR drop_bit k w) i"
  proof (cases "j < k")
    case True
    with j assms show ?thesis by (auto simp: smeared_def bit_or_iff)
  next
    case False
    then have "bit m (k + i + (j - k))" "j - k < k" using j by (simp_all add: ac_simps)
    with assms show ?thesis by (auto simp: smeared_def bit_or_iff bit_drop_bit_eq)
  qed
qed

lemma smeared_mask:
  fixes m :: u32
  assumes "smeared m 32 w" "unat m < 2 ^ k" "0 < k \<Longrightarrow> 2 ^ (k - 1) \<le> unat m"
  shows "w = mask k"
proof (rule bit_word_eqI)
  fix i assume "i < LENGTH(32)"
  have high: "\<not> bit m j" if "k \<le> j" for j
  proof -
    have "unat m < 2 ^ j"
      using assms(2) power_increasing [OF that, of "2::nat"] by linarith
    then have "\<not> bit (unat m) j" by (simp add: bit_iff_odd)
    then show ?thesis by (simp add: bit_unsigned_iff)
  qed
  have low: "bit m (k - 1)" if "0 < k"
  proof -
    have "unat m div 2 ^ (k - 1) = 1"
      using assms(2,3) that
      by (intro div_nat_eqI) (auto simp: power_eq_if)
    then have "bit (unat m) (k - 1)" by (simp add: bit_iff_odd)
    then show ?thesis by (simp add: bit_unsigned_iff)
  qed
  have k: "k \<le> 32" if "bit m (k - 1)" "0 < k"
    using bit_imp_le_length [OF that(1)] that(2) by simp
  have "(\<exists>j<32. bit m (i + j)) \<longleftrightarrow> i < k"
  proof
    assume "\<exists>j<32. bit m (i + j)"
    then obtain j where "bit m (i + j)" by blast
    with high [of "i + j"] show "i < k" by linarith
  next
    assume "i < k"
    then have "bit m (i + (k - 1 - i))" "k - 1 - i < 32" using low k by auto
    then show "\<exists>j<32. bit m (i + j)" by blast
  qed
  with assms(1) \<open>i < LENGTH(32)\<close> show "bit w i = bit (mask k :: u32) i"
    by (simp add: smeared_def bit_mask_iff)
qed

lemma pni_round_up_pow2_eq:
  assumes "unat (n - 1) < 2 ^ k" "0 < k \<Longrightarrow> 2 ^ (k - 1) \<le> unat (n - 1)"
  shows "pni_round_up_pow2 n = 2 ^ k"
proof -
  define w where "w = pni_round_up_pow2 n - 1"
  have "smeared (n - 1) (2 * (2 * (2 * (2 * (2 * 1))))) w"
    unfolding w_def pni_round_up_pow2_def Let_def add_diff_cancel_right'
    using smeared_double [OF smeared_double [OF smeared_double [OF smeared_double
          [OF smeared_double [OF smeared_self [of "n - 1"]]]]]]
    by simp
  then have "smeared (n - 1) 32 w" by simp
  from smeared_mask [OF this assms] have "w = mask k" .
  then have "pni_round_up_pow2 n = mask k + 1" by (simp add: w_def algebra_simps)
  then show ?thesis by (simp add: mask_eq_decr_exp)
qed

lemma pow2_bracket: "\<exists>k. (m::nat) < 2 ^ k \<and> (0 < k \<longrightarrow> 2 ^ (k - 1) \<le> m)"
proof -
  define k where "k = (LEAST k. m < 2 ^ k)"
  have "m < 2 ^ k" unfolding k_def by (rule LeastI_ex) (rule exI [of _ m], rule less_exp)
  moreover have "2 ^ (k - 1) \<le> m" if "0 < k"
    using not_less_Least [of "k - 1" "\<lambda>k. m < 2 ^ k"] that by (simp add: k_def)
  ultimately show ?thesis by blast
qed

text \<open>The value for the callers: a nonzero request of at most \<open>2 ^ 31\<close>.\<close>

lemma pni_round_up_pow2_nat:
  assumes "0 < n" "n \<le> 2 ^ 31"
  obtains k where "unat (pni_round_up_pow2 (word_of_nat n)) = 2 ^ k" "n \<le> 2 ^ k"
    "k \<le> 31" "0 < k \<Longrightarrow> 2 ^ (k - 1) < n"
proof -
  obtain k where k: "n - 1 < 2 ^ k" "0 < k \<longrightarrow> 2 ^ (k - 1) \<le> n - 1"
    using pow2_bracket [of "n - 1"] by blast
  have "unat (word_of_nat n - 1 :: u32) = n - 1"
  proof -
    have eq: "(word_of_nat n :: u32) - 1 = word_of_nat (n - 1)"
      using assms(1) by (simp add: of_nat_diff)
    show ?thesis unfolding eq using assms by (intro unat_word_of_nat) simp
  qed
  then have "pni_round_up_pow2 (word_of_nat n) = 2 ^ k"
    using k by (intro pni_round_up_pow2_eq) simp_all
  moreover have "k \<le> 31"
  proof (rule ccontr)
    assume "\<not> k \<le> 31"
    then have "31 \<le> k - 1" "0 < k" by auto
    then have "2 ^ 31 \<le> (2::nat) ^ (k - 1)" by (intro power_increasing) auto
    with k(2) \<open>0 < k\<close> assms show False by linarith
  qed
  moreover from this have "unat (2 ^ k :: u32) = 2 ^ k"
    using unat_word_of_nat [of "2 ^ k", where 'a = 32] power_strict_increasing [of k 32 "2::nat"]
    by simp
  moreover have "n \<le> 2 ^ k" using k(1) assms(1) by linarith
  moreover have "2 ^ (k - 1) < n" if "0 < k" using k(2) that assms(1) by linarith
  ultimately show ?thesis by (intro that [of k]) simp_all
qed

section \<open>Big-endian integers\<close>

definition pni_write16 :: "u16 \<Rightarrow> byte list" where
  "pni_write16 v = [ucast (0xFF AND drop_bit 8 v), ucast (0xFF AND v)]"

definition pni_write32 :: "u32 \<Rightarrow> byte list" where
  "pni_write32 v =
     [ucast (0xFF AND drop_bit 24 v), ucast (0xFF AND drop_bit 16 v),
      ucast (0xFF AND drop_bit 8 v), ucast (0xFF AND v)]"

definition pni_read16 :: "byte list \<Rightarrow> u16" where
  "pni_read16 bs = push_bit 8 (ucast (bs ! 0)) OR ucast (bs ! 1)"

definition pni_read32 :: "byte list \<Rightarrow> u32" where
  "pni_read32 bs = push_bit 16 (ucast (pni_read16 bs)) OR ucast (pni_read16 (drop 2 bs))"

definition pni_read64 :: "byte list \<Rightarrow> u64" where
  "pni_read64 bs = push_bit 32 (ucast (pni_read32 bs)) OR ucast (pni_read32 (drop 4 bs))"

lemma length_pni_write [simp]: "length (pni_write16 v) = 2" "length (pni_write32 w) = 4"
  by (simp_all add: pni_write16_def pni_write32_def)

text \<open>
  Masking with \<open>0xFF\<close> before the store into a byte changes nothing, and joining the bytes of
  a word gives the word back.
\<close>

lemma low_byte [simp]: "(ucast (0xFF AND w) :: byte) = ucast (w :: 'a::len word)"
proof (rule bit_word_eqI)
  fix n assume n: "n < LENGTH(8)"
  have eq: "(0xFF :: 'a word) = mask 8" by (simp add: mask_eq_exp_minus_1)
  have "bit (0xFF :: 'a word) n \<longleftrightarrow> n < LENGTH('a)"
    using n by (subst eq) (simp add: bit_mask_iff)
  then show "bit (ucast (0xFF AND w) :: byte) n = bit (ucast w :: byte) n"
    using n bit_imp_le_length [of w n] by (auto simp: bit_simps)
qed

lemma join16: "push_bit 8 (ucast (ucast (drop_bit 8 v) :: byte)) OR ucast (ucast v :: byte) = (v :: u16)"
  by (rule bit_word_eqI) (auto simp: bit_simps)

lemma byte_high_bit [simp]: "\<not> bit (b :: byte) (8 + n)"
  using bit_imp_le_length [of b "8 + n"] by auto

lemma split16:
  "(ucast (drop_bit 8 (push_bit 8 (ucast a) OR ucast b :: u16)) :: byte) = a"
  "(ucast (push_bit 8 (ucast a) OR ucast b :: u16) :: byte) = b"
  by (auto intro!: bit_word_eqI simp: bit_simps)

lemma join32: "push_bit 16 (ucast (ucast (drop_bit 16 v) :: u16)) OR ucast (ucast v :: u16) = (v :: u32)"
  by (rule bit_word_eqI) (auto simp: bit_simps)

lemma join64: "push_bit 32 (ucast (ucast (drop_bit 32 v) :: u32)) OR ucast (ucast v :: u32) = (v :: u64)"
  by (rule bit_word_eqI) (auto simp: bit_simps)

lemma pni_write32_split:
  "pni_write32 v = pni_write16 (ucast (drop_bit 16 v)) @ pni_write16 (ucast v)"
proof -
  have 1: "(ucast (drop_bit 8 (ucast w :: u16)) :: byte) = ucast (drop_bit 8 w)" for w :: u32
    by (rule bit_word_eqI) (auto simp: bit_simps)
  have 2: "(ucast (ucast w :: u16) :: byte) = ucast w" for w :: u32
    by (rule bit_word_eqI) (auto simp: bit_simps)
  have 3: "drop_bit 8 (drop_bit 16 v) = drop_bit 24 v" by simp
  show ?thesis
    by (simp only: pni_write32_def pni_write16_def low_byte 1 2 3 append.simps)
qed

lemma pni_read16_write16 [simp]: "pni_read16 (pni_write16 v @ bs) = v"
  unfolding pni_read16_def pni_write16_def by (simp add: join16)

lemma pni_write16_read16: "pni_write16 (pni_read16 [a, b]) = [a, b]"
  unfolding pni_read16_def pni_write16_def by (simp only: low_byte split16 nth_Cons_0 One_nat_def nth_Cons_Suc)

lemma pni_read32_write32 [simp]: "pni_read32 (pni_write32 v @ bs) = v"
  unfolding pni_read32_def by (simp add: pni_write32_split join32)

text \<open>
  The big-endian codecs are inverse: reading what was written gives the value back, whatever
  bytes follow, and a 64-bit read joins two 32-bit writes.
\<close>

lemma pni_read64_write32: "pni_read64 (pni_write32 (ucast (drop_bit 32 v)) @ pni_write32 (ucast v) @ bs) = v"
  unfolding pni_read64_def by (simp add: join64)

text \<open>The reads look at two, four and eight bytes only.\<close>

lemma pni_read16_append: "2 \<le> length bs \<Longrightarrow> pni_read16 (bs @ ys) = pni_read16 bs"
  by (auto simp: pni_read16_def nth_append)

lemma pni_read32_append: "4 \<le> length bs \<Longrightarrow> pni_read32 (bs @ ys) = pni_read32 bs"
  by (simp add: pni_read32_def pni_read16_append)

lemma pni_read64_append: "8 \<le> length bs \<Longrightarrow> pni_read64 (bs @ ys) = pni_read64 bs"
  by (simp add: pni_read64_def pni_read32_append)

section \<open>Quoting\<close>

text \<open>Printable ASCII other than backslash and quote marks is copied; the rest is escaped.\<close>

definition quote_plain :: "byte \<Rightarrow> bool" where
  "quote_plain c \<longleftrightarrow> c < 128 \<and> c \<noteq> 0x5C \<and> c \<noteq> 0x22 \<and> c \<noteq> 0x27 \<and> 0x20 \<le> c \<and> c \<le> 0x7E"

definition hex_digit :: "byte \<Rightarrow> byte" where
  "hex_digit d = (if d < 10 then 0x30 + d else 0x57 + d)"

definition quote_escape :: "byte \<Rightarrow> byte list" where
  "quote_escape c = [0x5C, 0x78, hex_digit (drop_bit 4 c), hex_digit (c AND 0x0F)]"

text \<open>
  The loop of \<open>pn_quote_data\<close> over the remaining source bytes, with the write index \<open>idx\<close>;
  \<open>sprintf\<close> stores the escape and a terminating null.
\<close>

fun pn_quote_loop :: "nat \<Rightarrow> byte list \<Rightarrow> nat \<Rightarrow> byte list \<Rightarrow> int \<times> byte list" where
  "pn_quote_loop capacity [] idx dst = (int idx, dst[idx := 0])"
| "pn_quote_loop capacity (c # src) idx dst =
     (if quote_plain c then
        if int idx < int_of_size (sub64 capacity 1)
        then pn_quote_loop capacity src (idx + 1) (dst[idx := c])
        else (PN_OVERFLOW, if idx > 0 then dst[idx := 0] else dst)
      else
        if int idx < int_of_size (sub64 capacity 4)
        then pn_quote_loop capacity src (idx + 4) (memcpy_at dst idx (quote_escape c @ [0]))
        else (PN_OVERFLOW, if idx > 0 then dst[idx := 0] else dst))"

definition pn_quote_data :: "byte list \<Rightarrow> nat \<Rightarrow> byte list \<Rightarrow> int \<times> byte list" where
  "pn_quote_data dst capacity src = pn_quote_loop capacity src 0 dst"

text \<open>What the quoting means, with no buffer.\<close>

definition quote_spec :: "byte list \<Rightarrow> byte list" where
  "quote_spec src = concat (map (\<lambda>c. if quote_plain c then [c] else quote_escape c) src)"

lemma quote_spec_simps [simp]:
  "quote_spec [] = []"
  "quote_spec (c # src) = (if quote_plain c then [c] else quote_escape c) @ quote_spec src"
  by (simp_all add: quote_spec_def)

lemma length_quote_escape [simp]: "length (quote_escape c) = 4"
  by (simp add: quote_escape_def)

lemma int_of_size_sub:
  assumes "n < 2 ^ 31" "k \<le> 4"
  shows "int_of_size (sub64 n k) = int n - int k"
proof -
  have "int (sub64 n k) = (int n + 2 ^ 64 - int k) mod 2 ^ 64"
    using assms by (simp add: sub64_def zmod_int of_nat_diff)
  also have "\<dots> = (int n - int k) mod 2 ^ 64"
    using mod_add_self2 [of "int n - int k" "2 ^ 64"] by (simp only: algebra_simps)
  finally have "int (sub64 n k) mod 2 ^ 32 = (int n - int k) mod 2 ^ 32"
    by (simp only: mod_mod_cancel le_imp_power_dvd numeral_le_iff semiring_norm)
  then have "take_bit 32 (int (sub64 n k)) = take_bit 32 (int n - int k)"
    by (simp only: take_bit_eq_mod)
  then have "(word_of_int (int (sub64 n k)) :: 32 word) = word_of_int (int n - int k)"
    by (subst word_of_int_eq_iff) (simp only: len_num1 len_bit0 mult_1_right numeral_times_numeral semiring_norm)
  then have "(word_of_nat (sub64 n k) :: 32 word) = word_of_int (int n - int k)"
    by (simp only: of_int_of_nat_eq)
  then have "int_of_size (sub64 n k) = sint (word_of_int (int n - int k) :: 32 word)"
    by (simp only: int_of_size_def)
  also have "\<dots> = signed_take_bit 31 (int n - int k)"
    by (simp only: signed_of_int len_num1 len_bit0) simp
  also have "\<dots> = int n - int k"
    using assms by (intro signed_take_bit_int_eq_self) auto
  finally show ?thesis .
qed

lemma pn_quote_loop_spec:
  assumes "0 < capacity" "capacity < 2 ^ 31" "length dst = capacity" "idx < capacity"
  shows "if idx + length (quote_spec src) < capacity
     then pn_quote_loop capacity src idx dst =
       (int (idx + length (quote_spec src)), memcpy_at dst idx (quote_spec src @ [0]))
     else fst (pn_quote_loop capacity src idx dst) = PN_OVERFLOW \<and>
       length (snd (pn_quote_loop capacity src idx dst)) = capacity"
  using assms(3,4)
proof (induction src arbitrary: idx dst)
  case Nil
  then show ?case by (simp add: memcpy_at_single)
next
  case (Cons c src)
  note guards = int_of_size_sub [OF assms(2), of "Suc 0"]
    int_of_size_sub [OF assms(2), of 4]
  show ?case
  proof (cases "quote_plain c")
    case True
    show ?thesis
    proof (cases "idx + 1 < capacity")
      case fits: True
      have "memcpy_at (dst[idx := c]) (idx + 1) (quote_spec src @ [0]) =
          memcpy_at dst idx (c # quote_spec src @ [0])"
        if "idx + 1 + length (quote_spec src) < capacity"
        using memcpy_at_append [of idx "[c]" "quote_spec src @ [0]" dst] that Cons.prems
        by (simp add: memcpy_at_single)
      then show ?thesis
        using Cons.IH [of "dst[idx := c]" "idx + 1"] Cons.prems True fits assms
        by (simp add: guards split: if_splits)
    next
      case False
      with True Cons.prems assms show ?thesis by (simp add: guards)
    qed
  next
    case False
    show ?thesis
    proof (cases "idx + 4 < capacity")
      case fits: True
      let ?dst = "memcpy_at dst idx (quote_escape c @ [0])"
      have len: "length ?dst = capacity"
        using fits Cons.prems by (simp add: mem_simps)
      have "memcpy_at ?dst (idx + 4) (quote_spec src @ [0]) =
          memcpy_at dst idx (quote_escape c @ quote_spec src @ [0])"
        if "idx + 4 + length (quote_spec src) < capacity"
        using that Cons.prems by (simp add: memcpy_at_def ac_simps)
      then show ?thesis
        using Cons.IH [of ?dst "idx + 4"] len False fits assms
        by (simp add: guards add.assoc split: if_splits)
    next
      case not_fits: False
      with False Cons.prems assms show ?thesis by (simp add: guards)
    qed
  qed
qed

text \<open>The inverse of quoting: a backslash always introduces a two-digit escape.\<close>

definition unhex_digit :: "byte \<Rightarrow> byte" where
  "unhex_digit h = (if h < 0x3A then h - 0x30 else h - 0x57)"

fun unquote :: "byte list \<Rightarrow> byte list" where
  "unquote (a # b # h # l # rest) =
     (if a = 0x5C then (push_bit 4 (unhex_digit h) OR unhex_digit l) # unquote rest
      else a # unquote (b # h # l # rest))"
| "unquote (a # rest) = a # unquote rest"
| "unquote [] = []"

lemma unhex_hex:
  assumes "d < 16"
  shows "unhex_digit (hex_digit d) = d"
proof -
  have "\<forall>i\<in>set [0..<16]. unhex_digit (hex_digit (word_of_nat i)) = word_of_nat i"
    by code_simp
  moreover have "unat d \<in> set [0..<16]" using assms by (simp add: word_less_nat_alt)
  ultimately have "unhex_digit (hex_digit (word_of_nat (unat d))) = word_of_nat (unat d)" ..
  then show ?thesis by simp
qed

lemma nibbles: "push_bit 4 (drop_bit 4 c) OR (c AND 0x0F) = (c :: byte)"
proof (rule bit_word_eqI)
  fix n assume "n < LENGTH(8)"
  have eq: "(0x0F :: byte) = mask 4" by (simp add: mask_eq_exp_minus_1)
  have "bit (0x0F :: byte) n \<longleftrightarrow> n < 4"
    using \<open>n < LENGTH(8)\<close> by (subst eq) (simp add: bit_mask_iff)
  then show "bit (push_bit 4 (drop_bit 4 c) OR (c AND 0x0F)) n = bit c n"
    using \<open>n < LENGTH(8)\<close>
    by (cases "n < 4") (simp_all add: bit_or_iff bit_and_iff bit_push_bit_iff bit_drop_bit_eq)
qed

lemma nibble_bounds: "drop_bit 4 (c :: byte) < 16" "c AND 0x0F < (16 :: byte)"
proof -
  have "unat (drop_bit 4 c) = unat c div 16" by (simp add: drop_bit_eq_div unat_div)
  moreover have "unat c < 256" using unsigned_less [of c] by simp
  ultimately show "drop_bit 4 c < 16" by (simp add: word_less_nat_alt)
  have "c AND 0x0F \<le> 0x0F" by (rule word_and_le1)
  then show "c AND 0x0F < (16 :: byte)" by (simp add: word_less_nat_alt word_le_nat_alt)
qed

lemma unquote_plain: "c \<noteq> 0x5C \<Longrightarrow> unquote (c # bs) = c # unquote bs"
  by (cases "c # bs" rule: unquote.cases) simp_all

text \<open>Quoting loses nothing: \<open>unquote\<close> recovers the bytes, so two inputs never quote alike.\<close>

lemma unquote_quote: "unquote (quote_spec src) = src"
proof (induction src)
  case (Cons c src)
  have "unquote (quote_escape c @ quote_spec src) = c # unquote (quote_spec src)"
    using unhex_hex [OF nibble_bounds(1)] unhex_hex [OF nibble_bounds(2)]
    by (simp add: quote_escape_def nibbles)
  moreover have "unquote (c # quote_spec src) = c # unquote (quote_spec src)" if "quote_plain c"
    using that by (intro unquote_plain) (simp add: quote_plain_def)
  ultimately show ?case using Cons.IH by simp
qed simp

section \<open>Case-insensitive comparison\<close>

text \<open>
  A C string is the list of its bytes before the terminating null; \<open>cstr_head\<close> reads the
  current character (the null at the end). Characters are signed, as on x86 Linux;
  \<open>c_tolower\<close> is \<open>tolower\<close> of the C locale.
\<close>

definition cstr_head :: "byte list \<Rightarrow> int" where
  "cstr_head s = (case s of [] \<Rightarrow> 0 | c # _ \<Rightarrow> sint c)"

definition c_tolower :: "int \<Rightarrow> int" where
  "c_tolower c = (if 65 \<le> c \<and> c \<le> 90 then c + 32 else c)"

fun pn_strcasecmp :: "byte list \<Rightarrow> byte list \<Rightarrow> int" where
  "pn_strcasecmp a [] = cstr_head a"
| "pn_strcasecmp a (b # bs) =
     (let diff = c_tolower (cstr_head a) - c_tolower (sint b)
      in if diff \<noteq> 0 then diff else pn_strcasecmp (tl a) bs)"

fun pn_strncasecmp :: "byte list \<Rightarrow> byte list \<Rightarrow> nat \<Rightarrow> int" where
  "pn_strncasecmp a b 0 = 0"
| "pn_strncasecmp a [] (Suc len) = cstr_head a"
| "pn_strncasecmp a (b # bs) (Suc len) =
     (let diff = c_tolower (cstr_head a) - c_tolower (sint b)
      in if diff \<noteq> 0 then diff else pn_strncasecmp (tl a) bs len)"

definition ci_fold :: "byte list \<Rightarrow> int list" where
  "ci_fold s = map (\<lambda>c. c_tolower (sint c)) s"

lemma c_tolower_eq_0_iff: "c_tolower c = 0 \<longleftrightarrow> c = 0" "0 = c_tolower c \<longleftrightarrow> c = 0"
  by (auto simp: c_tolower_def)

lemma c_tolower_0 [simp]: "c_tolower 0 = 0"
  by (simp add: c_tolower_def)

lemma sint_byte_eq_0_iff [simp]: "sint (c :: byte) = 0 \<longleftrightarrow> c = 0"
  by (metis signed_0 signed_word_eqI)

lemma pn_strcasecmp_iff:
  "0 \<notin> set a \<Longrightarrow> 0 \<notin> set b \<Longrightarrow> pn_strcasecmp a b = 0 \<longleftrightarrow> ci_fold a = ci_fold b"
proof (induction b arbitrary: a)
  case Nil
  then show ?case by (cases a) (auto simp: cstr_head_def ci_fold_def)
next
  case (Cons b bs)
  then show ?case
    by (cases a) (auto simp: cstr_head_def ci_fold_def Let_def c_tolower_eq_0_iff)
qed

lemma pn_strncasecmp_iff:
  "0 \<notin> set a \<Longrightarrow> 0 \<notin> set b \<Longrightarrow>
   pn_strncasecmp a b n = 0 \<longleftrightarrow> ci_fold (take n a) = ci_fold (take n b)"
proof (induction a b n rule: pn_strncasecmp.induct)
  case (2 a len)
  then show ?case by (cases a) (auto simp: cstr_head_def ci_fold_def)
next
  case (3 a b bs len)
  then show ?case
    by (cases a) (auto simp: cstr_head_def ci_fold_def Let_def c_tolower_eq_0_iff)
qed simp

section \<open>Timestamps\<close>

text \<open>A zero timestamp means that none is set.\<close>

definition pn_timestamp_min :: "int \<Rightarrow> int \<Rightarrow> int" where
  "pn_timestamp_min a b =
     (if a \<noteq> 0 \<and> b \<noteq> 0 then (if a > b then b else a) else if a \<noteq> 0 then a else b)"

lemma pn_timestamp_min_assoc:
  "pn_timestamp_min (pn_timestamp_min a b) c = pn_timestamp_min a (pn_timestamp_min b c)"
  by (simp add: pn_timestamp_min_def)

section \<open>Properties\<close>

text \<open>
  C20: \<open>pni_round_up_pow2\<close> returns the least power of two that is not below its argument
  whenever \<open>1 \<le> n \<le> 2 ^ 31\<close>, and 0 for every other argument (the wrap its comment names,
  and \<open>n = 0\<close>).
\<close>

theorem pni_round_up_pow2_least:
  "(if 0 < n \<and> n \<le> 2 ^ 31
    then (\<exists>k. unat (pni_round_up_pow2 n) = 2 ^ k) \<and> unat n \<le> unat (pni_round_up_pow2 n) \<and>
         (\<forall>j. unat n \<le> 2 ^ j \<longrightarrow> unat (pni_round_up_pow2 n) \<le> 2 ^ j)
    else pni_round_up_pow2 n = 0)"
proof (cases "0 < n \<and> n \<le> 2 ^ 31")
  case True
  then have "0 < unat n" "unat n \<le> 2 ^ 31"
    by (simp_all add: word_le_nat_alt word_less_nat_alt)
  then obtain k where k: "unat (pni_round_up_pow2 n) = 2 ^ k" "unat n \<le> 2 ^ k"
    "0 < k \<Longrightarrow> 2 ^ (k - 1) < unat n"
    by (rule pni_round_up_pow2_nat) simp
  have "2 ^ k \<le> (2::nat) ^ j" if "unat n \<le> 2 ^ j" for j
  proof (rule ccontr)
    assume "\<not> 2 ^ k \<le> (2::nat) ^ j"
    then have "j \<le> k - 1" "0 < k" by (auto simp: not_le)
    then have "(2::nat) ^ j \<le> 2 ^ (k - 1)" by (intro power_increasing) auto
    with that k(3) [OF \<open>0 < k\<close>] show False by linarith
  qed
  with k True show ?thesis by auto
next
  case False
  have "2 ^ 31 \<le> unat (n - 1)"
  proof (cases "n = 0")
    case True
    then show ?thesis by (simp add: unsigned_minus_1_eq_mask mask_eq_exp_minus_1)
  next
    case n0: False
    with False have "2 ^ 31 < unat n"
      by (simp add: word_le_nat_alt word_less_nat_alt unat_gt_0)
    then show ?thesis using n0 by (simp add: unat_minus_one)
  qed
  moreover have "unat (n - 1) < 2 ^ 32" using unsigned_less [of "n - 1"] by simp
  ultimately have "pni_round_up_pow2 n = 2 ^ 32" by (intro pni_round_up_pow2_eq) simp_all
  with False show ?thesis by simp
qed

theorem pni_round_up_pow2_least_witness:
  "unat (33 :: u32) \<le> unat (pni_round_up_pow2 33) \<and> unat (pni_round_up_pow2 33) \<le> 2 ^ 6"
  using pni_round_up_pow2_least [of 33] by (auto dest: spec [of _ 6])



text \<open>
  C21: \<open>pn_strcasecmp\<close> returns 0 exactly when the two C strings are equal up to ASCII case, and
  \<open>pn_strncasecmp\<close> exactly when their prefixes of the given length are.
\<close>

theorem pn_strcasecmp_decides:
  assumes "0 \<notin> set a" "0 \<notin> set b"
  shows "(pn_strcasecmp a b = 0 \<longleftrightarrow> ci_fold a = ci_fold b) \<and>
    (pn_strncasecmp a b n = 0 \<longleftrightarrow> ci_fold (take n a) = ci_fold (take n b))"
  using pn_strcasecmp_iff [OF assms] pn_strncasecmp_iff [OF assms] by simp

theorem pn_strcasecmp_decides_witness:
  "pn_strcasecmp [0x4F, 0x6E] [0x6F, 0x4E] = 0 \<and> pn_strncasecmp [0x4F, 0x6E] [0x6F] 1 = 0"
  using pn_strcasecmp_decides [of "[0x4F, 0x6E]" "[0x6F, 0x4E]" 1]
    pn_strcasecmp_decides [of "[0x4F, 0x6E]" "[0x6F]" 1]
  by (simp add: ci_fold_def c_tolower_def)

end
