(* ===== verification/Encodings.thy ===== *)
theory Encodings
  imports Proton_Prelude
begin

text \<open>
  The AMQP type constructors (the \<open>PNE_\<close> constants that \<open>encodings.h.py\<close> prints from
  \<open>types.xml\<close>) and the atoms of \<open>proton/codec.h\<close>. Floating point and decimal values are kept as
  their bits, which is all that the codecs move.
\<close>

definition PNE_DESCRIPTOR :: byte where [simp]: "PNE_DESCRIPTOR = 0x00"
definition PNE_NULL :: byte where [simp]: "PNE_NULL = 0x40"
definition PNE_BOOLEAN :: byte where [simp]: "PNE_BOOLEAN = 0x56"
definition PNE_TRUE :: byte where [simp]: "PNE_TRUE = 0x41"
definition PNE_FALSE :: byte where [simp]: "PNE_FALSE = 0x42"
definition PNE_UBYTE :: byte where [simp]: "PNE_UBYTE = 0x50"
definition PNE_USHORT :: byte where [simp]: "PNE_USHORT = 0x60"
definition PNE_UINT :: byte where [simp]: "PNE_UINT = 0x70"
definition PNE_SMALLUINT :: byte where [simp]: "PNE_SMALLUINT = 0x52"
definition PNE_UINT0 :: byte where [simp]: "PNE_UINT0 = 0x43"
definition PNE_ULONG :: byte where [simp]: "PNE_ULONG = 0x80"
definition PNE_SMALLULONG :: byte where [simp]: "PNE_SMALLULONG = 0x53"
definition PNE_ULONG0 :: byte where [simp]: "PNE_ULONG0 = 0x44"
definition PNE_BYTE :: byte where [simp]: "PNE_BYTE = 0x51"
definition PNE_SHORT :: byte where [simp]: "PNE_SHORT = 0x61"
definition PNE_INT :: byte where [simp]: "PNE_INT = 0x71"
definition PNE_SMALLINT :: byte where [simp]: "PNE_SMALLINT = 0x54"
definition PNE_LONG :: byte where [simp]: "PNE_LONG = 0x81"
definition PNE_SMALLLONG :: byte where [simp]: "PNE_SMALLLONG = 0x55"
definition PNE_FLOAT :: byte where [simp]: "PNE_FLOAT = 0x72"
definition PNE_DOUBLE :: byte where [simp]: "PNE_DOUBLE = 0x82"
definition PNE_DECIMAL32 :: byte where [simp]: "PNE_DECIMAL32 = 0x74"
definition PNE_DECIMAL64 :: byte where [simp]: "PNE_DECIMAL64 = 0x84"
definition PNE_DECIMAL128 :: byte where [simp]: "PNE_DECIMAL128 = 0x94"
definition PNE_UTF32 :: byte where [simp]: "PNE_UTF32 = 0x73"
definition PNE_MS64 :: byte where [simp]: "PNE_MS64 = 0x83"
definition PNE_UUID :: byte where [simp]: "PNE_UUID = 0x98"
definition PNE_VBIN8 :: byte where [simp]: "PNE_VBIN8 = 0xA0"
definition PNE_VBIN32 :: byte where [simp]: "PNE_VBIN32 = 0xB0"
definition PNE_STR8_UTF8 :: byte where [simp]: "PNE_STR8_UTF8 = 0xA1"
definition PNE_STR32_UTF8 :: byte where [simp]: "PNE_STR32_UTF8 = 0xB1"
definition PNE_SYM8 :: byte where [simp]: "PNE_SYM8 = 0xA3"
definition PNE_SYM32 :: byte where [simp]: "PNE_SYM32 = 0xB3"
definition PNE_LIST0 :: byte where [simp]: "PNE_LIST0 = 0x45"
definition PNE_LIST8 :: byte where [simp]: "PNE_LIST8 = 0xC0"
definition PNE_LIST32 :: byte where [simp]: "PNE_LIST32 = 0xD0"
definition PNE_MAP8 :: byte where [simp]: "PNE_MAP8 = 0xC1"
definition PNE_MAP32 :: byte where [simp]: "PNE_MAP32 = 0xD1"
definition PNE_ARRAY8 :: byte where [simp]: "PNE_ARRAY8 = 0xE0"
definition PNE_ARRAY32 :: byte where [simp]: "PNE_ARRAY32 = 0xF0"

datatype pn_atom =
    PN_NULL
  | PN_BOOL bool
  | PN_UBYTE byte
  | PN_BYTE byte
  | PN_USHORT u16
  | PN_SHORT u16
  | PN_UINT u32
  | PN_INT u32
  | PN_CHAR u32
  | PN_ULONG u64
  | PN_LONG u64
  | PN_TIMESTAMP u64
  | PN_FLOAT u32
  | PN_DOUBLE u64
  | PN_DECIMAL32 u32
  | PN_DECIMAL64 u64
  | PN_DECIMAL128 "byte list"
  | PN_UUID "byte list"
  | PN_BINARY pn_bytes
  | PN_STRING pn_bytes
  | PN_SYMBOL pn_bytes

end
