(* ===== verification/Consumers.thy ===== *)
theory Consumers
  imports Bytes_Util Encodings
begin

text \<open>
  The AMQP value reader of \<open>core/consumers.h\<close>. A consumer is the memory from \<open>output_start\<close> on (which
  may go on after the consumer's own \<open>size\<close> bytes), the size and the read position. A reader that
  returns false gives \<open>None\<close>; its out-parameter then keeps the default the code sets first.
  Functions that set several out-parameters, also when they fail, return all of them.
  Sums of a position and a 32-bit length do not wrap in \<open>size_t\<close>, since an object is smaller
  than \<open>2 ^ 63\<close> bytes.
\<close>

section \<open>State and primitive reads\<close>

record pni_consumer =
  cons_output :: "byte list"
  cons_size :: nat
  cons_position :: nat

type_synonym 'a reader = "pni_consumer \<Rightarrow> 'a option \<times> pni_consumer"

definition make_consumer_from_bytes :: "pn_bytes \<Rightarrow> pni_consumer" where
  "make_consumer_from_bytes bs =
     \<lparr>cons_output = bytes_data bs, cons_size = bytes_size bs, cons_position = 0\<rparr>"

text \<open>The failure exit of the reads, and the pointer into the memory that they return.\<close>

definition cons_fail :: "'a reader" where
  "cons_fail c = (None, c\<lparr>cons_position := cons_size c\<rparr>)"

definition cons_slice :: "pni_consumer \<Rightarrow> nat \<Rightarrow> nat \<Rightarrow> byte list" where
  "cons_slice c pos n = take n (drop pos (cons_output c))"

definition cons_advance :: "nat \<Rightarrow> pni_consumer \<Rightarrow> pni_consumer" where
  "cons_advance n c = c\<lparr>cons_position := cons_position c + n\<rparr>"

text \<open>\<open>if (!m(consumer, &x)) return false;\<close> followed by the rest of the function.\<close>

definition if_read :: "'a reader \<Rightarrow> ('a \<Rightarrow> 'b reader) \<Rightarrow> 'b reader" where
  "if_read m k c = (case m c of (None, c) \<Rightarrow> (None, c) | (Some x, c) \<Rightarrow> k x c)"

definition give :: "'a \<Rightarrow> 'a reader" where
  "give x c = (Some x, c)"

definition pni_consumer_readf8 :: "byte reader" where
  "pni_consumer_readf8 c =
     (if cons_position c + 1 > cons_size c then cons_fail c
      else (Some (cons_output c ! cons_position c), cons_advance 1 c))"

definition pni_consumer_readf16 :: "u16 reader" where
  "pni_consumer_readf16 c =
     (if cons_position c + 2 > cons_size c then cons_fail c
      else
        let a = ucast (cons_output c ! cons_position c);
            b = ucast (cons_output c ! (cons_position c + 1))
        in (Some (push_bit 8 a OR b), cons_advance 2 c))"

definition pni_consumer_readf32 :: "u32 reader" where
  "pni_consumer_readf32 c =
     (if cons_position c + 4 > cons_size c then cons_fail c
      else
        let a = ucast (cons_output c ! cons_position c);
            b = ucast (cons_output c ! (cons_position c + 1));
            d = ucast (cons_output c ! (cons_position c + 2));
            e = ucast (cons_output c ! (cons_position c + 3))
        in (Some (push_bit 24 a OR push_bit 16 b OR push_bit 8 d OR e), cons_advance 4 c))"

definition pni_consumer_readf64 :: "u64 reader" where
  "pni_consumer_readf64 =
     if_read pni_consumer_readf32 (\<lambda>a. if_read pni_consumer_readf32 (\<lambda>b.
       give (push_bit 32 (ucast a) OR ucast b)))"

definition pni_consumer_readf128 :: "byte list reader" where
  "pni_consumer_readf128 c =
     (if cons_position c + 16 > cons_size c then cons_fail c
      else (Some (cons_slice c (cons_position c) 16), cons_advance 16 c))"

text \<open>\<open>*bytes = {size, output_start + position}; position += size\<close>, unless too few bytes are left.\<close>

definition read_bytes :: "nat \<Rightarrow> pn_bytes reader" where
  "read_bytes n c =
     (if cons_position c + n > cons_size c then cons_fail c
      else (Some (Some (cons_slice c (cons_position c) n)), cons_advance n c))"

definition pni_consumer_readv8 :: "pn_bytes reader" where
  "pni_consumer_readv8 = if_read pni_consumer_readf8 (\<lambda>sz. read_bytes (unat sz))"

definition pni_consumer_readv32 :: "pn_bytes reader" where
  "pni_consumer_readv32 = if_read pni_consumer_readf32 (\<lambda>sz. read_bytes (unat sz))"

definition pni_consumer_read_value_not_described :: "byte \<Rightarrow> pn_bytes reader" where
  "pni_consumer_read_value_not_described type =
     (let subcategory = drop_bit 4 type
      in if subcategory = 0x4 then give None
      else if subcategory = 0x5 then read_bytes 1
      else if subcategory = 0x6 then read_bytes 2
      else if subcategory = 0x7 then read_bytes 4
      else if subcategory = 0x8 then read_bytes 8
      else if subcategory = 0x9 then read_bytes 16
      else if subcategory = 0xA \<or> subcategory = 0xC \<or> subcategory = 0xE then
        if_read pni_consumer_readf8 (\<lambda>sz. read_bytes (unat sz))
      else if subcategory = 0xB \<or> subcategory = 0xD \<or> subcategory = 0xF then
        if_read pni_consumer_readf32 (\<lambda>sz. read_bytes (unat sz))
      else cons_fail)"

definition pni_consumer_skip_value_not_described :: "byte \<Rightarrow> unit reader" where
  "pni_consumer_skip_value_not_described type =
     if_read (pni_consumer_read_value_not_described type) (\<lambda>_. give ())"

definition pni_consumer_skip_value :: "byte \<Rightarrow> unit reader" where
  "pni_consumer_skip_value type =
     (if type = PNE_DESCRIPTOR then
        if_read pni_consumer_readf8 (\<lambda>type.
        if_read (pni_consumer_skip_value_not_described type) (\<lambda>_.
        if_read pni_consumer_readf8 (\<lambda>type.
        pni_consumer_skip_value_not_described type)))
      else pni_consumer_skip_value_not_described type)"

text \<open>\<open>pni_consumer_skip_value(consumer, type); return false;\<close>\<close>

definition skip_and_fail :: "byte \<Rightarrow> 'a reader" where
  "skip_and_fail type c = (None, snd (pni_consumer_skip_value type c))"

definition pni_islist :: "pni_consumer \<Rightarrow> bool \<times> pni_consumer" where
  "pni_islist c =
     (case pni_consumer_readf8 c of
        (None, c) \<Rightarrow> (False, c)
      | (Some t, c) \<Rightarrow> (t = PNE_LIST0 \<or> t = PNE_LIST8 \<or> t = PNE_LIST32, c))"

section \<open>Whole values\<close>

definition consume_single_value_not_described :: "byte reader" where
  "consume_single_value_not_described =
     if_read pni_consumer_readf8 (\<lambda>t.
     if_read (pni_consumer_skip_value_not_described t) (\<lambda>_ c.
       if t = 0 then (None, c) else (Some t, c)))"

text \<open>The type is reported also when the value cannot be read.\<close>

definition consume_single_value :: "pni_consumer \<Rightarrow> (bool \<times> byte option) \<times> pni_consumer" where
  "consume_single_value c =
     (case pni_consumer_readf8 c of
        (None, c) \<Rightarrow> ((False, None), c)
      | (Some t, c) \<Rightarrow>
          if t = PNE_DESCRIPTOR then
            let (dq, c) = consume_single_value_not_described c;
                (vq, c) = consume_single_value_not_described c
            in ((dq \<noteq> None \<and> vq \<noteq> None, Some t), c)
          else
            let (q, c) = pni_consumer_skip_value_not_described t c
            in ((q \<noteq> None, Some t), c))"

definition consume_raw :: "pni_consumer \<Rightarrow> (bool \<times> pn_bytes) \<times> pni_consumer" where
  "consume_raw c =
     (let start = cons_position c;
          ((succeed, type), c) = consume_single_value c
      in if succeed \<and> type \<noteq> Some PNE_NULL
         then ((succeed, Some (cons_slice c start (cons_position c - start))), c)
         else ((succeed, None), c))"

definition consume_anything :: "pni_consumer \<Rightarrow> bool \<times> pni_consumer" where
  "consume_anything c = (let ((q, _), c) = consume_single_value c in (q, c))"

definition consume_ulong :: "u64 reader" where
  "consume_ulong =
     if_read pni_consumer_readf8 (\<lambda>type.
       if type = PNE_SMALLULONG then if_read pni_consumer_readf8 (\<lambda>ul. give (ucast ul))
       else if type = PNE_ULONG then pni_consumer_readf64
       else if type = PNE_ULONG0 then give 0
       else skip_and_fail type)"

definition consume_uint :: "u32 reader" where
  "consume_uint =
     if_read pni_consumer_readf8 (\<lambda>type.
       if type = PNE_SMALLUINT then if_read pni_consumer_readf8 (\<lambda>ui. give (ucast ui))
       else if type = PNE_UINT then pni_consumer_readf32
       else if type = PNE_UINT0 then give 0
       else skip_and_fail type)"

definition consume_ushort :: "u16 reader" where
  "consume_ushort =
     if_read pni_consumer_readf8 (\<lambda>type.
       if type = PNE_USHORT then pni_consumer_readf16 else skip_and_fail type)"

definition consume_ubyte :: "byte reader" where
  "consume_ubyte =
     if_read pni_consumer_readf8 (\<lambda>type.
       if type = PNE_UBYTE then pni_consumer_readf8 else skip_and_fail type)"

definition consume_bool :: "bool reader" where
  "consume_bool =
     if_read pni_consumer_readf8 (\<lambda>type.
       if type = PNE_BOOLEAN then if_read pni_consumer_readf8 (\<lambda>ub. give (ub \<noteq> 0))
       else if type = PNE_FALSE then give False
       else if type = PNE_TRUE then give True
       else skip_and_fail type)"

text \<open>Unlike the others, \<open>consume_timestamp\<close> does not skip a value of another type.\<close>

definition consume_timestamp :: "u64 reader" where
  "consume_timestamp =
     if_read pni_consumer_readf8 (\<lambda>type.
       if type = PNE_MS64 then pni_consumer_readf64 else (\<lambda>c. (None, c)))"

definition consume_atom :: "pn_atom reader" where
  "consume_atom =
     if_read pni_consumer_readf8 (\<lambda>type.
       if type = PNE_SMALLULONG then if_read pni_consumer_readf8 (\<lambda>ul. give (PN_ULONG (ucast ul)))
       else if type = PNE_ULONG then if_read pni_consumer_readf64 (\<lambda>ul. give (PN_ULONG ul))
       else if type = PNE_ULONG0 then give (PN_ULONG 0)
       else if type = PNE_SMALLUINT then if_read pni_consumer_readf8 (\<lambda>ui. give (PN_UINT (ucast ui)))
       else if type = PNE_UINT then if_read pni_consumer_readf32 (\<lambda>ui. give (PN_UINT ui))
       else if type = PNE_UINT0 then give (PN_UINT 0)
       else if type = PNE_USHORT then if_read pni_consumer_readf16 (\<lambda>us. give (PN_USHORT us))
       else if type = PNE_UBYTE then if_read pni_consumer_readf8 (\<lambda>ub. give (PN_UBYTE ub))
       else if type = PNE_BOOLEAN then if_read pni_consumer_readf8 (\<lambda>ub. give (PN_BOOL (ub \<noteq> 0)))
       else if type = PNE_FALSE then give (PN_BOOL False)
       else if type = PNE_TRUE then give (PN_BOOL True)
       else if type = PNE_MS64 then if_read pni_consumer_readf64 (\<lambda>ts. give (PN_TIMESTAMP ts))
       else if type = PNE_VBIN32 then if_read pni_consumer_readv32 (\<lambda>bs. give (PN_BINARY bs))
       else if type = PNE_VBIN8 then if_read pni_consumer_readv8 (\<lambda>bs. give (PN_BINARY bs))
       else if type = PNE_STR32_UTF8 then if_read pni_consumer_readv32 (\<lambda>bs. give (PN_STRING bs))
       else if type = PNE_STR8_UTF8 then if_read pni_consumer_readv8 (\<lambda>bs. give (PN_STRING bs))
       else if type = PNE_SYM32 then if_read pni_consumer_readv32 (\<lambda>bs. give (PN_SYMBOL bs))
       else if type = PNE_SYM8 then if_read pni_consumer_readv8 (\<lambda>bs. give (PN_SYMBOL bs))
       else if type = PNE_UUID then if_read pni_consumer_readf128 (\<lambda>u. give (PN_UUID u))
       else if type = PNE_NULL then give PN_NULL
       else skip_and_fail type)"

definition consume_string :: "pn_bytes reader" where
  "consume_string =
     if_read pni_consumer_readf8 (\<lambda>type.
       if type = PNE_STR32_UTF8 then pni_consumer_readv32
       else if type = PNE_STR8_UTF8 then pni_consumer_readv8
       else skip_and_fail type)"

definition consume_symbol :: "pn_bytes reader" where
  "consume_symbol =
     if_read pni_consumer_readf8 (\<lambda>type.
       if type = PNE_SYM32 then pni_consumer_readv32
       else if type = PNE_SYM8 then pni_consumer_readv8
       else skip_and_fail type)"

definition consume_binaryornull :: "pn_bytes reader" where
  "consume_binaryornull =
     if_read pni_consumer_readf8 (\<lambda>type.
       if type = PNE_NULL then give None
       else if type = PNE_VBIN32 then pni_consumer_readv32
       else if type = PNE_VBIN8 then pni_consumer_readv8
       else skip_and_fail type)"

definition consume_binarynonull :: "pn_bytes reader" where
  "consume_binarynonull =
     if_read pni_consumer_readf8 (\<lambda>type.
       if type = PNE_VBIN32 then pni_consumer_readv32
       else if type = PNE_VBIN8 then pni_consumer_readv8
       else skip_and_fail type)"

section \<open>Described values, lists and arrays\<close>

definition null_consumer :: pni_consumer where
  "null_consumer = \<lparr>cons_output = [], cons_size = 0, cons_position = 0\<rparr>"

text \<open>A consumer of the \<open>n\<close> bytes from position \<open>pos\<close> on.\<close>

definition sub_consumer :: "pni_consumer \<Rightarrow> nat \<Rightarrow> nat \<Rightarrow> pni_consumer" where
  "sub_consumer c pos n = \<lparr>cons_output = drop pos (cons_output c), cons_size = n, cons_position = 0\<rparr>"

definition consume_described_ulong_descriptor ::
  "pni_consumer \<Rightarrow> (bool \<times> pni_consumer \<times> u64) \<times> pni_consumer" where
  "consume_described_ulong_descriptor c =
     (case pni_consumer_readf8 c of
        (None, c) \<Rightarrow> ((False, null_consumer, 0), c)
      | (Some type, c) \<Rightarrow>
          if type = PNE_DESCRIPTOR then
            let (dq, c) = consume_ulong c;
                descriptor = (case dq of None \<Rightarrow> 0 | Some d \<Rightarrow> d);
                sposition = cons_position c;
                ((vq, _), c) = consume_single_value c
            in if dq \<noteq> None \<and> vq then
                 let scsize = (if cons_position c > sposition then cons_position c - sposition else 0)
                 in ((True, sub_consumer c sposition scsize, descriptor), c)
               else ((False, null_consumer, descriptor), c)
          else ((False, null_consumer, 0), snd (pni_consumer_skip_value_not_described type c)))"

definition consume_described :: "pni_consumer \<Rightarrow> (bool \<times> pni_consumer) \<times> pni_consumer" where
  "consume_described c =
     (case pni_consumer_readf8 c of
        (None, c) \<Rightarrow> ((False, null_consumer), c)
      | (Some type, c) \<Rightarrow>
          if type = PNE_DESCRIPTOR then
            let (dq, c) = consume_single_value_not_described c;
                sposition = cons_position c;
                ((vq, _), c) = consume_single_value c
            in if dq \<noteq> None \<and> vq then
                 let scsize = (if cons_position c > sposition then cons_position c - sposition else 0)
                 in ((True, sub_consumer c sposition scsize), c)
               else ((False, null_consumer), c)
          else ((False, null_consumer), snd (pni_consumer_skip_value_not_described type c)))"

text \<open>The part of lists and arrays after the size \<open>s\<close>: the sub-consumer is clamped to the bytes left.\<close>

definition clamp_sub :: "nat \<Rightarrow> pni_consumer \<Rightarrow> pni_consumer \<times> pni_consumer" where
  "clamp_sub s c =
     (let scsize = (if s < cons_size c - cons_position c then s else cons_size c - cons_position c)
      in (sub_consumer c (cons_position c) scsize, cons_advance scsize c))"

definition consume_list :: "pni_consumer \<Rightarrow> (bool \<times> pni_consumer \<times> u32) \<times> pni_consumer" where
  "consume_list c =
     (case pni_consumer_readf8 c of
        (None, c) \<Rightarrow> ((False, null_consumer, 0), c)
      | (Some type, c) \<Rightarrow>
          if type = PNE_LIST32 then
            (case pni_consumer_readf32 c of
               (None, c) \<Rightarrow> ((False, null_consumer, 0), c)
             | (Some s, c) \<Rightarrow>
                 let (sub, c) = clamp_sub (unat s) c
                 in case pni_consumer_readf32 sub of
                      (None, sub) \<Rightarrow> ((False, sub, 0), c)
                    | (Some n, sub) \<Rightarrow> ((True, sub, n), c))
          else if type = PNE_LIST8 then
            (case pni_consumer_readf8 c of
               (None, c) \<Rightarrow> ((False, null_consumer, 0), c)
             | (Some s, c) \<Rightarrow>
                 let (sub, c) = clamp_sub (unat s) c
                 in case pni_consumer_readf8 sub of
                      (None, sub) \<Rightarrow> ((False, sub, 0), c)
                    | (Some n, sub) \<Rightarrow> ((True, sub, ucast n), c))
          else if type = PNE_LIST0 then ((True, null_consumer, 0), c)
          else ((False, null_consumer, 0), snd (pni_consumer_skip_value type c)))"

definition consume_end_list :: "pni_consumer \<Rightarrow> bool \<times> pni_consumer" where
  "consume_end_list c = (True, c)"

definition array_element_type ::
  "pni_consumer \<Rightarrow> u32 \<Rightarrow> pni_consumer \<Rightarrow> (bool \<times> pni_consumer \<times> u32 \<times> byte) \<times> pni_consumer" where
  "array_element_type sub n c =
     (case pni_consumer_readf8 sub of
        (None, sub) \<Rightarrow> ((False, sub, n, 0), c)
      | (Some t, sub) \<Rightarrow> ((True, sub, n, t), c))"

definition consume_array :: "pni_consumer \<Rightarrow> (bool \<times> pni_consumer \<times> u32 \<times> byte) \<times> pni_consumer" where
  "consume_array c =
     (case pni_consumer_readf8 c of
        (None, c) \<Rightarrow> ((False, null_consumer, 0, 0), c)
      | (Some type, c) \<Rightarrow>
          if type = PNE_ARRAY32 then
            (case pni_consumer_readf32 c of
               (None, c) \<Rightarrow> ((False, null_consumer, 0, 0), c)
             | (Some s, c) \<Rightarrow>
                 let (sub, c) = clamp_sub (unat s) c
                 in case pni_consumer_readf32 sub of
                      (None, sub) \<Rightarrow> ((False, sub, 0, 0), c)
                    | (Some n, sub) \<Rightarrow> array_element_type sub n c)
          else if type = PNE_ARRAY8 then
            (case pni_consumer_readf8 c of
               (None, c) \<Rightarrow> ((False, null_consumer, 0, 0), c)
             | (Some s, c) \<Rightarrow>
                 let (sub, c) = clamp_sub (unat s) c
                 in case pni_consumer_readf8 sub of
                      (None, sub) \<Rightarrow> ((False, sub, 0, 0), c)
                    | (Some n, sub) \<Rightarrow> array_element_type sub (ucast n) c)
          else ((False, null_consumer, 0, 0), snd (pni_consumer_skip_value type c)))"

definition consume_described_anything :: "pni_consumer \<Rightarrow> bool \<times> pni_consumer" where
  "consume_described_anything c =
     (let ((tq, type), c) = consume_single_value c in (tq \<and> type = Some PNE_DESCRIPTOR, c))"

definition consume_described_type_anything :: "pni_consumer \<Rightarrow> (bool \<times> u64) \<times> pni_consumer" where
  "consume_described_type_anything c =
     (let ((q, _, type), c) = consume_described_ulong_descriptor c in ((q, type), c))"

definition consume_described_maybe_type_anything :: "pni_consumer \<Rightarrow> (bool \<times> bool \<times> u64) \<times> pni_consumer" where
  "consume_described_maybe_type_anything c =
     (let ((qtype, _, type), c) = consume_described_ulong_descriptor c in ((qtype, qtype, type), c))"

text \<open>When the descriptor cannot be read, \<open>raw\<close> is left as it was.\<close>

definition consume_described_maybe_type_raw ::
  "pn_bytes \<Rightarrow> pni_consumer \<Rightarrow> (bool \<times> bool \<times> u64 \<times> pn_bytes) \<times> pni_consumer" where
  "consume_described_maybe_type_raw raw c =
     (let ((qtype, sub, type), c) = consume_described_ulong_descriptor c
      in if qtype then
           let ((q, raw), _) = consume_raw sub in ((q, qtype, type, raw), c)
         else ((False, qtype, type, raw), c))"

definition consume_described_maybe_type_maybe_anything ::
  "pni_consumer \<Rightarrow> (bool \<times> bool \<times> u64 \<times> bool) \<times> pni_consumer" where
  "consume_described_maybe_type_maybe_anything c =
     (let ((qtype, sub, type), c) = consume_described_ulong_descriptor c;
          (qanything, _) = consume_anything sub
      in ((qtype \<and> qanything, qtype, type, qanything), c))"

definition consume_described_raw :: "pn_bytes \<Rightarrow> pni_consumer \<Rightarrow> (bool \<times> pn_bytes) \<times> pni_consumer" where
  "consume_described_raw raw c =
     (let ((q, sub), c) = consume_described c
      in if q then let (r, _) = consume_raw sub in (r, c) else ((False, raw), c))"

section \<open>Well-formed consumers and the bytes left\<close>

definition cons_wf :: "pni_consumer \<Rightarrow> bool" where
  "cons_wf c \<longleftrightarrow> cons_position c \<le> cons_size c \<and> cons_size c \<le> length (cons_output c)"

definition rest :: "pni_consumer \<Rightarrow> byte list" where
  "rest c = take (cons_size c - cons_position c) (drop (cons_position c) (cons_output c))"

definition advances :: "pni_consumer \<Rightarrow> pni_consumer \<Rightarrow> bool" where
  "advances c c' \<longleftrightarrow> cons_output c' = cons_output c \<and> cons_size c' = cons_size c \<and>
     cons_position c \<le> cons_position c' \<and> cons_position c' \<le> cons_size c"

lemma advances_refl: "cons_wf c \<Longrightarrow> advances c c"
  by (simp add: advances_def cons_wf_def)

lemma advances_trans: "advances a b \<Longrightarrow> advances b c \<Longrightarrow> advances a c"
  by (auto simp: advances_def)

lemma advances_wf: "cons_wf c \<Longrightarrow> advances c c' \<Longrightarrow> cons_wf c'"
  by (auto simp: advances_def cons_wf_def)

lemma length_rest: "cons_wf c \<Longrightarrow> length (rest c) = cons_size c - cons_position c"
  by (auto simp: rest_def cons_wf_def)

lemma short_iff: "cons_wf c \<Longrightarrow> cons_position c + n > cons_size c \<longleftrightarrow> length (rest c) < n"
  by (auto simp: length_rest cons_wf_def)

lemma nth_rest: "cons_wf c \<Longrightarrow> i < length (rest c) \<Longrightarrow> cons_output c ! (cons_position c + i) = rest c ! i"
  by (simp add: rest_def cons_wf_def)

lemma nth_rest_0: "cons_wf c \<Longrightarrow> 0 < length (rest c) \<Longrightarrow> cons_output c ! cons_position c = rest c ! 0"
  using nth_rest [of c 0] by simp

lemma slice_rest: "cons_wf c \<Longrightarrow> n \<le> length (rest c) \<Longrightarrow> cons_slice c (cons_position c) n = take n (rest c)"
  using length_rest [of c] by (simp add: cons_slice_def rest_def)

lemma wf_advance: "cons_wf c \<Longrightarrow> n \<le> length (rest c) \<Longrightarrow> cons_wf (cons_advance n c)"
  unfolding cons_wf_def cons_advance_def by (auto simp: length_rest cons_wf_def)

lemma rest_advance: "rest (cons_advance n c) = drop n (rest c)"
  by (simp add: rest_def cons_advance_def drop_take add.commute)

lemma advance_0 [simp]: "cons_advance 0 c = c"
  by (simp add: cons_advance_def)

lemma advance_add [simp]: "cons_advance n (cons_advance m c) = cons_advance (m + n) c"
  by (simp add: cons_advance_def)

lemma advances_advance: "cons_wf c \<Longrightarrow> n \<le> length (rest c) \<Longrightarrow> advances c (cons_advance n c)"
  using wf_advance [of c n] by (simp add: advances_def cons_wf_def cons_advance_def)

lemma cons_fail_props:
  "cons_wf c \<Longrightarrow> advances c (snd (cons_fail c))" "rest (snd (cons_fail c)) = []" "fst (cons_fail c) = None"
  by (simp_all add: cons_fail_def advances_def cons_wf_def rest_def)

text \<open>The primitive reads in terms of the bytes left.\<close>

lemma join4:
  "push_bit 24 (ucast a) OR push_bit 16 (ucast b) OR push_bit 8 (ucast d) OR ucast e =
   (push_bit 16 (ucast (push_bit 8 (ucast a) OR ucast b :: u16)) OR ucast (push_bit 8 (ucast d) OR ucast e :: u16) :: u32)"
  for a b d e :: byte
proof (rule bit_word_eqI)
  fix n assume n: "n < LENGTH(32)"
  have hi: "\<not> bit x m" if "8 \<le> m" for x :: byte and m
    using bit_imp_le_length [of x m] that by auto
  show "bit (push_bit 24 (ucast a) OR push_bit 16 (ucast b) OR push_bit 8 (ucast d) OR ucast e :: u32) n =
      bit (push_bit 16 (ucast (push_bit 8 (ucast a) OR ucast b :: u16)) OR ucast (push_bit 8 (ucast d) OR ucast e :: u16) :: u32) n"
    using n by (auto simp: bit_simps hi)
qed

lemma nth_rests:
  assumes "cons_wf c" "n \<le> length (rest c)"
  shows "1 \<le> n \<Longrightarrow> cons_output c ! cons_position c = rest c ! 0"
    "2 \<le> n \<Longrightarrow> cons_output c ! (cons_position c + 1) = rest c ! 1"
    "3 \<le> n \<Longrightarrow> cons_output c ! (cons_position c + 2) = rest c ! 2"
    "4 \<le> n \<Longrightarrow> cons_output c ! (cons_position c + 3) = rest c ! 3"
proof -
  have pos: "1 \<le> n \<Longrightarrow> 0 < length (rest c)" using assms(2) by linarith
  show "1 \<le> n \<Longrightarrow> cons_output c ! cons_position c = rest c ! 0"
    by (rule nth_rest_0 [OF assms(1) pos])
qed (rule nth_rest [OF assms(1)], use assms(2) in linarith)+

lemma readf8_rest:
  "cons_wf c \<Longrightarrow> pni_consumer_readf8 c =
     (if length (rest c) < 1 then cons_fail c else (Some (rest c ! 0), cons_advance 1 c))"
  using short_iff [of c 1] nth_rests(1) [of c 1] by (cases "length (rest c) < 1") (simp_all add: pni_consumer_readf8_def)

lemma readf16_rest:
  "cons_wf c \<Longrightarrow> pni_consumer_readf16 c =
     (if length (rest c) < 2 then cons_fail c else (Some (pni_read16 (rest c)), cons_advance 2 c))"
  using short_iff [of c 2] nth_rests(1,2) [of c 2]
  by (cases "length (rest c) < 2") (simp_all add: pni_consumer_readf16_def pni_read16_def Let_def)

lemma readf32_rest:
  assumes "cons_wf c"
  shows "pni_consumer_readf32 c =
     (if length (rest c) < 4 then cons_fail c else (Some (pni_read32 (rest c)), cons_advance 4 c))"
proof (cases "length (rest c) < 4")
  case True
  then show ?thesis using short_iff [OF assms, of 4] by (simp add: pni_consumer_readf32_def)
next
  case False
  then have len: "4 \<le> length (rest c)" by simp
  note nth = nth_rests [OF assms len, simplified]
  have "push_bit 24 (ucast (rest c ! 0)) OR push_bit 16 (ucast (rest c ! 1)) OR push_bit 8 (ucast (rest c ! 2)) OR
      ucast (rest c ! 3) = pni_read32 (rest c)"
    using len unfolding join4 pni_read32_def pni_read16_def by (simp add: numeral_3_eq_3 numeral_2_eq_2)
  with False short_iff [OF assms, of 4] nth show ?thesis
    by (simp add: pni_consumer_readf32_def Let_def)
qed

lemma readf128_rest:
  "cons_wf c \<Longrightarrow> pni_consumer_readf128 c =
     (if length (rest c) < 16 then cons_fail c else (Some (take 16 (rest c)), cons_advance 16 c))"
  using short_iff [of c 16] slice_rest [of c 16] by (auto simp: pni_consumer_readf128_def)

lemma read_bytes_rest:
  "cons_wf c \<Longrightarrow> read_bytes n c =
     (if length (rest c) < n then cons_fail c else (Some (Some (take n (rest c))), cons_advance n c))"
  using short_iff [of c n] slice_rest [of c n] by (auto simp: read_bytes_def)

lemmas read_rest = readf8_rest readf16_rest readf32_rest readf128_rest read_bytes_rest

section \<open>Readers stay in bounds and see only the bytes left\<close>

text \<open>
  Two consumers with the same bytes left cannot be told apart by a reader: it returns the same
  result on both (up to a relation \<open>R\<close>, since results can hold consumers) and leaves again consumers
  with the same bytes left. Both stay in bounds and never move back.
\<close>

definition same_rest :: "pni_consumer \<Rightarrow> pni_consumer \<Rightarrow> bool" where
  "same_rest c d \<longleftrightarrow> cons_wf c \<and> cons_wf d \<and> rest c = rest d"

definition op_rel :: "('r \<Rightarrow> 'r \<Rightarrow> bool) \<Rightarrow> (pni_consumer \<Rightarrow> 'r \<times> pni_consumer) \<Rightarrow> (pni_consumer \<Rightarrow> 'r \<times> pni_consumer) \<Rightarrow> bool" where
  "op_rel R f g \<longleftrightarrow> (\<forall>c d. same_rest c d \<longrightarrow>
     advances c (snd (f c)) \<and> advances d (snd (g d)) \<and> R (fst (f c)) (fst (g d)) \<and> same_rest (snd (f c)) (snd (g d)))"

abbreviation op_ok :: "(pni_consumer \<Rightarrow> 'r \<times> pni_consumer) \<Rightarrow> bool" where
  "op_ok f \<equiv> op_rel (=) f f"

named_theorems op_intros

lemma op_relI:
  assumes "\<And>c d. same_rest c d \<Longrightarrow> advances c (snd (f c)) \<and> advances d (snd (g d)) \<and> R (fst (f c)) (fst (g d)) \<and>
    rest (snd (f c)) = rest (snd (g d))"
  shows "op_rel R f g"
  using assms advances_wf unfolding op_rel_def same_rest_def by metis

lemma op_relD:
  assumes "op_rel R f g" "same_rest c d" "f c = (r, c')" "g d = (s, d')"
  shows "R r s" "same_rest c' d'" "advances c c'" "advances d d'"
  using assms unfolding op_rel_def by fastforce+

lemma op_bind:
  assumes f: "op_rel R f g" and h: "\<And>r s. R r s \<Longrightarrow> op_rel S (h r) (k s)"
  shows "op_rel S (\<lambda>c. case f c of (r, c) \<Rightarrow> h r c) (\<lambda>c. case g c of (r, c) \<Rightarrow> k r c)"
proof (rule op_relI)
  fix c d assume cd: "same_rest c d"
  obtain r c1 s d1 where run: "f c = (r, c1)" "g d = (s, d1)" by (metis surj_pair)
  note 1 = op_relD [OF f cd run]
  obtain r' c2 s' d2 where run': "h r c1 = (r', c2)" "k s d1 = (s', d2)" by (metis surj_pair)
  note 2 = op_relD [OF h [OF 1(1)] 1(2) run']
  show "advances c (snd (case f c of (r, c) \<Rightarrow> h r c)) \<and> advances d (snd (case g d of (r, c) \<Rightarrow> k r c)) \<and>
      S (fst (case f c of (r, c) \<Rightarrow> h r c)) (fst (case g d of (r, c) \<Rightarrow> k r c)) \<and>
      rest (snd (case f c of (r, c) \<Rightarrow> h r c)) = rest (snd (case g d of (r, c) \<Rightarrow> k r c))"
    using run run' 1 2 advances_trans unfolding same_rest_def by auto
qed

lemma op_return [op_intros]: "R r s \<Longrightarrow> op_rel R (\<lambda>c. (r, c)) (\<lambda>c. (s, c))"
  by (rule op_relI) (auto simp: same_rest_def advances_refl)

lemma op_give [op_intros]: "op_ok (give x)"
  unfolding give_def by (rule op_return) simp

lemma op_cons_fail [op_intros]: "op_ok cons_fail"
  by (rule op_relI) (auto simp: same_rest_def cons_fail_props)

lemma op_if_read [op_intros]:
  assumes "op_ok m" "\<And>x. op_ok (k x)"
  shows "op_ok (if_read m k)"
proof -
  have "if_read m k = (\<lambda>c. case m c of (r, c) \<Rightarrow> (case r of None \<Rightarrow> (\<lambda>c. (None, c)) | Some x \<Rightarrow> k x) c)"
    by (auto simp: if_read_def split: prod.splits option.splits)
  moreover have "op_ok (case r of None \<Rightarrow> (\<lambda>c. (None, c)) | Some x \<Rightarrow> k x)" for r
    using assms(2) op_return [of "(=)" None None] by (cases r) auto
  ultimately show ?thesis using op_bind [OF assms(1), of "(=)"] by auto
qed

lemma op_If [op_intros]: "(P \<Longrightarrow> op_rel R f g) \<Longrightarrow> (\<not> P \<Longrightarrow> op_rel R f' g') \<Longrightarrow>
    op_rel R (if P then f else f') (if P then g else g')"
  by simp

lemma op_discard:
  assumes "op_rel R f g" "S r s"
  shows "op_rel S (\<lambda>c. (r, snd (f c))) (\<lambda>c. (s, snd (g c)))"
  using op_bind [OF assms(1), of S "\<lambda>_ c. (r, c)" "\<lambda>_ c. (s, c)"] op_return [of S r s] assms(2)
  by (simp add: case_prod_unfold)

lemma op_prim:
  assumes "\<And>c. cons_wf c \<Longrightarrow> f c = (if length (rest c) < n then cons_fail c else (Some (F (rest c)), cons_advance n c))"
  shows "op_ok f"
proof (rule op_relI)
  fix c d assume cd: "same_rest c d"
  show "advances c (snd (f c)) \<and> advances d (snd (f d)) \<and> fst (f c) = fst (f d) \<and> rest (snd (f c)) = rest (snd (f d))"
  proof (cases "length (rest c) < n")
    case True
    then show ?thesis using cd assms by (simp add: same_rest_def cons_fail_props)
  next
    case False
    then show ?thesis using cd assms advances_advance [of c n] advances_advance [of d n]
      by (simp add: same_rest_def rest_advance)
  qed
qed

lemma op_prims [op_intros]:
  "op_ok pni_consumer_readf8" "op_ok pni_consumer_readf16" "op_ok pni_consumer_readf32"
  "op_ok pni_consumer_readf128" "op_ok (read_bytes n)"
  by (rule op_prim, erule read_rest)+

lemma op_readf64 [op_intros]: "op_ok pni_consumer_readf64"
  unfolding pni_consumer_readf64_def by (intro op_intros)

lemma op_readv [op_intros]: "op_ok pni_consumer_readv8" "op_ok pni_consumer_readv32"
  unfolding pni_consumer_readv8_def pni_consumer_readv32_def by (intro op_intros)+

lemma op_read_value [op_intros]: "op_ok (pni_consumer_read_value_not_described type)"
  unfolding pni_consumer_read_value_not_described_def Let_def by (intro op_intros)

lemma op_skip_not_described [op_intros]: "op_ok (pni_consumer_skip_value_not_described type)"
  unfolding pni_consumer_skip_value_not_described_def by (intro op_intros)

lemma op_skip_value [op_intros]: "op_ok (pni_consumer_skip_value type)"
  unfolding pni_consumer_skip_value_def by (intro op_intros)

lemma skip_and_fail_fun: "skip_and_fail type = (\<lambda>c. (None, snd (pni_consumer_skip_value type c)))"
  by (rule ext) (simp add: skip_and_fail_def)

lemma op_skip_and_fail [op_intros]: "op_ok (skip_and_fail type)"
  unfolding skip_and_fail_fun by (rule op_discard [OF op_skip_value]) simp

lemma op_scalars [op_intros]:
  "op_ok consume_ulong" "op_ok consume_uint" "op_ok consume_ushort" "op_ok consume_ubyte" "op_ok consume_bool"
  "op_ok consume_timestamp" "op_ok consume_atom" "op_ok consume_string" "op_ok consume_symbol"
  "op_ok consume_binaryornull" "op_ok consume_binarynonull"
  unfolding consume_ulong_def consume_uint_def consume_ushort_def consume_ubyte_def consume_bool_def
    consume_timestamp_def consume_atom_def consume_string_def consume_symbol_def consume_binaryornull_def
    consume_binarynonull_def
  by (intro op_intros refl)+

text \<open>Case analysis on the result of a read, as in the functions with several results.\<close>

lemma op_case_read:
  assumes "op_ok m" "op_rel R n n'" "\<And>x. op_rel R (k x) (k' x)"
  shows "op_rel R (\<lambda>c. case m c of (None, c) \<Rightarrow> n c | (Some x, c) \<Rightarrow> k x c)
    (\<lambda>c. case m c of (None, c) \<Rightarrow> n' c | (Some x, c) \<Rightarrow> k' x c)"
proof (rule op_bind [OF assms(1)])
  fix r s :: "'a option" assume "r = s"
  then show "op_rel R (\<lambda>c. case r of None \<Rightarrow> n c | Some x \<Rightarrow> k x c) (\<lambda>c. case s of None \<Rightarrow> n' c | Some x \<Rightarrow> k' x c)"
    using assms(2,3) by (cases s) auto
qed

lemma op_If_app: "(P \<Longrightarrow> op_rel R f g) \<Longrightarrow> (\<not> P \<Longrightarrow> op_rel R f' g') \<Longrightarrow>
    op_rel R (\<lambda>c. if P then f c else f' c) (\<lambda>c. if P then g c else g' c)"
  by (cases P) simp_all

lemma op_islist: "op_ok pni_islist"
  unfolding pni_islist_def [abs_def] by (intro op_case_read op_intros refl)

lemma op_single_not_described [op_intros]: "op_ok consume_single_value_not_described"
  unfolding consume_single_value_not_described_def by (intro op_intros op_If_app refl)

lemma op_single_value [op_intros]: "op_ok consume_single_value"
proof -
  have "op_ok (\<lambda>c. let (dq, c) = consume_single_value_not_described c;
      (vq, c) = consume_single_value_not_described c in ((dq \<noteq> None \<and> vq \<noteq> None, Some t), c))" for t :: byte
    unfolding Let_def
    by (rule op_bind [OF op_single_not_described], rule op_bind [OF op_single_not_described], rule op_return) simp
  moreover have "op_ok (\<lambda>c. let (q, c) = pni_consumer_skip_value_not_described t c in ((q \<noteq> None, Some t), c))" for t
    unfolding Let_def by (rule op_bind [OF op_skip_not_described], rule op_return) simp
  ultimately show ?thesis
    unfolding consume_single_value_def [abs_def] by (intro op_case_read op_If_app op_prims(1) op_return refl)
qed

text \<open>What lies between two positions of a consumer, in terms of the bytes left.\<close>

lemma slice_between:
  assumes "cons_wf c" "advances c c'"
  shows "cons_slice c' (cons_position c) (cons_position c' - cons_position c) =
    take (length (rest c) - length (rest c')) (rest c)"
proof -
  have adv: "cons_output c' = cons_output c" "cons_size c' = cons_size c" "cons_position c \<le> cons_position c'"
    "cons_position c' \<le> cons_size c" using assms(2) by (simp_all add: advances_def)
  have n: "length (rest c) - length (rest c') = cons_position c' - cons_position c"
    using adv by (simp add: length_rest [OF assms(1)] length_rest [OF advances_wf [OF assms]])
  have "min (cons_position c' - cons_position c) (cons_size c - cons_position c) = cons_position c' - cons_position c"
    using adv by simp
  then show ?thesis unfolding n unfolding cons_slice_def rest_def adv(1) take_take by (simp only:)
qed

definition between :: "pni_consumer \<Rightarrow> pni_consumer \<Rightarrow> pni_consumer" where
  "between c c' = sub_consumer c' (cons_position c)
     (if cons_position c' > cons_position c then cons_position c' - cons_position c else 0)"

lemma between_rest:
  assumes "cons_wf c" "advances c c'"
  shows "cons_wf (between c c')" "rest (between c c') = take (length (rest c) - length (rest c')) (rest c)"
proof -
  show "cons_wf (between c c')"
    using assms by (auto simp: between_def sub_consumer_def cons_wf_def advances_def)
  have "rest (between c c') = cons_slice c' (cons_position c) (cons_position c' - cons_position c)"
    by (simp add: between_def sub_consumer_def rest_def cons_slice_def)
  with slice_between [OF assms] show "rest (between c c') = take (length (rest c) - length (rest c')) (rest c)"
    by simp
qed

lemma same_rest_between:
  assumes "same_rest c d" "advances c c'" "advances d d'" "same_rest c' d'"
  shows "same_rest (between c c') (between d d')"
  using assms between_rest [of c c'] between_rest [of d d'] unfolding same_rest_def by simp

lemma op_raw [op_intros]: "op_ok consume_raw"
proof (rule op_relI)
  fix c d assume cd: "same_rest c d"
  obtain r c' s d' where run: "consume_single_value c = (r, c')" "consume_single_value d = (s, d')"
    by (metis surj_pair)
  note 1 = op_relD [OF op_single_value cd run]
  have "cons_slice c' (cons_position c) (cons_position c' - cons_position c) =
      cons_slice d' (cons_position d) (cons_position d' - cons_position d)"
    using slice_between [of c c'] slice_between [of d d'] cd 1 by (simp add: same_rest_def)
  then show "advances c (snd (consume_raw c)) \<and> advances d (snd (consume_raw d)) \<and>
      fst (consume_raw c) = fst (consume_raw d) \<and> rest (snd (consume_raw c)) = rest (snd (consume_raw d))"
    using 1 run by (auto simp: consume_raw_def Let_def same_rest_def split: prod.splits)
qed

lemma op_anything: "op_ok consume_anything" "op_ok consume_described_anything"
proof -
  have "op_ok (\<lambda>c. case consume_single_value c of (r, c) \<Rightarrow> (f r, c))" for f :: "bool \<times> byte option \<Rightarrow> bool"
    by (rule op_bind [OF op_single_value], rule op_return) simp
  from this [of fst] this [of "\<lambda>(tq, t). tq \<and> t = Some PNE_DESCRIPTOR"]
  show "op_ok consume_anything" "op_ok consume_described_anything"
    unfolding consume_anything_def [abs_def] consume_described_anything_def [abs_def] Let_def case_prod_unfold by simp_all
qed

lemma null_same [intro]: "same_rest null_consumer null_consumer"
  by (simp add: same_rest_def cons_wf_def null_consumer_def)

abbreviation sub_rel :: "bool \<times> pni_consumer \<times> 'a \<Rightarrow> bool \<times> pni_consumer \<times> 'a \<Rightarrow> bool" where
  "sub_rel \<equiv> rel_prod (=) (rel_prod same_rest (=))"

text \<open>A reader followed by \<open>consume_single_value\<close>, with a sub-consumer over the second value.\<close>

lemma op_then_between:
  fixes m :: "pni_consumer \<Rightarrow> 'r \<times> pni_consumer"
  assumes m: "op_ok m"
    and S: "\<And>r v b b'. same_rest b b' \<Longrightarrow> S (F r v b) (F r v b')"
  shows "op_rel S (\<lambda>c. case m c of (r, c1) \<Rightarrow> case consume_single_value c1 of (v, c2) \<Rightarrow> (F r v (between c1 c2), c2))
    (\<lambda>c. case m c of (r, c1) \<Rightarrow> case consume_single_value c1 of (v, c2) \<Rightarrow> (F r v (between c1 c2), c2))"
proof (rule op_bind [OF m], rule op_relI)
  fix r s :: 'r and c d assume rs: "r = s" and cd: "same_rest c d"
  obtain v c' w d' where run: "consume_single_value c = (v, c')" "consume_single_value d = (w, d')"
    by (metis surj_pair)
  note 1 = op_relD [OF op_single_value cd run]
  have "S (F r v (between c c')) (F s w (between d d'))"
    using S [OF same_rest_between [OF cd 1(3,4,2)]] rs 1(1) by simp
  then show "advances c (snd (case consume_single_value c of (v, c2) \<Rightarrow> (F r v (between c c2), c2))) \<and>
      advances d (snd (case consume_single_value d of (v, c2) \<Rightarrow> (F s v (between d c2), c2))) \<and>
      S (fst (case consume_single_value c of (v, c2) \<Rightarrow> (F r v (between c c2), c2)))
        (fst (case consume_single_value d of (v, c2) \<Rightarrow> (F s v (between d c2), c2))) \<and>
      rest (snd (case consume_single_value c of (v, c2) \<Rightarrow> (F r v (between c c2), c2))) =
      rest (snd (case consume_single_value d of (v, c2) \<Rightarrow> (F s v (between d c2), c2)))"
    using run 1 by (simp add: same_rest_def)
qed

lemma op_described_ulong: "op_rel sub_rel consume_described_ulong_descriptor consume_described_ulong_descriptor"
proof -
  let ?F = "\<lambda>dq v b. let d = (case dq of None \<Rightarrow> 0 | Some d \<Rightarrow> d)
    in if dq \<noteq> None \<and> fst v then (True, b, d) else (False, null_consumer, d :: u64)"
  have "op_rel sub_rel
      (\<lambda>c. case consume_ulong c of (r, c1) \<Rightarrow> case consume_single_value c1 of (v, c2) \<Rightarrow> (?F r v (between c1 c2), c2))
      (\<lambda>c. case consume_ulong c of (r, c1) \<Rightarrow> case consume_single_value c1 of (v, c2) \<Rightarrow> (?F r v (between c1 c2), c2))"
    by (rule op_then_between [OF op_scalars(1)]) (auto simp: Let_def)
  moreover have "(\<lambda>c. case consume_ulong c of (r, c1) \<Rightarrow> case consume_single_value c1 of (v, c2) \<Rightarrow> (?F r v (between c1 c2), c2)) =
      (\<lambda>c. let (dq, c) = consume_ulong c;
                descriptor = (case dq of None \<Rightarrow> 0 | Some d \<Rightarrow> d);
                sposition = cons_position c;
                ((vq, _), c) = consume_single_value c
            in if dq \<noteq> None \<and> vq then
                 let scsize = (if cons_position c > sposition then cons_position c - sposition else 0)
                 in ((True, sub_consumer c sposition scsize, descriptor), c)
               else ((False, null_consumer, descriptor), c))"
    by (rule ext) (simp add: between_def Let_def split: prod.splits)
  moreover have "op_rel sub_rel
      (\<lambda>c. ((False, null_consumer, 0), snd (pni_consumer_skip_value_not_described t c)))
      (\<lambda>c. ((False, null_consumer, 0), snd (pni_consumer_skip_value_not_described t c)))" for t
    by (rule op_discard [OF op_skip_not_described]) auto
  ultimately show ?thesis
    unfolding consume_described_ulong_descriptor_def [abs_def]
    by (intro op_case_read op_If_app op_prims(1) op_return) (auto intro: null_same)
qed

lemma op_described: "op_rel (rel_prod (=) same_rest) consume_described consume_described"
proof -
  let ?F = "\<lambda>dq v b. if dq \<noteq> None \<and> fst v then (True, b) else (False, null_consumer)"
  have "op_rel (rel_prod (=) same_rest)
      (\<lambda>c. case consume_single_value_not_described c of (r, c1) \<Rightarrow>
         case consume_single_value c1 of (v, c2) \<Rightarrow> (?F r v (between c1 c2), c2))
      (\<lambda>c. case consume_single_value_not_described c of (r, c1) \<Rightarrow>
         case consume_single_value c1 of (v, c2) \<Rightarrow> (?F r v (between c1 c2), c2))"
    by (rule op_then_between [OF op_single_not_described]) auto
  moreover have "(\<lambda>c. case consume_single_value_not_described c of (r, c1) \<Rightarrow>
         case consume_single_value c1 of (v, c2) \<Rightarrow> (?F r v (between c1 c2), c2)) =
      (\<lambda>c. let (dq, c) = consume_single_value_not_described c;
                sposition = cons_position c;
                ((vq, _), c) = consume_single_value c
            in if dq \<noteq> None \<and> vq then
                 let scsize = (if cons_position c > sposition then cons_position c - sposition else 0)
                 in ((True, sub_consumer c sposition scsize), c)
               else ((False, null_consumer), c))"
    by (rule ext) (simp add: between_def Let_def split: prod.splits)
  moreover have "op_rel (rel_prod (=) same_rest)
      (\<lambda>c. ((False, null_consumer), snd (pni_consumer_skip_value_not_described t c)))
      (\<lambda>c. ((False, null_consumer), snd (pni_consumer_skip_value_not_described t c)))" for t
    by (rule op_discard [OF op_skip_not_described]) auto
  ultimately show ?thesis
    unfolding consume_described_def [abs_def]
    by (intro op_case_read op_If_app op_prims(1) op_return) (auto intro: null_same)
qed

lemma clamp_min: "(if s < n then s else n) = min s (n :: nat)"
  by (simp add: min_def)

lemma op_clamp_sub: "op_rel same_rest (clamp_sub n) (clamp_sub n)"
proof (rule op_relI)
  fix c d assume cd: "same_rest c d"
  then have wf: "cons_wf c" "cons_wf d" and eq: "rest c = rest d" by (simp_all add: same_rest_def)
  let ?n = "min n (length (rest d))"
  have c: "clamp_sub n c = (sub_consumer c (cons_position c) ?n, cons_advance ?n c)"
    by (simp only: clamp_sub_def clamp_min Let_def length_rest [OF wf(1), symmetric] eq)
  have d: "clamp_sub n d = (sub_consumer d (cons_position d) ?n, cons_advance ?n d)"
    by (simp only: clamp_sub_def clamp_min Let_def length_rest [OF wf(2), symmetric])
  have sub: "cons_wf (sub_consumer x (cons_position x) ?n) \<and> rest (sub_consumer x (cons_position x) ?n) = take ?n (rest x)"
    if "cons_wf x" "length (rest x) = length (rest d)" for x
  proof -
    have "?n \<le> length (rest x)" using that(2) by simp
    from slice_rest [OF that(1) this] length_rest [OF that(1)] that show ?thesis
      by (auto simp: sub_consumer_def cons_wf_def rest_def cons_slice_def)
  qed
  have "advances c (cons_advance ?n c)" "advances d (cons_advance ?n d)"
    by (rule advances_advance, use wf eq in simp_all)+
  with sub [of c] sub [of d] wf eq show "advances c (snd (clamp_sub n c)) \<and> advances d (snd (clamp_sub n d)) \<and>
      same_rest (fst (clamp_sub n c)) (fst (clamp_sub n d)) \<and> rest (snd (clamp_sub n c)) = rest (snd (clamp_sub n d))"
    unfolding c d by (simp add: same_rest_def rest_advance)
qed

lemma op_sub_read:
  assumes "op_ok m" "same_rest s s'"
    and "\<And>t t'. same_rest t t' \<Longrightarrow> op_rel S (n t) (n' t')"
    and "\<And>x t t'. same_rest t t' \<Longrightarrow> op_rel S (k x t) (k' x t')"
  shows "op_rel S (\<lambda>c. case m s of (None, t) \<Rightarrow> n t c | (Some x, t) \<Rightarrow> k x t c)
    (\<lambda>c. case m s' of (None, t) \<Rightarrow> n' t c | (Some x, t) \<Rightarrow> k' x t c)"
proof -
  obtain r t r' t' where run: "m s = (r, t)" "m s' = (r', t')" by (metis surj_pair)
  note 1 = op_relD [OF assms(1,2) run]
  then show ?thesis using assms(3,4) [OF 1(2)] run by (cases r') auto
qed

lemma op_clamp_read:
  assumes "op_ok m" "\<And>t t'. same_rest t t' \<Longrightarrow> op_rel S (n t) (n t')"
    "\<And>x t t'. same_rest t t' \<Longrightarrow> op_rel S (k x t) (k x t')"
  shows "op_rel S (\<lambda>c. let (sub, c) = clamp_sub s c in case m sub of (None, sub) \<Rightarrow> n sub c | (Some x, sub) \<Rightarrow> k x sub c)
    (\<lambda>c. let (sub, c) = clamp_sub s c in case m sub of (None, sub) \<Rightarrow> n sub c | (Some x, sub) \<Rightarrow> k x sub c)"
  unfolding Let_def using op_sub_read [OF assms(1) _ assms(2,3)] by (intro op_bind [OF op_clamp_sub])

lemma op_list: "op_rel sub_rel consume_list consume_list"
  unfolding consume_list_def [abs_def]
  by (intro op_case_read op_If_app op_clamp_read op_prims(1,3) op_return op_discard [OF op_skip_value]) auto

abbreviation array_rel :: "bool \<times> pni_consumer \<times> u32 \<times> byte \<Rightarrow> bool \<times> pni_consumer \<times> u32 \<times> byte \<Rightarrow> bool" where
  "array_rel \<equiv> rel_prod (=) (rel_prod same_rest (=))"

lemma op_array_element: "same_rest t t' \<Longrightarrow> op_rel array_rel (array_element_type t n) (array_element_type t' n)"
  unfolding array_element_type_def [abs_def]
  by (rule op_sub_read [OF op_prims(1)]) (auto intro: op_return)

lemma op_array: "op_rel array_rel consume_array consume_array"
  unfolding consume_array_def [abs_def]
  by (intro op_case_read op_If_app op_clamp_read op_prims(1,3) op_return op_array_element op_discard [OF op_skip_value]) auto

lemma op_map:
  assumes "op_rel R f f" "\<And>r r'. R r r' \<Longrightarrow> S (g r) (g r')"
  shows "op_rel S (\<lambda>c. case f c of (r, c) \<Rightarrow> (g r, c)) (\<lambda>c. case f c of (r, c) \<Rightarrow> (g r, c))"
  by (rule op_bind [OF assms(1)], rule op_return, erule assms(2))

lemma raw_same: "same_rest b b' \<Longrightarrow> fst (consume_raw b) = fst (consume_raw b')"
  using op_raw unfolding op_rel_def by blast

lemma anything_same: "same_rest b b' \<Longrightarrow> fst (consume_anything b) = fst (consume_anything b')"
  using op_anything(1) unfolding op_rel_def by blast

lemma op_described_typed:
  "op_ok consume_described_type_anything" "op_ok consume_described_maybe_type_anything"
  "op_ok (consume_described_maybe_type_raw raw)" "op_ok consume_described_maybe_type_maybe_anything"
  "op_ok (consume_described_raw raw)"
proof -
  have *: "op_ok (\<lambda>c. case consume_described_ulong_descriptor c of (r, c) \<Rightarrow> (g r, c))"
    if "\<And>r r'. sub_rel r r' \<Longrightarrow> g r = g r'" for g :: "bool \<times> pni_consumer \<times> u64 \<Rightarrow> 'z"
    by (rule op_map [OF op_described_ulong]) (rule that)
  have 1: "consume_described_type_anything = (\<lambda>c. case consume_described_ulong_descriptor c of (r, c) \<Rightarrow> ((\<lambda>(q, _, t). (q, t)) r, c))"
    by (rule ext) (simp add: consume_described_type_anything_def split: prod.splits)
  have 2: "consume_described_maybe_type_anything =
      (\<lambda>c. case consume_described_ulong_descriptor c of (r, c) \<Rightarrow> ((\<lambda>(q, _, t). (q, q, t)) r, c))"
    by (rule ext) (simp add: consume_described_maybe_type_anything_def split: prod.splits)
  have 3: "consume_described_maybe_type_raw raw =
      (\<lambda>c. case consume_described_ulong_descriptor c of (r, c) \<Rightarrow>
         ((\<lambda>(q, b, t). if q then (fst (fst (consume_raw b)), q, t, snd (fst (consume_raw b))) else (False, q, t, raw)) r, c))"
    by (rule ext) (simp add: consume_described_maybe_type_raw_def case_prod_unfold Let_def)
  have 4: "consume_described_maybe_type_maybe_anything =
      (\<lambda>c. case consume_described_ulong_descriptor c of (r, c) \<Rightarrow>
         ((\<lambda>(q, b, t). (q \<and> fst (consume_anything b), q, t, fst (consume_anything b))) r, c))"
    by (rule ext) (simp add: consume_described_maybe_type_maybe_anything_def case_prod_unfold Let_def)
  have 5: "consume_described_raw raw =
      (\<lambda>c. case consume_described c of (r, c) \<Rightarrow> ((\<lambda>(q, b). if q then fst (consume_raw b) else (False, raw)) r, c))"
    by (rule ext) (simp add: consume_described_raw_def case_prod_unfold Let_def)
  show "op_ok consume_described_type_anything" unfolding 1 by (rule *) auto
  show "op_ok consume_described_maybe_type_anything" unfolding 2 by (rule *) auto
  show "op_ok (consume_described_maybe_type_raw raw)" unfolding 3 by (rule *) (auto simp: raw_same)
  show "op_ok consume_described_maybe_type_maybe_anything" unfolding 4 by (rule *) (auto simp: anything_same)
  show "op_ok (consume_described_raw raw)" unfolding 5 by (rule op_map [OF op_described]) (auto simp: raw_same)
qed

section \<open>Typed reads and skipping agree\<close>

text \<open>
  A typed reader of a value that starts with type byte \<open>t\<close> matches the skipping of such a value:
  when it succeeds it has read exactly the bytes that skipping passes over.
\<close>

definition skip_matches :: "byte \<Rightarrow> 'a reader \<Rightarrow> bool" where
  "skip_matches t m \<longleftrightarrow> (\<forall>c v c'. cons_wf c \<longrightarrow> m c = (Some v, c') \<longrightarrow>
     pni_consumer_skip_value_not_described t c = (Some (), c'))"

definition agrees_with_skip :: "'a reader \<Rightarrow> bool" where
  "agrees_with_skip m \<longleftrightarrow> (\<forall>c v c'. cons_wf c \<longrightarrow> m c = (Some v, c') \<longrightarrow>
     (\<exists>t. consume_single_value c = ((True, Some t), c')))"

named_theorems match_intros

lemma match_If [match_intros]:
  "(P \<Longrightarrow> skip_matches t f) \<Longrightarrow> (\<not> P \<Longrightarrow> skip_matches t g) \<Longrightarrow> skip_matches t (if P then f else g)"
  by simp

lemma match_if_give [match_intros]: "skip_matches t m \<Longrightarrow> skip_matches t (if_read m (\<lambda>x. give (F x)))"
  unfolding skip_matches_def if_read_def give_def by (auto split: prod.splits option.splits)

lemma match_skip_and_fail [match_intros]: "skip_matches t (skip_and_fail u)"
  by (simp add: skip_matches_def skip_and_fail_def)

lemma match_fail [match_intros]: "skip_matches t (\<lambda>c. (None, c))"
  by (simp add: skip_matches_def)

lemma skip_fixed:
  "drop_bit 4 t = 4 \<Longrightarrow> pni_consumer_skip_value_not_described t c = (Some (), c)"
  "drop_bit 4 t = 5 \<Longrightarrow> pni_consumer_skip_value_not_described t c = if_read (read_bytes 1) (\<lambda>_. give ()) c"
  "drop_bit 4 t = 6 \<Longrightarrow> pni_consumer_skip_value_not_described t c = if_read (read_bytes 2) (\<lambda>_. give ()) c"
  "drop_bit 4 t = 7 \<Longrightarrow> pni_consumer_skip_value_not_described t c = if_read (read_bytes 4) (\<lambda>_. give ()) c"
  "drop_bit 4 t = 8 \<Longrightarrow> pni_consumer_skip_value_not_described t c = if_read (read_bytes 8) (\<lambda>_. give ()) c"
  "drop_bit 4 t = 9 \<Longrightarrow> pni_consumer_skip_value_not_described t c = if_read (read_bytes 16) (\<lambda>_. give ()) c"
  "drop_bit 4 t = 0xA \<Longrightarrow> pni_consumer_skip_value_not_described t c = if_read pni_consumer_readv8 (\<lambda>_. give ()) c"
  "drop_bit 4 t = 0xB \<Longrightarrow> pni_consumer_skip_value_not_described t c = if_read pni_consumer_readv32 (\<lambda>_. give ()) c"
  by (simp_all add: pni_consumer_skip_value_not_described_def pni_consumer_read_value_not_described_def
      pni_consumer_readv8_def pni_consumer_readv32_def if_read_def give_def Let_def)

lemma match_give [match_intros]: "drop_bit 4 t = 4 \<Longrightarrow> skip_matches t (give x)"
  by (simp add: skip_matches_def skip_fixed give_def)

lemma match_bytes:
  assumes "\<And>c. pni_consumer_skip_value_not_described t c = if_read (read_bytes n) (\<lambda>_. give ()) c"
    "\<And>c v c'. cons_wf c \<Longrightarrow> m c = (Some v, c') \<Longrightarrow> n \<le> length (rest c) \<and> c' = cons_advance n c"
  shows "skip_matches t m"
proof -
  have "if_read (read_bytes n) (\<lambda>_. give ()) c = (Some (), c')" if "cons_wf c" "m c = (Some v, c')" for c v c'
    using assms(2) [OF that] that(1) by (simp add: if_read_def give_def read_bytes_rest)
  then show ?thesis unfolding skip_matches_def assms(1) by blast
qed

lemma readf64_rest:
  assumes "cons_wf c" "8 \<le> length (rest c)"
  shows "pni_consumer_readf64 c = (Some (pni_read64 (rest c)), cons_advance 8 c)"
proof -
  have 4: "4 \<le> length (rest c)" and sub4: "\<not> length (rest c) - 4 < 4" using assms(2) by linarith+
  have "pni_consumer_readf32 (cons_advance 4 c) = (Some (pni_read32 (drop 4 (rest c))), cons_advance 8 c)"
    using sub4 by (simp add: readf32_rest [OF wf_advance [OF assms(1) 4]] rest_advance)
  with assms show ?thesis
    by (simp add: pni_consumer_readf64_def if_read_def give_def readf32_rest pni_read64_def)
qed

lemma readf64_short:
  assumes "cons_wf c" "length (rest c) < 8"
  shows "fst (pni_consumer_readf64 c) = None"
proof (cases "length (rest c) < 4")
  case True
  then show ?thesis using assms by (simp add: pni_consumer_readf64_def if_read_def readf32_rest cons_fail_def)
next
  case False
  then have 4: "4 \<le> length (rest c)" by simp
  have "fst (pni_consumer_readf32 (cons_advance 4 c)) = None"
    using assms(2) by (simp add: readf32_rest [OF wf_advance [OF assms(1) 4]] rest_advance cons_fail_def)
  then show ?thesis using assms(1) False
    by (auto simp: pni_consumer_readf64_def if_read_def readf32_rest split: prod.splits option.splits)
qed

lemma match_prims [match_intros]:
  "drop_bit 4 t = 5 \<Longrightarrow> skip_matches t pni_consumer_readf8"
  "drop_bit 4 t = 6 \<Longrightarrow> skip_matches t pni_consumer_readf16"
  "drop_bit 4 t = 7 \<Longrightarrow> skip_matches t pni_consumer_readf32"
  "drop_bit 4 t = 9 \<Longrightarrow> skip_matches t pni_consumer_readf128"
  by (rule match_bytes, erule skip_fixed, auto simp: read_rest cons_fail_def Suc_le_eq split: if_splits)+

lemma match_readf64 [match_intros]: "drop_bit 4 t = 8 \<Longrightarrow> skip_matches t pni_consumer_readf64"
proof (rule match_bytes, erule skip_fixed)
  fix c v c' assume run: "cons_wf c" "pni_consumer_readf64 c = (Some v, c')"
  with readf64_short [of c] have "8 \<le> length (rest c)" by (cases "length (rest c) < 8") auto
  with readf64_rest [of c] run show "8 \<le> length (rest c) \<and> c' = cons_advance 8 c" by simp
qed

lemma match_readv [match_intros]:
  "drop_bit 4 t = 0xA \<Longrightarrow> skip_matches t pni_consumer_readv8"
  "drop_bit 4 t = 0xB \<Longrightarrow> skip_matches t pni_consumer_readv32"
  by (auto simp: skip_matches_def skip_fixed if_read_def give_def)

lemma agrees_if_readf8:
  assumes "\<And>t. skip_matches t (k t)" "\<And>c. fst (k 0 c) = None"
  shows "agrees_with_skip (if_read pni_consumer_readf8 k)"
  unfolding agrees_with_skip_def
proof (intro allI impI)
  fix c v c' assume wf: "cons_wf c" and run: "if_read pni_consumer_readf8 k c = (Some v, c')"
  then obtain t c1 where 8: "pni_consumer_readf8 c = (Some t, c1)" and k: "k t c1 = (Some v, c')"
    by (auto simp: if_read_def split: prod.splits option.splits)
  have t: "t \<noteq> 0" using assms(2) [of c1] k by auto
  have "advances c c1" using op_relD(3) [OF op_prims(1) _ 8 8] wf by (simp add: same_rest_def)
  then have "cons_wf c1" by (rule advances_wf [OF wf])
  with assms(1) k have "pni_consumer_skip_value_not_described t c1 = (Some (), c')" by (simp add: skip_matches_def)
  with 8 t show "\<exists>t. consume_single_value c = ((True, Some t), c')"
    by (simp add: consume_single_value_def)
qed

lemma skip_and_fail_None [simp]: "fst (skip_and_fail t c) = None"
  by (simp add: skip_and_fail_def)

lemma agrees_scalars:
  "agrees_with_skip consume_ulong" "agrees_with_skip consume_uint" "agrees_with_skip consume_ushort"
  "agrees_with_skip consume_ubyte" "agrees_with_skip consume_bool" "agrees_with_skip consume_timestamp"
  unfolding consume_ulong_def consume_uint_def consume_ushort_def consume_ubyte_def consume_bool_def consume_timestamp_def
  by (rule agrees_if_readf8; (intro match_intros)?; simp)+

lemma agrees_bytes:
  "agrees_with_skip consume_string" "agrees_with_skip consume_symbol"
  "agrees_with_skip consume_binaryornull" "agrees_with_skip consume_binarynonull"
  unfolding consume_string_def consume_symbol_def consume_binaryornull_def consume_binarynonull_def
  by (rule agrees_if_readf8; (intro match_intros)?; simp)+

lemma agrees_atom: "agrees_with_skip consume_atom"
  unfolding consume_atom_def by (rule agrees_if_readf8; (intro match_intros)?; simp)

section \<open>Reading known bytes\<close>

text \<open>What the reads do when the bytes left start with a given encoding.\<close>

lemma rest_Cons_0: "rest c = b # bs \<Longrightarrow> \<not> length (rest c) < 1" by simp

lemma readf8_Cons: "cons_wf c \<Longrightarrow> rest c = b # bs \<Longrightarrow> pni_consumer_readf8 c = (Some b, cons_advance 1 c)"
  by (simp add: readf8_rest)

lemma readf16_write: "cons_wf c \<Longrightarrow> rest c = pni_write16 v @ bs \<Longrightarrow> pni_consumer_readf16 c = (Some v, cons_advance 2 c)"
  by (simp add: readf16_rest)

lemma readf32_write: "cons_wf c \<Longrightarrow> rest c = pni_write32 v @ bs \<Longrightarrow> pni_consumer_readf32 c = (Some v, cons_advance 4 c)"
  by (simp add: readf32_rest)

lemma readf64_write:
  "cons_wf c \<Longrightarrow> rest c = pni_write32 (ucast (drop_bit 32 v)) @ pni_write32 (ucast v) @ bs \<Longrightarrow>
     pni_consumer_readf64 c = (Some v, cons_advance 8 c)"
  using readf64_rest [of c] by (simp add: pni_read64_write32)

lemma readf128_append:
  "cons_wf c \<Longrightarrow> rest c = u @ bs \<Longrightarrow> length u = 16 \<Longrightarrow> pni_consumer_readf128 c = (Some u, cons_advance 16 c)"
  by (simp add: readf128_rest)

lemma read_bytes_append:
  "cons_wf c \<Longrightarrow> rest c = xs @ bs \<Longrightarrow> read_bytes (length xs) c = (Some (Some xs), cons_advance (length xs) c)"
  by (simp add: read_bytes_rest)

lemma readv8_append:
  assumes "cons_wf c" "rest c = word_of_nat (length xs) # xs @ bs" "length xs < 256"
  shows "pni_consumer_readv8 c = (Some (Some xs), cons_advance (1 + length xs) c)"
proof -
  have wf: "cons_wf (cons_advance 1 c)" using assms by (intro wf_advance) simp_all
  have "rest (cons_advance 1 c) = xs @ bs" using assms by (simp add: rest_advance)
  from read_bytes_append [OF wf this] assms show ?thesis
    by (simp add: pni_consumer_readv8_def if_read_def readf8_Cons unat_word_of_nat)
qed

lemma readv32_append:
  assumes "cons_wf c" "rest c = pni_write32 (word_of_nat (length xs)) @ xs @ bs" "length xs < 2 ^ 32"
  shows "pni_consumer_readv32 c = (Some (Some xs), cons_advance (4 + length xs) c)"
proof -
  have wf: "cons_wf (cons_advance 4 c)" using assms by (intro wf_advance) simp_all
  have "rest (cons_advance 4 c) = xs @ bs" using assms by (simp add: rest_advance)
  from read_bytes_append [OF wf this] assms show ?thesis
    by (simp add: pni_consumer_readv32_def if_read_def readf32_write unat_word_of_nat)
qed

lemma if_readf8_Cons:
  assumes "cons_wf c" "rest c = b # bs"
  shows "if_read pni_consumer_readf8 k c = k b (cons_advance 1 c)" "cons_wf (cons_advance 1 c)"
    "rest (cons_advance 1 c) = bs"
proof -
  show "cons_wf (cons_advance 1 c)" using assms by (intro wf_advance) simp_all
qed (use assms in \<open>simp_all add: if_read_def readf8_Cons rest_advance\<close>)

section \<open>Properties\<close>

text \<open>
  C6: no reader leaves its consumer's bytes. Every \<open>consume_\<close> function on a consumer whose position is
  within its size and whose size is within the memory behind it only moves the position forward, at
  most to the end; what it returns (sub-consumers included, which are again within their memory) is
  the same for any other consumer with the same bytes left, so bytes outside are never read.
\<close>

theorem consumers_in_bounds:
  "op_ok consume_anything \<and> op_ok consume_raw \<and> op_ok consume_ulong \<and> op_ok consume_uint \<and>
   op_ok consume_ushort \<and> op_ok consume_ubyte \<and> op_ok consume_bool \<and> op_ok consume_timestamp \<and>
   op_ok consume_atom \<and> op_ok consume_string \<and> op_ok consume_symbol \<and> op_ok consume_binaryornull \<and>
   op_ok consume_binarynonull \<and> op_ok consume_described_anything \<and> op_ok consume_described_type_anything \<and>
   op_ok consume_described_maybe_type_anything \<and> op_ok (consume_described_maybe_type_raw raw) \<and>
   op_ok consume_described_maybe_type_maybe_anything \<and> op_ok (consume_described_raw raw) \<and>
   op_rel sub_rel consume_described_ulong_descriptor consume_described_ulong_descriptor \<and>
   op_rel (rel_prod (=) same_rest) consume_described consume_described \<and>
   op_rel sub_rel consume_list consume_list \<and> op_rel array_rel consume_array consume_array"
  by (intro conjI op_anything op_raw op_scalars op_described_typed op_described_ulong op_described op_list op_array)

text \<open>
  C12: typed reading and skipping agree. Whenever one of the typed readers accepts a value,
  \<open>consume_single_value\<close> on the same consumer succeeds and stops at the same position.
\<close>

theorem consumers_agree_with_skip:
  "agrees_with_skip consume_ulong \<and> agrees_with_skip consume_uint \<and> agrees_with_skip consume_ushort \<and>
   agrees_with_skip consume_ubyte \<and> agrees_with_skip consume_bool \<and> agrees_with_skip consume_timestamp \<and>
   agrees_with_skip consume_string \<and> agrees_with_skip consume_symbol \<and> agrees_with_skip consume_binaryornull \<and>
   agrees_with_skip consume_binarynonull \<and> agrees_with_skip consume_atom"
  by (intro conjI agrees_scalars agrees_bytes agrees_atom)

text \<open>
  A value of the wrong type is skipped whole by the other readers, so that the next field is read
  from its start; \<open>consume_timestamp\<close> stops inside it.
\<close>

lemma consume_timestamp_wrong_type:
  assumes "cons_wf c" "rest c = PNE_UINT # pni_write32 v @ bs"
  shows "consume_timestamp c = (None, cons_advance 1 c)" "rest (cons_advance 1 c) = pni_write32 v @ bs"
    "consume_ulong c = (None, cons_advance 5 c)" "rest (cons_advance 5 c) = bs"
proof -
  have c: "rest c = 0x70 # pni_write32 v @ bs" using assms(2) by simp
  note 1 = if_readf8_Cons [OF assms(1) c]
  show "consume_timestamp c = (None, cons_advance 1 c)" "rest (cons_advance 1 c) = pni_write32 v @ bs"
    unfolding consume_timestamp_def 1(1) using 1(3) by simp_all
  have "read_bytes 4 (cons_advance 1 c) = (Some (Some (pni_write32 v)), cons_advance 5 c)"
    using read_bytes_append [OF 1(2) 1(3)] by simp
  then have "pni_consumer_skip_value 0x70 (cons_advance 1 c) = (Some (), cons_advance 5 c)"
    by (simp add: pni_consumer_skip_value_def skip_fixed if_read_def give_def)
  then show "consume_ulong c = (None, cons_advance 5 c)" 
    unfolding consume_ulong_def 1(1) by (simp add: skip_and_fail_def)
  show "rest (cons_advance 5 c) = bs" using c by (simp add: rest_advance)
qed

end
