(* ===== verification/Emitters.thy ===== *)
theory Emitters
  imports Bytes_Util Encodings
begin

text \<open>
  The AMQP value writer of \<open>core/emitters.h\<close>. An emitter is the memory at \<open>output_start\<close>, the number
  of bytes that may be written and the write position, which keeps advancing after the memory is
  full, so that it gives the size needed. A compound context holds the open list or array; the
  pointer to the enclosing context is only used to count the finished compound there, so the
  operations that close a compound take and return the enclosing context.
  Positions and counts are far below the range of \<open>size_t\<close> and are natural numbers.
\<close>

section \<open>State and primitive writes\<close>

record pni_compound_context =
  size_position :: nat
  start_position :: nat
  ctx_count :: nat
  null_count :: nat
  ctx_type :: byte
  encoding_succeeded :: bool
  is_described_list :: bool

definition make_compound :: pni_compound_context where
  "make_compound = \<lparr>size_position = 0, start_position = 0, ctx_count = 0, null_count = 0, ctx_type = 0,
     encoding_succeeded = False, is_described_list = False\<rparr>"

record pni_emitter =
  emit_output :: "byte list"
  emit_size :: nat
  emit_position :: nat

text \<open>A \<open>pn_rwbytes_t\<close> is its block; the two constructors of the code differ in the argument passing only.\<close>

definition make_emitter_from_rwbytes :: "byte list \<Rightarrow> pni_emitter" where
  "make_emitter_from_rwbytes bs = \<lparr>emit_output = bs, emit_size = length bs, emit_position = 0\<rparr>"

definition make_bytes_from_emitter :: "pni_emitter \<Rightarrow> byte list" where
  "make_bytes_from_emitter e = take (emit_position e) (emit_output e)"

definition resize_required :: "pni_emitter \<Rightarrow> bool" where
  "resize_required e \<longleftrightarrow> emit_position e > emit_size e"

definition pn_rwbytes_realloc :: "allocator \<Rightarrow> byte list \<Rightarrow> nat \<Rightarrow> byte list" where
  "pn_rwbytes_realloc alloc buf sz =
     (case mem_realloc alloc buf sz of None \<Rightarrow> [] | Some space \<Rightarrow> space)"

definition size_buffer_to_emitter :: "allocator \<Rightarrow> byte list \<Rightarrow> pni_emitter \<Rightarrow> byte list" where
  "size_buffer_to_emitter alloc buf e =
     pn_rwbytes_realloc alloc buf (length buf + emit_position e - emit_size e)"

definition encode_succeeded :: "pni_emitter \<Rightarrow> pni_compound_context \<Rightarrow> bool" where
  "encode_succeeded e compound = encoding_succeeded compound"

definition pni_emitter_remaining :: "pni_emitter \<Rightarrow> nat \<Rightarrow> bool" where
  "pni_emitter_remaining e need \<longleftrightarrow> emit_size e \<ge> emit_position e + need"

text \<open>Store the bytes at the position if they fit, and advance in any case.\<close>

definition emit_bytes :: "byte list \<Rightarrow> pni_emitter \<Rightarrow> pni_emitter" where
  "emit_bytes bs e =
     (let e = (if pni_emitter_remaining e (length bs)
               then e\<lparr>emit_output := memcpy_at (emit_output e) (emit_position e) bs\<rparr> else e)
      in e\<lparr>emit_position := emit_position e + length bs\<rparr>)"

definition pni_emitter_writef8 :: "pni_emitter \<Rightarrow> byte \<Rightarrow> pni_emitter" where
  "pni_emitter_writef8 e value = emit_bytes [value] e"

definition pni_emitter_writef16 :: "pni_emitter \<Rightarrow> u16 \<Rightarrow> pni_emitter" where
  "pni_emitter_writef16 e value =
     emit_bytes [ucast (0xFF AND drop_bit 8 value), ucast (0xFF AND value)] e"

definition pni_emitter_writef32 :: "pni_emitter \<Rightarrow> u32 \<Rightarrow> pni_emitter" where
  "pni_emitter_writef32 e value =
     emit_bytes [ucast (0xFF AND drop_bit 24 value), ucast (0xFF AND drop_bit 16 value),
       ucast (0xFF AND drop_bit 8 value), ucast (0xFF AND value)] e"

definition pni_emitter_writef64 :: "pni_emitter \<Rightarrow> u64 \<Rightarrow> pni_emitter" where
  "pni_emitter_writef64 e value =
     emit_bytes [ucast (0xFF AND drop_bit 56 value), ucast (0xFF AND drop_bit 48 value),
       ucast (0xFF AND drop_bit 40 value), ucast (0xFF AND drop_bit 32 value),
       ucast (0xFF AND drop_bit 24 value), ucast (0xFF AND drop_bit 16 value),
       ucast (0xFF AND drop_bit 8 value), ucast (0xFF AND value)] e"

text \<open>The 16 bytes at \<open>value\<close>.\<close>

definition pni_emitter_writef128 :: "pni_emitter \<Rightarrow> byte list \<Rightarrow> pni_emitter" where
  "pni_emitter_writef128 e value = emit_bytes (take 16 value) e"

definition pni_emitter_writev8 :: "pni_emitter \<Rightarrow> pn_bytes \<Rightarrow> pni_emitter" where
  "pni_emitter_writev8 e value =
     emit_bytes (bytes_data value) (pni_emitter_writef8 e (word_of_nat (bytes_size value)))"

definition pni_emitter_writev32 :: "pni_emitter \<Rightarrow> pn_bytes \<Rightarrow> pni_emitter" where
  "pni_emitter_writev32 e value =
     emit_bytes (bytes_data value) (pni_emitter_writef32 e (word_of_nat (bytes_size value)))"

definition pni_emitter_raw :: "pni_emitter \<Rightarrow> pn_bytes \<Rightarrow> pni_emitter" where
  "pni_emitter_raw e raw = emit_bytes (bytes_data raw) e"

section \<open>Values\<close>

type_synonym emit_state = "pni_emitter \<times> pni_compound_context"

definition emit_null :: "emit_state \<Rightarrow> emit_state" where
  "emit_null = (\<lambda>(e, compound).
     if is_described_list compound then (e, compound\<lparr>null_count := null_count compound + 1\<rparr>)
     else (pni_emitter_writef8 e PNE_NULL, compound\<lparr>ctx_count := ctx_count compound + 1\<rparr>))"

fun emit_nulls_loop :: "nat \<Rightarrow> emit_state \<Rightarrow> emit_state" where
  "emit_nulls_loop 0 s = s"
| "emit_nulls_loop (Suc i) (e, compound) =
     emit_nulls_loop i (pni_emitter_writef8 e PNE_NULL, compound\<lparr>ctx_count := ctx_count compound + 1\<rparr>)"

definition emit_accumulated_nulls :: "emit_state \<Rightarrow> emit_state" where
  "emit_accumulated_nulls s =
     (let (e, compound) = emit_nulls_loop (null_count (snd s)) s
      in (e, compound\<lparr>null_count := 0\<rparr>))"

text \<open>The accumulated nulls, then the writes \<open>w\<close> of one value, then \<open>compound->count++\<close>.\<close>

definition emit_value :: "(pni_emitter \<Rightarrow> pni_emitter) \<Rightarrow> emit_state \<Rightarrow> emit_state" where
  "emit_value w s =
     (let (e, compound) = emit_accumulated_nulls s
      in (w e, compound\<lparr>ctx_count := ctx_count compound + 1\<rparr>))"

definition emit_bool :: "bool \<Rightarrow> emit_state \<Rightarrow> emit_state" where
  "emit_bool b = emit_value (\<lambda>e. if b then pni_emitter_writef8 e PNE_TRUE else pni_emitter_writef8 e PNE_FALSE)"

definition emit_ubyte :: "byte \<Rightarrow> emit_state \<Rightarrow> emit_state" where
  "emit_ubyte ubyte = emit_value (\<lambda>e. pni_emitter_writef8 (pni_emitter_writef8 e PNE_UBYTE) ubyte)"

definition emit_ushort :: "u16 \<Rightarrow> emit_state \<Rightarrow> emit_state" where
  "emit_ushort ushort = emit_value (\<lambda>e. pni_emitter_writef16 (pni_emitter_writef8 e PNE_USHORT) ushort)"

definition emit_uint :: "u32 \<Rightarrow> emit_state \<Rightarrow> emit_state" where
  "emit_uint uint' = emit_value (\<lambda>e.
     if uint' = 0 then pni_emitter_writef8 e PNE_UINT0
     else if uint' < 256 then pni_emitter_writef8 (pni_emitter_writef8 e PNE_SMALLUINT) (ucast uint')
     else pni_emitter_writef32 (pni_emitter_writef8 e PNE_UINT) uint')"

definition emit_ulong :: "u64 \<Rightarrow> emit_state \<Rightarrow> emit_state" where
  "emit_ulong ulong = emit_value (\<lambda>e.
     if ulong = 0 then pni_emitter_writef8 e PNE_ULONG0
     else if ulong < 256 then pni_emitter_writef8 (pni_emitter_writef8 e PNE_SMALLULONG) (ucast ulong)
     else pni_emitter_writef64 (pni_emitter_writef8 e PNE_ULONG) ulong)"

definition emit_timestamp :: "u64 \<Rightarrow> emit_state \<Rightarrow> emit_state" where
  "emit_timestamp timestamp = emit_value (\<lambda>e. pni_emitter_writef64 (pni_emitter_writef8 e PNE_MS64) timestamp)"

definition emit_uuid :: "byte list \<Rightarrow> emit_state \<Rightarrow> emit_state" where
  "emit_uuid uuid = emit_value (\<lambda>e. pni_emitter_writef128 (pni_emitter_writef8 e PNE_UUID) uuid)"

definition emit_descriptor :: "u64 \<Rightarrow> emit_state \<Rightarrow> emit_state" where
  "emit_descriptor ulong s =
     (let (e, compound) = emit_accumulated_nulls s;
          e = pni_emitter_writef8 e PNE_DESCRIPTOR
      in if ulong < 256
         then (pni_emitter_writef8 (pni_emitter_writef8 e PNE_SMALLULONG) (ucast ulong), compound)
         else (pni_emitter_writef64 (pni_emitter_writef8 e PNE_ULONG) ulong, compound))"

definition emit_binary_bytes :: "pn_bytes \<Rightarrow> emit_state \<Rightarrow> emit_state" where
  "emit_binary_bytes bytes = emit_value (\<lambda>e.
     if bytes_size bytes < 256 then pni_emitter_writev8 (pni_emitter_writef8 e PNE_VBIN8) bytes
     else pni_emitter_writev32 (pni_emitter_writef8 e PNE_VBIN32) bytes)"

definition emit_string_bytes :: "pn_bytes \<Rightarrow> emit_state \<Rightarrow> emit_state" where
  "emit_string_bytes bytes = emit_value (\<lambda>e.
     if bytes_size bytes < 256 then pni_emitter_writev8 (pni_emitter_writef8 e PNE_STR8_UTF8) bytes
     else pni_emitter_writev32 (pni_emitter_writef8 e PNE_STR32_UTF8) bytes)"

definition emit_symbol_bytes :: "pn_bytes \<Rightarrow> emit_state \<Rightarrow> emit_state" where
  "emit_symbol_bytes bytes = emit_value (\<lambda>e.
     if bytes_size bytes < 256 then pni_emitter_writev8 (pni_emitter_writef8 e PNE_SYM8) bytes
     else pni_emitter_writev32 (pni_emitter_writef8 e PNE_SYM32) bytes)"

definition emit_symbol :: "pn_bytes \<Rightarrow> emit_state \<Rightarrow> emit_state" where
  "emit_symbol bytes s = (if bytes = None then emit_null s else emit_symbol_bytes bytes s)"

definition emit_string :: "pn_bytes \<Rightarrow> emit_state \<Rightarrow> emit_state" where
  "emit_string bytes s = (if bytes = None then emit_null s else emit_string_bytes bytes s)"

definition emit_binarynonull :: "pn_bytes \<Rightarrow> emit_state \<Rightarrow> emit_state" where
  "emit_binarynonull bytes s = emit_binary_bytes bytes s"

definition emit_binaryornull :: "pn_bytes \<Rightarrow> emit_state \<Rightarrow> emit_state" where
  "emit_binaryornull bytes s = (if bytes = None then emit_null s else emit_binary_bytes bytes s)"

fun emit_atom :: "pn_atom \<Rightarrow> emit_state \<Rightarrow> emit_state" where
  "emit_atom (PN_BOOL b) s = emit_bool b s"
| "emit_atom (PN_UBYTE b) s = emit_ubyte b s"
| "emit_atom (PN_USHORT u) s = emit_ushort u s"
| "emit_atom (PN_UINT u) s = emit_uint u s"
| "emit_atom (PN_ULONG u) s = emit_ulong u s"
| "emit_atom (PN_TIMESTAMP t) s = emit_timestamp t s"
| "emit_atom (PN_UUID u) s = emit_uuid u s"
| "emit_atom (PN_BINARY bs) s = emit_binary_bytes bs s"
| "emit_atom (PN_STRING bs) s = emit_string_bytes bs s"
| "emit_atom (PN_SYMBOL bs) s = emit_symbol_bytes bs s"
| "emit_atom _ s = emit_null s"

definition emit_raw :: "pn_bytes \<Rightarrow> emit_state \<Rightarrow> emit_state" where
  "emit_raw bytes s =
     (if bytes_size bytes = 0 \<or> bytes = None then emit_null s
      else emit_value (\<lambda>e. pni_emitter_raw e bytes) s)"

definition emit_multiple :: "pn_bytes \<Rightarrow> emit_state \<Rightarrow> emit_state" where
  "emit_multiple bytes s = emit_raw bytes s"

definition emit_described_type_raw :: "u64 \<Rightarrow> pn_bytes \<Rightarrow> emit_state \<Rightarrow> emit_state" where
  "emit_described_type_raw descriptor bytes s =
     (let (e, compound) = emit_descriptor descriptor s;
          (e, _) = emit_raw bytes (e, make_compound)
      in (e, compound\<lparr>ctx_count := ctx_count compound + 1\<rparr>))"

definition emit_list0 :: "emit_state \<Rightarrow> emit_state" where
  "emit_list0 = (\<lambda>(e, compound).
     (pni_emitter_writef8 e PNE_LIST0, compound\<lparr>ctx_count := ctx_count compound + 1\<rparr>))"

section \<open>Lists and arrays\<close>

text \<open>Opening a compound gives the emitter, the new context and the enclosing context.\<close>

type_synonym nested_state = "pni_emitter \<times> pni_compound_context \<times> pni_compound_context"

definition open_compound :: "nat \<Rightarrow> nat \<Rightarrow> bool \<Rightarrow> pni_compound_context" where
  "open_compound size_pos start_pos described =
     make_compound\<lparr>size_position := size_pos, start_position := start_pos, is_described_list := described\<rparr>"

definition emit_list :: "bool \<Rightarrow> bool \<Rightarrow> emit_state \<Rightarrow> nested_state" where
  "emit_list small_encoding described s =
     (let (e, compound) = emit_accumulated_nulls s
      in if small_encoding then
           let e = pni_emitter_writef8 e PNE_LIST8;
               size_pos = emit_position e;
               e = pni_emitter_writef8 e 0;
               start_pos = emit_position e;
               e = pni_emitter_writef8 e 0
           in (e, open_compound size_pos start_pos described, compound)
         else
           let e = pni_emitter_writef8 e PNE_LIST32;
               size_pos = emit_position e;
               e = pni_emitter_writef32 e 0;
               start_pos = emit_position e;
               e = pni_emitter_writef32 e 0
           in (e, open_compound size_pos start_pos described, compound))"

definition emit_end_list :: "bool \<Rightarrow> nested_state \<Rightarrow> nested_state" where
  "emit_end_list small_encoding = (\<lambda>(e, compound, previous).
     if ctx_count compound = 0 then
       (pni_emitter_writef8 (e\<lparr>emit_position := size_position compound - 1\<rparr>) PNE_LIST0,
        compound\<lparr>encoding_succeeded := True\<rparr>, previous\<lparr>ctx_count := ctx_count previous + 1\<rparr>)
     else
       let current = emit_position e;
           e = e\<lparr>emit_position := size_position compound\<rparr>;
           sz = current - start_position compound
       in if small_encoding \<and> (sz > 255 \<or> ctx_count compound > 255) then
            (e\<lparr>emit_position := emit_position e - 1\<rparr>, compound\<lparr>encoding_succeeded := False\<rparr>, previous)
          else
            let e = (if small_encoding
                     then pni_emitter_writef8 (pni_emitter_writef8 e (word_of_nat sz)) (word_of_nat (ctx_count compound))
                     else pni_emitter_writef32 (pni_emitter_writef32 e (word_of_nat sz)) (word_of_nat (ctx_count compound)))
            in (e\<lparr>emit_position := current\<rparr>, compound\<lparr>encoding_succeeded := True\<rparr>,
                previous\<lparr>ctx_count := ctx_count previous + 1\<rparr>))"

definition emit_array :: "bool \<Rightarrow> emit_state \<Rightarrow> nested_state" where
  "emit_array small_encoding s =
     (let (e, compound) = emit_accumulated_nulls s
      in if small_encoding then
           let e = pni_emitter_writef8 e PNE_ARRAY8;
               size_pos = emit_position e;
               e = pni_emitter_writef8 e 0;
               start_pos = emit_position e;
               e = pni_emitter_writef8 (pni_emitter_writef8 e 0) 0
           in (e, open_compound size_pos start_pos False, compound)
         else
           let e = pni_emitter_writef8 e PNE_ARRAY32;
               size_pos = emit_position e;
               e = pni_emitter_writef32 e 0;
               start_pos = emit_position e;
               e = pni_emitter_writef8 (pni_emitter_writef32 e 0) 0
           in (e, open_compound size_pos start_pos False, compound))"

definition emit_end_array :: "bool \<Rightarrow> nested_state \<Rightarrow> nested_state" where
  "emit_end_array small_encoding = (\<lambda>(e, compound, previous).
     let current = emit_position e;
         e = e\<lparr>emit_position := size_position compound\<rparr>;
         sz = current - start_position compound
     in if small_encoding \<and> (sz > 255 \<or> ctx_count compound > 255) then
          (e\<lparr>emit_position := emit_position e - 1\<rparr>, compound\<lparr>encoding_succeeded := False\<rparr>, previous)
        else
          let e = (if small_encoding
                   then pni_emitter_writef8 (pni_emitter_writef8 e (word_of_nat sz)) (word_of_nat (ctx_count compound))
                   else pni_emitter_writef32 (pni_emitter_writef32 e (word_of_nat sz)) (word_of_nat (ctx_count compound)));
              e = pni_emitter_writef8 e (ctx_type compound)
          in (e\<lparr>emit_position := current\<rparr>, compound\<lparr>encoding_succeeded := True\<rparr>,
              previous\<lparr>ctx_count := ctx_count previous + 1\<rparr>))"

text \<open>The symbols are C strings, given as the bytes before the terminator.\<close>

definition emit_counted_symbols :: "byte list list \<Rightarrow> emit_state \<Rightarrow> emit_state" where
  "emit_counted_symbols symbols = (\<lambda>(e, compound).
     let count = length symbols
     in if count > 64 then
          (foldl (\<lambda>e sym. pni_emitter_writev32 e (Some sym)) e symbols,
           compound\<lparr>ctx_type := PNE_SYM32, ctx_count := ctx_count compound + count\<rparr>)
        else
          let total_bytes = foldl (\<lambda>total sym. total + (length sym + 1)) 0 symbols
          in if total_bytes < 256 then
               (foldl (\<lambda>e sym. pni_emitter_writev8 e (Some sym)) e symbols,
                compound\<lparr>ctx_type := PNE_SYM8, ctx_count := ctx_count compound + count\<rparr>)
             else
               (foldl (\<lambda>e sym. pni_emitter_writev32 e (Some sym)) e symbols,
                compound\<lparr>ctx_type := PNE_SYM32, ctx_count := ctx_count compound + count\<rparr>))"

text \<open>
  The loop \<open>for (bool small_encoding = true; ; small_encoding = false)\<close> around a described list with
  the fields \<open>body\<close>, used by all the dispositions and by the generated encoders. The fuel bounds the
  number of attempts.
\<close>

fun emit_list_attempts ::
  "nat \<Rightarrow> bool \<Rightarrow> (emit_state \<Rightarrow> emit_state) \<Rightarrow> emit_state \<Rightarrow> emit_state option" where
  "emit_list_attempts 0 small_encoding body s = None"
| "emit_list_attempts (Suc n) small_encoding body s =
     (let (e, compound, compound0) = emit_list small_encoding True s;
          (e, compound) = body (e, compound);
          (e, compound, compound0) = emit_end_list small_encoding (e, compound, compound0)
      in if encode_succeeded e compound then Some (e, compound0)
         else emit_list_attempts n False body (e, compound0))"

definition emit_described_list :: "(emit_state \<Rightarrow> emit_state) \<Rightarrow> emit_state \<Rightarrow> emit_state option" where
  "emit_described_list body = emit_list_attempts 2 True body"

record pn_received_disposition =
  section_number :: u32
  section_offset :: u64

definition emit_received_disposition :: "pn_received_disposition \<Rightarrow> emit_state \<Rightarrow> emit_state option" where
  "emit_received_disposition disposition =
     emit_described_list (emit_ulong (section_offset disposition) \<circ> emit_uint (section_number disposition))"

definition emit_declared_disposition :: "pn_bytes \<Rightarrow> emit_state \<Rightarrow> emit_state option" where
  "emit_declared_disposition id' = emit_described_list (emit_binary_bytes id')"

definition emit_transactional_disposition :: "pn_bytes \<Rightarrow> pn_bytes \<Rightarrow> emit_state \<Rightarrow> emit_state option" where
  "emit_transactional_disposition id' outcome_raw =
     emit_described_list (emit_raw outcome_raw \<circ> emit_binary_bytes id')"

text \<open>
  The loop of every generated encoder (\<open>generate.py\<close>): encode into the buffer, grow the buffer to the
  size that was needed and encode again, until it fits. \<open>inner\<close> is the generated sequence of emits;
  the emitter writes into the buffer, so the buffer that is grown is the emitter's output.
\<close>

fun amqp_encode ::
  "nat \<Rightarrow> allocator \<Rightarrow> (emit_state \<Rightarrow> emit_state option) \<Rightarrow> byte list \<Rightarrow> (byte list \<times> byte list) option" where
  "amqp_encode 0 alloc inner buf = None"
| "amqp_encode (Suc n) alloc inner buf =
     (case inner (make_emitter_from_rwbytes buf, make_compound) of
        None \<Rightarrow> None
      | Some (e, _) \<Rightarrow>
          if resize_required e
          then amqp_encode n alloc inner (size_buffer_to_emitter alloc (emit_output e) e)
          else Some (make_bytes_from_emitter e, emit_output e))"

text \<open>The encoder of a described list, and the attempts around an array of symbols, as they are generated.\<close>

definition emit_described :: "u64 \<Rightarrow> (emit_state \<Rightarrow> emit_state) \<Rightarrow> emit_state \<Rightarrow> emit_state option" where
  "emit_described descriptor body s = emit_described_list body (emit_descriptor descriptor s)"

fun emit_array_attempts ::
  "nat \<Rightarrow> bool \<Rightarrow> (emit_state \<Rightarrow> emit_state) \<Rightarrow> emit_state \<Rightarrow> emit_state option" where
  "emit_array_attempts 0 small_encoding body s = None"
| "emit_array_attempts (Suc n) small_encoding body s =
     (let (e, compound, compound0) = emit_array small_encoding s;
          (e, compound) = body (e, compound);
          (e, compound, compound0) = emit_end_array small_encoding (e, compound, compound0)
      in if encode_succeeded e compound then Some (e, compound0)
         else emit_array_attempts n False body (e, compound0))"

definition emit_symbol_array :: "byte list list \<Rightarrow> emit_state \<Rightarrow> emit_state option" where
  "emit_symbol_array symbols = emit_array_attempts 2 True (emit_counted_symbols symbols)"

section \<open>What an emitter has written\<close>

text \<open>
  \<open>emits e bs e'\<close>: from \<open>e\<close> to \<open>e'\<close> the bytes \<open>bs\<close> were emitted. The position counts all of them; the
  memory before the old position and the memory after the emitter's size are as before; and if all
  of them fit, they follow what was written before.
\<close>

definition emit_wf :: "pni_emitter \<Rightarrow> bool" where
  "emit_wf e \<longleftrightarrow> emit_size e \<le> length (emit_output e)"

definition emits :: "pni_emitter \<Rightarrow> byte list \<Rightarrow> pni_emitter \<Rightarrow> bool" where
  "emits e bs e' \<longleftrightarrow> emit_size e' = emit_size e \<and> emit_position e' = emit_position e + length bs \<and>
     length (emit_output e') = length (emit_output e) \<and>
     take (emit_position e) (emit_output e') = take (emit_position e) (emit_output e) \<and>
     drop (emit_size e) (emit_output e') = drop (emit_size e) (emit_output e) \<and>
     (emit_position e' \<le> emit_size e \<longrightarrow>
        take (emit_position e') (emit_output e') = take (emit_position e) (emit_output e) @ bs)"

lemma emits_refl [simp]: "emits e [] e"
  by (simp add: emits_def)

lemma emits_wf: "emit_wf e \<Longrightarrow> emits e bs e' \<Longrightarrow> emit_wf e'"
  by (simp add: emit_wf_def emits_def)

lemma emits_trans:
  assumes "emits e bs e1" "emits e1 cs e2"
  shows "emits e (bs @ cs) e2"
proof -
  have "take (emit_position e) (take (emit_position e1) (emit_output e2)) =
      take (emit_position e) (take (emit_position e1) (emit_output e1))"
    using assms(2) by (simp add: emits_def)
  moreover have "emit_position e \<le> emit_position e1" using assms(1) by (simp add: emits_def)
  ultimately show ?thesis using assms by (auto simp: emits_def min_def)
qed

lemma emits_bytes:
  assumes "emit_wf e"
  shows "emits e bs (emit_bytes bs e)"
proof (cases "pni_emitter_remaining e (length bs)")
  case True
  then have fit: "emit_position e + length bs \<le> emit_size e" by (simp add: pni_emitter_remaining_def)
  then have fit': "emit_position e + length bs \<le> length (emit_output e)" using assms by (simp add: emit_wf_def)
  have "drop (emit_size e) (memcpy_at (emit_output e) (emit_position e) bs) = drop (emit_size e) (emit_output e)"
    using fit fit' by (simp add: memcpy_at_def)
  with True fit fit' show ?thesis
    by (simp add: emits_def emit_bytes_def take_memcpy_at take_memcpy_at_before length_memcpy_at)
next
  case False
  then show ?thesis by (simp add: emits_def emit_bytes_def pni_emitter_remaining_def)
qed

lemma emits_bytes_trans: "emit_wf e \<Longrightarrow> emits e bs e1 \<Longrightarrow> emits e (bs @ cs) (emit_bytes cs e1)"
  using emits_trans emits_bytes emits_wf by blast

text \<open>The byte strings of the primitive writes.\<close>

lemma write_be64:
  "[ucast (0xFF AND drop_bit 56 v), ucast (0xFF AND drop_bit 48 v), ucast (0xFF AND drop_bit 40 v),
    ucast (0xFF AND drop_bit 32 v), ucast (0xFF AND drop_bit 24 v), ucast (0xFF AND drop_bit 16 v),
    ucast (0xFF AND drop_bit 8 v), ucast (0xFF AND v)] =
   pni_write32 (ucast (drop_bit 32 v)) @ pni_write32 (ucast (v :: u64))"
proof -
  have low: "(ucast (drop_bit k (ucast w :: u32)) :: byte) = ucast (drop_bit k w)" if "k \<le> 24" for k and w :: u64
    using that by (intro bit_word_eqI) (auto simp: bit_simps)
  have low0: "(ucast (ucast w :: u32) :: byte) = ucast w" for w :: u64
    by (intro bit_word_eqI) (auto simp: bit_simps)
  have shift: "drop_bit k (drop_bit 32 v) = drop_bit (k + 32) v" for k by simp
  show ?thesis by (simp add: pni_write32_def low low0)
qed

lemma write_prims:
  "pni_emitter_writef8 e b = emit_bytes [b] e"
  "pni_emitter_writef16 e u = emit_bytes (pni_write16 u) e"
  "pni_emitter_writef32 e w = emit_bytes (pni_write32 w) e"
  "pni_emitter_writef64 e v = emit_bytes (pni_write32 (ucast (drop_bit 32 v)) @ pni_write32 (ucast v)) e"
  by (simp_all only: pni_emitter_writef8_def pni_emitter_writef16_def pni_emitter_writef32_def
      pni_emitter_writef64_def pni_write16_def pni_write32_def write_be64)

text \<open>Going back to an earlier position, and writing there.\<close>

lemma emits_rewind: "emits e bs e' \<Longrightarrow> emits e [] (e'\<lparr>emit_position := emit_position e\<rparr>)"
  by (simp add: emits_def)

lemma emits_patch:
  assumes wf: "emit_wf e" and em: "emits e (xs @ ys @ zs) e2" and len: "length ys' = length ys"
  shows "emits e (xs @ ys' @ zs)
    ((emit_bytes ys' (e2\<lparr>emit_position := emit_position e + length xs\<rparr>))\<lparr>emit_position := emit_position e2\<rparr>)"
proof (cases "emit_position e + length xs + length ys \<le> emit_size e")
  case False
  then show ?thesis using em len
    by (simp add: emits_def emit_bytes_def pni_emitter_remaining_def)
next
  case True
  let ?p = "emit_position e + length xs"
  have size: "emit_size e2 = emit_size e" and out: "length (emit_output e2) = length (emit_output e)"
    and pos: "emit_position e2 = ?p + length ys + length zs"
    using em by (simp_all add: emits_def)
  have fit: "?p + length ys' \<le> length (emit_output e2)"
    using True wf len out by (simp add: emit_wf_def)
  have drop: "drop (emit_size e) (memcpy_at (emit_output e2) ?p ys') = drop (emit_size e) (emit_output e2)"
    using True fit len by (simp add: memcpy_at_def)
  have before: "take (emit_position e) (memcpy_at (emit_output e2) ?p ys') = take (emit_position e) (emit_output e2)"
    using take_memcpy_at_before [OF fit] by simp
  have whole: "take (emit_position e2) (memcpy_at (emit_output e2) ?p ys') =
      take (emit_position e) (emit_output e) @ xs @ ys' @ zs" if "emit_position e2 \<le> emit_size e"
  proof -
    have all: "take (emit_position e2) (emit_output e2) = take (emit_position e) (emit_output e) @ xs @ ys @ zs"
      using em that unfolding emits_def by blast
    have lp: "length (take (emit_position e) (emit_output e)) = emit_position e"
      using True wf by (simp add: emit_wf_def)
    have p2: "emit_position e2 \<le> length (emit_output e2)" using that wf out by (simp add: emit_wf_def)
    have "take (emit_position e2) (memcpy_at (emit_output e2) ?p ys') =
        memcpy_at (take (emit_position e2) (emit_output e2)) ?p ys'"
      using pos p2 len by (intro take_memcpy_at_inside) simp_all
    also have "\<dots> = take (emit_position e) (emit_output e) @ xs @ ys' @ zs"
      unfolding all using len lp by (simp add: memcpy_at_def)
    finally show ?thesis .
  qed
  show ?thesis
    using em len True drop before whole size out pos fit
    by (simp add: emits_def emit_bytes_def pni_emitter_remaining_def length_memcpy_at)
qed

section \<open>Values and fields\<close>

text \<open>A write that always emits the same bytes.\<close>

definition writes :: "(pni_emitter \<Rightarrow> pni_emitter) \<Rightarrow> byte list \<Rightarrow> bool" where
  "writes w bs \<longleftrightarrow> (\<forall>e. emit_wf e \<longrightarrow> emits e bs (w e))"

lemma writes_bytes [intro]: "writes (emit_bytes bs) bs"
  by (simp add: writes_def emits_bytes)

lemma writes_seq: "writes w bs \<Longrightarrow> writes (\<lambda>e. emit_bytes cs (w e)) (bs @ cs)"
  using emits_bytes_trans by (auto simp: writes_def)

text \<open>
  The encodings of the scalar values. A field of a list is the encoding of a value, or \<open>None\<close> for a
  null, which a described list holds back until a value follows.
\<close>

definition enc_bool :: "bool \<Rightarrow> byte list" where
  "enc_bool b = (if b then [PNE_TRUE] else [PNE_FALSE])"

definition enc_uint :: "u32 \<Rightarrow> byte list" where
  "enc_uint u = (if u = 0 then [PNE_UINT0] else if u < 256 then [PNE_SMALLUINT, ucast u] else PNE_UINT # pni_write32 u)"

definition enc_be64 :: "u64 \<Rightarrow> byte list" where
  "enc_be64 v = pni_write32 (ucast (drop_bit 32 v)) @ pni_write32 (ucast v)"

definition enc_ulong :: "u64 \<Rightarrow> byte list" where
  "enc_ulong u = (if u = 0 then [PNE_ULONG0] else if u < 256 then [PNE_SMALLULONG, ucast u] else PNE_ULONG # enc_be64 u)"

definition enc_var :: "byte \<Rightarrow> byte \<Rightarrow> byte list \<Rightarrow> byte list" where
  "enc_var code8 code32 bs =
     (if length bs < 256 then code8 # word_of_nat (length bs) # bs
      else code32 # pni_write32 (word_of_nat (length bs)) @ bs)"

definition enc_descriptor :: "u64 \<Rightarrow> byte list" where
  "enc_descriptor u = PNE_DESCRIPTOR #
     (if u < 256 then [PNE_SMALLULONG, ucast u] else PNE_ULONG # enc_be64 u)"

fun atom_field :: "pn_atom \<Rightarrow> byte list option" where
  "atom_field (PN_BOOL b) = Some (enc_bool b)"
| "atom_field (PN_UBYTE b) = Some [PNE_UBYTE, b]"
| "atom_field (PN_USHORT u) = Some (PNE_USHORT # pni_write16 u)"
| "atom_field (PN_UINT u) = Some (enc_uint u)"
| "atom_field (PN_ULONG u) = Some (enc_ulong u)"
| "atom_field (PN_TIMESTAMP t) = Some (PNE_MS64 # enc_be64 t)"
| "atom_field (PN_UUID u) = Some (PNE_UUID # take 16 u)"
| "atom_field (PN_BINARY bs) = Some (enc_var PNE_VBIN8 PNE_VBIN32 (bytes_data bs))"
| "atom_field (PN_STRING bs) = Some (enc_var PNE_STR8_UTF8 PNE_STR32_UTF8 (bytes_data bs))"
| "atom_field (PN_SYMBOL bs) = Some (enc_var PNE_SYM8 PNE_SYM32 (bytes_data bs))"
| "atom_field _ = None"

text \<open>\<open>emits_field f v\<close>: the operation \<open>f\<close> puts the field \<open>v\<close> into a described list.\<close>

definition counted :: "pni_compound_context \<Rightarrow> pni_compound_context" where
  "counted c = c\<lparr>ctx_count := ctx_count c + null_count c + 1, null_count := 0\<rparr>"

definition pending :: "pni_compound_context \<Rightarrow> byte list" where
  "pending c = replicate (null_count c) PNE_NULL"

definition emits_value :: "(emit_state \<Rightarrow> emit_state) \<Rightarrow> byte list \<Rightarrow> bool" where
  "emits_value f bs \<longleftrightarrow> (\<forall>e c. emit_wf e \<longrightarrow>
     emits e (pending c @ bs) (fst (f (e, c))) \<and> snd (f (e, c)) = counted c)"

definition emits_field :: "(emit_state \<Rightarrow> emit_state) \<Rightarrow> byte list option \<Rightarrow> bool" where
  "emits_field f v \<longleftrightarrow>
     (case v of
        None \<Rightarrow> \<forall>e c. is_described_list c \<longrightarrow> f (e, c) = (e, c\<lparr>null_count := null_count c + 1\<rparr>)
      | Some bs \<Rightarrow> emits_value f bs)"

lemma emit_nulls_loop_spec:
  "emit_wf e \<Longrightarrow> emits e (replicate n PNE_NULL) (fst (emit_nulls_loop n (e, c))) \<and>
     snd (emit_nulls_loop n (e, c)) = c\<lparr>ctx_count := ctx_count c + n\<rparr>"
proof (induction n arbitrary: e c)
  case (Suc n)
  let ?e = "emit_bytes [PNE_NULL] e" and ?c = "c\<lparr>ctx_count := ctx_count c + 1\<rparr>"
  have 1: "emits e [PNE_NULL] ?e" using Suc.prems by (rule emits_bytes)
  from Suc.IH [OF emits_wf [OF Suc.prems 1], of ?c] emits_trans [OF 1, of "replicate n PNE_NULL"]
  show ?case by (simp add: write_prims)
qed simp

lemma accumulated_nulls_spec:
  assumes "emit_wf e"
  shows "emits e (pending c) (fst (emit_accumulated_nulls (e, c)))"
    "snd (emit_accumulated_nulls (e, c)) = c\<lparr>ctx_count := ctx_count c + null_count c, null_count := 0\<rparr>"
    "emit_wf (fst (emit_accumulated_nulls (e, c)))"
proof -
  note spec = emit_nulls_loop_spec [OF assms, of "null_count c" c]
  then show 1: "emits e (pending c) (fst (emit_accumulated_nulls (e, c)))"
    "snd (emit_accumulated_nulls (e, c)) = c\<lparr>ctx_count := ctx_count c + null_count c, null_count := 0\<rparr>"
    by (simp_all add: emit_accumulated_nulls_def pending_def case_prod_unfold)
  show "emit_wf (fst (emit_accumulated_nulls (e, c)))" by (rule emits_wf [OF assms 1(1)])
qed

lemma emit_value_spec:
  assumes "writes w bs"
  shows "emits_value (emit_value w) bs"
  unfolding emits_value_def
proof (intro allI impI conjI)
  fix e c assume wf: "emit_wf e"
  note nulls = accumulated_nulls_spec [OF wf, of c]
  have "emits (fst (emit_accumulated_nulls (e, c))) bs (w (fst (emit_accumulated_nulls (e, c))))"
    using assms nulls(3) by (simp add: writes_def)
  from emits_trans [OF nulls(1) this] show "emits e (pending c @ bs) (fst (emit_value w (e, c)))"
    by (simp add: emit_value_def case_prod_unfold Let_def)
  show "snd (emit_value w (e, c)) = counted c"
    using nulls(2) by (simp add: emit_value_def counted_def case_prod_unfold Let_def)
qed

lemma writes_If: "(P \<Longrightarrow> writes f bs) \<Longrightarrow> (\<not> P \<Longrightarrow> writes g cs) \<Longrightarrow>
    writes (\<lambda>e. if P then f e else g e) (if P then bs else cs)"
  by simp

lemma writes_Cons: "writes (\<lambda>e. emit_bytes cs (emit_bytes [b] e)) (b # cs)"
  using writes_seq [OF writes_bytes [of "[b]"], of cs] by simp

lemma writes_var:
  "writes (\<lambda>e. if bytes_size bs < 256 then pni_emitter_writev8 (pni_emitter_writef8 e code8) bs
     else pni_emitter_writev32 (pni_emitter_writef8 e code32) bs) (enc_var code8 code32 (bytes_data bs))"
  using writes_seq [OF writes_Cons [of "[word_of_nat (bytes_size bs)]" code8], of "bytes_data bs"]
    writes_seq [OF writes_Cons [of "pni_write32 (word_of_nat (bytes_size bs))" code32], of "bytes_data bs"]
  by (simp add: enc_var_def pni_emitter_writev8_def pni_emitter_writev32_def write_prims bytes_size_def)

lemma emits_scalars:
  "emits_value (emit_bool b) (enc_bool b)"
  "emits_value (emit_ubyte x) [PNE_UBYTE, x]"
  "emits_value (emit_ushort us) (PNE_USHORT # pni_write16 us)"
  "emits_value (emit_uint ui) (enc_uint ui)"
  "emits_value (emit_ulong ul) (enc_ulong ul)"
  "emits_value (emit_timestamp ts) (PNE_MS64 # enc_be64 ts)"
  "emits_value (emit_uuid u) (PNE_UUID # take 16 u)"
  unfolding emit_bool_def emit_ubyte_def emit_ushort_def emit_uint_def emit_ulong_def emit_timestamp_def emit_uuid_def
    enc_bool_def enc_uint_def enc_ulong_def enc_be64_def write_prims pni_emitter_writef128_def
  by (intro emit_value_spec writes_If writes_bytes writes_Cons)+

lemma emits_vars:
  "emits_value (emit_binary_bytes bs) (enc_var PNE_VBIN8 PNE_VBIN32 (bytes_data bs))"
  "emits_value (emit_string_bytes bs) (enc_var PNE_STR8_UTF8 PNE_STR32_UTF8 (bytes_data bs))"
  "emits_value (emit_symbol_bytes bs) (enc_var PNE_SYM8 PNE_SYM32 (bytes_data bs))"
  unfolding emit_binary_bytes_def emit_string_bytes_def emit_symbol_bytes_def
  by (intro emit_value_spec writes_var)+

lemma emits_null: "emits_field emit_null None"
  by (simp add: emits_field_def emit_null_def)

lemma emits_atom: "emits_field (emit_atom a) (atom_field a)"
proof -
  show ?thesis
    using emits_null emits_scalars emits_vars by (cases a) (simp_all add: emits_field_def emits_value_def)
qed

lemma emits_raw:
  "emits_field (emit_raw bs) (if bytes_size bs = 0 then None else Some (bytes_data bs))"
proof (cases "bytes_size bs = 0 \<or> bs = None")
  case True
  then have "emit_raw bs = emit_null" by (auto simp: emit_raw_def)
  with True emits_null show ?thesis by auto
next
  case False
  then have "emit_raw bs = emit_value (emit_bytes (bytes_data bs))"
    by (auto simp: emit_raw_def pni_emitter_raw_def)
  with emit_value_spec [OF writes_bytes, of "bytes_data bs"] False show ?thesis by (simp add: emits_field_def)
qed

lemma emits_or_null:
  "emits_field (emit_symbol bs) (map_option (enc_var PNE_SYM8 PNE_SYM32) bs)"
  "emits_field (emit_string bs) (map_option (enc_var PNE_STR8_UTF8 PNE_STR32_UTF8) bs)"
  "emits_field (emit_binaryornull bs) (map_option (enc_var PNE_VBIN8 PNE_VBIN32) bs)"
  using emits_null emits_vars [of bs]
  by (cases bs; simp add: emits_field_def emits_value_def emit_symbol_def emit_string_def emit_binaryornull_def)+

text \<open>A sequence of fields: trailing nulls are left out.\<close>

fun trim_nulls :: "'a option list \<Rightarrow> 'a option list" where
  "trim_nulls [] = []"
| "trim_nulls (v # vs) = (if v = None \<and> trim_nulls vs = [] then [] else v # trim_nulls vs)"

definition field_bytes :: "byte list option \<Rightarrow> byte list" where
  "field_bytes v = (case v of None \<Rightarrow> [PNE_NULL] | Some bs \<Rightarrow> bs)"

definition fields_bytes :: "byte list option list \<Rightarrow> byte list" where
  "fields_bytes vs = concat (map field_bytes (trim_nulls vs))"

definition run_ops :: "('s \<Rightarrow> 's) list \<Rightarrow> 's \<Rightarrow> 's" where
  "run_ops fs s = foldl (\<lambda>s f. f s) s fs"

lemma run_ops_simps [simp]: "run_ops [] s = s" "run_ops (f # fs) s = run_ops fs (f s)"
  by (simp_all add: run_ops_def)

definition runs_fields :: "pni_emitter \<Rightarrow> pni_compound_context \<Rightarrow> byte list option list \<Rightarrow> emit_state \<Rightarrow> bool" where
  "runs_fields e c vs s \<longleftrightarrow>
     (if trim_nulls vs = [] then fst s = e \<and> ctx_count (snd s) = ctx_count c
      else emits e (pending c @ fields_bytes vs) (fst s) \<and>
        ctx_count (snd s) = ctx_count c + null_count c + length (trim_nulls vs)) \<and>
     size_position (snd s) = size_position c \<and> start_position (snd s) = start_position c"

lemma trim_nulls_eq_Nil: "trim_nulls vs = [] \<longleftrightarrow> (\<forall>v\<in>set vs. v = None)"
  by (induction vs) auto

lemma run_ops_fields:
  assumes "list_all2 emits_field fs vs" "emit_wf e" "is_described_list c"
  shows "runs_fields e c vs (run_ops fs (e, c))"
  using assms
proof (induction fs vs arbitrary: e c rule: list_all2_induct)
  case Nil
  then show ?case by (simp add: runs_fields_def)
next
  case (Cons f fs v vs)
  show ?case
  proof (cases v)
    case None
    let ?c = "c\<lparr>null_count := null_count c + 1\<rparr>"
    have f: "f (e, c) = (e, ?c)" using Cons.hyps(1) Cons.prems(2) None by (simp add: emits_field_def)
    have "pending ?c = pending c @ [PNE_NULL]" by (simp add: pending_def replicate_append_same)
    with Cons.IH [of e ?c] Cons.prems None f show ?thesis
      by (auto simp: runs_fields_def fields_bytes_def field_bytes_def)
  next
    case (Some bs)
    obtain e1 where f: "f (e, c) = (e1, counted c)" and e1: "emits e (pending c @ bs) e1"
    proof -
      have "emits e (pending c @ bs) (fst (f (e, c)))" "snd (f (e, c)) = counted c"
        using Cons.hyps(1) Cons.prems(1) Some by (simp_all add: emits_field_def emits_value_def)
      then show ?thesis using that by (metis prod.collapse)
    qed
    have c1: "is_described_list (counted c)" "pending (counted c) = []"
      using Cons.prems(2) by (simp_all add: counted_def pending_def)
    note IH = Cons.IH [OF emits_wf [OF Cons.prems(1) e1] c1(1)]
    show ?thesis
    proof (cases "trim_nulls vs = []")
      case True
      with IH f e1 Some show ?thesis
        by (simp add: runs_fields_def fields_bytes_def field_bytes_def counted_def)
    next
      case False
      with IH have "emits e1 (fields_bytes vs) (fst (run_ops fs (e1, counted c)))"
        by (simp add: runs_fields_def c1)
      from emits_trans [OF e1 this] False IH f Some show ?thesis
        by (simp add: runs_fields_def fields_bytes_def field_bytes_def counted_def)
    qed
  qed
qed

section \<open>Described lists\<close>

text \<open>The shortest encoding of a list of \<open>n\<close> fields with the bytes \<open>bs\<close>.\<close>

definition enc_list :: "nat \<Rightarrow> byte list \<Rightarrow> byte list" where
  "enc_list n bs =
     (if n = 0 then [PNE_LIST0]
      else if length bs + 1 \<le> 255 \<and> n \<le> 255 then
        [PNE_LIST8, word_of_nat (length bs + 1), word_of_nat n] @ bs
      else PNE_LIST32 # pni_write32 (word_of_nat (length bs + 4)) @ pni_write32 (word_of_nat n) @ bs)"

definition list_header :: "bool \<Rightarrow> byte list" where
  "list_header small = (if small then [PNE_LIST8, 0, 0] else PNE_LIST32 # pni_write32 0 @ pni_write32 0)"

lemma emits_patch2:
  assumes wf: "emit_wf e" and em: "emits e (xs @ ys @ zs @ ws) e2"
    and len: "length ys' = length ys" "length zs' = length zs"
  shows "emits e (xs @ ys' @ zs' @ ws)
    ((emit_bytes zs' (emit_bytes ys' (e2\<lparr>emit_position := emit_position e + length xs\<rparr>)))\<lparr>emit_position := emit_position e2\<rparr>)"
proof -
  let ?E = "emit_bytes ys' (e2\<lparr>emit_position := emit_position e + length xs\<rparr>)"
  let ?P = "?E\<lparr>emit_position := emit_position e2\<rparr>"
  have 1: "emits e (xs @ ys' @ zs @ ws) ?P" by (rule emits_patch [OF wf em len(1)])
  have pos: "?P\<lparr>emit_position := emit_position e + length (xs @ ys')\<rparr> = ?E"
    by (simp add: emit_bytes_def Let_def)
  have "emits e ((xs @ ys') @ zs' @ ws)
      ((emit_bytes zs' (?P\<lparr>emit_position := emit_position e + length (xs @ ys')\<rparr>))\<lparr>emit_position := emit_position ?P\<rparr>)"
    using 1 by (intro emits_patch [OF wf _ len(2)]) simp
  then show ?thesis unfolding pos by simp
qed

lemma emit_list_spec:
  assumes "emit_wf e"
  shows "\<exists>e1 e2. emits e (pending c) e1 \<and> emits e1 (list_header small) e2 \<and>
    emit_list small True (e, c) =
      (e2, open_compound (emit_position e1 + 1) (emit_position e1 + (if small then 2 else 5)) True,
       c\<lparr>ctx_count := ctx_count c + null_count c, null_count := 0\<rparr>)"
proof -
  note nulls = accumulated_nulls_spec [OF assms, of c]
  obtain e1 where e1: "emit_accumulated_nulls (e, c) =
      (e1, c\<lparr>ctx_count := ctx_count c + null_count c, null_count := 0\<rparr>)"
    using nulls(2) by (metis prod.collapse)
  have wf: "emit_wf e1" using nulls(3) e1 by simp
  let ?e2 = "emit_bytes [0] (emit_bytes [0] (emit_bytes [PNE_LIST8] e1))"
  let ?e2' = "emit_bytes (pni_write32 0) (emit_bytes (pni_write32 0) (emit_bytes [PNE_LIST32] e1))"
  have small: "emits e1 [PNE_LIST8, 0, 0] ?e2"
    using writes_seq [OF writes_Cons [of "[0]" PNE_LIST8], of "[0]"] wf by (simp add: writes_def)
  have large: "emits e1 (PNE_LIST32 # pni_write32 0 @ pni_write32 0) ?e2'"
    using writes_seq [OF writes_Cons [of "pni_write32 0" PNE_LIST32], of "pni_write32 0"] wf by (simp add: writes_def)
  have pos: "emit_position (emit_bytes bs e') = emit_position e' + length bs" for bs e'
    by (simp add: emit_bytes_def Let_def)
  show ?thesis
  proof (intro exI conjI)
    show "emits e (pending c) e1" using nulls(1) e1 by simp
    show "emits e1 (list_header small) (if small then ?e2 else ?e2')"
      using small large by (simp add: list_header_def)
  qed (simp add: emit_list_def e1 write_prims pos Let_def add.commute)
qed

lemma end_list_empty:
  assumes "emit_wf e1" "emits e1 hdr e3" "ctx_count c = 0" "size_position c = emit_position e1 + 1"
  shows "\<exists>e4. emit_end_list small (e3, c, p) =
      (e4, c\<lparr>encoding_succeeded := True\<rparr>, p\<lparr>ctx_count := ctx_count p + 1\<rparr>) \<and> emits e1 [PNE_LIST0] e4"
proof -
  have "emits e1 [] (e3\<lparr>emit_position := emit_position e1\<rparr>)" using assms(2) by (rule emits_rewind)
  from emits_bytes_trans [OF assms(1) this, of "[PNE_LIST0]"] assms(3,4) show ?thesis
    by (simp add: emit_end_list_def write_prims)
qed

lemma end_list_fail:
  assumes "emits e1 (list_header True @ bs) e3" "ctx_count c \<noteq> 0" "length bs + 1 > 255 \<or> ctx_count c > 255"
    "size_position c = emit_position e1 + 1" "start_position c = emit_position e1 + 2"
  shows "\<exists>e4. emit_end_list True (e3, c, p) = (e4, c\<lparr>encoding_succeeded := False\<rparr>, p) \<and> emits e1 [] e4"
proof -
  have "emit_position e3 = emit_position e1 + 3 + length bs"
    using assms(1) by (simp add: emits_def list_header_def)
  with emits_rewind [OF assms(1)] assms(2-5) show ?thesis by (simp add: emit_end_list_def)
qed

lemma end_list_small:
  assumes wf: "emit_wf e1" and em: "emits e1 (list_header True @ bs) e3"
    and n: "ctx_count c \<noteq> 0" "length bs + 1 \<le> 255" "ctx_count c \<le> 255"
    and pos: "size_position c = emit_position e1 + 1" "start_position c = emit_position e1 + 2"
  shows "\<exists>e4. emit_end_list True (e3, c, p) =
      (e4, c\<lparr>encoding_succeeded := True\<rparr>, p\<lparr>ctx_count := ctx_count p + 1\<rparr>) \<and>
    emits e1 ([PNE_LIST8, word_of_nat (length bs + 1), word_of_nat (ctx_count c)] @ bs) e4"
proof -
  have pos3: "emit_position e3 = emit_position e1 + 3 + length bs"
    using em by (simp add: emits_def list_header_def)
  have "emits e1 ([PNE_LIST8] @ [0] @ [0] @ bs) e3" using em by (simp add: list_header_def)
  from emits_patch2 [OF wf this, of "[word_of_nat (length bs + 1)]" "[word_of_nat (ctx_count c)]"]
  show ?thesis using n pos pos3 by (simp add: emit_end_list_def write_prims Let_def)
qed

lemma end_list_large:
  assumes wf: "emit_wf e1" and em: "emits e1 (list_header False @ bs) e3"
    and n: "ctx_count c \<noteq> 0"
    and pos: "size_position c = emit_position e1 + 1" "start_position c = emit_position e1 + 5"
  shows "\<exists>e4. emit_end_list False (e3, c, p) =
      (e4, c\<lparr>encoding_succeeded := True\<rparr>, p\<lparr>ctx_count := ctx_count p + 1\<rparr>) \<and>
    emits e1 (PNE_LIST32 # pni_write32 (word_of_nat (length bs + 4)) @ pni_write32 (word_of_nat (ctx_count c)) @ bs) e4"
proof -
  have pos3: "emit_position e3 = emit_position e1 + 9 + length bs"
    using em by (simp add: emits_def list_header_def)
  have "emits e1 ([PNE_LIST32] @ pni_write32 0 @ pni_write32 0 @ bs) e3" using em by (simp add: list_header_def)
  from emits_patch2 [OF wf this, of "pni_write32 (word_of_nat (length bs + 4))" "pni_write32 (word_of_nat (ctx_count c))"]
  show ?thesis using n pos pos3 by (simp add: emit_end_list_def write_prims Let_def add.commute)
qed

text \<open>A body of fields: what it emits does not depend on where it is.\<close>

definition body_emits :: "(emit_state \<Rightarrow> emit_state) \<Rightarrow> nat \<Rightarrow> byte list \<Rightarrow> bool" where
  "body_emits body n bs \<longleftrightarrow> (n = 0 \<longrightarrow> bs = []) \<and>
     (\<forall>e c. emit_wf e \<and> is_described_list c \<and> ctx_count c = 0 \<and> null_count c = 0 \<longrightarrow>
        emits e bs (fst (body (e, c))) \<and> ctx_count (snd (body (e, c))) = n \<and>
        size_position (snd (body (e, c))) = size_position c \<and> start_position (snd (body (e, c))) = start_position c)"

lemma body_emits_fields:
  assumes "list_all2 emits_field fs vs"
  shows "body_emits (run_ops fs) (length (trim_nulls vs)) (fields_bytes vs)"
  unfolding body_emits_def
proof (intro conjI allI impI)
  fix e and c :: pni_compound_context assume "emit_wf e \<and> is_described_list c \<and> ctx_count c = 0 \<and> null_count c = 0"
  then have run: "runs_fields e c vs (run_ops fs (e, c))" and c: "ctx_count c = 0" "null_count c = 0" "pending c = []"
    using run_ops_fields [OF assms] by (auto simp: pending_def)
  then show "emits e (fields_bytes vs) (fst (run_ops fs (e, c)))"
    by (cases "trim_nulls vs = []") (auto simp: runs_fields_def fields_bytes_def)
  from run c show "ctx_count (snd (run_ops fs (e, c))) = length (trim_nulls vs)"
    "size_position (snd (run_ops fs (e, c))) = size_position c"
    "start_position (snd (run_ops fs (e, c))) = start_position c"
    by (auto simp: runs_fields_def split: if_splits)
qed (simp add: fields_bytes_def)

lemma attempt_body:
  assumes "body_emits body n bs" "emit_wf e"
  shows "\<exists>e1 e3 c. emits e (pending p) e1 \<and> emits e1 (list_header small @ bs) e3 \<and> ctx_count c = n \<and>
    size_position c = emit_position e1 + 1 \<and> start_position c = emit_position e1 + (if small then 2 else 5) \<and>
    emit_list_attempts (Suc k) small body (e, p) =
      (let (e, c, p) = emit_end_list small (e3, c, p\<lparr>ctx_count := ctx_count p + null_count p, null_count := 0\<rparr>)
       in if encoding_succeeded c then Some (e, p) else emit_list_attempts k False body (e, p))"
proof -
  obtain e1 e2 where e2: "emits e (pending p) e1" "emits e1 (list_header small) e2"
    "emit_list small True (e, p) =
      (e2, open_compound (emit_position e1 + 1) (emit_position e1 + (if small then 2 else 5)) True,
       p\<lparr>ctx_count := ctx_count p + null_count p, null_count := 0\<rparr>)"
    using emit_list_spec [OF assms(2)] by blast
  let ?c = "open_compound (emit_position e1 + 1) (emit_position e1 + (if small then 2 else 5)) True"
  have wf2: "emit_wf e2" using emits_wf [OF emits_wf [OF assms(2) e2(1)] e2(2)] .
  have c: "is_described_list ?c" "ctx_count ?c = 0" "null_count ?c = 0"
    by (simp_all add: open_compound_def make_compound_def)
  obtain e3 c3 where body: "body (e2, ?c) = (e3, c3)" by force
  with assms(1) wf2 c have b: "emits e2 bs e3" "ctx_count c3 = n" "size_position c3 = emit_position e1 + 1"
    "start_position c3 = emit_position e1 + (if small then 2 else 5)"
    unfolding body_emits_def by (auto simp: open_compound_def make_compound_def dest!: spec [of _ e2] spec [of _ ?c])
  from emits_trans [OF e2(2) b(1)] e2(1,3) b(2-4) body show ?thesis
    by (intro exI [of _ e1] exI [of _ e3] exI [of _ c3]) (simp add: encode_succeeded_def)
qed

lemma emit_described_list_spec:
  assumes body: "body_emits body n bs" and wf: "emit_wf e"
  shows "\<exists>e'. emit_described_list body (e, p) = Some (e', counted p) \<and> emits e (pending p @ enc_list n bs) e'"
proof -
  let ?p = "p\<lparr>ctx_count := ctx_count p + null_count p, null_count := 0\<rparr>"
  have counted: "?p\<lparr>ctx_count := ctx_count ?p + 1\<rparr> = counted p" by (simp add: counted_def)
  obtain e1 e3 c where e1: "emits e (pending p) e1" and e3: "emits e1 (list_header True @ bs) e3" and n: "ctx_count c = n"
    and pos: "size_position c = emit_position e1 + 1" "start_position c = emit_position e1 + 2"
    and run: "emit_described_list body (e, p) =
      (let (e, c, p) = emit_end_list True (e3, c, ?p)
       in if encoding_succeeded c then Some (e, p) else emit_list_attempts 1 False body (e, p))"
    using attempt_body [OF body wf, of p True 1] unfolding emit_described_list_def numeral_2_eq_2 One_nat_def by auto
  have wf1: "emit_wf e1" by (rule emits_wf [OF wf e1])
  consider "n = 0" | "n \<noteq> 0" "length bs + 1 \<le> 255" "n \<le> 255" | "n \<noteq> 0" "length bs + 1 > 255 \<or> n > 255" by linarith
  then show ?thesis
  proof cases
    case 1
    with end_list_empty [OF wf1 e3, of c True ?p] n pos obtain e4 where
      "emit_end_list True (e3, c, ?p) = (e4, c\<lparr>encoding_succeeded := True\<rparr>, counted p)" "emits e1 [PNE_LIST0] e4"
      unfolding counted by auto
    with run emits_trans [OF e1] 1 show ?thesis by (simp add: enc_list_def)
  next
    case 2
    with end_list_small [OF wf1 e3, of c ?p] n pos obtain e4 where
      "emit_end_list True (e3, c, ?p) = (e4, c\<lparr>encoding_succeeded := True\<rparr>, counted p)"
      "emits e1 ([PNE_LIST8, word_of_nat (length bs + 1), word_of_nat n] @ bs) e4"
      unfolding counted by auto
    with run emits_trans [OF e1 this(2)] 2 show ?thesis by (simp add: enc_list_def)
  next
    case 3
    with end_list_fail [OF e3, of c ?p] n pos obtain e4 where
      e4: "emit_end_list True (e3, c, ?p) = (e4, c\<lparr>encoding_succeeded := False\<rparr>, ?p)" "emits e1 [] e4" by auto
    have wf4: "emit_wf e4" by (rule emits_wf [OF wf1 e4(2)])
    obtain f1 f3 d where f1: "emits e4 (pending ?p) f1" and f3: "emits f1 (list_header False @ bs) f3" and d: "ctx_count d = n"
      "size_position d = emit_position f1 + 1" "start_position d = emit_position f1 + 5"
      and run2: "emit_list_attempts 1 False body (e4, ?p) =
        (let (e, c, p) = emit_end_list False (f3, d, ?p\<lparr>ctx_count := ctx_count ?p + null_count ?p, null_count := 0\<rparr>)
         in if encoding_succeeded c then Some (e, p) else emit_list_attempts 0 False body (e, p))"
      using attempt_body [OF body wf4, of ?p False 0] unfolding One_nat_def by auto
    have same: "?p\<lparr>ctx_count := ctx_count ?p + null_count ?p, null_count := 0\<rparr> = ?p" by simp
    have "pending ?p = []" by (simp add: pending_def)
    then have ef1: "emits e (pending p) f1" using emits_trans [OF e1 e4(2)] emits_trans [OF _ f1] by fastforce
    have wff1: "emit_wf f1" by (rule emits_wf [OF wf ef1])
    from end_list_large [OF wff1 f3, of d ?p] d 3 obtain f4 where
      "emit_end_list False (f3, d, ?p) = (f4, d\<lparr>encoding_succeeded := True\<rparr>, counted p)"
      "emits f1 (PNE_LIST32 # pni_write32 (word_of_nat (length bs + 4)) @ pni_write32 (word_of_nat n) @ bs) f4"
      unfolding counted by auto
    with run e4(1) run2 emits_trans [OF ef1 this(2)] 3 show ?thesis unfolding same by (auto simp: enc_list_def)
  qed
qed

lemma emit_descriptor_spec:
  assumes "emit_wf e"
  shows "emits e (pending c @ enc_descriptor d) (fst (emit_descriptor d (e, c)))"
    "snd (emit_descriptor d (e, c)) = c\<lparr>ctx_count := ctx_count c + null_count c, null_count := 0\<rparr>"
proof -
  note nulls = accumulated_nulls_spec [OF assms, of c]
  let ?e = "fst (emit_accumulated_nulls (e, c))"
  have "writes (\<lambda>e. emit_bytes [ucast d] (emit_bytes [PNE_SMALLULONG] (emit_bytes [PNE_DESCRIPTOR] e)))
      [PNE_DESCRIPTOR, PNE_SMALLULONG, ucast d]"
    using writes_seq [OF writes_seq [OF writes_bytes [of "[PNE_DESCRIPTOR]"], of "[PNE_SMALLULONG]"], of "[ucast d]"] by simp
  moreover have "writes (\<lambda>e. emit_bytes (enc_be64 d) (emit_bytes [PNE_ULONG] (emit_bytes [PNE_DESCRIPTOR] e)))
      (PNE_DESCRIPTOR # PNE_ULONG # enc_be64 d)"
    using writes_seq [OF writes_seq [OF writes_bytes [of "[PNE_DESCRIPTOR]"], of "[PNE_ULONG]"], of "enc_be64 d"] by simp
  ultimately have "emits ?e (enc_descriptor d) (fst (emit_descriptor d (e, c)))"
    using nulls(3) by (simp add: emit_descriptor_def enc_descriptor_def case_prod_unfold Let_def write_prims
        enc_be64_def writes_def)
  from emits_trans [OF nulls(1) this] show "emits e (pending c @ enc_descriptor d) (fst (emit_descriptor d (e, c)))" .
  show "snd (emit_descriptor d (e, c)) = c\<lparr>ctx_count := ctx_count c + null_count c, null_count := 0\<rparr>"
    using nulls(2) by (simp add: emit_descriptor_def case_prod_unfold Let_def)
qed

lemma emit_described_spec:
  assumes body: "body_emits body n bs" and wf: "emit_wf e"
  shows "\<exists>e'. emit_described d body (e, c) = Some (e', counted c) \<and>
    emits e (pending c @ enc_descriptor d @ enc_list n bs) e'"
proof -
  let ?c = "c\<lparr>ctx_count := ctx_count c + null_count c, null_count := 0\<rparr>"
  obtain e1 where e1: "emit_descriptor d (e, c) = (e1, ?c)" "emits e (pending c @ enc_descriptor d) e1"
    using emit_descriptor_spec [OF wf, where c = c and d = d] by (metis prod.collapse)
  obtain e' where "emit_described_list body (e1, ?c) = Some (e', counted ?c)" "emits e1 (pending ?c @ enc_list n bs) e'"
    using emit_described_list_spec [OF body emits_wf [OF wf e1(2)]] by blast
  moreover have "pending ?c = []" "counted ?c = counted c" by (simp_all add: pending_def counted_def)
  ultimately show ?thesis using e1(1) emits_trans [OF e1(2)] by (auto simp: emit_described_def)
qed

section \<open>Encoding into a buffer\<close>

text \<open>An encoder of \<open>bs\<close>, whatever the emitter.\<close>

definition encodes :: "(emit_state \<Rightarrow> emit_state option) \<Rightarrow> byte list \<Rightarrow> bool" where
  "encodes inner bs \<longleftrightarrow> (\<forall>e. emit_wf e \<longrightarrow> (\<exists>e' c'. inner (e, make_compound) = Some (e', c') \<and> emits e bs e'))"

lemma pending_make_compound [simp]: "pending make_compound = []"
  by (simp add: pending_def make_compound_def)

lemma encodes_value:
  assumes "emits_value f bs"
  shows "encodes (\<lambda>s. Some (f s)) bs"
  unfolding encodes_def
proof (intro allI impI)
  fix e assume "emit_wf e"
  with assms have "emits e (pending make_compound @ bs) (fst (f (e, make_compound)))"
    unfolding emits_value_def by blast
  then have "emits e bs (fst (f (e, make_compound)))" by simp
  then show "\<exists>e' c'. Some (f (e, make_compound)) = Some (e', c') \<and> emits e bs e'" by (metis prod.collapse)
qed

lemma encodes_described:
  assumes "body_emits body n bs"
  shows "encodes (emit_described d body) (enc_descriptor d @ enc_list n bs)"
  unfolding encodes_def
proof (intro allI impI)
  fix e assume "emit_wf e"
  from emit_described_spec [OF assms this, of d make_compound]
  show "\<exists>e' c'. emit_described d body (e, make_compound) = Some (e', c') \<and> emits e (enc_descriptor d @ enc_list n bs) e'"
    by (simp only: pending_make_compound append_Nil) blast
qed

lemma encode_pass:
  assumes "encodes inner bs"
  obtains e c where "inner (make_emitter_from_rwbytes buf, make_compound) = Some (e, c)"
    "emit_position e = length bs" "emit_size e = length buf" "length (emit_output e) = length buf"
    "length bs \<le> length buf \<Longrightarrow> make_bytes_from_emitter e = bs"
proof -
  have "emit_wf (make_emitter_from_rwbytes buf)" by (simp add: emit_wf_def make_emitter_from_rwbytes_def)
  with assms obtain e c where "inner (make_emitter_from_rwbytes buf, make_compound) = Some (e, c)"
    "emits (make_emitter_from_rwbytes buf) bs e" unfolding encodes_def by blast
  then show ?thesis
    by (intro that [of e c]) (auto simp: emits_def make_emitter_from_rwbytes_def make_bytes_from_emitter_def)
qed

lemma amqp_encode_fits:
  assumes "encodes inner bs" "length bs \<le> length buf"
  shows "\<exists>out. amqp_encode (Suc n) alloc inner buf = Some (bs, out) \<and> length out = length buf"
  by (rule encode_pass [OF assms(1), of buf]) (use assms(2) in \<open>auto simp: resize_required_def\<close>)

lemma amqp_encode_grows:
  assumes "encodes inner bs" "length buf < length bs"
  shows "\<exists>mem. length mem = length buf \<and>
    amqp_encode (Suc n) alloc inner buf = amqp_encode n alloc inner (pn_rwbytes_realloc alloc mem (length bs))"
  by (rule encode_pass [OF assms(1), of buf])
    (use assms(2) in \<open>auto simp: resize_required_def size_buffer_to_emitter_def\<close>)

lemma amqp_encode_two_passes:
  assumes "encodes inner bs" "\<forall>n. alloc n \<noteq> None"
  shows "\<exists>out. amqp_encode 2 alloc inner buf = Some (bs, out)"
proof (cases "length bs \<le> length buf")
  case True
  from amqp_encode_fits [OF assms(1) True, of 1 alloc] show ?thesis by (auto simp: numeral_2_eq_2)
next
  case False
  then obtain mem where step: "amqp_encode 2 alloc inner buf =
      amqp_encode 1 alloc inner (pn_rwbytes_realloc alloc mem (length bs))"
    using amqp_encode_grows [OF assms(1), of buf 1 alloc] by (auto simp: numeral_2_eq_2)
  obtain space where "mem_realloc alloc mem (length bs) = Some space" "length space = length bs"
    using assms(2) mem_realloc_length [of alloc mem "length bs"] mem_realloc_None_iff [of alloc mem "length bs"]
    by (metis not_None_eq)
  then have "length bs \<le> length (pn_rwbytes_realloc alloc mem (length bs))" by (simp add: pn_rwbytes_realloc_def)
  from amqp_encode_fits [OF assms(1) this, of 0 alloc] step show ?thesis by auto
qed

lemma amqp_encode_no_memory:
  assumes "encodes inner bs" "\<forall>n. alloc n = None" "length buf < length bs"
  shows "amqp_encode n alloc inner buf = None"
  using assms(3)
proof (induction n arbitrary: buf)
  case (Suc n)
  obtain mem where step: "amqp_encode (Suc n) alloc inner buf =
      amqp_encode n alloc inner (pn_rwbytes_realloc alloc mem (length bs))"
    using amqp_encode_grows [OF assms(1) Suc.prems, of n alloc] by blast
  have "mem_realloc alloc mem (length bs) = None" using assms(2) by (simp add: mem_realloc_None_iff)
  then have "pn_rwbytes_realloc alloc mem (length bs) = []" by (simp add: pn_rwbytes_realloc_def)
  moreover have "amqp_encode n alloc inner [] = None" using Suc.prems by (intro Suc.IH) auto
  ultimately show ?case using step by (simp only:)
qed simp

end
