(* ===== verification/Symbol_Arrays.thy ===== *)
theory Symbol_Arrays
  imports Emitters
begin

text \<open>
  Arrays of symbols as the encoders write them (\<open>emit_array\<close>, \<open>emit_counted_symbols\<close>,
  \<open>emit_end_array\<close> of \<open>core/emitters.h\<close>): the size, count and element type are filled in at the end, and
  the 8-bit form gives way to the 32-bit form when it does not fit.
\<close>

section \<open>Arrays of symbols\<close>

definition sym_code :: "byte list list \<Rightarrow> byte" where
  "sym_code syms = (if length syms \<le> 64 \<and> length (concat syms) + length syms < 256 then PNE_SYM8 else PNE_SYM32)"

definition sym_bytes :: "byte list list \<Rightarrow> byte list" where
  "sym_bytes syms =
     (if sym_code syms = PNE_SYM8 then concat (map (\<lambda>s. word_of_nat (length s) # s) syms)
      else concat (map (\<lambda>s. pni_write32 (word_of_nat (length s)) @ s) syms))"

definition enc_sym_array :: "byte list list \<Rightarrow> byte list" where
  "enc_sym_array syms =
     (let bs = sym_bytes syms; n = length syms
      in if length bs + 2 \<le> 255 \<and> n \<le> 255 then
           [PNE_ARRAY8, word_of_nat (length bs + 2), word_of_nat n, sym_code syms] @ bs
         else PNE_ARRAY32 # pni_write32 (word_of_nat (length bs + 5)) @ pni_write32 (word_of_nat n) @ [sym_code syms] @ bs)"

lemma writes_foldl:
  assumes "\<And>s. writes (\<lambda>e. f e s) (g s)"
  shows "emit_wf e \<Longrightarrow> emits e (concat (map g ss)) (foldl f e ss)"
proof (induction ss arbitrary: e)
  case (Cons s ss)
  have 1: "emits e (g s) (f e s)" using assms Cons.prems by (simp add: writes_def)
  from emits_trans [OF 1 Cons.IH [OF emits_wf [OF Cons.prems 1]]] show ?case by simp
qed simp

lemma writes_v8: "writes (\<lambda>e. pni_emitter_writev8 e (Some s)) (word_of_nat (length s) # s)"
  using writes_Cons [of s "word_of_nat (length s)"] by (simp add: pni_emitter_writev8_def write_prims)

lemma writes_v32: "writes (\<lambda>e. pni_emitter_writev32 e (Some s)) (pni_write32 (word_of_nat (length s)) @ s)"
  using writes_seq [OF writes_bytes [of "pni_write32 (word_of_nat (length s))"], of s]
  by (simp add: pni_emitter_writev32_def write_prims)

lemma total_bytes: "foldl (\<lambda>total sym. total + (length sym + 1)) k syms = k + length (concat syms) + length syms"
  by (induction syms arbitrary: k) simp_all

lemma emit_counted_symbols_spec:
  assumes "emit_wf e"
  shows "emits e (sym_bytes syms) (fst (emit_counted_symbols syms (e, c)))"
    "snd (emit_counted_symbols syms (e, c)) = c\<lparr>ctx_type := sym_code syms, ctx_count := ctx_count c + length syms\<rparr>"
proof -
  note v8 = writes_foldl [OF writes_v8 assms, where ss = syms] and v32 = writes_foldl [OF writes_v32 assms, where ss = syms]
  show "emits e (sym_bytes syms) (fst (emit_counted_symbols syms (e, c)))"
    using v8 v32 unfolding emit_counted_symbols_def total_bytes sym_bytes_def sym_code_def by (simp add: Let_def not_le)
  show "snd (emit_counted_symbols syms (e, c)) = c\<lparr>ctx_type := sym_code syms, ctx_count := ctx_count c + length syms\<rparr>"
    unfolding emit_counted_symbols_def total_bytes sym_code_def by (simp add: Let_def)
qed

definition array_header :: "bool \<Rightarrow> byte list" where
  "array_header small = (if small then [PNE_ARRAY8, 0, 0, 0] else PNE_ARRAY32 # pni_write32 0 @ pni_write32 0 @ [0])"

lemma emits_patch3:
  assumes wf: "emit_wf e" and em: "emits e (xs @ ys @ zs @ us @ ws) e2"
    and len: "length ys' = length ys" "length zs' = length zs" "length us' = length us"
  shows "emits e (xs @ ys' @ zs' @ us' @ ws)
    ((emit_bytes us' (emit_bytes zs' (emit_bytes ys' (e2\<lparr>emit_position := emit_position e + length xs\<rparr>))))
       \<lparr>emit_position := emit_position e2\<rparr>)"
proof -
  let ?E = "emit_bytes zs' (emit_bytes ys' (e2\<lparr>emit_position := emit_position e + length xs\<rparr>))"
  let ?P = "?E\<lparr>emit_position := emit_position e2\<rparr>"
  have 1: "emits e (xs @ ys' @ zs' @ us @ ws) ?P" by (rule emits_patch2 [OF wf em len(1,2)])
  have pos: "?P\<lparr>emit_position := emit_position e + length (xs @ ys' @ zs')\<rparr> = ?E"
    by (simp add: emit_bytes_def Let_def)
  have "emits e ((xs @ ys' @ zs') @ us' @ ws)
      ((emit_bytes us' (?P\<lparr>emit_position := emit_position e + length (xs @ ys' @ zs')\<rparr>))\<lparr>emit_position := emit_position ?P\<rparr>)"
    using 1 by (intro emits_patch [OF wf _ len(3)]) simp
  then show ?thesis unfolding pos by simp
qed

lemma emit_array_spec:
  assumes "emit_wf e"
  shows "\<exists>e1 e2. emits e (pending c) e1 \<and> emits e1 (array_header small) e2 \<and>
    emit_array small (e, c) =
      (e2, open_compound (emit_position e1 + 1) (emit_position e1 + (if small then 2 else 5)) False,
       c\<lparr>ctx_count := ctx_count c + null_count c, null_count := 0\<rparr>)"
proof -
  note nulls = accumulated_nulls_spec [OF assms, of c]
  obtain e1 where e1: "emit_accumulated_nulls (e, c) =
      (e1, c\<lparr>ctx_count := ctx_count c + null_count c, null_count := 0\<rparr>)"
    using nulls(2) by (metis prod.collapse)
  have wf: "emit_wf e1" using nulls(3) e1 by simp
  let ?e2 = "emit_bytes [0] (emit_bytes [0] (emit_bytes [0] (emit_bytes [PNE_ARRAY8] e1)))"
  let ?e2' = "emit_bytes [0] (emit_bytes (pni_write32 0) (emit_bytes (pni_write32 0) (emit_bytes [PNE_ARRAY32] e1)))"
  have small: "emits e1 [PNE_ARRAY8, 0, 0, 0] ?e2"
    using writes_seq [OF writes_seq [OF writes_Cons [of "[0]" PNE_ARRAY8], of "[0]"], of "[0]"] wf by (simp add: writes_def)
  have large: "emits e1 (PNE_ARRAY32 # pni_write32 0 @ pni_write32 0 @ [0]) ?e2'"
    using writes_seq [OF writes_seq [OF writes_Cons [of "pni_write32 0" PNE_ARRAY32], of "pni_write32 0"], of "[0]"] wf
    by (simp add: writes_def)
  have pos: "emit_position (emit_bytes bs e') = emit_position e' + length bs" for bs e'
    by (simp add: emit_bytes_def Let_def)
  show ?thesis
  proof (intro exI conjI)
    show "emits e (pending c) e1" using nulls(1) e1 by simp
    show "emits e1 (array_header small) (if small then ?e2 else ?e2')"
      using small large by (simp add: array_header_def)
  qed (simp add: emit_array_def e1 write_prims pos Let_def add.commute)
qed

lemma end_array_fail:
  assumes "emits e1 (array_header True @ bs) e3" "length bs + 2 > 255 \<or> ctx_count c > 255"
    "size_position c = emit_position e1 + 1" "start_position c = emit_position e1 + 2"
  shows "\<exists>e4. emit_end_array True (e3, c, p) = (e4, c\<lparr>encoding_succeeded := False\<rparr>, p) \<and> emits e1 [] e4"
proof -
  have "emit_position e3 = emit_position e1 + 4 + length bs"
    using assms(1) by (simp add: emits_def array_header_def)
  with emits_rewind [OF assms(1)] assms(2-4) show ?thesis by (simp add: emit_end_array_def Let_def)
qed

lemma end_array_small:
  assumes wf: "emit_wf e1" and em: "emits e1 (array_header True @ bs) e3"
    and n: "length bs + 2 \<le> 255" "ctx_count c \<le> 255"
    and pos: "size_position c = emit_position e1 + 1" "start_position c = emit_position e1 + 2"
  shows "\<exists>e4. emit_end_array True (e3, c, p) =
      (e4, c\<lparr>encoding_succeeded := True\<rparr>, p\<lparr>ctx_count := ctx_count p + 1\<rparr>) \<and>
    emits e1 ([PNE_ARRAY8, word_of_nat (length bs + 2), word_of_nat (ctx_count c), ctx_type c] @ bs) e4"
proof -
  have pos3: "emit_position e3 = emit_position e1 + 4 + length bs"
    using em by (simp add: emits_def array_header_def)
  have "emits e1 ([PNE_ARRAY8] @ [0] @ [0] @ [0] @ bs) e3" using em by (simp add: array_header_def)
  from emits_patch3 [OF wf this, of "[word_of_nat (length bs + 2)]" "[word_of_nat (ctx_count c)]" "[ctx_type c]"]
  show ?thesis using n pos pos3 by (simp add: emit_end_array_def write_prims Let_def add.commute)
qed

lemma end_array_large:
  assumes wf: "emit_wf e1" and em: "emits e1 (array_header False @ bs) e3"
    and pos: "size_position c = emit_position e1 + 1" "start_position c = emit_position e1 + 5"
  shows "\<exists>e4. emit_end_array False (e3, c, p) =
      (e4, c\<lparr>encoding_succeeded := True\<rparr>, p\<lparr>ctx_count := ctx_count p + 1\<rparr>) \<and>
    emits e1 (PNE_ARRAY32 # pni_write32 (word_of_nat (length bs + 5)) @ pni_write32 (word_of_nat (ctx_count c)) @
      [ctx_type c] @ bs) e4"
proof -
  have pos3: "emit_position e3 = emit_position e1 + 10 + length bs"
    using em by (simp add: emits_def array_header_def)
  have "emits e1 ([PNE_ARRAY32] @ pni_write32 0 @ pni_write32 0 @ [0] @ bs) e3" using em by (simp add: array_header_def)
  from emits_patch3 [OF wf this, of "pni_write32 (word_of_nat (length bs + 5))" "pni_write32 (word_of_nat (ctx_count c))"
      "[ctx_type c]"]
  show ?thesis using pos pos3 by (simp add: emit_end_array_def write_prims Let_def add.commute)
qed

lemma array_attempt:
  assumes "emit_wf e"
  shows "\<exists>e1 e3 c. emits e (pending p) e1 \<and> emits e1 (array_header small @ sym_bytes syms) e3 \<and>
    ctx_count c = length syms \<and> ctx_type c = sym_code syms \<and>
    size_position c = emit_position e1 + 1 \<and> start_position c = emit_position e1 + (if small then 2 else 5) \<and>
    emit_array_attempts (Suc k) small (emit_counted_symbols syms) (e, p) =
      (let (e, c, p) = emit_end_array small (e3, c, p\<lparr>ctx_count := ctx_count p + null_count p, null_count := 0\<rparr>)
       in if encoding_succeeded c then Some (e, p) else emit_array_attempts k False (emit_counted_symbols syms) (e, p))"
proof -
  obtain e1 e2 where e2: "emits e (pending p) e1" "emits e1 (array_header small) e2"
    "emit_array small (e, p) =
      (e2, open_compound (emit_position e1 + 1) (emit_position e1 + (if small then 2 else 5)) False,
       p\<lparr>ctx_count := ctx_count p + null_count p, null_count := 0\<rparr>)"
    using emit_array_spec [OF assms] by blast
  let ?c = "open_compound (emit_position e1 + 1) (emit_position e1 + (if small then 2 else 5)) False"
  have wf2: "emit_wf e2" using emits_wf [OF emits_wf [OF assms e2(1)] e2(2)] .
  obtain e3 c3 where body: "emit_counted_symbols syms (e2, ?c) = (e3, c3)" by force
  have b: "emits e2 (sym_bytes syms) e3" "c3 = ?c\<lparr>ctx_type := sym_code syms, ctx_count := ctx_count ?c + length syms\<rparr>"
    using emit_counted_symbols_spec [OF wf2, of syms ?c] body by auto
  from emits_trans [OF e2(2) b(1)] e2(1,3) body show ?thesis
    by (intro exI [of _ e1] exI [of _ e3] exI [of _ c3])
      (simp add: encode_succeeded_def b(2) open_compound_def make_compound_def)
qed

lemma emit_symbol_array_spec:
  assumes wf: "emit_wf e"
  shows "\<exists>e'. emit_symbol_array syms (e, p) = Some (e', counted p) \<and> emits e (pending p @ enc_sym_array syms) e'"
proof -
  let ?p = "p\<lparr>ctx_count := ctx_count p + null_count p, null_count := 0\<rparr>" and ?body = "emit_counted_symbols syms"
  have counted: "?p\<lparr>ctx_count := ctx_count ?p + 1\<rparr> = counted p" by (simp add: counted_def)
  obtain e1 e3 c where e1: "emits e (pending p) e1" and e3: "emits e1 (array_header True @ sym_bytes syms) e3"
    and n: "ctx_count c = length syms" "ctx_type c = sym_code syms"
    and pos: "size_position c = emit_position e1 + 1" "start_position c = emit_position e1 + 2"
    and run: "emit_symbol_array syms (e, p) =
      (let (e, c, p) = emit_end_array True (e3, c, ?p)
       in if encoding_succeeded c then Some (e, p) else emit_array_attempts 1 False ?body (e, p))"
    using array_attempt [OF wf, of p True syms 1] unfolding emit_symbol_array_def numeral_2_eq_2 One_nat_def by auto
  have wf1: "emit_wf e1" by (rule emits_wf [OF wf e1])
  show ?thesis
  proof (cases "length (sym_bytes syms) + 2 \<le> 255 \<and> length syms \<le> 255")
    case True
    with end_array_small [OF wf1 e3, of c ?p] n pos obtain e4 where
      "emit_end_array True (e3, c, ?p) = (e4, c\<lparr>encoding_succeeded := True\<rparr>, counted p)"
      "emits e1 ([PNE_ARRAY8, word_of_nat (length (sym_bytes syms) + 2), word_of_nat (length syms), sym_code syms] @
        sym_bytes syms) e4"
      unfolding counted by auto
    with run emits_trans [OF e1 this(2)] True show ?thesis by (simp add: enc_sym_array_def Let_def)
  next
    case False
    with end_array_fail [OF e3, of c ?p] n pos obtain e4 where
      e4: "emit_end_array True (e3, c, ?p) = (e4, c\<lparr>encoding_succeeded := False\<rparr>, ?p)" "emits e1 [] e4" by auto
    have wf4: "emit_wf e4" by (rule emits_wf [OF wf1 e4(2)])
    obtain f1 f3 d where f1: "emits e4 (pending ?p) f1" and f3: "emits f1 (array_header False @ sym_bytes syms) f3"
      and d: "ctx_count d = length syms" "ctx_type d = sym_code syms"
        "size_position d = emit_position f1 + 1" "start_position d = emit_position f1 + 5"
      and run2: "emit_array_attempts 1 False ?body (e4, ?p) =
        (let (e, c, p) = emit_end_array False (f3, d, ?p\<lparr>ctx_count := ctx_count ?p + null_count ?p, null_count := 0\<rparr>)
         in if encoding_succeeded c then Some (e, p) else emit_array_attempts 0 False ?body (e, p))"
      using array_attempt [OF wf4, of ?p False syms 0] unfolding One_nat_def by auto
    have same: "?p\<lparr>ctx_count := ctx_count ?p + null_count ?p, null_count := 0\<rparr> = ?p" by simp
    have "pending ?p = []" by (simp add: pending_def)
    then have ef1: "emits e (pending p) f1" using emits_trans [OF e1 e4(2)] emits_trans [OF _ f1] by fastforce
    have wff1: "emit_wf f1" by (rule emits_wf [OF wf ef1])
    from end_array_large [OF wff1 f3, of d ?p] d obtain f4 where
      "emit_end_array False (f3, d, ?p) = (f4, d\<lparr>encoding_succeeded := True\<rparr>, counted p)"
      "emits f1 (PNE_ARRAY32 # pni_write32 (word_of_nat (length (sym_bytes syms) + 5)) @
        pni_write32 (word_of_nat (length syms)) @ [sym_code syms] @ sym_bytes syms) f4"
      unfolding counted by auto
    with run e4(1) run2 emits_trans [OF ef1 this(2)] False show ?thesis
      unfolding same by (auto simp: enc_sym_array_def Let_def)
  qed
qed

end
