(* ===== verification/Codec_Roundtrip.thy ===== *)
theory Codec_Roundtrip
  imports Consumers Symbol_Arrays
begin

text \<open>
  The value writer (\<open>core/emitters.h\<close>) and the value reader (\<open>core/consumers.h\<close>) are inverse: what
  one encodes the other reads back, consuming exactly the bytes that were written.
\<close>

section \<open>Scalars\<close>

lemma small_cast:
  fixes u :: "'a::len word"
  assumes "unat u < 256"
  shows "ucast (ucast u :: byte) = u"
proof -
  have "unat (take_bit 8 u) = unat u" using assms by (simp add: unsigned_take_bit_eq take_bit_nat_eq_self)
  then have "take_bit 8 u = u" by (rule unsigned_word_eqI)
  moreover have "ucast (ucast u :: byte) = take_bit 8 u" by (rule bit_word_eqI) (auto simp: bit_simps)
  ultimately show ?thesis by simp
qed

lemma small_cast32: "u < 256 \<Longrightarrow> ucast (ucast u :: byte) = (u :: u32)"
  by (rule small_cast) (simp add: word_less_nat_alt)

lemma small_cast64: "u < 256 \<Longrightarrow> ucast (ucast u :: byte) = (u :: u64)"
  by (rule small_cast) (simp add: word_less_nat_alt)

lemma if_read_Some: "m c = (Some x, c') \<Longrightarrow> if_read m k c = k x c'"
  by (simp add: if_read_def)

lemma readf64_be64:
  "cons_wf c \<Longrightarrow> rest c = enc_be64 v @ ys \<Longrightarrow> pni_consumer_readf64 c = (Some v, cons_advance 8 c)"
  using readf64_write [of c v ys] by (simp add: enc_be64_def)

lemma length_be64 [simp]: "length (enc_be64 v) = 8"
  by (simp add: enc_be64_def)

text \<open>Reading the type byte of an encoding leaves the reader at its operand.\<close>

lemma typed_read:
  assumes "cons_wf c" "rest c = t # bs"
  obtains c1 where "\<And>k :: byte \<Rightarrow> 'a reader. if_read pni_consumer_readf8 k c = k t c1" "cons_wf c1" "rest c1 = bs"
    "\<And>n. cons_advance n c1 = cons_advance (1 + n) c"
  using if_readf8_Cons [OF assms] by (intro that [of "cons_advance 1 c"]) simp_all

lemma consume_ubyte_enc:
  assumes "cons_wf c" "rest c = PNE_UBYTE # b # ys"
  shows "consume_ubyte c = (Some b, cons_advance 2 c)"
proof -
  obtain c1 where 1: "\<And>k :: byte \<Rightarrow> byte reader. if_read pni_consumer_readf8 k c = k PNE_UBYTE c1" "cons_wf c1"
    "rest c1 = b # ys" "\<And>n. cons_advance n c1 = cons_advance (1 + n) c" using typed_read [OF assms] by blast
  show ?thesis unfolding consume_ubyte_def 1(1) using readf8_Cons [OF 1(2,3)] 1(4) [of 1] by (simp add: numeral_2_eq_2)
qed

lemma consume_ushort_enc:
  assumes "cons_wf c" "rest c = (PNE_USHORT # pni_write16 u) @ ys"
  shows "consume_ushort c = (Some u, cons_advance 3 c)"
proof -
  have "rest c = PNE_USHORT # pni_write16 u @ ys" using assms(2) by simp
  then obtain c1 where 1: "\<And>k :: byte \<Rightarrow> u16 reader. if_read pni_consumer_readf8 k c = k PNE_USHORT c1" "cons_wf c1"
    "rest c1 = pni_write16 u @ ys" "\<And>n. cons_advance n c1 = cons_advance (1 + n) c"
    using typed_read [OF assms(1)] by blast
  show ?thesis unfolding consume_ushort_def 1(1) using readf16_write [OF 1(2,3)] 1(4) [of 2] by (simp add: numeral_3_eq_3)
qed

lemma consume_bool_enc:
  assumes "cons_wf c" "rest c = enc_bool b @ ys"
  shows "consume_bool c = (Some b, cons_advance 1 c)"
proof -
  have "rest c = (if b then PNE_TRUE else PNE_FALSE) # ys" using assms(2) by (simp add: enc_bool_def)
  then show ?thesis unfolding consume_bool_def if_readf8_Cons(1) [OF assms(1) \<open>rest c = _ # ys\<close>]
    by (simp add: give_def)
qed

lemma consume_uint_enc:
  assumes "cons_wf c" "rest c = enc_uint u @ ys"
  shows "consume_uint c = (Some u, cons_advance (length (enc_uint u)) c)"
proof -
  consider "u = 0" | "u \<noteq> 0" "u < 256" | "u \<noteq> 0" "\<not> u < 256" by blast
  then show ?thesis
  proof cases
    case 1
    then have r: "rest c = PNE_UINT0 # ys" using assms(2) by (simp add: enc_uint_def)
    show ?thesis unfolding consume_uint_def if_readf8_Cons(1) [OF assms(1) r] using 1 by (simp add: give_def enc_uint_def)
  next
    case 2
    then have r: "rest c = PNE_SMALLUINT # ucast u # ys" using assms(2) by (simp add: enc_uint_def)
    note 1 = if_readf8_Cons [OF assms(1) r]
    note 3 = if_readf8_Cons(1) [OF 1(2,3)]
    show ?thesis unfolding consume_uint_def 1(1)
      using 2 by (simp add: 3 [simplified] give_def enc_uint_def small_cast32)
  next
    case 3
    then have r: "rest c = PNE_UINT # pni_write32 u @ ys" using assms(2) by (simp add: enc_uint_def)
    note 1 = if_readf8_Cons [OF assms(1) r]
    show ?thesis unfolding consume_uint_def 1(1) using 3 readf32_write [OF 1(2,3)] by (simp add: enc_uint_def)
  qed
qed

lemma consume_ulong_small:
  assumes "cons_wf c" "rest c = PNE_SMALLULONG # ucast u # ys" "u < 256"
  shows "consume_ulong c = (Some u, cons_advance 2 c)"
proof -
  note 1 = if_readf8_Cons [OF assms(1,2)]
  note 3 = if_readf8_Cons(1) [OF 1(2,3)]
  show ?thesis unfolding consume_ulong_def 1(1)
    using assms(3) by (simp add: 3 [simplified] give_def small_cast64 numeral_2_eq_2)
qed

lemma consume_ulong_large:
  assumes "cons_wf c" "rest c = PNE_ULONG # enc_be64 u @ ys"
  shows "consume_ulong c = (Some u, cons_advance 9 c)"
proof -
  note 1 = if_readf8_Cons [OF assms]
  show ?thesis unfolding consume_ulong_def 1(1) using readf64_be64 [OF 1(2,3)] by simp
qed

lemma consume_ulong_enc:
  assumes "cons_wf c" "rest c = enc_ulong u @ ys"
  shows "consume_ulong c = (Some u, cons_advance (length (enc_ulong u)) c)"
proof -
  consider "u = 0" | "u \<noteq> 0" "u < 256" | "u \<noteq> 0" "\<not> u < 256" by blast
  then show ?thesis
  proof cases
    case 1
    then have r: "rest c = PNE_ULONG0 # ys" using assms(2) by (simp add: enc_ulong_def)
    show ?thesis unfolding consume_ulong_def if_readf8_Cons(1) [OF assms(1) r] using 1 by (simp add: give_def enc_ulong_def)
  next
    case 2
    then show ?thesis using assms consume_ulong_small [OF assms(1), of u ys] by (simp add: enc_ulong_def numeral_2_eq_2)
  next
    case 3
    then show ?thesis using assms consume_ulong_large [OF assms(1), of u ys] by (simp add: enc_ulong_def)
  qed
qed

lemma consume_timestamp_enc:
  assumes "cons_wf c" "rest c = (PNE_MS64 # enc_be64 t) @ ys"
  shows "consume_timestamp c = (Some t, cons_advance 9 c)"
proof -
  have r: "rest c = PNE_MS64 # enc_be64 t @ ys" using assms(2) by simp
  note 1 = if_readf8_Cons [OF assms(1) r]
  show ?thesis unfolding consume_timestamp_def 1(1) using readf64_be64 [OF 1(2,3)] by simp
qed

section \<open>Strings, symbols and binaries\<close>

lemma consume_var_enc:
  assumes "cons_wf c" "rest c = enc_var code8 code32 bs @ ys" "length bs < 2 ^ 32"
    and k8: "k code8 = pni_consumer_readv8" and k32: "k code32 = pni_consumer_readv32"
  shows "if_read pni_consumer_readf8 k c = (Some (Some bs), cons_advance (length (enc_var code8 code32 bs)) c)"
proof (cases "length bs < 256")
  case True
  then have r: "rest c = code8 # word_of_nat (length bs) # bs @ ys" using assms(2) by (simp add: enc_var_def)
  note 1 = if_readf8_Cons [OF assms(1) r]
  from readv8_append [OF 1(2,3) True] True show ?thesis unfolding 1(1) k8 by (simp add: enc_var_def)
next
  case False
  then have r: "rest c = code32 # pni_write32 (word_of_nat (length bs)) @ bs @ ys" using assms(2) by (simp add: enc_var_def)
  note 1 = if_readf8_Cons [OF assms(1) r]
  from readv32_append [OF 1(2,3) assms(3)] False show ?thesis unfolding 1(1) k32 by (simp add: enc_var_def)
qed

lemma consume_bytes_enc:
  assumes "cons_wf c" "length bs < 2 ^ 32"
  shows "rest c = enc_var PNE_STR8_UTF8 PNE_STR32_UTF8 bs @ ys \<Longrightarrow>
      consume_string c = (Some (Some bs), cons_advance (length (enc_var PNE_STR8_UTF8 PNE_STR32_UTF8 bs)) c)"
    "rest c = enc_var PNE_SYM8 PNE_SYM32 bs @ ys \<Longrightarrow>
      consume_symbol c = (Some (Some bs), cons_advance (length (enc_var PNE_SYM8 PNE_SYM32 bs)) c)"
    "rest c = enc_var PNE_VBIN8 PNE_VBIN32 bs @ ys \<Longrightarrow>
      consume_binarynonull c = (Some (Some bs), cons_advance (length (enc_var PNE_VBIN8 PNE_VBIN32 bs)) c)"
    "rest c = enc_var PNE_VBIN8 PNE_VBIN32 bs @ ys \<Longrightarrow>
      consume_binaryornull c = (Some (Some bs), cons_advance (length (enc_var PNE_VBIN8 PNE_VBIN32 bs)) c)"
  unfolding consume_string_def consume_symbol_def consume_binarynonull_def consume_binaryornull_def
  by (rule consume_var_enc [OF assms(1) _ assms(2)], assumption, simp_all)+

section \<open>Atoms\<close>

text \<open>The atoms that \<open>emit_atom\<close> does not turn into null, with values in the range of the encodings.\<close>

fun atom_ok :: "pn_atom \<Rightarrow> bool" where
  "atom_ok PN_NULL = True"
| "atom_ok (PN_BOOL b) = True"
| "atom_ok (PN_UBYTE b) = True"
| "atom_ok (PN_USHORT u) = True"
| "atom_ok (PN_UINT u) = True"
| "atom_ok (PN_ULONG u) = True"
| "atom_ok (PN_TIMESTAMP t) = True"
| "atom_ok (PN_UUID u) = (length u = 16)"
| "atom_ok (PN_BINARY bs) = (bs \<noteq> None \<and> bytes_size bs < 2 ^ 32)"
| "atom_ok (PN_STRING bs) = (bs \<noteq> None \<and> bytes_size bs < 2 ^ 32)"
| "atom_ok (PN_SYMBOL bs) = (bs \<noteq> None \<and> bytes_size bs < 2 ^ 32)"
| "atom_ok _ = False"

text \<open>What a typed reader accepts, \<open>consume_atom\<close> reads as an atom of that type.\<close>

lemma typed_atom:
  assumes "if_read pni_consumer_readf8 k c = (Some v, c')"
    and "\<And>t c1. k t c1 = (Some v, c') \<Longrightarrow> k' t c1 = (Some (F v), c')"
  shows "if_read pni_consumer_readf8 k' c = (Some (F v), c')"
  using assms by (auto simp: if_read_def split: prod.splits option.splits)

lemma atom_scalars:
  "consume_bool c = (Some b, c') \<Longrightarrow> consume_atom c = (Some (PN_BOOL b), c')"
  "consume_ubyte c = (Some x, c') \<Longrightarrow> consume_atom c = (Some (PN_UBYTE x), c')"
  "consume_ushort c = (Some us, c') \<Longrightarrow> consume_atom c = (Some (PN_USHORT us), c')"
  "consume_uint c = (Some ui, c') \<Longrightarrow> consume_atom c = (Some (PN_UINT ui), c')"
  "consume_ulong c = (Some ul, c') \<Longrightarrow> consume_atom c = (Some (PN_ULONG ul), c')"
  "consume_timestamp c = (Some ts, c') \<Longrightarrow> consume_atom c = (Some (PN_TIMESTAMP ts), c')"
  unfolding consume_bool_def consume_ubyte_def consume_ushort_def consume_uint_def consume_ulong_def
    consume_timestamp_def consume_atom_def
  by (erule typed_atom, simp add: give_def skip_and_fail_def if_read_def split: if_splits prod.splits option.splits)+

lemma atom_vars:
  "consume_string c = (Some bs, c') \<Longrightarrow> consume_atom c = (Some (PN_STRING bs), c')"
  "consume_symbol c = (Some bs, c') \<Longrightarrow> consume_atom c = (Some (PN_SYMBOL bs), c')"
  "consume_binarynonull c = (Some bs, c') \<Longrightarrow> consume_atom c = (Some (PN_BINARY bs), c')"
  unfolding consume_string_def consume_symbol_def consume_binarynonull_def consume_atom_def
  by (erule typed_atom, simp add: give_def skip_and_fail_def if_read_def split: if_splits prod.splits option.splits)+

lemma consume_atom_uuid:
  assumes "cons_wf c" "rest c = (PNE_UUID # u) @ ys" "length u = 16"
  shows "consume_atom c = (Some (PN_UUID u), cons_advance 17 c)"
proof -
  have r: "rest c = PNE_UUID # u @ ys" using assms(2) by simp
  note 1 = if_readf8_Cons [OF assms(1) r]
  show ?thesis unfolding consume_atom_def 1(1) using readf128_append [OF 1(2,3) assms(3)]
    by (simp add: if_read_Some give_def)
qed

lemma consume_atom_null:
  assumes "cons_wf c" "rest c = PNE_NULL # ys"
  shows "consume_atom c = (Some PN_NULL, cons_advance 1 c)"
  unfolding consume_atom_def if_readf8_Cons(1) [OF assms] by (simp add: give_def)

lemma consume_atom_enc:
  assumes "cons_wf c" "rest c = field_bytes (atom_field a) @ ys" "atom_ok a"
  shows "consume_atom c = (Some a, cons_advance (length (field_bytes (atom_field a))) c)"
proof (cases a)
  case PN_NULL
  then show ?thesis using consume_atom_null [OF assms(1), of ys] assms(2) by (simp add: field_bytes_def)
next
  case (PN_BOOL b)
  then show ?thesis using atom_scalars(1) [OF consume_bool_enc [OF assms(1), of b ys]] assms(2)
    by (simp add: field_bytes_def enc_bool_def)
next
  case (PN_UBYTE b)
  then show ?thesis using atom_scalars(2) [OF consume_ubyte_enc [OF assms(1), of b ys]] assms(2)
    by (simp add: field_bytes_def numeral_2_eq_2)
next
  case (PN_USHORT u)
  then show ?thesis using atom_scalars(3) [OF consume_ushort_enc [OF assms(1), of u ys]] assms(2)
    by (simp add: field_bytes_def numeral_3_eq_3)
next
  case (PN_UINT u)
  then show ?thesis using atom_scalars(4) [OF consume_uint_enc [OF assms(1), of u ys]] assms(2)
    by (simp add: field_bytes_def)
next
  case (PN_ULONG u)
  then show ?thesis using atom_scalars(5) [OF consume_ulong_enc [OF assms(1), of u ys]] assms(2)
    by (simp add: field_bytes_def)
next
  case (PN_TIMESTAMP t)
  then show ?thesis using atom_scalars(6) [OF consume_timestamp_enc [OF assms(1), of t ys]] assms(2)
    by (simp add: field_bytes_def)
next
  case (PN_UUID u)
  then show ?thesis using consume_atom_uuid [OF assms(1), of u ys] assms(2,3) by (simp add: field_bytes_def)
next
  case (PN_BINARY bs)
  then show ?thesis using atom_vars(3) [OF consume_bytes_enc(3) [OF assms(1)]] assms(2,3)
    by (auto simp: field_bytes_def)
next
  case (PN_STRING bs)
  then show ?thesis using atom_vars(1) [OF consume_bytes_enc(1) [OF assms(1)]] assms(2,3)
    by (auto simp: field_bytes_def)
next
  case (PN_SYMBOL bs)
  then show ?thesis using atom_vars(2) [OF consume_bytes_enc(2) [OF assms(1)]] assms(2,3)
    by (auto simp: field_bytes_def)
qed (use assms(3) in simp_all)

section \<open>Lists\<close>

text \<open>
  Reading the fields of a list in turn, as the generated decoders do: a field that is missing at the
  end (the reader fails) is null.
\<close>

fun read_fields :: "nat \<Rightarrow> pni_consumer \<Rightarrow> pn_atom list" where
  "read_fields 0 c = []"
| "read_fields (Suc n) c =
     (case consume_atom c of
        (None, c) \<Rightarrow> PN_NULL # read_fields n c
      | (Some a, c) \<Rightarrow> a # read_fields n c)"

lemma consume_atom_end:
  assumes "cons_wf c" "rest c = []"
  shows "\<exists>c'. consume_atom c = (None, c') \<and> cons_wf c' \<and> rest c' = []"
proof -
  have "pni_consumer_readf8 c = cons_fail c" using assms by (simp add: readf8_rest)
  then show ?thesis
    using cons_fail_props [of c] advances_wf [OF assms(1)] assms
    by (auto simp: consume_atom_def if_read_def cons_fail_def)
qed

lemma read_fields_end: "cons_wf c \<Longrightarrow> rest c = [] \<Longrightarrow> read_fields n c = replicate n PN_NULL"
proof (induction n arbitrary: c)
  case (Suc n)
  with consume_atom_end [OF Suc.prems] show ?case by auto
qed simp

lemma atom_ok_null: "atom_ok a \<Longrightarrow> atom_field a = None \<longleftrightarrow> a = PN_NULL"
  by (cases a) auto

lemma all_null:
  assumes "\<forall>a\<in>set atoms. atom_ok a" "trim_nulls (map atom_field atoms) = []"
  shows "atoms = replicate (length atoms) PN_NULL"
  using assms by (intro replicate_eqI) (auto simp: trim_nulls_eq_Nil atom_ok_null)

lemma read_fields_enc:
  assumes "cons_wf c" "rest c = fields_bytes (map atom_field atoms)" "\<forall>a\<in>set atoms. atom_ok a"
  shows "read_fields (length atoms) c = atoms"
  using assms
proof (induction atoms arbitrary: c)
  case (Cons a atoms)
  show ?case
  proof (cases "trim_nulls (map atom_field (a # atoms)) = []")
    case True
    then have "rest c = []" using Cons.prems(2) by (simp add: fields_bytes_def)
    with read_fields_end [OF Cons.prems(1)] all_null [OF Cons.prems(3) True] show ?thesis by metis
  next
    case False
    then have r: "rest c = field_bytes (atom_field a) @ fields_bytes (map atom_field atoms)"
      using Cons.prems(2) by (auto simp: fields_bytes_def split: if_splits)
    let ?c = "cons_advance (length (field_bytes (atom_field a))) c"
    have "consume_atom c = (Some a, ?c)" using consume_atom_enc [OF Cons.prems(1) r] Cons.prems(3) by simp
    moreover have "cons_wf ?c" using r by (intro wf_advance [OF Cons.prems(1)]) simp
    moreover have "rest ?c = fields_bytes (map atom_field atoms)" using r by (simp add: rest_advance)
    ultimately show ?thesis using Cons.IH [of ?c] Cons.prems(3) by simp
  qed
qed simp

text \<open>Skipping and opening an encoded list.\<close>

definition list_fits :: "nat \<Rightarrow> byte list \<Rightarrow> bool" where
  "list_fits n bs \<longleftrightarrow> (n = 0 \<longrightarrow> bs = []) \<and> n < 2 ^ 32 \<and> length bs + 4 < 2 ^ 32"

lemma skip_var:
  "drop_bit 4 t = 0xC \<Longrightarrow> pni_consumer_skip_value_not_described t c = if_read pni_consumer_readv8 (\<lambda>_. give ()) c"
  "drop_bit 4 t = 0xD \<Longrightarrow> pni_consumer_skip_value_not_described t c = if_read pni_consumer_readv32 (\<lambda>_. give ()) c"
  by (simp_all add: pni_consumer_skip_value_not_described_def pni_consumer_read_value_not_described_def
      pni_consumer_readv8_def pni_consumer_readv32_def if_read_def give_def Let_def)

lemma skip_list_enc:
  assumes "cons_wf c" "rest c = enc_list n bs @ ys" "list_fits n bs"
  shows "consume_single_value c = ((True, Some (hd (enc_list n bs))), cons_advance (length (enc_list n bs)) c)"
proof -
  consider "n = 0" | "n \<noteq> 0" "length bs + 1 \<le> 255 \<and> n \<le> 255" | "n \<noteq> 0" "\<not> (length bs + 1 \<le> 255 \<and> n \<le> 255)" by blast
  then show ?thesis
  proof cases
    case 1
    then have r: "rest c = PNE_LIST0 # ys" using assms(2) by (simp add: enc_list_def)
    show ?thesis unfolding consume_single_value_def readf8_Cons [OF assms(1) r]
      using 1 by (simp add: skip_fixed enc_list_def)
  next
    case 2
    then have r: "rest c = PNE_LIST8 # word_of_nat (length (word_of_nat n # bs)) # (word_of_nat n # bs) @ ys"
      using assms(2) by (simp add: enc_list_def add.commute)
    note 1 = if_readf8_Cons(2,3) [OF assms(1) r]
    from readv8_append [OF 1] 2 show ?thesis
      unfolding consume_single_value_def readf8_Cons [OF assms(1) r]
      by (simp add: skip_var if_read_Some give_def enc_list_def)
  next
    case 3
    then have r: "rest c = PNE_LIST32 # pni_write32 (word_of_nat (length (pni_write32 (word_of_nat n) @ bs))) @
        (pni_write32 (word_of_nat n) @ bs) @ ys"
      using assms(2) by (auto simp: enc_list_def add.commute)
    note 1 = if_readf8_Cons(2,3) [OF assms(1) r]
    have len: "length (pni_write32 (word_of_nat n) @ bs) < 2 ^ 32" using assms(3) by (simp add: list_fits_def)
    from readv32_append [OF 1 len] 3 show ?thesis
      unfolding consume_single_value_def readf8_Cons [OF assms(1) r]
      by (auto simp: skip_var if_read_Some give_def enc_list_def)
  qed
qed

lemma advance_prefix:
  assumes "cons_wf c" "rest c = xs @ ys"
  shows "cons_wf (cons_advance (length xs) c)" "rest (cons_advance (length xs) c) = ys"
    "advances c (cons_advance (length xs) c)"
  using assms by (auto intro!: wf_advance advances_advance simp: rest_advance)

lemma clamp_sub_all:
  assumes "cons_wf c" "rest c = xs @ ys"
  shows "\<exists>sub. clamp_sub (length xs) c = (sub, cons_advance (length xs) c) \<and> cons_wf sub \<and> rest sub = xs"
proof -
  have len: "length xs \<le> cons_size c - cons_position c" using length_rest [OF assms(1)] assms(2) by simp
  let ?sub = "sub_consumer c (cons_position c) (length xs)"
  have "clamp_sub (length xs) c = (?sub, cons_advance (length xs) c)"
    using len by (auto simp: clamp_sub_def Let_def)
  moreover have "cons_slice c (cons_position c) (length xs) = xs"
    using slice_rest [OF assms(1), of "length xs"] assms(2) by simp
  then have "rest ?sub = xs" by (simp add: sub_consumer_def rest_def cons_slice_def)
  moreover have "cons_wf ?sub" using len assms(1) by (auto simp: cons_wf_def sub_consumer_def)
  ultimately show ?thesis by blast
qed

lemma consume_list_enc:
  assumes "cons_wf c" "rest c = enc_list n bs @ ys" "list_fits n bs"
  shows "\<exists>sub. consume_list c = ((True, sub, word_of_nat n), cons_advance (length (enc_list n bs)) c) \<and>
    cons_wf sub \<and> rest sub = bs"
proof -
  consider "n = 0" | "n \<noteq> 0" "length bs + 1 \<le> 255 \<and> n \<le> 255" | "n \<noteq> 0" "\<not> (length bs + 1 \<le> 255 \<and> n \<le> 255)" by blast
  then show ?thesis
  proof cases
    case 1
    then have r: "rest c = PNE_LIST0 # ys" using assms(2) by (simp add: enc_list_def)
    have null: "cons_wf null_consumer" "rest null_consumer = []"
      by (simp_all add: null_consumer_def cons_wf_def rest_def)
    show ?thesis unfolding consume_list_def readf8_Cons [OF assms(1) r]
      using 1 null assms(3) by (simp add: enc_list_def list_fits_def)
  next
    case 2
    let ?xs = "word_of_nat n # bs"
    have r: "rest c = PNE_LIST8 # word_of_nat (length ?xs) # ?xs @ ys"
      using assms(2) 2 by (simp add: enc_list_def add.commute)
    note 1 = if_readf8_Cons(2,3) [OF assms(1) r]
    note 3 = if_readf8_Cons(2,3) [OF 1]
    have len: "length ?xs < 256" using 2 by simp
    obtain sub where sub: "clamp_sub (length ?xs) (cons_advance 1 (cons_advance 1 c)) =
        (sub, cons_advance (length ?xs) (cons_advance 1 (cons_advance 1 c)))" "cons_wf sub" "rest sub = ?xs"
      using clamp_sub_all [OF 3(1), of ?xs ys] 3(2) by auto
    have un: "unat (word_of_nat (length ?xs) :: byte) = length ?xs" using len by (intro unat_word_of_nat) simp
    have "unat (word_of_nat n :: byte) = n" using 2 by (intro unat_word_of_nat) simp
    then have uc: "ucast (word_of_nat n :: byte) = (word_of_nat n :: u32)" by (metis of_nat_unat)
    have "consume_list c = ((True, cons_advance 1 sub, word_of_nat n), cons_advance (length ?xs) (cons_advance 1 (cons_advance 1 c)))"
      unfolding consume_list_def readf8_Cons [OF assms(1) r] using un
      by (simp add: readf8_Cons [OF 1, simplified] sub(1) [simplified] readf8_Cons [OF sub(2,3)] uc)
    with wf_advance [OF sub(2), of 1] sub(3) 2 show ?thesis by (simp add: rest_advance enc_list_def)
  next
    case 3
    let ?xs = "pni_write32 (word_of_nat n) @ bs"
    have r: "rest c = PNE_LIST32 # pni_write32 (word_of_nat (length ?xs)) @ ?xs @ ys"
      using assms(2) 3 by (auto simp: enc_list_def add.commute)
    note 1 = if_readf8_Cons(2,3) [OF assms(1) r]
    let ?c = "cons_advance 4 (cons_advance 1 c)"
    have c2: "cons_wf ?c" "rest ?c = ?xs @ ys" using advance_prefix [OF 1] by simp_all
    obtain sub where sub: "clamp_sub (length ?xs) ?c = (sub, cons_advance (length ?xs) ?c)" "cons_wf sub" "rest sub = ?xs"
      using clamp_sub_all [OF c2(1), of ?xs ys] c2(2) by auto
    have un: "unat (word_of_nat (length ?xs) :: u32) = length ?xs"
      using assms(3) by (intro unat_word_of_nat) (simp add: list_fits_def)
    have "consume_list c = ((True, cons_advance 4 sub, word_of_nat n), cons_advance (length ?xs) ?c)"
      unfolding consume_list_def readf8_Cons [OF assms(1) r] using un
      by (simp add: readf32_write [OF 1, simplified] sub(1) [simplified] readf32_write [OF sub(2,3)])
    with wf_advance [OF sub(2), of 4] sub(3) 3 show ?thesis by (auto simp: rest_advance enc_list_def)
  qed
qed

section \<open>Described lists\<close>

lemma consume_descriptor_ulong:
  assumes "cons_wf c" "rest c = tl (enc_descriptor d) @ ys"
  shows "consume_ulong c = (Some d, cons_advance (length (tl (enc_descriptor d))) c)"
proof (cases "d < 256")
  case True
  then show ?thesis using consume_ulong_small [OF assms(1), of d ys] assms(2) by (simp add: enc_descriptor_def numeral_2_eq_2)
next
  case False
  then show ?thesis using consume_ulong_large [OF assms(1), of d ys] assms(2) by (simp add: enc_descriptor_def)
qed

lemma consume_described_enc:
  assumes wf: "cons_wf c" and r: "rest c = enc_descriptor d @ enc_list n bs @ ys" and fits: "list_fits n bs"
  shows "\<exists>sub c'. consume_described_ulong_descriptor c = ((True, sub, d), c') \<and> cons_wf sub \<and>
    rest sub = enc_list n bs \<and> cons_wf c' \<and> rest c' = ys"
proof -
  let ?td = "tl (enc_descriptor d)"
  have r': "rest c = PNE_DESCRIPTOR # ?td @ enc_list n bs @ ys" using r by (simp add: enc_descriptor_def)
  note 1 = if_readf8_Cons(2,3) [OF wf r']
  let ?c2 = "cons_advance (length ?td) (cons_advance 1 c)"
  have c2: "cons_wf ?c2" "rest ?c2 = enc_list n bs @ ys" by (rule advance_prefix [OF 1])+
  let ?c3 = "cons_advance (length (enc_list n bs)) ?c2"
  have c3: "advances ?c2 ?c3" "cons_wf ?c3" "rest ?c3 = ys"
    by (rule advance_prefix [OF c2])+
  have sub: "rest (between ?c2 ?c3) = enc_list n bs" "cons_wf (between ?c2 ?c3)"
    using between_rest [OF c2(1) c3(1)] c2(2) c3(3) by simp_all
  have "consume_described_ulong_descriptor c = ((True, between ?c2 ?c3, d), ?c3)"
    unfolding consume_described_ulong_descriptor_def readf8_Cons [OF wf r']
    using consume_descriptor_ulong [OF 1(1), of d "enc_list n bs @ ys"] 1(2) skip_list_enc [OF c2 fits]
    by (simp add: between_def Let_def del: advance_add)
  with sub c3 show ?thesis by blast
qed

section \<open>Properties\<close>

lemma make_consumer_bytes: "cons_wf (make_consumer_from_bytes (Some bs))" "rest (make_consumer_from_bytes (Some bs)) = bs"
  by (simp_all add: make_consumer_from_bytes_def cons_wf_def rest_def)

lemma length_trim_nulls: "length (trim_nulls vs) \<le> length vs"
  by (induction vs) auto

lemma atoms_body: "body_emits (run_ops (map emit_atom atoms)) (length (trim_nulls (map atom_field atoms)))
    (fields_bytes (map atom_field atoms))"
  by (rule body_emits_fields) (simp add: list_all2_conv_all_nth emits_atom)

lemma atoms_fit:
  assumes "length (fields_bytes (map atom_field atoms)) + 4 < 2 ^ 32" "length atoms < 2 ^ 32"
  shows "list_fits (length (trim_nulls (map atom_field atoms))) (fields_bytes (map atom_field atoms))"
  using assms length_trim_nulls [of "map atom_field atoms"] by (auto simp: list_fits_def fields_bytes_def)

text \<open>
  C1: encoding a performative and decoding it gives its descriptor and its fields back. The encoder
  of a described list, started with a buffer of any size and with memory available, returns after at
  most two passes; the decoder reads the descriptor, opens the list and finds the fields, with the
  nulls left out at the end restored, and whatever payload follows the list is left unread.
\<close>

theorem performative_roundtrip:
  assumes "\<forall>n. alloc n \<noteq> None" "\<forall>a\<in>set atoms. atom_ok a"
    "length (fields_bytes (map atom_field atoms)) + 4 < 2 ^ 32" "length atoms < 2 ^ 32"
  shows "\<exists>bs out sub c' items c''.
    amqp_encode 2 alloc (emit_described d (run_ops (map emit_atom atoms))) buf = Some (bs, out) \<and>
    consume_described_ulong_descriptor (make_consumer_from_bytes (Some (bs @ payload))) = ((True, sub, d), c') \<and>
    rest c' = payload \<and>
    consume_list sub = ((True, items, word_of_nat (length (trim_nulls (map atom_field atoms)))), c'') \<and>
    read_fields (length atoms) items = atoms"
proof -
  let ?n = "length (trim_nulls (map atom_field atoms))" and ?fs = "fields_bytes (map atom_field atoms)"
  let ?bs = "enc_descriptor d @ enc_list ?n ?fs"
  note fits = atoms_fit [OF assms(3,4)]
  obtain out where out: "amqp_encode 2 alloc (emit_described d (run_ops (map emit_atom atoms))) buf = Some (?bs, out)"
    using amqp_encode_two_passes [OF encodes_described [OF atoms_body] assms(1)] by blast
  have "rest (make_consumer_from_bytes (Some (?bs @ payload))) = enc_descriptor d @ enc_list ?n ?fs @ payload"
    by (simp add: make_consumer_bytes)
  from consume_described_enc [OF make_consumer_bytes(1) this fits] obtain sub c' where
    sub: "consume_described_ulong_descriptor (make_consumer_from_bytes (Some (?bs @ payload))) = ((True, sub, d), c')"
      "cons_wf sub" "rest sub = enc_list ?n ?fs" "rest c' = payload" by blast
  from consume_list_enc [OF sub(2) _ fits, of "[]"] sub(3) obtain items c'' where
    items: "consume_list sub = ((True, items, word_of_nat ?n), c'')" "cons_wf items" "rest items = ?fs" by auto
  from read_fields_enc [OF items(2,3) assms(2)] out sub(1,4) items(1) show ?thesis by blast
qed

theorem performative_roundtrip_witness:
  "\<exists>bs out sub c' items c''.
    amqp_encode 2 (\<lambda>_. Some (\<lambda>_. 0))
      (emit_described 0x10 (run_ops (map emit_atom [PN_UINT 5, PN_NULL, PN_STRING (Some [104]), PN_NULL]))) [] = Some (bs, out) \<and>
    consume_described_ulong_descriptor (make_consumer_from_bytes (Some (bs @ [7]))) = ((True, sub, 0x10), c') \<and>
    rest c' = [7] \<and>
    consume_list sub = ((True, items, 3), c'') \<and>
    read_fields (Suc (Suc (Suc (Suc 0)))) items = [PN_UINT 5, PN_NULL, PN_STRING (Some [104]), PN_NULL]"
  using performative_roundtrip [of "\<lambda>_. Some (\<lambda>_. 0)" "[PN_UINT 5, PN_NULL, PN_STRING (Some [104]), PN_NULL]" "0x10" "[]" "[7]"]
  by (simp add: fields_bytes_def field_bytes_def enc_uint_def enc_var_def del: read_fields.simps)


text \<open>
  C13: an array of symbols is written in at most two attempts, with the element type, count and size
  filled in: the 8-bit array when its body has at most 253 bytes, else the 32-bit array.
\<close>

theorem emit_symbol_array_correct:
  assumes "emit_wf e"
  shows "\<exists>e'. emit_symbol_array syms (e, c) = Some (e', counted c) \<and> emits e (pending c @ enc_sym_array syms) e'"
  using assms by (rule emit_symbol_array_spec)

theorem emit_symbol_array_correct_witness:
  "\<exists>e'. emit_symbol_array [[97], [98]] (make_emitter_from_rwbytes (replicate 12 0), make_compound) =
      Some (e', counted make_compound) \<and>
    emits (make_emitter_from_rwbytes (replicate 12 0)) (enc_sym_array [[97], [98]]) e'"
  using emit_symbol_array_correct [of "make_emitter_from_rwbytes (replicate 12 0)" "[[97], [98]]" make_compound]
  by (simp add: emit_wf_def make_emitter_from_rwbytes_def)

end
