(* ===== verification/Ring_Rotate.thy ===== *)
theory Ring_Rotate
  imports Proton_Prelude
begin

text \<open>
  The in-place rotation of \<open>pn_buffer_rotate\<close> (\<open>core/buffer.c\<close>): the juggling algorithm that
  walks the cycles of the permutation \<open>i \<mapsto> i + sz\<close> modulo the capacity. The two loops run
  under fuel; the main lemma shows that fuel of one more than the capacity is enough, that
  the loops stop, and that the result is the list rotated left by \<open>sz\<close>.
\<close>

section \<open>The loops\<close>

text \<open>The inner loop, from \<open>while (tp != v)\<close>: the block, the final \<open>t\<close> and the count \<open>c\<close>.\<close>

fun rotate_cycle :: "nat \<Rightarrow> nat \<Rightarrow> nat \<Rightarrow> nat \<Rightarrow> 'a list \<Rightarrow> nat \<Rightarrow> nat \<Rightarrow> nat
    \<Rightarrow> ('a list \<times> nat \<times> nat) option" where
  "rotate_cycle 0 capacity sz v bytes t tp c = None"
| "rotate_cycle (Suc fuel) capacity sz v bytes t tp c =
     (if tp \<noteq> v then
        let bytes = bytes[t := bytes ! tp];
            t = tp;
            tp = wrap32 (tp + sz);
            tp = (if tp \<ge> capacity then tp - capacity else tp)
        in rotate_cycle fuel capacity sz v bytes t tp (c + 1)
      else Some (bytes, t, c))"

fun rotate_cycles :: "nat \<Rightarrow> nat \<Rightarrow> nat \<Rightarrow> nat \<Rightarrow> 'a list \<Rightarrow> nat \<Rightarrow> 'a list option" where
  "rotate_cycles 0 capacity sz v bytes c = None"
| "rotate_cycles (Suc fuel) capacity sz v bytes c =
     (if c < capacity then
        let tmp = bytes ! v
        in case rotate_cycle (Suc capacity) capacity sz v bytes v (wrap32 (v + sz)) (c + 1) of
             None \<Rightarrow> None
           | Some (bytes, t, c) \<Rightarrow> rotate_cycles fuel capacity sz (v + 1) (bytes[t := tmp]) c
      else Some bytes)"

section \<open>The cycles of the rotation\<close>

definition cyc :: "nat \<Rightarrow> nat \<Rightarrow> nat \<Rightarrow> nat \<Rightarrow> nat" where
  "cyc n s v k = (v + k * s) mod n"

lemma cyc_less: "0 < n \<Longrightarrow> cyc n s v k < n"
  by (simp add: cyc_def)

lemma cyc_0: "v < n \<Longrightarrow> cyc n s v 0 = v"
  by (simp add: cyc_def)

lemma cyc_Suc: "cyc n s v (Suc k) = (cyc n s v k + s) mod n"
  by (simp add: cyc_def mod_add_right_eq add.commute add.left_commute)

lemma cyc_eq_iff:
  assumes "0 < n" "j \<le> k"
  shows "cyc n s v j = cyc n s v k \<longleftrightarrow> (n div gcd s n) dvd (k - j)"
proof -
  let ?g = "gcd s n"
  have g: "0 < ?g" "?g dvd n" "?g dvd s" using assms(1) by (simp_all add: gcd_pos_nat)
  obtain a where a: "n = ?g * a" using g(2) by (rule dvdE)
  obtain b where b: "s = ?g * b" using g(3) by (rule dvdE)
  have cop: "coprime b a"
    using div_gcd_coprime [of s n] assms(1) a b g
    by (metis gr_implies_not0 nonzero_mult_div_cancel_left)
  have "cyc n s v j = cyc n s v k \<longleftrightarrow> n dvd (v + k * s) - (v + j * s)"
    unfolding cyc_def using mod_eq_dvd_iff_nat [of "v + j * s" "v + k * s" n] assms(2)
    by (simp only: eq_commute [of "(v + j * s) mod n"] add_left_mono mult_le_mono1)
  also have "(v + k * s) - (v + j * s) = (k - j) * s" by (simp add: diff_mult_distrib)
  also have "n dvd (k - j) * s \<longleftrightarrow> ?g * a dvd ?g * ((k - j) * b)"
    using a b by (metis mult.left_commute)
  also have "\<dots> \<longleftrightarrow> a dvd (k - j) * b" using assms(1) by auto
  also have "\<dots> \<longleftrightarrow> a dvd k - j"
    using cop by (simp add: coprime_commute coprime_dvd_mult_left_iff)
  also have "a = n div ?g" using a g by (metis gr_implies_not0 nonzero_mult_div_cancel_left)
  finally show ?thesis .
qed

lemma cyc_inj:
  assumes "0 < n" "j < n div gcd s n" "k < n div gcd s n" "cyc n s v j = cyc n s v k"
  shows "j = k"
proof -
  have *: "j' = k'" if "j' \<le> k'" "k' < n div gcd s n" "cyc n s v j' = cyc n s v k'" for j' k'
  proof -
    from that have "(n div gcd s n) dvd (k' - j')" using cyc_eq_iff [OF assms(1) that(1)] by blast
    with that(2) have "k' - j' = 0" by (auto dest: dvd_imp_le)
    with that(1) show ?thesis by simp
  qed
  from * [of j k] * [of k j] assms show ?thesis by (cases "j \<le> k") auto
qed

lemma cyc_mod_gcd: "cyc n s v k mod gcd s n = v mod gcd s n"
proof -
  have "cyc n s v k mod gcd s n = (v + k * s) mod gcd s n"
    unfolding cyc_def by (rule mod_mod_cancel) simp
  also have "\<dots> = v mod gcd s n"
    by (metis dvd_triv_right gcd_dvd1 mod_add_right_eq add_0_right dvd_eq_mod_eq_0 dvd_mult)
  finally show ?thesis .
qed

lemma cyc_period:
  assumes "0 < n"
  shows "cyc n s v (k mod (n div gcd s n)) = cyc n s v k"
  using assms by (subst cyc_eq_iff) (simp_all add: minus_mod_eq_mult_div)

lemma period_pos:
  assumes "0 < (n::nat)"
  shows "gcd s n \<le> n" "0 < gcd s n" "0 < n div gcd s n"
proof -
  show "gcd s n \<le> n" "0 < gcd s n" using assms by (auto intro: dvd_imp_le simp: gcd_pos_nat)
  then show "0 < n div gcd s n" by (simp add: div_greater_zero_iff)
qed

lemma cyc_surj:
  assumes "0 < s" "0 < n" "i < n" "i mod gcd s n = v"
  shows "\<exists>k < n div gcd s n. cyc n s v k = i"
proof -
  obtain x y where xy: "s * x = n * y + gcd s n" using bezout_nat [of s n] assms(1) by auto
  define q where "q = i div gcd s n"
  have i: "i = v + q * gcd s n"
    using assms(4) mult_div_mod_eq [of "gcd s n" i] by (simp add: q_def ac_simps)
  have "cyc n s v (q * x) = (v + q * (n * y + gcd s n)) mod n"
    by (simp only: cyc_def xy [symmetric] mult.assoc mult.commute [of x s])
  also have "\<dots> = (v + q * gcd s n + n * (q * y)) mod n" by (simp add: algebra_simps)
  also have "\<dots> = i" using assms(3) i by simp
  finally have "cyc n s v ((q * x) mod (n div gcd s n)) = i" using cyc_period [OF assms(2)] by simp
  moreover have "(q * x) mod (n div gcd s n) < n div gcd s n"
    using period_pos(3) [OF assms(2)] by (intro mod_less_divisor)
  ultimately show ?thesis by blast
qed


section \<open>Correctness of the loops\<close>

text \<open>The block after \<open>k\<close> steps of the cycle that starts at \<open>v\<close>.\<close>

definition cycle_done :: "nat \<Rightarrow> nat \<Rightarrow> 'a list \<Rightarrow> nat \<Rightarrow> 'a list" where
  "cycle_done s v xs k =
     map (\<lambda>i. if i \<in> cyc (length xs) s v ` {..<k} then xs ! ((i + s) mod length xs) else xs ! i)
       [0..<length xs]"

lemma cycle_done_0 [simp]: "cycle_done s v xs 0 = xs"
  by (simp add: cycle_done_def map_nth)

lemma length_cycle_done [simp]: "length (cycle_done s v xs k) = length xs"
  by (simp add: cycle_done_def)

lemma cycle_done_Suc:
  assumes "0 < length xs" "y = xs ! cyc (length xs) s v (Suc k)"
  shows "(cycle_done s v xs k)[cyc (length xs) s v k := y] = cycle_done s v xs (Suc k)"
proof (rule nth_equalityI)
  fix i assume "i < length ((cycle_done s v xs k)[cyc (length xs) s v k := y])"
  then have i: "i < length xs" by simp
  show "(cycle_done s v xs k)[cyc (length xs) s v k := y] ! i = cycle_done s v xs (Suc k) ! i"
    using i assms by (auto simp: cycle_done_def nth_list_update cyc_less cyc_Suc lessThan_Suc)
qed simp

lemma rotate_cycle_steps:
  assumes n: "n = length xs" "0 < s" "s < n" "n \<le> 2 ^ 31" "v < n" and L: "L = n div gcd s n"
    and k: "k + m = L - 1" "m < fuel" "0 < L"
  shows "rotate_cycle fuel n s v (cycle_done s v xs k) (cyc n s v k) (cyc n s v (Suc k)) c =
      Some (cycle_done s v xs (L - 1), cyc n s v (L - 1), c + m)"
  using k
proof (induction m arbitrary: k c fuel)
  case 0
  then obtain f where f: "fuel = Suc f" by (cases fuel) auto
  from 0 have "Suc k = L" by simp
  moreover have "0 < n" using n by linarith
  ultimately have "cyc n s v (Suc k) = cyc n s v 0"
    using cyc_eq_iff [of n 0 "Suc k" s v] L by simp
  with 0 n show ?case by (simp add: f cyc_0)
next
  case (Suc m)
  then obtain f where f: "fuel = Suc f" "m < f" by (cases fuel) auto
  have lt: "Suc k < L" using Suc.prems by simp
  have n0: "0 < n" using n by linarith
  have ne: "cyc n s v (Suc k) \<noteq> v"
    using cyc_inj [OF n0, of "Suc k" s 0 v] lt n L by (auto simp: cyc_0)
  have fresh: "cyc n s v (Suc k) \<notin> cyc n s v ` {..<k}"
  proof
    assume "cyc n s v (Suc k) \<in> cyc n s v ` {..<k}"
    then obtain j where j: "j < k" "cyc n s v (Suc k) = cyc n s v j" by auto
    from cyc_inj [OF n0 _ _ j(2)] lt L j(1) show False by simp
  qed
  have less: "cyc n s v (Suc k) < n" using n0 by (rule cyc_less)
  then have rd: "cycle_done s v xs k ! cyc n s v (Suc k) = xs ! cyc n s v (Suc k)"
    using fresh n by (simp add: cycle_done_def)
  have wr: "(cycle_done s v xs k)[cyc n s v k := cycle_done s v xs k ! cyc n s v (Suc k)] =
      cycle_done s v xs (Suc k)"
    unfolding rd using n by (auto intro: cycle_done_Suc)
  have tp: "(if n \<le> wrap32 (cyc n s v (Suc k) + s) then wrap32 (cyc n s v (Suc k) + s) - n
      else wrap32 (cyc n s v (Suc k) + s)) = cyc n s v (Suc (Suc k))"
  proof -
    have "wrap32 (cyc n s v (Suc k) + s) = cyc n s v (Suc k) + s"
      using less n(3,4) by (intro wrap32_id) simp
    moreover have "cyc n s v (Suc (Suc k)) =
        (if n \<le> cyc n s v (Suc k) + s then cyc n s v (Suc k) + s - n else cyc n s v (Suc k) + s)"
      unfolding cyc_Suc [of n s v "Suc k"] using less n(3) by (simp add: mod_if)
    ultimately show ?thesis by simp
  qed
  show ?case
    using Suc.IH [of "Suc k" f "c + 1"] Suc.prems f ne by (simp add: wr tp Let_def)
qed

lemma rotate_cycle_correct:
  assumes "0 < s" "s < length xs" "length xs \<le> 2 ^ 31" "v < gcd s (length xs)"
  defines "L \<equiv> length xs div gcd s (length xs)"
  shows "\<exists>t ys. rotate_cycle (Suc (length xs)) (length xs) s v xs v (wrap32 (v + s)) (c + 1) =
       Some (ys, t, c + L) \<and> ys[t := xs ! v] = cycle_done s v xs L"
proof -
  let ?n = "length xs"
  have g: "gcd s ?n dvd s" "gcd s ?n dvd ?n" "0 < gcd s ?n" using assms by (simp_all add: gcd_pos_nat)
  have gs: "gcd s ?n \<le> s" using assms by (simp add: gcd_le1_nat)
  have "0 < ?n" using assms by linarith
  then have L0: "0 < L" unfolding L_def by (rule period_pos)
  have Ln: "L \<le> ?n" by (simp add: L_def)
  have "gcd s ?n dvd ?n - s" using g by (simp add: dvd_diff_nat)
  then have "gcd s ?n \<le> ?n - s" using assms by (intro dvd_imp_le) auto
  then have vs: "v + s < ?n" using assms by simp
  then have start: "wrap32 (v + s) = cyc ?n s v (Suc 0)"
    using assms by (simp add: cyc_def wrap32_id)
  have "rotate_cycle (Suc ?n) ?n s v (cycle_done s v xs 0) (cyc ?n s v 0) (cyc ?n s v (Suc 0)) (c + 1) =
      Some (cycle_done s v xs (L - 1), cyc ?n s v (L - 1), c + 1 + (L - 1))"
    using assms(1-3) vs L0 Ln by (intro rotate_cycle_steps [where L = L]) (simp_all add: L_def [symmetric])
  then have run: "rotate_cycle (Suc ?n) ?n s v xs v (wrap32 (v + s)) (c + 1) =
      Some (cycle_done s v xs (L - 1), cyc ?n s v (L - 1), c + L)"
    using vs L0 by (simp add: start cyc_0)
  have "cyc ?n s v (Suc (L - 1)) = v"
    using cyc_eq_iff [OF \<open>0 < ?n\<close>, of 0 L s v] L0 vs by (simp add: L_def cyc_0)
  then have "(cycle_done s v xs (L - 1))[cyc ?n s v (L - 1) := xs ! v] = cycle_done s v xs (Suc (L - 1))"
    using vs by (intro cycle_done_Suc) auto
  with run L0 show ?thesis by auto
qed

text \<open>The block after the cycles \<open>0, \<dots>, v - 1\<close>: the positions with a residue below \<open>v\<close> are done.\<close>

definition cycles_done :: "nat \<Rightarrow> 'a list \<Rightarrow> nat \<Rightarrow> 'a list" where
  "cycles_done s xs v =
     map (\<lambda>i. if i mod gcd s (length xs) < v then xs ! ((i + s) mod length xs) else xs ! i)
       [0..<length xs]"

lemma length_cycles_done [simp]: "length (cycles_done s xs v) = length xs"
  by (simp add: cycles_done_def)

lemma nth_cycles_done:
  "i < length xs \<Longrightarrow> cycles_done s xs v ! i =
     (if i mod gcd s (length xs) < v then xs ! ((i + s) mod length xs) else xs ! i)"
  by (simp add: cycles_done_def)

lemma cycles_done_Suc:
  assumes "0 < s" "v < gcd s (length xs)" "0 < length xs"
  shows "cycle_done s v (cycles_done s xs v) (length xs div gcd s (length xs)) = cycles_done s xs (Suc v)"
proof (rule nth_equalityI)
  fix i assume "i < length (cycle_done s v (cycles_done s xs v) (length xs div gcd s (length xs)))"
  then have i: "i < length xs" by simp
  let ?g = "gcd s (length xs)"
  have img: "i \<in> cyc (length xs) s v ` {..<length xs div ?g} \<longleftrightarrow> i mod ?g = v"
  proof
    assume "i \<in> cyc (length xs) s v ` {..<length xs div ?g}"
    then show "i mod ?g = v" using cyc_mod_gcd [of "length xs" s v] assms(2) by auto
  next
    assume "i mod ?g = v"
    from cyc_surj [OF assms(1,3) i this] show "i \<in> cyc (length xs) s v ` {..<length xs div ?g}"
      by blast
  qed
  have "(i + s) mod length xs mod ?g = i mod ?g"
    using cyc_mod_gcd [of "length xs" s i 1] by (simp add: cyc_def)
  then show "cycle_done s v (cycles_done s xs v) (length xs div ?g) ! i = cycles_done s xs (Suc v) ! i"
    using i img assms(3) by (auto simp: cycle_done_def nth_cycles_done less_Suc_eq)
qed simp

lemma rotate_cycles_steps:
  assumes "0 < s" "s < length xs" "length xs \<le> 2 ^ 31" "v + m = gcd s (length xs)" "m < fuel"
  shows "rotate_cycles fuel (length xs) s v (cycles_done s xs v) (v * (length xs div gcd s (length xs))) =
    Some (cycles_done s xs (gcd s (length xs)))"
  using assms(4,5)
proof (induction m arbitrary: v fuel)
  case 0
  then obtain f where f: "fuel = Suc f" by (cases fuel) auto
  from 0 show ?case by (simp add: f dvd_mult_div_cancel)
next
  case (Suc m)
  let ?n = "length xs" and ?g = "gcd s (length xs)"
  let ?L = "?n div ?g" and ?ys = "cycles_done s xs v"
  obtain f where f: "fuel = Suc f" "m < f" using Suc.prems by (cases fuel) auto
  have v: "v < ?g" using Suc.prems by simp
  have "0 < ?n" using assms by linarith
  then have L0: "0 < ?L" by (rule period_pos)
  have "v * ?L < ?g * ?L" using v L0 by (intro mult_less_mono1)
  also have "\<dots> = ?n" by simp
  finally have lt: "v * ?L < ?n" .
  obtain t zs where run: "rotate_cycle (Suc ?n) ?n s v ?ys v (wrap32 (v + s)) (v * ?L + 1) =
      Some (zs, t, v * ?L + ?L)" and fill: "zs[t := ?ys ! v] = cycle_done s v ?ys ?L"
    using rotate_cycle_correct [of s ?ys v "v * ?L"] assms v by auto
  have "zs[t := ?ys ! v] = cycles_done s xs (Suc v)"
    using fill cycles_done_Suc [OF assms(1) v \<open>0 < ?n\<close>] by simp
  then show ?case
    using Suc.IH [of "Suc v" f] Suc.prems f run lt by (simp add: Let_def add.commute)
qed

lemma rotate_cycles_rotate:
  assumes "0 < s" "s < length xs" "length xs \<le> 2 ^ 31"
  shows "rotate_cycles (Suc (length xs)) (length xs) s 0 xs 0 = Some (rotate s xs)"
proof -
  let ?g = "gcd s (length xs)"
  have "0 < length xs" using assms by linarith
  then have g: "?g \<le> length xs" "0 < ?g" by (rule period_pos)+
  have 0: "cycles_done s xs 0 = xs" by (simp add: cycles_done_def map_nth)
  have "cycles_done s xs ?g = rotate s xs"
    using g by (intro nth_equalityI) (auto simp: nth_cycles_done nth_rotate add.commute)
  then show ?thesis
    using rotate_cycles_steps [of s xs 0 ?g "Suc (length xs)"] assms g by (simp add: 0)
qed

end
