(* ===== verification/Buffer.thy ===== *)
theory Buffer
  imports Bytes_Util Ring_Rotate
begin

text \<open>
  The ring buffer of \<open>core/buffer.c\<close>. The state is the C struct: a block of \<open>capacity\<close>
  bytes, the index \<open>start\<close> of the first byte and the number \<open>size\<close> of bytes held. Sizes are
  natural numbers with the 32-bit (fields) and 64-bit (\<open>size_t\<close>) wrap-around written out.
  The abstraction of a buffer is the byte string \<open>buf_content\<close>; every operation is shown to
  keep the invariant \<open>buf_inv\<close> and to refine the matching operation on byte strings.
\<close>

section \<open>State and operations\<close>

record pn_buffer =
  buf_bytes :: "byte list"
  buf_capacity :: nat
  buf_start :: nat
  buf_size :: nat

definition pn_buffer_new :: "allocator \<Rightarrow> nat \<Rightarrow> pn_buffer option" where
  "pn_buffer_new alloc capacity =
     (if capacity > 0 then
        map_option (\<lambda>bs. \<lparr>buf_bytes = bs, buf_capacity = wrap32 capacity, buf_start = 0, buf_size = 0\<rparr>)
          (mem_alloc alloc capacity)
      else Some \<lparr>buf_bytes = [], buf_capacity = 0, buf_start = 0, buf_size = 0\<rparr>)"

definition pn_buffer_size :: "pn_buffer \<Rightarrow> nat" where
  "pn_buffer_size b = buf_size b"

definition pn_buffer_capacity :: "pn_buffer \<Rightarrow> nat" where
  "pn_buffer_capacity b = buf_capacity b"

definition pn_buffer_available :: "pn_buffer \<Rightarrow> nat" where
  "pn_buffer_available b = sub32 (buf_capacity b) (buf_size b)"

definition pni_buffer_head :: "pn_buffer \<Rightarrow> nat" where
  "pni_buffer_head b = buf_start b"

definition pni_buffer_tail :: "pn_buffer \<Rightarrow> nat" where
  "pni_buffer_tail b =
     (let tail = wrap32 (buf_start b + buf_size b)
      in if tail \<ge> buf_capacity b then tail - buf_capacity b else tail)"

definition pni_buffer_wrapped :: "pn_buffer \<Rightarrow> bool" where
  "pni_buffer_wrapped b \<longleftrightarrow> buf_size b \<noteq> 0 \<and> pni_buffer_head b \<ge> pni_buffer_tail b"

definition pni_buffer_tail_space :: "pn_buffer \<Rightarrow> nat" where
  "pni_buffer_tail_space b =
     (if pni_buffer_wrapped b then pn_buffer_available b
      else sub64 (buf_capacity b) (pni_buffer_tail b))"

definition pn_buffer_ensure :: "allocator \<Rightarrow> pn_buffer \<Rightarrow> nat \<Rightarrow> int \<times> pn_buffer" where
  "pn_buffer_ensure alloc b sz =
     (if pn_buffer_available b \<ge> sz then (0, b)
      else if sz > 0x80000000 then (PN_OUT_OF_MEMORY, b)
      else
        let needed = buf_size b + sz;
            needed = (if needed < 32 then 32 else needed)
        in if needed > 0x80000000 then (PN_OUT_OF_MEMORY, b)
        else
          let new_capacity = unat (pni_round_up_pow2 (word_of_nat needed))
          in case mem_realloc alloc (buf_bytes b) new_capacity of
               None \<Rightarrow> (PN_OUT_OF_MEMORY, b)
             | Some new_bytes \<Rightarrow>
                 let old_capacity = buf_capacity b;
                     old_head = pni_buffer_head b;
                     wrapped = pni_buffer_wrapped b;
                     b = b\<lparr>buf_bytes := new_bytes, buf_capacity := new_capacity\<rparr>
                 in if wrapped then
                      let n = sub64 old_capacity old_head
                      in (0, b\<lparr>buf_bytes := memcpy_at new_bytes (new_capacity - n) (take n (drop old_head new_bytes)),
                               buf_start := new_capacity - n\<rparr>)
                    else (0, b))"

text \<open>
  The source of an append: bytes outside the buffer, or (the check against \<open>buf->bytes + tail\<close>)
  a number of bytes that the caller has already stored at the tail.
\<close>

datatype append_src = Outside "byte list" | At_Tail nat

fun append_src_size :: "append_src \<Rightarrow> nat" where
  "append_src_size (Outside bs) = length bs"
| "append_src_size (At_Tail n) = n"

definition pn_buffer_append :: "allocator \<Rightarrow> pn_buffer \<Rightarrow> append_src \<Rightarrow> int \<times> pn_buffer" where
  "pn_buffer_append alloc b src =
     (let sz = append_src_size src
      in if sz = 0 then (0, b)
      else case pn_buffer_ensure alloc b sz of
        (err, b) \<Rightarrow>
          if err \<noteq> 0 then (err, b)
          else
            let tail = pni_buffer_tail b;
                tail_space = pni_buffer_tail_space b;
                n = min tail_space sz;
                b = (case src of
                       Outside bs \<Rightarrow>
                         b\<lparr>buf_bytes := memcpy_at (memcpy_at (buf_bytes b) tail (take n bs)) 0 (drop n bs)\<rparr>
                     | At_Tail _ \<Rightarrow> b)
            in (0, b\<lparr>buf_size := wrap32 (buf_size b + sz)\<rparr>))"

definition pni_buffer_index :: "pn_buffer \<Rightarrow> nat \<Rightarrow> nat" where
  "pni_buffer_index b index =
     (let result = wrap64 (buf_start b + index)
      in if result \<ge> buf_capacity b then result - buf_capacity b else result)"

definition pn_buffer_get :: "pn_buffer \<Rightarrow> nat \<Rightarrow> nat \<Rightarrow> nat \<times> byte list" where
  "pn_buffer_get b offset sz =
     (let sz = min sz (buf_size b);
          start = pni_buffer_index b offset;
          stop = pni_buffer_index b (wrap64 (offset + sz))
      in if sz = 0 then (0, [])
      else
        let (sz1, sz2) = (if start \<ge> stop then (sub64 (buf_capacity b) start, stop) else (stop - start, 0))
        in (wrap64 (sz1 + sz2), take sz1 (drop start (buf_bytes b)) @ take sz2 (buf_bytes b)))"

definition pn_buffer_clear :: "pn_buffer \<Rightarrow> pn_buffer" where
  "pn_buffer_clear b = b\<lparr>buf_start := 0, buf_size := 0\<rparr>"

definition pn_buffer_trim :: "pn_buffer \<Rightarrow> nat \<Rightarrow> nat \<Rightarrow> int \<times> pn_buffer" where
  "pn_buffer_trim b left right =
     (if wrap64 (left + right) > buf_size b then (PN_ARG_ERR, b)
      else if wrap64 (left + right) = buf_size b then (0, pn_buffer_clear b)
      else
        let start = wrap32 (buf_start b + left);
            start = (if start \<ge> buf_capacity b then start - buf_capacity b else start)
        in (0, b\<lparr>buf_start := start, buf_size := wrap32 (sub64 (buf_size b) (wrap64 (left + right)))\<rparr>))"

definition pn_buffer_rotate :: "pn_buffer \<Rightarrow> nat \<Rightarrow> pn_buffer option" where
  "pn_buffer_rotate b sz =
     (if sz = 0 then Some b
      else map_option (\<lambda>bs. b\<lparr>buf_bytes := bs\<rparr>)
        (rotate_cycles (Suc (buf_capacity b)) (buf_capacity b) sz 0 (buf_bytes b) 0))"

definition pn_buffer_defrag :: "pn_buffer \<Rightarrow> pn_buffer option" where
  "pn_buffer_defrag b = map_option (\<lambda>b. b\<lparr>buf_start := 0\<rparr>) (pn_buffer_rotate b (buf_start b))"

text \<open>
  \<open>pn_buffer_bytes\<close> (and \<open>pn_buffer_memory\<close>, whose body is the same) returns the bytes and the
  defragmented buffer; a null buffer gives the null bytes.
\<close>

definition pn_buffer_bytes :: "pn_buffer option \<Rightarrow> (pn_bytes \<times> pn_buffer option) option" where
  "pn_buffer_bytes bo =
     (case bo of
        None \<Rightarrow> Some (None, None)
      | Some b \<Rightarrow> map_option (\<lambda>b. (Some (take (buf_size b) (buf_bytes b)), Some b)) (pn_buffer_defrag b))"

section \<open>Abstraction and invariant\<close>

definition buf_inv :: "pn_buffer \<Rightarrow> bool" where
  "buf_inv b \<longleftrightarrow>
     length (buf_bytes b) = buf_capacity b \<and> buf_capacity b \<le> 2 ^ 31 \<and> buf_size b \<le> buf_capacity b \<and>
     (if buf_capacity b = 0 then buf_start b = 0 else buf_start b < buf_capacity b)"

definition buf_content :: "pn_buffer \<Rightarrow> byte list" where
  "buf_content b = map (\<lambda>i. buf_bytes b ! ((buf_start b + i) mod buf_capacity b)) [0..<buf_size b]"

lemma length_buf_content [simp]: "length (buf_content b) = buf_size b"
  by (simp add: buf_content_def)

lemma nth_buf_content:
  "i < buf_size b \<Longrightarrow> buf_content b ! i = buf_bytes b ! ((buf_start b + i) mod buf_capacity b)"
  by (simp add: buf_content_def)

lemma buf_content_eqI:
  assumes "length ys = buf_size b"
    and "\<And>i. i < buf_size b \<Longrightarrow> buf_bytes b ! ((buf_start b + i) mod buf_capacity b) = ys ! i"
  shows "buf_content b = ys"
  using assms by (intro nth_equalityI) (simp_all add: nth_buf_content)

lemma buf_invD:
  assumes "buf_inv b"
  shows "length (buf_bytes b) = buf_capacity b" "buf_capacity b \<le> 2 ^ 31" "buf_size b \<le> buf_capacity b"
    "0 < buf_capacity b \<Longrightarrow> buf_start b < buf_capacity b" "buf_start b \<le> buf_capacity b"
    "buf_capacity b = 0 \<Longrightarrow> buf_start b = 0"
  using assms by (auto simp: buf_inv_def split: if_splits)

lemma ring_index:
  "s < c \<Longrightarrow> i \<le> c \<Longrightarrow> (s + i) mod c = (if c \<le> s + i then s + i - c else s + (i::nat))"
  by (simp add: mod_if)

lemma available_inv: "buf_inv b \<Longrightarrow> pn_buffer_available b = buf_capacity b - buf_size b"
  unfolding pn_buffer_available_def buf_inv_def by (intro sub32_diff) simp_all

lemma tail_inv:
  assumes "buf_inv b"
  shows "pni_buffer_tail b =
    (if buf_capacity b \<le> buf_start b + buf_size b then buf_start b + buf_size b - buf_capacity b
     else buf_start b + buf_size b)"
proof -
  have "buf_start b + buf_size b < 2 ^ 32" if "buf_start b < buf_capacity b"
    using buf_invD(2,3) [OF assms] that by simp
  then show ?thesis
    using buf_invD(3,4,6) [OF assms]
    by (cases "buf_capacity b = 0") (auto simp: pni_buffer_tail_def wrap32_id Let_def)
qed

lemma wrapped_inv:
  assumes "buf_inv b"
  shows "pni_buffer_wrapped b \<longleftrightarrow> buf_size b \<noteq> 0 \<and> buf_capacity b \<le> buf_start b + buf_size b"
  using buf_invD(3) [OF assms]
  by (auto simp: pni_buffer_wrapped_def pni_buffer_head_def tail_inv [OF assms])

section \<open>Growing\<close>

text \<open>The struct after a growth to \<open>new_capacity\<close>, with the wrapped part moved to the end.\<close>

definition grown :: "pn_buffer \<Rightarrow> byte list \<Rightarrow> nat \<Rightarrow> pn_buffer" where
  "grown b new_bytes new_capacity =
     (let n = buf_capacity b - buf_start b
      in if pni_buffer_wrapped b then
           b\<lparr>buf_bytes := memcpy_at new_bytes (new_capacity - n) (take n (drop (buf_start b) new_bytes)),
             buf_capacity := new_capacity, buf_start := new_capacity - n\<rparr>
         else b\<lparr>buf_bytes := new_bytes, buf_capacity := new_capacity\<rparr>)"

lemma grown_content:
  assumes inv: "buf_inv b" and cap: "buf_capacity b < c" "c \<le> 2 ^ 31" and len: "length nb = c"
    and old: "\<And>i. i < buf_capacity b \<Longrightarrow> nb ! i = buf_bytes b ! i"
  shows "buf_inv (grown b nb c) \<and> buf_content (grown b nb c) = buf_content b"
proof (cases "pni_buffer_wrapped b")
  case False
  have "buf_start b < c" using buf_invD(5) [OF inv] cap by linarith
  then have inv': "buf_inv (grown b nb c)"
    using False inv cap len by (auto simp: grown_def buf_inv_def Let_def)
  have "buf_content (grown b nb c) = buf_content b"
  proof (rule buf_content_eqI)
    fix i assume "i < buf_size (grown b nb c)"
    then have i: "i < buf_size b" using False by (simp add: grown_def Let_def)
    then have "buf_start b + i < buf_capacity b"
      using False by (auto simp: wrapped_inv [OF inv])
    then show "buf_bytes (grown b nb c) !
        ((buf_start (grown b nb c) + i) mod buf_capacity (grown b nb c)) = buf_content b ! i"
      using False cap i old by (simp add: grown_def Let_def nth_buf_content)
  qed (use False in \<open>simp add: grown_def Let_def\<close>)
  with inv' show ?thesis by simp
next
  case True
  define n where "n = buf_capacity b - buf_start b"
  have w: "buf_size b \<noteq> 0" "buf_capacity b \<le> buf_start b + buf_size b"
    using True by (simp_all add: wrapped_inv [OF inv])
  have pos: "0 < buf_capacity b" using w buf_invD(3) [OF inv] by linarith
  then have start: "buf_start b < buf_capacity b" by (rule buf_invD(4) [OF inv])
  then have n: "0 < n" "n \<le> buf_capacity b" "buf_start b + n = buf_capacity b"
    by (simp_all add: n_def)
  let ?src = "take n (drop (buf_start b) nb)"
  have src: "length ?src = n" using n cap len by simp
  have g: "grown b nb c = b\<lparr>buf_bytes := memcpy_at nb (c - n) ?src, buf_capacity := c, buf_start := c - n\<rparr>"
    using True by (simp add: grown_def n_def Let_def)
  have inv': "buf_inv (grown b nb c)"
    using inv cap n len src by (auto simp: g buf_inv_def mem_simps split: if_splits)
  have "buf_content (grown b nb c) = buf_content b"
  proof (rule buf_content_eqI)
    fix i assume "i < buf_size (grown b nb c)"
    then have i: "i < buf_size b" by (simp add: g)
    then have ic: "i \<le> buf_capacity b" using buf_invD(3) [OF inv] by linarith
    show "buf_bytes (grown b nb c) !
        ((buf_start (grown b nb c) + i) mod buf_capacity (grown b nb c)) = buf_content b ! i"
    proof (cases "i < n")
      case True
      then have "buf_start b + i < buf_capacity b" "c - n + i < c" using n cap by linarith+
      moreover have "memcpy_at nb (c - n) ?src ! (c - n + i) = nb ! (buf_start b + i)"
        using True n cap len src by (subst nth_memcpy_at_inside) simp_all
      ultimately show ?thesis
        using i old by (simp add: g nth_buf_content)
    next
      case False
      have 1: "(c + i - n) mod c = i - n" using False ic n cap by (simp add: mod_if)
      have 2: "(buf_start b + i) mod buf_capacity b = i - n"
        unfolding ring_index [OF start ic] using False n by auto
      have "i - n < c - n" "i - n < buf_capacity b" "i - n < c" using ic n cap False by linarith+
      moreover from this have "memcpy_at nb (c - n) ?src ! (i - n) = nb ! (i - n)"
        using n cap len src by (subst nth_memcpy_at) simp_all
      ultimately show ?thesis using i old by (simp add: g nth_buf_content 1 2)
    qed
  qed (simp add: g)
  with inv' show ?thesis by simp
qed

lemma ensure_grown:
  assumes inv: "buf_inv b" and sz: "buf_capacity b - buf_size b < sz" "sz \<le> 2 ^ 31"
  defines "needed \<equiv> max 32 (buf_size b + sz)"
  defines "c \<equiv> unat (pni_round_up_pow2 (word_of_nat needed))"
  shows "pn_buffer_ensure alloc b sz =
    (if needed > 2 ^ 31 then (PN_OUT_OF_MEMORY, b)
     else case mem_realloc alloc (buf_bytes b) c of
       None \<Rightarrow> (PN_OUT_OF_MEMORY, b) | Some nb \<Rightarrow> (0, grown b nb c))"
proof -
  have need: "(if buf_size b + sz < 32 then 32 else buf_size b + sz) = needed"
    by (simp add: needed_def max_def)
  have "sub64 (buf_capacity b) (buf_start b) = buf_capacity b - buf_start b"
    using buf_invD(2,5) [OF inv] by (intro sub64_diff) simp_all
  then show ?thesis
    using sz unfolding pn_buffer_ensure_def available_inv [OF inv]
    by (simp add: Let_def need c_def grown_def pni_buffer_head_def split: option.split)
qed

lemma needed_capacity:
  assumes "buf_inv b" "needed \<ge> 32" "needed \<le> 2 ^ 31" "buf_size b + sz \<le> needed"
    "buf_capacity b - buf_size b < sz"
  defines "c \<equiv> unat (pni_round_up_pow2 (word_of_nat needed))"
  shows "needed \<le> c" "c \<le> 2 ^ 31" "buf_capacity b < c"
proof -
  have "0 < needed" using assms(2) by simp
  then obtain k where k: "c = 2 ^ k" "needed \<le> 2 ^ k" "k \<le> 31"
    unfolding c_def by (rule pni_round_up_pow2_nat [OF _ assms(3)]) blast
  then show "needed \<le> c" by simp
  show "c \<le> 2 ^ 31" unfolding k(1) using k(3) by (intro power_increasing) simp_all
  show "buf_capacity b < c" using \<open>needed \<le> c\<close> assms(4,5) by linarith
qed

text \<open>What \<open>pn_buffer_ensure\<close> promises: the content is kept, and success leaves the room asked for.\<close>

lemma ensure_spec:
  assumes inv: "buf_inv b" and run: "pn_buffer_ensure alloc b sz = (err, b')"
  shows "buf_inv b' \<and> buf_content b' = buf_content b \<and>
    (err = 0 \<and> sz \<le> buf_capacity b' - buf_size b' \<or> err = PN_OUT_OF_MEMORY \<and> b' = b)"
proof (cases "sz \<le> buf_capacity b - buf_size b")
  case True
  with run inv show ?thesis
    unfolding pn_buffer_ensure_def available_inv [OF inv] by auto
next
  case False
  show ?thesis
  proof (cases "sz \<le> 2 ^ 31")
    case big: False
    with run inv False show ?thesis
      unfolding pn_buffer_ensure_def available_inv [OF inv] by auto
  next
    case True
    define needed where "needed = max 32 (buf_size b + sz)"
    define c where "c = unat (pni_round_up_pow2 (word_of_nat needed))"
    have lt: "buf_capacity b - buf_size b < sz" using False by simp
    note eq = ensure_grown [OF inv lt True, of alloc, folded needed_def, folded c_def]
    show ?thesis
    proof (cases "needed > 2 ^ 31 \<or> mem_realloc alloc (buf_bytes b) c = None")
      case True
      with run inv eq show ?thesis by (auto split: if_splits)
    next
      case ok: False
      then obtain nb where nb: "mem_realloc alloc (buf_bytes b) c = Some nb" by auto
      have need: "needed \<ge> 32" "needed \<le> 2 ^ 31" "buf_size b + sz \<le> needed"
        using ok by (auto simp: needed_def)
      note c = needed_capacity [OF inv need lt, folded c_def]
      have b': "err = 0" "b' = grown b nb c" using run eq ok nb by auto
      have "buf_inv b' \<and> buf_content b' = buf_content b"
        unfolding b' using inv c nb mem_realloc_nth [OF nb] buf_invD(1) [OF inv]
        by (intro grown_content) (auto dest: mem_realloc_length)
      moreover have "sz \<le> buf_capacity b' - buf_size b'"
        using c(1) need(3) by (simp add: b' grown_def Let_def)
      ultimately show ?thesis using b' by simp
    qed
  qed
qed

lemma ensure_ok:
  assumes "buf_inv b" "buf_size b + sz \<le> 2 ^ 31" "\<And>n. alloc n \<noteq> None"
  shows "fst (pn_buffer_ensure alloc b sz) = 0"
proof (cases "sz \<le> buf_capacity b - buf_size b")
  case True
  then show ?thesis by (simp add: pn_buffer_ensure_def available_inv [OF assms(1)])
next
  case False
  then show ?thesis
    using assms(2,3) mem_realloc_None_iff [of alloc "buf_bytes b"]
    by (subst ensure_grown [OF assms(1)]) (auto split: option.split)
qed

section \<open>Appending\<close>

definition stored :: "pn_buffer \<Rightarrow> byte list \<Rightarrow> pn_buffer" where
  "stored b bs =
     (let n = min (pni_buffer_tail_space b) (length bs)
      in b\<lparr>buf_bytes := memcpy_at (memcpy_at (buf_bytes b) (pni_buffer_tail b) (take n bs)) 0 (drop n bs),
           buf_size := buf_size b + length bs\<rparr>)"

lemma tail_space_inv:
  assumes "buf_inv b"
  shows "pni_buffer_tail_space b =
    (if pni_buffer_wrapped b then buf_capacity b - buf_size b else buf_capacity b - pni_buffer_tail b)"
proof -
  have "pni_buffer_tail b \<le> buf_capacity b" "buf_capacity b < 2 ^ 64"
    using buf_invD(2,3,4,5) [OF assms] by (auto simp: tail_inv [OF assms] split: if_splits)
  then show ?thesis
    by (simp add: pni_buffer_tail_space_def available_inv [OF assms] sub64_diff)
qed

text \<open>Where the two copies of an append go: both fit, and together they follow the content.\<close>

lemma tail_layout:
  assumes inv: "buf_inv b" and room: "0 < l" "l \<le> buf_capacity b - buf_size b"
  defines "n \<equiv> min (pni_buffer_tail_space b) l" and "t \<equiv> pni_buffer_tail b"
  shows "t + n \<le> buf_capacity b"
    and "l - n \<le> t"
    and "\<And>j. j < l \<Longrightarrow> (buf_start b + (buf_size b + j)) mod buf_capacity b = (if j < n then t + j else j - n)"
    and "\<And>i. i < buf_size b \<Longrightarrow> \<not> (t \<le> (buf_start b + i) mod buf_capacity b \<and>
          (buf_start b + i) mod buf_capacity b < t + n) \<and> l - n \<le> (buf_start b + i) mod buf_capacity b"
proof -
  have cap: "0 < buf_capacity b" using room buf_invD(3) [OF inv] by linarith
  have start: "buf_start b < buf_capacity b" by (rule buf_invD(4) [OF inv cap])
  have fit: "buf_size b + l \<le> buf_capacity b" using room buf_invD(3) [OF inv] by linarith
  have t: "t = (if buf_capacity b \<le> buf_start b + buf_size b
      then buf_start b + buf_size b - buf_capacity b else buf_start b + buf_size b)"
    unfolding t_def by (rule tail_inv [OF inv])
  have n: "n = (if pni_buffer_wrapped b then l else min (buf_capacity b - t) l)"
    using room by (auto simp: n_def t_def tail_space_inv [OF inv])
  show "t + n \<le> buf_capacity b" "l - n \<le> t"
    using start fit by (auto simp: t n wrapped_inv [OF inv])
  show "(buf_start b + (buf_size b + j)) mod buf_capacity b = (if j < n then t + j else j - n)"
    if "j < l" for j
    using start fit that by (subst ring_index) (auto simp: t n wrapped_inv [OF inv])
  show "\<not> (t \<le> (buf_start b + i) mod buf_capacity b \<and> (buf_start b + i) mod buf_capacity b < t + n) \<and>
      l - n \<le> (buf_start b + i) mod buf_capacity b" if "i < buf_size b" for i
    using start fit that by (subst (1 2 3) ring_index) (auto simp: t n wrapped_inv [OF inv])
qed

lemma stored_content:
  assumes inv: "buf_inv b" and room: "bs \<noteq> []" "length bs \<le> buf_capacity b - buf_size b"
  shows "buf_inv (stored b bs) \<and> buf_content (stored b bs) = buf_content b @ bs"
proof -
  define n where "n = min (pni_buffer_tail_space b) (length bs)"
  define t where "t = pni_buffer_tail b"
  define c where "c = buf_capacity b"
  let ?m1 = "memcpy_at (buf_bytes b) t (take n bs)"
  let ?m2 = "memcpy_at ?m1 0 (drop n bs)"
  have l0: "0 < length bs" using room by simp
  note lay = tail_layout [OF inv l0 room(2), folded n_def t_def c_def]
  have len: "length (buf_bytes b) = c" using buf_invD(1) [OF inv] by (simp add: c_def)
  have nl: "n \<le> length bs" by (simp add: n_def)
  have m1: "length ?m1 = c" using lay(1) len nl by (simp add: mem_simps)
  have tc: "t \<le> c" using lay(1) by linarith
  have m2: "length ?m2 = c" using lay(2) m1 tc by (subst length_memcpy_at) simp_all
  have fit: "buf_size b + length bs \<le> c" using room buf_invD(3) [OF inv] by (simp add: c_def)
  have st: "stored b bs = b\<lparr>buf_bytes := ?m2, buf_size := buf_size b + length bs\<rparr>"
    by (simp add: stored_def n_def t_def Let_def)
  have rd: "?m2 ! p = (if p < length bs - n then bs ! (n + p)
      else if t \<le> p \<and> p < t + n then bs ! (p - t) else buf_bytes b ! p)" if "p < c" for p
    using that lay(1,2) len m1 nl tc by (auto simp: nth_memcpy_at)
  have inv': "buf_inv (stored b bs)"
    using inv m2 fit by (auto simp: st buf_inv_def c_def)
  have c0: "0 < c" using fit l0 by linarith
  have "buf_content (stored b bs) = buf_content b @ bs"
  proof (rule buf_content_eqI)
    show "length (buf_content b @ bs) = buf_size (stored b bs)" by (simp add: st)
    fix i assume i: "i < buf_size (stored b bs)"
    let ?p = "(buf_start b + i) mod c"
    have pc: "?p < c" using c0 by simp
    have "?m2 ! ?p = (buf_content b @ bs) ! i"
    proof (cases "i < buf_size b")
      case True
      from lay(4) [OF True] have "?m2 ! ?p = buf_bytes b ! ?p" unfolding rd [OF pc] by auto
      with True show ?thesis by (simp add: nth_append nth_buf_content c_def)
    next
      case False
      define j where "j = i - buf_size b"
      have ij: "i = buf_size b + j" "j < length bs" using False i by (simp_all add: st j_def)
      have "?p = (if j < n then t + j else j - n)" using lay(3) [OF ij(2)] ij(1) by simp
      then have "?m2 ! ?p = bs ! j" using lay(2) ij(2) nl unfolding rd [OF pc] by auto
      then show ?thesis by (simp add: ij(1) nth_append)
    qed
    then show "buf_bytes (stored b bs) ! ((buf_start (stored b bs) + i) mod buf_capacity (stored b bs)) =
        (buf_content b @ bs) ! i" by (simp add: st c_def)
  qed
  with inv' show ?thesis by simp
qed

lemma append_stored:
  assumes "buf_inv b" "pn_buffer_ensure alloc b (length bs) = (0, b1)" "bs \<noteq> []"
  shows "pn_buffer_append alloc b (Outside bs) = (0, stored b1 bs)"
proof -
  from ensure_spec [OF assms(1,2)] have b1: "buf_inv b1" "length bs \<le> buf_capacity b1 - buf_size b1"
    by auto
  then have "buf_size b1 + length bs < 2 ^ 32" using buf_invD(2,3) [OF b1(1)] by simp
  then show ?thesis
    using assms(2,3) by (simp add: pn_buffer_append_def stored_def Let_def wrap32_id)
qed

lemma append_spec:
  assumes inv: "buf_inv b" and run: "pn_buffer_append alloc b (Outside bs) = (err, b')"
  shows "buf_inv b' \<and> (err = 0 \<and> buf_content b' = buf_content b @ bs \<or>
    err = PN_OUT_OF_MEMORY \<and> b' = b)"
proof (cases "bs = []")
  case True
  with run inv show ?thesis by (auto simp: pn_buffer_append_def)
next
  case False
  obtain e b1 where en: "pn_buffer_ensure alloc b (length bs) = (e, b1)" by force
  note sp = ensure_spec [OF inv en]
  show ?thesis
  proof (cases "e = 0")
    case True
    with sp have "length bs \<le> buf_capacity b1 - buf_size b1" by auto
    with sp have st: "buf_inv (stored b1 bs) \<and> buf_content (stored b1 bs) = buf_content b1 @ bs"
      using False by (intro stored_content) auto
    from append_stored [OF inv _ False] en True run have "err = 0" "b' = stored b1 bs" by auto
    with st sp show ?thesis by auto
  next
    case e: False
    with sp have "e = PN_OUT_OF_MEMORY" "b1 = b" by auto
    with run en False e have "err = PN_OUT_OF_MEMORY" "b' = b" by (auto simp: pn_buffer_append_def)
    with inv show ?thesis by simp
  qed
qed

lemma append_ok:
  assumes "buf_inv b" "buf_size b + length bs \<le> 2 ^ 31" "\<And>n. alloc n \<noteq> None"
  shows "fst (pn_buffer_append alloc b (Outside bs)) = 0"
proof (cases "bs = []")
  case True
  then show ?thesis by (simp add: pn_buffer_append_def)
next
  case False
  obtain e b1 where en: "pn_buffer_ensure alloc b (length bs) = (e, b1)" by force
  with ensure_ok [OF assms(1,2), of alloc] assms(3) have "e = 0" by simp
  with append_stored [OF assms(1) _ False] en show ?thesis by simp
qed

lemma append_room:
  assumes "buf_inv b" "length bs \<le> buf_capacity b - buf_size b"
  shows "pn_buffer_append alloc b (Outside bs) = (0, if bs = [] then b else stored b bs)"
proof (cases "bs = []")
  case True
  then show ?thesis by (simp add: pn_buffer_append_def)
next
  case False
  have "pn_buffer_ensure alloc b (length bs) = (0, b)"
    using assms by (simp add: pn_buffer_ensure_def available_inv)
  from append_stored [OF assms(1) this False] False show ?thesis by simp
qed

section \<open>Reading and trimming\<close>

lemma index_inv:
  assumes "buf_inv b" "i \<le> buf_capacity b" "0 < buf_capacity b"
  shows "pni_buffer_index b i = (buf_start b + i) mod buf_capacity b"
proof -
  have "buf_start b < buf_capacity b" by (rule buf_invD(4) [OF assms(1,3)])
  moreover from this have "buf_start b + i < 2 ^ 64" using buf_invD(2) [OF assms(1)] assms(2) by simp
  ultimately show ?thesis
    using assms(2) by (simp add: pni_buffer_index_def wrap64_id ring_index Let_def)
qed

lemma ring_slice:
  assumes "length xs = c" "s < c" "0 < l" "l \<le> c"
  shows "(if (s + l) mod c \<le> s then take (c - s) (drop s xs) @ take ((s + l) mod c) xs
      else take ((s + l) mod c - s) (drop s xs)) = map (\<lambda>i. xs ! ((s + i) mod c)) [0..<l]"
proof (cases "c \<le> s + l")
  case True
  then have 1: "(s + l) mod c = s + l - c" using assms by (simp add: ring_index)
  have "(take (c - s) (drop s xs) @ take (s + l - c) xs) ! i = xs ! ((s + i) mod c)" if "i < l" for i
  proof (cases "i < c - s")
    case i: True
    then have "(s + i) mod c = s + i" by simp
    with i assms show ?thesis by (simp add: nth_append)
  next
    case i: False
    then have "(s + i) mod c = i - (c - s)" using that assms by (subst ring_index) auto
    with i that assms show ?thesis by (simp add: nth_append)
  qed
  moreover have "s + l - c \<le> s" using assms by linarith
  ultimately show ?thesis unfolding 1 using assms True by (auto intro!: nth_equalityI)
next
  case False
  then have 1: "(s + l) mod c = s + l" using assms by simp
  show ?thesis unfolding 1
    using assms False by (auto intro!: nth_equalityI)
qed

lemma drop_content:
  assumes "buf_inv b" "k \<le> buf_size b"
  shows "drop k (buf_content b) =
    map (\<lambda>i. buf_bytes b ! (((buf_start b + k) mod buf_capacity b + i) mod buf_capacity b)) [0..<buf_size b - k]"
  using assms by (auto intro!: nth_equalityI simp: nth_buf_content mod_add_left_eq add.assoc)

text \<open>A read inside the content returns exactly that slice.\<close>

lemma get_spec:
  assumes inv: "buf_inv b" and rng: "offset + min sz (buf_size b) \<le> buf_size b"
  shows "pn_buffer_get b offset sz =
    (min sz (buf_size b), take (min sz (buf_size b)) (drop offset (buf_content b)))"
proof (cases "min sz (buf_size b) = 0")
  case True
  then show ?thesis by (auto simp: pn_buffer_get_def Let_def min_def split: if_splits)
next
  case False
  define l where "l = min sz (buf_size b)"
  define c where "c = buf_capacity b"
  define s where "s = (buf_start b + offset) mod c"
  have l: "0 < l" "offset + l \<le> buf_size b" "l \<le> c"
    using False rng buf_invD(3) [OF inv] by (auto simp: l_def c_def)
  have c: "0 < c" "c \<le> 2 ^ 31" "length (buf_bytes b) = c"
    using l buf_invD(1,2) [OF inv] by (auto simp: c_def)
  have s: "s < c" using c by (simp add: s_def)
  have oc: "offset + l \<le> c" using l(2) buf_invD(3) [OF inv] by (simp add: c_def)
  have 1: "pni_buffer_index b offset = s"
    using index_inv [OF inv, of offset] oc c by (simp add: s_def c_def)
  have "wrap64 (offset + l) = offset + l" using oc c by (intro wrap64_id) simp
  then have 2: "pni_buffer_index b (wrap64 (offset + l)) = (s + l) mod c"
    using index_inv [OF inv, of "offset + l"] oc c by (simp add: s_def c_def mod_add_left_eq add.assoc)
  have 3: "sub64 c s = c - s" using s c by (intro sub64_diff) simp_all
  let ?x = "(if (s + l) mod c \<le> s then take (c - s) (drop s (buf_bytes b)) @ take ((s + l) mod c) (buf_bytes b)
      else take ((s + l) mod c - s) (drop s (buf_bytes b)))"
  let ?n = "if (s + l) mod c \<le> s then c - s + (s + l) mod c else (s + l) mod c - s"
  have len: "?n = l" unfolding ring_index [OF s l(3)] using s l(1,3) by auto
  then have "wrap64 ?n = l" using l c by (subst wrap64_id) simp_all
  then have "pn_buffer_get b offset sz = (l, ?x)"
    using l(1) unfolding pn_buffer_get_def l_def [symmetric] Let_def 1 2 c_def [symmetric] 3
    by (auto split: if_splits)
  also have "?x = map (\<lambda>i. buf_bytes b ! ((s + i) mod c)) [0..<l]"
    using c s l by (intro ring_slice)
  also have "\<dots> = take l (drop offset (buf_content b))"
    using l(2) drop_content [OF inv, of offset] by (simp add: s_def c_def take_map)
  finally show ?thesis by (simp add: l_def)
qed

lemma clear_spec: "buf_inv b \<Longrightarrow> buf_inv (pn_buffer_clear b) \<and> buf_content (pn_buffer_clear b) = []"
  by (simp add: pn_buffer_clear_def buf_inv_def buf_content_def split: if_splits)

lemma trim_spec:
  assumes inv: "buf_inv b" and nowrap: "left + right < 2 ^ 64"
  shows "case pn_buffer_trim b left right of (err, b') \<Rightarrow>
    buf_inv b' \<and>
    (if left + right \<le> buf_size b
     then err = 0 \<and> buf_content b' = take (buf_size b - (left + right)) (drop left (buf_content b))
     else err = PN_ARG_ERR \<and> b' = b)"
proof -
  have w: "wrap64 (left + right) = left + right" using nowrap by (rule wrap64_id)
  consider "left + right > buf_size b" | "left + right = buf_size b" | "left + right < buf_size b"
    by linarith
  then show ?thesis
  proof cases
    case 1
    then show ?thesis using inv by (simp add: pn_buffer_trim_def w)
  next
    case 2
    then show ?thesis
      using clear_spec [OF inv] w by (simp add: pn_buffer_trim_def)
  next
    case 3
    define c where "c = buf_capacity b"
    have c: "0 < c" "buf_size b \<le> c" "c \<le> 2 ^ 31" using 3 buf_invD(2,3) [OF inv] by (auto simp: c_def)
    have s: "buf_start b < c" using buf_invD(4) [OF inv] c by (simp add: c_def)
    have "buf_start b + left < 2 ^ 32" using s c 3 by simp
    then have st: "(if c \<le> wrap32 (buf_start b + left) then wrap32 (buf_start b + left) - c
        else wrap32 (buf_start b + left)) = (buf_start b + left) mod c"
      using s c 3 by (simp add: wrap32_id ring_index)
    have "sub64 (buf_size b) (left + right) = buf_size b - (left + right)"
      using 3 c by (intro sub64_diff) simp_all
    then have sz: "wrap32 (sub64 (buf_size b) (left + right)) = buf_size b - (left + right)"
      using c by (simp add: wrap32_id)
    let ?b = "b\<lparr>buf_start := (buf_start b + left) mod c, buf_size := buf_size b - (left + right)\<rparr>"
    have eq: "pn_buffer_trim b left right = (0, ?b)"
      unfolding pn_buffer_trim_def w Let_def c_def [symmetric] st sz using 3 by simp
    have "buf_inv ?b" using inv c by (auto simp: buf_inv_def c_def)
    moreover have "buf_content ?b = take (buf_size b - (left + right)) (drop left (buf_content b))"
      using 3 drop_content [OF inv, of left] by (simp add: buf_content_def c_def take_map)
    ultimately show ?thesis using 3 by (simp add: eq)
  qed
qed

lemma defrag_spec:
  assumes inv: "buf_inv b"
  obtains b' where "pn_buffer_defrag b = Some b'" "buf_inv b'" "buf_start b' = 0"
    "buf_content b' = buf_content b" "buf_content b' = take (buf_size b') (buf_bytes b')"
    "buf_capacity b' = buf_capacity b"
proof -
  let ?b = "b\<lparr>buf_bytes := rotate (buf_start b) (buf_bytes b), buf_start := 0\<rparr>"
  have len: "length (buf_bytes b) = buf_capacity b" by (rule buf_invD(1) [OF inv])
  have run: "pn_buffer_defrag b = Some ?b"
  proof (cases "buf_start b = 0")
    case True
    then show ?thesis by (simp add: pn_buffer_defrag_def pn_buffer_rotate_def)
  next
    case False
    then have "buf_start b < buf_capacity b" using buf_invD(4,6) [OF inv] by (cases "buf_capacity b") auto
    then have "rotate_cycles (Suc (buf_capacity b)) (buf_capacity b) (buf_start b) 0 (buf_bytes b) 0 =
        Some (rotate (buf_start b) (buf_bytes b))"
      using rotate_cycles_rotate [of "buf_start b" "buf_bytes b"] False len buf_invD(2) [OF inv] by simp
    with False show ?thesis by (simp add: pn_buffer_defrag_def pn_buffer_rotate_def)
  qed
  have nth: "rotate (buf_start b) (buf_bytes b) ! i = buf_content b ! i" if "i < buf_size b" for i
    using that len buf_invD(3) [OF inv] by (simp add: nth_rotate nth_buf_content)
  have "buf_inv ?b" using inv by (simp add: buf_inv_def)
  moreover have c: "buf_content ?b = buf_content b"
    using nth buf_invD(3) [OF inv] by (intro buf_content_eqI) simp_all
  moreover have "buf_content ?b = take (buf_size ?b) (buf_bytes ?b)"
    unfolding c using nth len buf_invD(3) [OF inv] by (intro nth_equalityI) simp_all
  ultimately show ?thesis using run by (intro that [of ?b]) simp_all
qed

lemma new_spec:
  assumes "pn_buffer_new alloc capacity = Some b" "capacity \<le> 2 ^ 31"
  shows "buf_inv b \<and> buf_content b = [] \<and> buf_capacity b = capacity"
  using assms
  by (auto simp: pn_buffer_new_def buf_inv_def buf_content_def wrap32_id dest: mem_alloc_length split: if_splits)

section \<open>The contract the clients use\<close>

text \<open>
  What framing, the dispatcher and the deliveries rely on: a byte queue with an abstract content,
  which grows at the end (all or nothing) and is consumed from the front.
\<close>

locale byte_queue =
  fixes q_inv :: "'q \<Rightarrow> bool"
    and q_content :: "'q \<Rightarrow> byte list"
    and q_available :: "'q \<Rightarrow> nat"
    and q_ensure :: "'q \<Rightarrow> nat \<Rightarrow> int \<times> 'q"
    and q_append :: "'q \<Rightarrow> byte list \<Rightarrow> int \<times> 'q"
    and q_get :: "'q \<Rightarrow> nat \<Rightarrow> nat \<times> byte list"
    and q_trim :: "'q \<Rightarrow> nat \<Rightarrow> int \<times> 'q"
    and q_defrag :: "'q \<Rightarrow> 'q option"
  assumes q_ensure: "q_inv q \<Longrightarrow> q_ensure q n = (err, q') \<Longrightarrow>
      q_inv q' \<and> q_content q' = q_content q \<and> (err = 0 \<and> n \<le> q_available q' \<or> err \<noteq> 0 \<and> q' = q)"
    and q_append_room: "q_inv q \<Longrightarrow> length bs \<le> q_available q \<Longrightarrow>
      \<exists>q'. q_append q bs = (0, q') \<and> q_inv q' \<and> q_content q' = q_content q @ bs \<and>
        q_available q' = q_available q - length bs"
    and q_get: "q_inv q \<Longrightarrow>
      q_get q n = (min n (length (q_content q)), take n (q_content q))"
    and q_trim: "q_inv q \<Longrightarrow> n \<le> length (q_content q) \<Longrightarrow>
      \<exists>q'. q_trim q n = (0, q') \<and> q_inv q' \<and> q_content q' = drop n (q_content q)"
    and q_defrag: "q_inv q \<Longrightarrow> \<exists>q'. q_defrag q = Some q' \<and> q_inv q' \<and> q_content q' = q_content q \<and>
      q_available q' = q_available q"
begin

lemma q_append_snd:
  assumes "q_inv q" "length bs \<le> q_available q"
  shows "q_inv (snd (q_append q bs))" "q_content (snd (q_append q bs)) = q_content q @ bs"
    "q_available (snd (q_append q bs)) = q_available q - length bs"
  using q_append_room [OF assms] by auto

text \<open>Several appends that fit together never fail and concatenate.\<close>

fun q_append_list :: "'q \<Rightarrow> byte list list \<Rightarrow> 'q" where
  "q_append_list q [] = q"
| "q_append_list q (bs # bss) = q_append_list (snd (q_append q bs)) bss"

lemma q_append_list_content:
  "q_inv q \<Longrightarrow> length (concat bss) \<le> q_available q \<Longrightarrow>
   q_inv (q_append_list q bss) \<and> q_content (q_append_list q bss) = q_content q @ concat bss \<and>
   q_available (q_append_list q bss) = q_available q - length (concat bss)"
proof (induction bss arbitrary: q)
  case (Cons bs bss)
  then have "length bs \<le> q_available q" by simp
  note q' = q_append_snd [OF Cons.prems(1) this]
  with Cons.prems Cons.IH [OF q'(1)] show ?case by simp
qed simp

text \<open>Taking bytes off the front: what is returned and what is kept make up the old content.\<close>

lemma q_take_front:
  assumes "q_inv q" "q_get q n = (m, bs)"
  shows "\<exists>q'. q_trim q m = (0, q') \<and> q_inv q' \<and> m = length bs \<and> bs @ q_content q' = q_content q"
proof -
  have m: "m = min n (length (q_content q))" "bs = take n (q_content q)"
    using q_get [OF assms(1), of n] assms(2) by simp_all
  have le: "m \<le> length (q_content q)" using m(1) by simp
  have bs: "bs = take m (q_content q)" unfolding m by (simp add: min_def)
  obtain q' where "q_trim q m = (0, q')" "q_inv q'" "q_content q' = drop m (q_content q)"
    using q_trim [OF assms(1) le] by blast
  with le show ?thesis unfolding bs by (intro exI [of _ q']) simp
qed

end

lemma available_content:
  "buf_inv b \<Longrightarrow> pn_buffer_available b = buf_capacity b - length (buf_content b)"
  by (simp add: available_inv)

lemma append_room_content:
  assumes "buf_inv b" "length bs \<le> pn_buffer_available b"
  shows "\<exists>b'. pn_buffer_append alloc b (Outside bs) = (0, b') \<and> buf_inv b' \<and>
    buf_content b' = buf_content b @ bs \<and> pn_buffer_available b' = pn_buffer_available b - length bs"
proof (cases "bs = []")
  case True
  with assms show ?thesis by (simp add: pn_buffer_append_def)
next
  case False
  have room: "length bs \<le> buf_capacity b - buf_size b" using assms by (simp add: available_inv)
  note st = stored_content [OF assms(1) False room]
  moreover have "pn_buffer_append alloc b (Outside bs) = (0, stored b bs)"
    using append_room [OF assms(1) room] False by simp
  moreover have "buf_capacity (stored b bs) = buf_capacity b" by (simp add: stored_def Let_def)
  ultimately show ?thesis using assms(1) by (simp add: available_content)
qed

interpretation buf: byte_queue buf_inv buf_content pn_buffer_available "pn_buffer_ensure alloc"
  "\<lambda>b bs. pn_buffer_append alloc b (Outside bs)" "\<lambda>b n. pn_buffer_get b 0 n" "\<lambda>b n. pn_buffer_trim b n 0"
  pn_buffer_defrag for alloc
proof unfold_locales
  fix b n err b'
  assume "buf_inv b" "pn_buffer_ensure alloc b n = (err, b')"
  from ensure_spec [OF this] show "buf_inv b' \<and> buf_content b' = buf_content b \<and>
      (err = 0 \<and> n \<le> pn_buffer_available b' \<or> err \<noteq> 0 \<and> b' = b)"
    by (auto simp: available_inv)
next
  fix b bs
  assume "buf_inv b" "length (bs :: byte list) \<le> pn_buffer_available b"
  then show "\<exists>b'. pn_buffer_append alloc b (Outside bs) = (0, b') \<and> buf_inv b' \<and>
      buf_content b' = buf_content b @ bs \<and> pn_buffer_available b' = pn_buffer_available b - length bs"
    by (rule append_room_content)
next
  fix b n
  assume "buf_inv b"
  then show "pn_buffer_get b 0 n = (min n (length (buf_content b)), take n (buf_content b))"
    using get_spec [of b 0 n] by (auto simp: min_def)
next
  fix b n
  assume b: "buf_inv b" "n \<le> length (buf_content b)"
  have "n + 0 < 2 ^ 64" using b buf_invD(2,3) [OF b(1)] by simp
  from trim_spec [OF b(1) this] b show "\<exists>b'. pn_buffer_trim b n 0 = (0, b') \<and> buf_inv b' \<and>
      buf_content b' = drop n (buf_content b)"
    by (auto split: prod.splits)
next
  fix b
  assume b: "buf_inv b"
  then obtain b' where b': "pn_buffer_defrag b = Some b'" "buf_inv b'" "buf_content b' = buf_content b"
    "buf_capacity b' = buf_capacity b" by (rule defrag_spec)
  have "buf_size b' = buf_size b" using b'(3) length_buf_content by metis
  with b b' show "\<exists>b'. pn_buffer_defrag b = Some b' \<and> buf_inv b' \<and> buf_content b' = buf_content b \<and>
      pn_buffer_available b' = pn_buffer_available b"
    by (auto simp: available_inv)
qed

section \<open>Properties\<close>

text \<open>Sequences of operations on a buffer, and what each means for the byte string it holds.\<close>

datatype buf_op = Do_Ensure nat | Do_Append "byte list" | Do_Trim nat nat | Do_Clear | Do_Defrag

fun buf_exec :: "allocator \<Rightarrow> buf_op \<Rightarrow> pn_buffer \<Rightarrow> (int \<times> pn_buffer) option" where
  "buf_exec alloc (Do_Ensure n) b = Some (pn_buffer_ensure alloc b n)"
| "buf_exec alloc (Do_Append bs) b = Some (pn_buffer_append alloc b (Outside bs))"
| "buf_exec alloc (Do_Trim l r) b = Some (pn_buffer_trim b l r)"
| "buf_exec alloc Do_Clear b = Some (0, pn_buffer_clear b)"
| "buf_exec alloc Do_Defrag b = map_option (Pair 0) (pn_buffer_defrag b)"

fun buf_run :: "allocator \<Rightarrow> buf_op list \<Rightarrow> pn_buffer \<Rightarrow> (int list \<times> pn_buffer) option" where
  "buf_run alloc [] b = Some ([], b)"
| "buf_run alloc (x # xs) b =
     (case buf_exec alloc x b of
        None \<Rightarrow> None
      | Some (err, b) \<Rightarrow> map_option (\<lambda>(errs, b). (err # errs, b)) (buf_run alloc xs b))"

fun content_exec :: "buf_op \<Rightarrow> byte list \<Rightarrow> byte list" where
  "content_exec (Do_Ensure n) xs = xs"
| "content_exec (Do_Append bs) xs = xs @ bs"
| "content_exec (Do_Trim l r) xs = take (length xs - (l + r)) (drop l xs)"
| "content_exec Do_Clear xs = []"
| "content_exec Do_Defrag xs = xs"

fun content_run :: "buf_op list \<Rightarrow> int list \<Rightarrow> byte list \<Rightarrow> byte list" where
  "content_run (x # xs) (err # errs) bs =
     content_run xs errs (if err = 0 then content_exec x bs else bs)"
| "content_run _ _ bs = bs"

fun op_in_range :: "buf_op \<Rightarrow> bool" where
  "op_in_range (Do_Trim l r) = (l + r < 2 ^ 64)"
| "op_in_range _ = True"

lemma buf_exec_refines:
  assumes "buf_inv b" "op_in_range x"
  shows "\<exists>err b'. buf_exec alloc x b = Some (err, b') \<and> buf_inv b' \<and>
    buf_content b' = (if err = 0 then content_exec x (buf_content b) else buf_content b)"
proof (cases x)
  case (Do_Ensure n)
  obtain err b' where run: "pn_buffer_ensure alloc b n = (err, b')" by force
  from ensure_spec [OF assms(1) this] run Do_Ensure show ?thesis by auto
next
  case (Do_Append bs)
  obtain err b' where run: "pn_buffer_append alloc b (Outside bs) = (err, b')" by force
  from append_spec [OF assms(1) this] run Do_Append show ?thesis by auto
next
  case (Do_Trim l r)
  obtain err b' where run: "pn_buffer_trim b l r = (err, b')" by force
  from trim_spec [OF assms(1), of l r] assms(2) run Do_Trim show ?thesis
    by (auto split: if_splits)
next
  case Do_Clear
  with clear_spec [OF assms(1)] show ?thesis by auto
next
  case Do_Defrag
  with defrag_spec [OF assms(1)] show ?thesis by (metis buf_exec.simps(5) content_exec.simps(5) option.simps(9))
qed

text \<open>A buffer whose content \<open>3, 1\<close> wraps around the end of its block.\<close>

definition wrapped_example :: pn_buffer where
  "wrapped_example = \<lparr>buf_bytes = [1, 2, 3], buf_capacity = 3, buf_start = 2, buf_size = 2\<rparr>"

lemma wrapped_example_inv: "buf_inv wrapped_example"
  by (simp add: wrapped_example_def buf_inv_def)

lemma wrapped_example_content: "buf_content wrapped_example = [3, 1]"
proof -
  have "[0..<2] = [0, Suc 0]" by code_simp
  then show ?thesis by (simp add: wrapped_example_def buf_content_def)
qed



text \<open>
  C14: an append within the 2 GiB limit never fails while the allocator grants memory: it returns
  0 and the content is extended by exactly the given bytes.
\<close>

theorem pn_buffer_append_total:
  assumes "buf_inv b" "buf_size b + length bs \<le> 2 ^ 31" "\<forall>n. alloc n \<noteq> None"
  shows "\<exists>b'. pn_buffer_append alloc b (Outside bs) = (0, b') \<and> buf_inv b' \<and>
    buf_content b' = buf_content b @ bs"
proof -
  obtain err b' where run: "pn_buffer_append alloc b (Outside bs) = (err, b')" by force
  then have "err = 0" using append_ok [OF assms(1,2), of alloc] assms(3) by simp
  with append_spec [OF assms(1) run] run show ?thesis by auto
qed

theorem pn_buffer_append_total_witness:
  "\<exists>b'. pn_buffer_append (\<lambda>_. Some (\<lambda>_. 0)) wrapped_example (Outside [9, 8]) = (0, b') \<and>
    buf_inv b' \<and> buf_content b' = [3, 1, 9, 8]"
  using pn_buffer_append_total [OF wrapped_example_inv, of "[9, 8]" "\<lambda>_. Some (\<lambda>_. 0)"]
  by (simp add: wrapped_example_content) (simp add: wrapped_example_def)

text \<open>
  C16: \<open>pn_buffer_get\<close> inside the content returns the requested slice, in order, across the wrap
  point of the ring.
\<close>

theorem pn_buffer_get_slice:
  assumes "buf_inv b" "offset + min sz (buf_size b) \<le> buf_size b"
  shows "pn_buffer_get b offset sz =
    (min sz (buf_size b), take sz (drop offset (buf_content b)))"
proof -
  have "take (min sz (buf_size b)) (drop offset (buf_content b)) = take sz (drop offset (buf_content b))"
    using assms(2) by (auto simp: min_def)
  then show ?thesis using get_spec [OF assms] by simp
qed

theorem pn_buffer_get_slice_witness:
  "pn_buffer_get wrapped_example 1 1 = (1, [1])"
  using pn_buffer_get_slice [OF wrapped_example_inv, of 1 1]
  by (simp add: wrapped_example_content) (simp add: wrapped_example_def)



text \<open>
  Beyond the invariant. A buffer created with more than 2 GiB of capacity computes its tail with a
  32-bit sum that wraps, and \<open>pn_buffer_trim\<close> accepts a range whose 64-bit sum wraps.
\<close>

lemma pni_buffer_tail_overflow:
  "pni_buffer_tail \<lparr>buf_bytes = bs, buf_capacity = 0xC0000000, buf_start = 0xA0000000, buf_size = 0x80000000\<rparr> =
     0x20000000 \<and> (0xA0000000 + 0x80000000) mod 0xC0000000 = (0x60000000 :: nat)"
  by (simp add: pni_buffer_tail_def wrap32_def)

lemma pn_buffer_trim_overflow:
  "pn_buffer_trim \<lparr>buf_bytes = [1, 2], buf_capacity = 2, buf_start = 1, buf_size = 2\<rparr> (2 ^ 64 - 1) 2 =
     (0, \<lparr>buf_bytes = [1, 2], buf_capacity = 2, buf_start = 0, buf_size = 1\<rparr>)"
  by (simp add: pn_buffer_trim_def wrap64_def wrap32_def sub64_def)

end
