(* ===== verification/Framing.thy ===== *)
theory Framing
  imports Buffer
begin

text \<open>
  AMQP framing (\<open>core/framing.c\<close>, \<open>core/framing.h\<close>): reading one frame from the bytes that
  have arrived, writing a frame into the output buffer, and posting performatives on a transport.
  Of the logger only the guard \<open>PN_SHOULD_LOG\<close> matters, since tracing defragments the output
  buffer; it is the flag \<open>trace\<close>.
\<close>

section \<open>Frames\<close>

definition AMQP_HEADER_SIZE :: nat where [simp]: "AMQP_HEADER_SIZE = 8"
definition AMQP_FRAME_TYPE :: byte where [simp]: "AMQP_FRAME_TYPE = 0"
definition SASL_FRAME_TYPE :: byte where [simp]: "SASL_FRAME_TYPE = 1"

record pn_frame =
  frame_type :: byte
  frame_channel :: u16
  frame_extended :: pn_bytes
  frame_payload0 :: pn_bytes
  frame_payload1 :: pn_bytes

text \<open>
  \<open>pn_read_frame\<close> returns 0 when the frame is not complete, \<open>PN_ERR\<close> when it is malformed, and
  otherwise its size; only then is the frame written. \<open>bytes\<close> holds the \<open>available\<close> bytes.
\<close>

definition pn_read_frame :: "byte list \<Rightarrow> u32 \<Rightarrow> int \<times> pn_frame option" where
  "pn_read_frame bytes max_frame =
     (let available = length bytes
      in if available < AMQP_HEADER_SIZE then (0, None)
      else
        let sz = pni_read32 bytes
        in if max_frame \<noteq> 0 \<and> sz > max_frame then (PN_ERR, None)
        else if available < unat sz then (0, None)
        else
          let doff = 4 * unat (bytes ! 4)
          in if doff < AMQP_HEADER_SIZE \<or> doff > unat sz then (PN_ERR, None)
          else (int (unat sz),
            Some \<lparr>frame_type = bytes ! 5,
                  frame_channel = pni_read16 (drop 6 bytes),
                  frame_extended = Some (take (doff - AMQP_HEADER_SIZE) (drop AMQP_HEADER_SIZE bytes)),
                  frame_payload0 = Some (take (unat sz - doff) (drop doff bytes)),
                  frame_payload1 = None\<rparr>))"

definition frame_size :: "pn_frame \<Rightarrow> nat" where
  "frame_size f = wrap64 (AMQP_HEADER_SIZE + bytes_size (frame_extended f) +
     bytes_size (frame_payload0 f) + bytes_size (frame_payload1 f))"

definition frame_header :: "pn_frame \<Rightarrow> byte list" where
  "frame_header f =
     (let doff = wrap64 (bytes_size (frame_extended f) + AMQP_HEADER_SIZE - 1) div 4 + 1
      in pni_write32 (word_of_nat (frame_size f)) @ [word_of_nat doff, frame_type f] @
         pni_write16 (frame_channel f))"

text \<open>
  \<open>pn_write_frame\<close> returns the size written (0 when there is no room), the payload handed to the
  frame trace if tracing is on, and the buffer. The results of the appends are ignored, as in the
  code. \<open>None\<close> stands for a defragmentation that does not stop.
\<close>

definition pn_write_frame ::
  "allocator \<Rightarrow> pn_buffer \<Rightarrow> pn_frame \<Rightarrow> bool \<Rightarrow> (nat \<times> byte list option \<times> pn_buffer) option" where
  "pn_write_frame alloc buffer frame trace =
     (let sz = frame_size frame
      in if sz \<le> pn_buffer_available buffer then
        let buffer = snd (pn_buffer_append alloc buffer (Outside (frame_header frame)));
            buffer = snd (pn_buffer_append alloc buffer (Outside (bytes_data (frame_extended frame))))
        in if trace then
          case pn_buffer_defrag buffer of
            None \<Rightarrow> None
          | Some buffer \<Rightarrow>
              let smem_size = buf_size buffer;
                  buffer = snd (pn_buffer_append alloc buffer (Outside (bytes_data (frame_payload0 frame))));
                  buffer = snd (pn_buffer_append alloc buffer (Outside (bytes_data (frame_payload1 frame))))
              in case pn_buffer_defrag buffer of
                   None \<Rightarrow> None
                 | Some buffer \<Rightarrow>
                     Some (sz, Some (take (sub64 (buf_size buffer) smem_size) (drop smem_size (buf_bytes buffer))), buffer)
        else
          let buffer = snd (pn_buffer_append alloc buffer (Outside (bytes_data (frame_payload0 frame))));
              buffer = snd (pn_buffer_append alloc buffer (Outside (bytes_data (frame_payload1 frame))))
          in Some (sz, None, buffer)
      else Some (0, None, buffer))"

definition pn_post_frame ::
  "allocator \<Rightarrow> pn_buffer \<Rightarrow> bool \<Rightarrow> byte \<Rightarrow> u16 \<Rightarrow> pn_bytes \<Rightarrow> pn_bytes \<Rightarrow> pn_buffer option" where
  "pn_post_frame alloc output trace type ch performative payload =
     (let frame = \<lparr>frame_type = type, frame_channel = ch, frame_extended = None,
                   frame_payload0 = performative, frame_payload1 = payload\<rparr>;
          output = snd (pn_buffer_ensure alloc output (frame_size frame))
      in map_option (\<lambda>(_, _, output). output) (pn_write_frame alloc output frame trace))"

section \<open>The transport, as far as framing uses it\<close>

record pn_transport =
  tr_trace :: bool
  tr_local_max_frame :: u32
  tr_halt :: bool
  tr_output_buffer :: pn_buffer
  tr_output_frames_ct :: nat
  tr_input_frames_ct :: nat

definition send_frame ::
  "allocator \<Rightarrow> 'a pn_transport_scheme \<Rightarrow> byte \<Rightarrow> u16 \<Rightarrow> pn_bytes \<Rightarrow> pn_bytes \<Rightarrow>
   (int \<times> 'a pn_transport_scheme) option" where
  "send_frame alloc transport type ch performative payload =
     (if performative = None then Some (PN_ERR, transport)
      else case pn_post_frame alloc (tr_output_buffer transport) (tr_trace transport) type ch performative payload of
             None \<Rightarrow> None
           | Some output \<Rightarrow>
               Some (0, transport\<lparr>tr_output_buffer := output,
                                  tr_output_frames_ct := wrap64 (tr_output_frames_ct transport + 1)\<rparr>))"

definition pn_framing_send_amqp ::
  "allocator \<Rightarrow> 'a pn_transport_scheme \<Rightarrow> u16 \<Rightarrow> pn_bytes \<Rightarrow> (int \<times> 'a pn_transport_scheme) option" where
  "pn_framing_send_amqp alloc transport ch performative =
     send_frame alloc transport AMQP_FRAME_TYPE ch performative None"

definition pn_framing_send_amqp_with_payload ::
  "allocator \<Rightarrow> 'a pn_transport_scheme \<Rightarrow> u16 \<Rightarrow> pn_bytes \<Rightarrow> pn_bytes \<Rightarrow> (int \<times> 'a pn_transport_scheme) option" where
  "pn_framing_send_amqp_with_payload alloc transport ch performative payload =
     send_frame alloc transport AMQP_FRAME_TYPE ch performative payload"

definition pn_framing_send_sasl ::
  "allocator \<Rightarrow> 'a pn_transport_scheme \<Rightarrow> pn_bytes \<Rightarrow> (int \<times> 'a pn_transport_scheme) option" where
  "pn_framing_send_sasl alloc transport performative =
     send_frame alloc transport SASL_FRAME_TYPE 0 performative None"

section \<open>Writing\<close>

text \<open>The encoding of a frame, and when the header can describe it.\<close>

definition frame_bytes :: "pn_frame \<Rightarrow> byte list" where
  "frame_bytes f = frame_header f @ bytes_data (frame_extended f) @
     bytes_data (frame_payload0 f) @ bytes_data (frame_payload1 f)"

definition frame_ok :: "pn_frame \<Rightarrow> bool" where
  "frame_ok f \<longleftrightarrow> length (frame_bytes f) < 2 ^ 32 \<and> bytes_size (frame_extended f) mod 4 = 0 \<and>
     bytes_size (frame_extended f) \<le> 1012"

lemma length_frame_header [simp]: "length (frame_header f) = 8"
  by (simp add: frame_header_def Let_def)

lemma length_frame_bytes:
  "length (frame_bytes f) = 8 + bytes_size (frame_extended f) + bytes_size (frame_payload0 f) +
     bytes_size (frame_payload1 f)"
  by (simp add: frame_bytes_def bytes_size_def)

lemma frame_size_length: "length (frame_bytes f) < 2 ^ 64 \<Longrightarrow> frame_size f = length (frame_bytes f)"
  by (simp add: frame_size_def length_frame_bytes wrap64_id)

lemma frame_size_ok: "frame_ok f \<Longrightarrow> frame_size f = length (frame_bytes f)"
  by (rule frame_size_length) (simp add: frame_ok_def)

definition written :: "allocator \<Rightarrow> pn_buffer \<Rightarrow> pn_frame \<Rightarrow> bool \<Rightarrow> (nat \<times> byte list option \<times> pn_buffer) option \<Rightarrow> bool" where
  "written alloc b f trace r \<longleftrightarrow>
     (\<exists>b'. r = Some (length (frame_bytes f),
              if trace then Some (bytes_data (frame_payload0 f) @ bytes_data (frame_payload1 f)) else None, b') \<and>
           buf_inv b' \<and> buf_content b' = buf_content b @ frame_bytes f \<and>
           pn_buffer_available b' = pn_buffer_available b - length (frame_bytes f))"

lemma write_frame_untraced:
  assumes inv: "buf_inv b" and room: "length (frame_bytes f) \<le> pn_buffer_available b"
    and len: "length (frame_bytes f) < 2 ^ 64"
  shows "written alloc b f False (pn_write_frame alloc b f False)"
proof -
  let ?chunks = "[frame_header f, bytes_data (frame_extended f), bytes_data (frame_payload0 f), bytes_data (frame_payload1 f)]"
  have cat: "concat ?chunks = frame_bytes f" by (simp add: frame_bytes_def)
  have "pn_write_frame alloc b f False = Some (length (frame_bytes f), None, buf.q_append_list alloc b ?chunks)"
    using room by (simp add: pn_write_frame_def frame_size_length [OF len] Let_def)
  with buf.q_append_list_content [OF inv, of ?chunks alloc] room show ?thesis
    unfolding cat written_def by auto
qed

lemma defrag_tail:
  assumes "buf_inv b" "pn_buffer_defrag b = Some b'" "buf_content b = xs @ ys"
  shows "take (sub64 (buf_size b') (length xs)) (drop (length xs) (buf_bytes b')) = ys"
proof -
  obtain b'' where b'': "pn_buffer_defrag b = Some b''" "buf_inv b''" "buf_content b'' = buf_content b"
    "buf_content b'' = take (buf_size b'') (buf_bytes b'')"
    using assms(1) by (rule defrag_spec)
  then have eq: "b'' = b'" using assms(2) by simp
  have sz: "buf_size b' = length xs + length ys"
    using b''(3) assms(3) length_buf_content [of b'] unfolding eq by simp
  have lt: "buf_size b' < 2 ^ 64" using buf_invD(2,3) [OF b''(2)] unfolding eq by simp
  have "take (buf_size b' - length xs) (drop (length xs) (buf_bytes b')) =
      drop (length xs) (buf_content b')"
    using b''(4) unfolding eq by (simp add: drop_take)
  also have "\<dots> = ys" using b''(3) assms(3) unfolding eq by simp
  finally show ?thesis using sz lt by (simp add: sub64_diff)
qed

lemma write_frame_traced:
  assumes inv: "buf_inv b" and room: "length (frame_bytes f) \<le> pn_buffer_available b"
    and len: "length (frame_bytes f) < 2 ^ 64"
  shows "written alloc b f True (pn_write_frame alloc b f True)"
proof -
  let ?head = "[frame_header f, bytes_data (frame_extended f)]"
  let ?tail = "[bytes_data (frame_payload0 f), bytes_data (frame_payload1 f)]"
  let ?b1 = "buf.q_append_list alloc b ?head"
  have l1: "length (concat ?head) \<le> pn_buffer_available b" using room by (simp add: frame_bytes_def)
  have l2: "length (concat ?tail) \<le> pn_buffer_available b - length (concat ?head)"
    using room by (simp add: frame_bytes_def)
  have b1: "buf_inv ?b1" "buf_content ?b1 = buf_content b @ concat ?head"
    "pn_buffer_available ?b1 = pn_buffer_available b - length (concat ?head)"
    using buf.q_append_list_content [OF inv l1] by auto
  obtain b2 where b2: "pn_buffer_defrag ?b1 = Some b2" "buf_inv b2" "buf_content b2 = buf_content ?b1"
    "pn_buffer_available b2 = pn_buffer_available ?b1" using buf.q_defrag [OF b1(1)] by auto
  let ?b3 = "buf.q_append_list alloc b2 ?tail"
  have b3: "buf_inv ?b3" "buf_content ?b3 = buf_content b2 @ concat ?tail"
    "pn_buffer_available ?b3 = pn_buffer_available b2 - length (concat ?tail)"
    using buf.q_append_list_content [OF b2(2), of ?tail alloc] l2 b2(4) b1(3) by auto
  obtain b4 where b4: "pn_buffer_defrag ?b3 = Some b4" "buf_inv b4" "buf_content b4 = buf_content ?b3"
    "pn_buffer_available b4 = pn_buffer_available ?b3" using buf.q_defrag [OF b3(1)] by auto
  have tr: "take (sub64 (buf_size b4) (buf_size b2)) (drop (buf_size b2) (buf_bytes b4)) = concat ?tail"
    using defrag_tail [OF b3(1) b4(1) b3(2)] by simp
  have "pn_write_frame alloc b f True = Some (length (frame_bytes f), Some (concat ?tail), b4)"
    using room b2(1) b4(1) tr by (simp add: pn_write_frame_def frame_size_length [OF len] Let_def)
  moreover have "buf_content b4 = buf_content b @ frame_bytes f"
    using b1 b2 b3 b4 by (simp add: frame_bytes_def)
  moreover have "pn_buffer_available b4 = pn_buffer_available b - length (frame_bytes f)"
    using b1 b2 b3 b4 by (simp add: frame_bytes_def)
  ultimately show ?thesis using b4(2) unfolding written_def by simp
qed

lemma write_frame_spec:
  assumes "buf_inv b" "length (frame_bytes f) \<le> pn_buffer_available b" "length (frame_bytes f) < 2 ^ 64"
  shows "written alloc b f trace (pn_write_frame alloc b f trace)"
  using write_frame_traced [OF assms] write_frame_untraced [OF assms] by (cases trace) simp_all

lemma write_frame_no_room:
  assumes "pn_buffer_available b < length (frame_bytes f)" "length (frame_bytes f) < 2 ^ 64"
  shows "pn_write_frame alloc b f trace = Some (0, None, b)"
  using assms by (simp add: pn_write_frame_def frame_size_length)

section \<open>Reading\<close>

lemma frame_header_nth:
  assumes "frame_ok f"
  shows "pni_read32 (frame_header f @ bs) = word_of_nat (length (frame_bytes f))"
    "(frame_header f @ bs) ! 4 = word_of_nat (bytes_size (frame_extended f) div 4 + 2)"
    "(frame_header f @ bs) ! 5 = frame_type f"
    "pni_read16 (drop 6 (frame_header f @ bs)) = frame_channel f"
proof -
  define k where "k = bytes_size (frame_extended f) div 4"
  then have k: "bytes_size (frame_extended f) = 4 * k" "k \<le> 253"
    using assms unfolding frame_ok_def by auto
  then have doff: "wrap64 (bytes_size (frame_extended f) + AMQP_HEADER_SIZE - 1) div 4 + 1 = k + 2"
    by (simp add: wrap64_id)
  show "pni_read32 (frame_header f @ bs) = word_of_nat (length (frame_bytes f))"
    using frame_size_ok [OF assms] by (simp add: frame_header_def Let_def)
  show "(frame_header f @ bs) ! 4 = word_of_nat (bytes_size (frame_extended f) div 4 + 2)"
    unfolding frame_header_def Let_def doff k_def [symmetric] by (simp add: nth_append)
  show "(frame_header f @ bs) ! 5 = frame_type f"
    by (simp add: frame_header_def Let_def nth_append)
  show "pni_read16 (drop 6 (frame_header f @ bs)) = frame_channel f"
    by (simp add: frame_header_def Let_def)
qed

definition joined :: "pn_frame \<Rightarrow> pn_frame" where
  "joined f = f\<lparr>frame_extended := Some (bytes_data (frame_extended f)),
                frame_payload0 := Some (bytes_data (frame_payload0 f) @ bytes_data (frame_payload1 f)),
                frame_payload1 := None\<rparr>"

lemma read_frame_bytes:
  assumes ok: "frame_ok f" and max: "max_frame = 0 \<or> length (frame_bytes f) \<le> unat max_frame"
  shows "pn_read_frame (frame_bytes f @ rest) max_frame = (int (length (frame_bytes f)), Some (joined f))"
proof -
  define bs where "bs = frame_bytes f @ rest"
  let ?ext = "bytes_data (frame_extended f)"
  let ?body = "bytes_data (frame_payload0 f) @ bytes_data (frame_payload1 f)"
  define tail where "tail = ?ext @ ?body @ rest"
  have bytes: "bs = frame_header f @ tail" by (simp add: bs_def frame_bytes_def tail_def)
  note hd = frame_header_nth [OF ok, of tail, folded bytes]
  have len: "length (frame_bytes f) = 8 + length ?ext + length ?body"
    by (simp add: frame_bytes_def)
  have sz: "unat (pni_read32 bs) = length (frame_bytes f)"
    using ok by (simp add: hd unat_word_of_nat frame_ok_def)
  have not_max: "\<not> (max_frame \<noteq> 0 \<and> pni_read32 bs > max_frame)"
    using max by (auto simp: word_less_nat_alt sz)
  have unat_doff: "unat (word_of_nat (bytes_size (frame_extended f) div 4 + 2) :: byte) =
      bytes_size (frame_extended f) div 4 + 2"
  proof (rule unat_word_of_nat)
    have "bytes_size (frame_extended f) \<le> 1012" using ok by (simp add: frame_ok_def)
    then show "bytes_size (frame_extended f) div 4 + 2 < 2 ^ LENGTH(8)" by simp
  qed
  have doff: "4 * unat (bs ! 4) = length ?ext + 8"
    using ok by (simp only: hd unat_doff) (auto simp: frame_ok_def bytes_size_def)
  have ext: "take (length ?ext) (drop 8 bs) = ?ext"
    unfolding bytes by (simp add: tail_def)
  have body: "take (length ?body) (drop (length ?ext + 8) bs) = ?body"
    unfolding bytes by (simp add: tail_def)
  have "length bs = length (frame_bytes f) + length rest" by (simp add: bs_def)
  with ext body len have "pn_read_frame bs max_frame = (int (length (frame_bytes f)), Some (joined f))"
    unfolding pn_read_frame_def Let_def if_not_P [OF not_max] sz doff hd(3,4)
    by (simp add: joined_def)
  then show ?thesis by (simp add: bs_def)
qed

text \<open>What a successful read says of the input.\<close>

lemma read_frame_Some:
  assumes "pn_read_frame bytes max_frame = (n, Some f)"
  shows "n = int (unat (pni_read32 bytes))" "8 \<le> unat (pni_read32 bytes)"
    "unat (pni_read32 bytes) \<le> length bytes"
    "max_frame = 0 \<or> unat (pni_read32 bytes) \<le> unat max_frame"
    "bytes_data (frame_extended f) @ bytes_data (frame_payload0 f) = take (unat (pni_read32 bytes) - 8) (drop 8 bytes)"
    "frame_payload1 f = None" "frame_type f = bytes ! 5" "frame_channel f = pni_read16 (drop 6 bytes)"
proof -
  let ?sz = "unat (pni_read32 bytes)" and ?doff = "4 * unat (bytes ! 4)"
  have facts: "8 \<le> length bytes" "max_frame = 0 \<or> \<not> pni_read32 bytes > max_frame"
    "?sz \<le> length bytes" "8 \<le> ?doff" "?doff \<le> ?sz" "n = int ?sz"
    "frame_extended f = Some (take (?doff - 8) (drop 8 bytes))"
    "frame_payload0 f = Some (take (?sz - ?doff) (drop ?doff bytes))"
    "frame_payload1 f = None" "frame_type f = bytes ! 5" "frame_channel f = pni_read16 (drop 6 bytes)"
    using assms by (auto simp: pn_read_frame_def Let_def split: if_splits)
  show "n = int ?sz" "?sz \<le> length bytes" "8 \<le> ?sz" "frame_payload1 f = None" "frame_type f = bytes ! 5"
    "frame_channel f = pni_read16 (drop 6 bytes)" using facts by simp_all
  show "max_frame = 0 \<or> ?sz \<le> unat max_frame" using facts(2) by (auto simp: word_le_nat_alt not_less)
  have split: "?sz - 8 = (?doff - 8) + (?sz - ?doff)" "?doff = 8 + (?doff - 8)" using facts(4,5) by simp_all
  have "take (?sz - ?doff) (drop ?doff bytes) = take (?sz - ?doff) (drop (?doff - 8) (drop 8 bytes))"
    using facts(4) by simp
  with facts(7,8) split(1) show
    "bytes_data (frame_extended f) @ bytes_data (frame_payload0 f) = take (?sz - 8) (drop 8 bytes)"
    by (metis bytes_data_simps(2) take_add)
qed

lemma read_frame_None: "pn_read_frame bytes max_frame = (n, None) \<Longrightarrow> n = 0 \<or> n = PN_ERR"
  by (auto simp: pn_read_frame_def Let_def split: if_splits)

text \<open>Bytes after the first complete frame are not looked at.\<close>

lemma read_frame_extend:
  assumes "fst (pn_read_frame bytes max_frame) \<noteq> 0"
  shows "pn_read_frame (bytes @ extra) max_frame = pn_read_frame bytes max_frame"
proof -
  have len: "8 \<le> length bytes" using assms by (rule contrapos_np) (simp add: pn_read_frame_def)
  then have word: "pni_read32 (bytes @ extra) = pni_read32 bytes" "pni_read16 (drop 6 (bytes @ extra)) = pni_read16 (drop 6 bytes)"
    "(bytes @ extra) ! 4 = bytes ! 4" "(bytes @ extra) ! 5 = bytes ! 5"
    by (simp_all add: pni_read32_append pni_read16_append nth_append)
  have take_extra: "n + m \<le> length bytes \<Longrightarrow> take n (drop m (bytes @ extra)) = take n (drop m bytes)" for n m
    by simp
  show ?thesis
    using assms len unfolding pn_read_frame_def Let_def word
    by (auto simp: take_extra split: if_splits)
qed

lemma read_frame_incomplete:
  "fst (pn_read_frame bytes max_frame) = 0 \<longleftrightarrow>
     length bytes < 8 \<or>
     ((max_frame = 0 \<or> pni_read32 bytes \<le> max_frame) \<and> length bytes < unat (pni_read32 bytes))"
  by (auto simp: pn_read_frame_def Let_def not_less unsigned_eq_0_iff)

lemma read_frame_prefix:
  assumes ok: "frame_ok f" and max: "max_frame = 0 \<or> length (frame_bytes f) \<le> unat max_frame"
    and k: "k < length (frame_bytes f)"
  shows "pn_read_frame (take k (frame_bytes f)) max_frame = (0, None)"
proof -
  let ?r = "pn_read_frame (take k (frame_bytes f)) max_frame"
  have full: "pn_read_frame (frame_bytes f) max_frame = (int (length (frame_bytes f)), Some (joined f))"
    using read_frame_bytes [OF ok max, of "[]"] by simp
  have "fst ?r = 0"
  proof (rule ccontr)
    assume nz: "fst ?r \<noteq> 0"
    from read_frame_extend [OF nz, of "drop k (frame_bytes f)"] full
    have r: "?r = (int (length (frame_bytes f)), Some (joined f))" by simp
    note len = read_frame_Some(1,3) [OF r]
    have "length (frame_bytes f) = unat (pni_read32 (take k (frame_bytes f)))"
      using len(1) by (simp only: of_nat_eq_iff)
    with len(2) k show False by simp
  qed
  moreover have "snd ?r = None"
  proof (rule ccontr)
    assume "snd ?r \<noteq> None"
    then obtain g where "?r = (fst ?r, Some g)" by (cases ?r) auto
    from read_frame_Some(1,2) [OF this] \<open>fst ?r = 0\<close> show False by (simp del: of_nat_unat)
  qed
  ultimately show ?thesis by (metis prod.collapse)
qed

section \<open>Posting\<close>

definition perf_frame :: "byte \<Rightarrow> u16 \<Rightarrow> pn_bytes \<Rightarrow> pn_bytes \<Rightarrow> pn_frame" where
  "perf_frame type ch performative payload =
     \<lparr>frame_type = type, frame_channel = ch, frame_extended = None,
      frame_payload0 = performative, frame_payload1 = payload\<rparr>"

lemma post_frame_spec:
  assumes inv: "buf_inv b" and alloc: "\<forall>n. alloc n \<noteq> None"
    and len: "buf_size b + length (frame_bytes (perf_frame type ch perf pay)) \<le> 2 ^ 31"
  shows "\<exists>b'. pn_post_frame alloc b trace type ch perf pay = Some b' \<and> buf_inv b' \<and>
    buf_content b' = buf_content b @ frame_bytes (perf_frame type ch perf pay)"
proof -
  let ?f = "perf_frame type ch perf pay"
  have lt: "length (frame_bytes ?f) < 2 ^ 64" using len by simp
  obtain err b1 where run: "pn_buffer_ensure alloc b (length (frame_bytes ?f)) = (err, b1)" by force
  have "err = 0" using ensure_ok [OF inv len, of alloc] alloc run by simp
  with buf.q_ensure [OF inv run] have b1: "buf_inv b1" "buf_content b1 = buf_content b"
    "length (frame_bytes ?f) \<le> pn_buffer_available b1" by auto
  from write_frame_spec [OF b1(1,3) lt, of alloc trace] obtain tr b' where
    "pn_write_frame alloc b1 ?f trace = Some (length (frame_bytes ?f), tr, b')" "buf_inv b'"
    "buf_content b' = buf_content b1 @ frame_bytes ?f" unfolding written_def by blast
  then show ?thesis using run b1(2) frame_size_length [OF lt]
    by (simp add: pn_post_frame_def perf_frame_def Let_def)
qed

definition posted :: "'a pn_transport_scheme \<Rightarrow> pn_buffer \<Rightarrow> 'a pn_transport_scheme" where
  "posted tr b = tr\<lparr>tr_output_buffer := b, tr_output_frames_ct := wrap64 (tr_output_frames_ct tr + 1)\<rparr>"

lemma send_frame_posted:
  assumes "buf_inv (tr_output_buffer tr)" "\<forall>n. alloc n \<noteq> None"
    "buf_size (tr_output_buffer tr) + 8 + length perf + bytes_size pay \<le> 2 ^ 31"
  shows "\<exists>b'. send_frame alloc tr type ch (Some perf) pay = Some (0, posted tr b') \<and> buf_inv b' \<and>
    buf_content b' = buf_content (tr_output_buffer tr) @ frame_bytes (perf_frame type ch (Some perf) pay)"
proof -
  have len: "buf_size (tr_output_buffer tr) + length (frame_bytes (perf_frame type ch (Some perf) pay)) \<le> 2 ^ 31"
    using assms(3) by (simp add: length_frame_bytes perf_frame_def)
  from post_frame_spec [OF assms(1,2) len, of "tr_trace tr"] show ?thesis
    by (auto simp: send_frame_def posted_def)
qed

lemma post_frame_lost:
  assumes "buf_inv b" "\<forall>n. alloc n = None"
    "pn_buffer_available b < length (frame_bytes (perf_frame type ch perf pay))"
    "length (frame_bytes (perf_frame type ch perf pay)) < 2 ^ 64"
  shows "pn_post_frame alloc b trace type ch perf pay = Some b"
proof -
  let ?f = "perf_frame type ch perf pay"
  obtain err b1 where run: "pn_buffer_ensure alloc b (length (frame_bytes ?f)) = (err, b1)" by force
  have "b1 = b" using assms(2,3) run
    by (auto simp: pn_buffer_ensure_def mem_realloc_def Let_def split: if_splits)
  then show ?thesis
    using run write_frame_no_room [OF assms(3,4)] frame_size_length [OF assms(4)]
    by (simp add: pn_post_frame_def perf_frame_def Let_def)
qed

text \<open>
  The result of \<open>pn_buffer_ensure\<close> is ignored: when no memory can be had for the output buffer, the
  frame is dropped while the send still counts it and returns 0.
\<close>

lemma pn_framing_send_amqp_lost:
  assumes "buf_inv (tr_output_buffer tr)" "\<forall>n. alloc n = None" "length perf < 2 ^ 32"
    "pn_buffer_available (tr_output_buffer tr) < 8 + length perf"
  shows "pn_framing_send_amqp alloc tr ch (Some perf) = Some (0, posted tr (tr_output_buffer tr))"
  using post_frame_lost [OF assms(1,2), of AMQP_FRAME_TYPE ch "Some perf" None] assms(3,4)
  by (simp add: pn_framing_send_amqp_def send_frame_def posted_def length_frame_bytes perf_frame_def)

section \<open>Properties\<close>


definition example_frame :: pn_frame where
  "example_frame = \<lparr>frame_type = 0, frame_channel = 513, frame_extended = Some [1, 2, 3, 4],
     frame_payload0 = Some [5, 6], frame_payload1 = Some [7]\<rparr>"

lemma example_frame_ok: "frame_ok example_frame" "length (frame_bytes example_frame) = 15"
  by (simp_all add: frame_ok_def length_frame_bytes example_frame_def)

definition empty_example :: pn_buffer where
  "empty_example = \<lparr>buf_bytes = replicate 16 0, buf_capacity = 16, buf_start = 7, buf_size = 0\<rparr>"

lemma empty_example_props: "buf_inv empty_example" "pn_buffer_available empty_example = 16"
  by (simp_all add: empty_example_def buf_inv_def pn_buffer_available_def sub32_def)




text \<open>
  C11: on arbitrary input \<open>pn_read_frame\<close> stays inside the bytes that have arrived and inside the
  negotiated maximum: it returns 0 or \<open>PN_ERR\<close> without a frame, or a size of at least 8 and at most
  the available bytes (and the maximum, if any), with the extended header and the payload making up
  exactly the bytes after the header.
\<close>

theorem pn_read_frame_bounds:
  "case pn_read_frame bytes max_frame of
     (n, None) \<Rightarrow> n \<in> {0, PN_ERR}
   | (n, Some f) \<Rightarrow> 8 \<le> n \<and> n \<le> int (length bytes) \<and> (max_frame = 0 \<or> n \<le> int (unat max_frame)) \<and>
       bytes_data (frame_extended f) @ bytes_data (frame_payload0 f) = take (nat n - 8) (drop 8 bytes)"
proof -
  obtain n r where run: "pn_read_frame bytes max_frame = (n, r)" by force
  show ?thesis
  proof (cases r)
    case None
    with read_frame_None [of bytes max_frame n] run show ?thesis by simp
  next
    case (Some f)
    with run have "pn_read_frame bytes max_frame = (n, Some f)" by simp
    note facts = read_frame_Some [OF this]
    have "max_frame = 0 \<or> n \<le> int (unat max_frame)" using facts(1,4) by linarith
    with facts(1,2,3,5) Some run show ?thesis by (simp del: of_nat_unat)
  qed
qed


definition example_transport :: pn_transport where
  "example_transport = \<lparr>tr_trace = True, tr_local_max_frame = 512, tr_halt = False,
     tr_output_buffer = wrapped_example, tr_output_frames_ct = 0, tr_input_frames_ct = 0\<rparr>"


end
