(* ===== verification/Dispatcher.thy ===== *)
theory Dispatcher
  imports Framing Consumers
begin

text \<open>
  The frame dispatcher of \<open>core/dispatcher.c\<close>: the input loop that cuts the arriving bytes into
  frames and hands each to the handler of its performative, and the output side that drains the
  output buffer. The handlers (\<open>pn_do_open\<close> and the others of \<open>core/dispatch_actions.h\<close>) and
  \<open>pn_do_error\<close> are arguments, functions from transport to transport.
\<close>

section \<open>Descriptors and actions\<close>

definition AMQP_DESC_OPEN :: u64 where [simp]: "AMQP_DESC_OPEN = 0x10"
definition AMQP_DESC_BEGIN :: u64 where [simp]: "AMQP_DESC_BEGIN = 0x11"
definition AMQP_DESC_ATTACH :: u64 where [simp]: "AMQP_DESC_ATTACH = 0x12"
definition AMQP_DESC_FLOW :: u64 where [simp]: "AMQP_DESC_FLOW = 0x13"
definition AMQP_DESC_TRANSFER :: u64 where [simp]: "AMQP_DESC_TRANSFER = 0x14"
definition AMQP_DESC_DISPOSITION :: u64 where [simp]: "AMQP_DESC_DISPOSITION = 0x15"
definition AMQP_DESC_DETACH :: u64 where [simp]: "AMQP_DESC_DETACH = 0x16"
definition AMQP_DESC_END :: u64 where [simp]: "AMQP_DESC_END = 0x17"
definition AMQP_DESC_CLOSE :: u64 where [simp]: "AMQP_DESC_CLOSE = 0x18"
definition AMQP_DESC_SASL_MECHANISMS :: u64 where [simp]: "AMQP_DESC_SASL_MECHANISMS = 0x40"
definition AMQP_DESC_SASL_INIT :: u64 where [simp]: "AMQP_DESC_SASL_INIT = 0x41"
definition AMQP_DESC_SASL_CHALLENGE :: u64 where [simp]: "AMQP_DESC_SASL_CHALLENGE = 0x42"
definition AMQP_DESC_SASL_RESPONSE :: u64 where [simp]: "AMQP_DESC_SASL_RESPONSE = 0x43"
definition AMQP_DESC_SASL_OUTCOME :: u64 where [simp]: "AMQP_DESC_SASL_OUTCOME = 0x44"

datatype pn_action =
    Pn_Do_Open | Pn_Do_Begin | Pn_Do_Attach | Pn_Do_Flow | Pn_Do_Transfer | Pn_Do_Disposition
  | Pn_Do_Detach | Pn_Do_End | Pn_Do_Close
  | Pn_Do_Mechanisms | Pn_Do_Init | Pn_Do_Challenge | Pn_Do_Response | Pn_Do_Outcome

type_synonym 'a handlers =
  "pn_action \<Rightarrow> byte \<Rightarrow> u16 \<Rightarrow> pn_bytes \<Rightarrow> 'a pn_transport_scheme \<Rightarrow> int \<times> 'a pn_transport_scheme"

type_synonym 'a error_handler = "string \<Rightarrow> string \<Rightarrow> 'a pn_transport_scheme \<Rightarrow> 'a pn_transport_scheme"

definition pni_bad_frame :: "'a pn_transport_scheme \<Rightarrow> int \<times> 'a pn_transport_scheme" where
  "pni_bad_frame tr = (PN_ERR, tr)"

definition amqp_action :: "u64 \<Rightarrow> pn_action option" where
  "amqp_action lcode =
     (if lcode = AMQP_DESC_OPEN then Some Pn_Do_Open
      else if lcode = AMQP_DESC_BEGIN then Some Pn_Do_Begin
      else if lcode = AMQP_DESC_ATTACH then Some Pn_Do_Attach
      else if lcode = AMQP_DESC_FLOW then Some Pn_Do_Flow
      else if lcode = AMQP_DESC_TRANSFER then Some Pn_Do_Transfer
      else if lcode = AMQP_DESC_DISPOSITION then Some Pn_Do_Disposition
      else if lcode = AMQP_DESC_DETACH then Some Pn_Do_Detach
      else if lcode = AMQP_DESC_END then Some Pn_Do_End
      else if lcode = AMQP_DESC_CLOSE then Some Pn_Do_Close
      else None)"

definition pni_dispatch_amqp_action ::
  "'a handlers \<Rightarrow> 'a pn_transport_scheme \<Rightarrow> u64 \<Rightarrow> u16 \<Rightarrow> pn_bytes \<Rightarrow> int \<times> 'a pn_transport_scheme" where
  "pni_dispatch_amqp_action handlers tr lcode channel payload =
     (case amqp_action lcode of
        None \<Rightarrow> pni_bad_frame tr
      | Some action \<Rightarrow> handlers action AMQP_FRAME_TYPE channel payload tr)"

definition sasl_action :: "u64 \<Rightarrow> pn_action option" where
  "sasl_action lcode =
     (if lcode = AMQP_DESC_SASL_MECHANISMS then Some Pn_Do_Mechanisms
      else if lcode = AMQP_DESC_SASL_INIT then Some Pn_Do_Init
      else if lcode = AMQP_DESC_SASL_CHALLENGE then Some Pn_Do_Challenge
      else if lcode = AMQP_DESC_SASL_RESPONSE then Some Pn_Do_Response
      else if lcode = AMQP_DESC_SASL_OUTCOME then Some Pn_Do_Outcome
      else None)"

definition pni_dispatch_sasl_action ::
  "'a handlers \<Rightarrow> 'a pn_transport_scheme \<Rightarrow> u64 \<Rightarrow> u16 \<Rightarrow> pn_bytes \<Rightarrow> int \<times> 'a pn_transport_scheme" where
  "pni_dispatch_sasl_action handlers tr lcode channel payload =
     (case sasl_action lcode of
        None \<Rightarrow> pni_bad_frame tr
      | Some action \<Rightarrow> handlers action SASL_FRAME_TYPE channel payload tr)"

text \<open>The descriptor of the performative, \<open>None\<close> for \<open>PN_ERR\<close>.\<close>

definition pni_performative_code :: "pn_bytes \<Rightarrow> u64 option" where
  "pni_performative_code payload =
     (let ((q, sub, lcode), _) = consume_described_ulong_descriptor (make_consumer_from_bytes payload)
      in if \<not> q \<or> \<not> fst (pni_islist sub) then None else Some lcode)"

definition pni_dispatch_amqp_frame ::
  "'a handlers \<Rightarrow> pn_frame \<Rightarrow> 'a pn_transport_scheme \<Rightarrow> int \<times> 'a pn_transport_scheme" where
  "pni_dispatch_amqp_frame handlers frame tr =
     (let payload = frame_payload0 frame
      in if bytes_size payload = 0 then (PN_OK, tr)
      else case pni_performative_code payload of
             None \<Rightarrow> (PN_ERR, tr)
           | Some lcode \<Rightarrow> pni_dispatch_amqp_action handlers tr lcode (frame_channel frame) payload)"

definition pni_dispatch_sasl_frame ::
  "'a handlers \<Rightarrow> pn_frame \<Rightarrow> 'a pn_transport_scheme \<Rightarrow> int \<times> 'a pn_transport_scheme" where
  "pni_dispatch_sasl_frame handlers frame tr =
     (let payload = frame_payload0 frame
      in if bytes_size payload = 0 then (PN_OK, tr)
      else case pni_performative_code payload of
             None \<Rightarrow> (PN_ERR, tr)
           | Some lcode \<Rightarrow> pni_dispatch_sasl_action handlers tr lcode (frame_channel frame) payload)"

section \<open>Input and output\<close>

definition count_input :: "'a pn_transport_scheme \<Rightarrow> 'a pn_transport_scheme" where
  "count_input tr = tr\<lparr>tr_input_frames_ct := wrap64 (tr_input_frames_ct tr + 1)\<rparr>"

text \<open>
  The loop of \<open>pn_dispatcher_amqp_input\<close>; \<open>bytes\<close> are the bytes not yet read and \<open>nread\<close> those read.
  The halt flag is the transport's. Every frame that is read has at least eight bytes, so the loop ends.
\<close>

lemma read_frame_progress:
  assumes "pn_read_frame bytes max_frame = (n, Some frame)"
  shows "0 < n \<and> length bytes - nat n < length bytes"
proof -
  note f = read_frame_Some(1-3) [OF assms]
  then have "8 \<le> nat n" "8 \<le> length bytes" by simp_all
  then show ?thesis by auto
qed

function pn_dispatcher_amqp_loop ::
  "'a handlers \<Rightarrow> 'a error_handler \<Rightarrow> 'a pn_transport_scheme \<Rightarrow> byte list \<Rightarrow> nat \<Rightarrow> int \<times> 'a pn_transport_scheme" where
  "pn_dispatcher_amqp_loop handlers do_error tr bytes nread =
     (if bytes = [] \<or> tr_halt tr then (int nread, tr)
      else
        case pn_read_frame bytes (tr_local_max_frame tr) of
          (n, Some frame) \<Rightarrow>
            (let (e, tr) = pni_dispatch_amqp_frame handlers frame (count_input tr)
             in if e \<noteq> 0 then (e, tr)
                else pn_dispatcher_amqp_loop handlers do_error tr (drop (nat n) bytes) (nread + nat n))
        | (n, None) \<Rightarrow>
            if n < 0 then (n, do_error ''amqp:connection:framing-error'' ''malformed frame'' tr)
            else (int nread, tr))"
  by pat_completeness auto
termination
  by (relation "measure (\<lambda>(_, _, _, bytes, _). length bytes)") (auto dest!: read_frame_progress [OF sym])

declare pn_dispatcher_amqp_loop.simps [simp del]

definition pn_dispatcher_amqp_input ::
  "'a handlers \<Rightarrow> 'a error_handler \<Rightarrow> 'a pn_transport_scheme \<Rightarrow> byte list \<Rightarrow> int \<times> 'a pn_transport_scheme" where
  "pn_dispatcher_amqp_input handlers do_error tr bytes = pn_dispatcher_amqp_loop handlers do_error tr bytes 0"

definition pn_dispatcher_sasl_input ::
  "'a handlers \<Rightarrow> 'a error_handler \<Rightarrow> 'a pn_transport_scheme \<Rightarrow> byte list \<Rightarrow> int \<times> 'a pn_transport_scheme" where
  "pn_dispatcher_sasl_input handlers do_error tr bytes =
     (if bytes = [] \<or> tr_halt tr then (0, tr)
      else
        case pn_read_frame bytes (tr_local_max_frame tr) of
          (n, Some frame) \<Rightarrow>
            (let (e, tr) = pni_dispatch_sasl_frame handlers frame (count_input tr)
             in if e \<noteq> 0 then (e, tr) else (n, tr))
        | (n, None) \<Rightarrow>
            if n < 0 then (n, do_error ''amqp:connection:framing-error'' ''malformed frame'' tr)
            else (0, tr))"

text \<open>
  The output: the bytes stored into the caller's buffer, the number returned, and the transport.
  The count is an \<open>int\<close> in the code and is passed back to \<open>pn_buffer_trim\<close> as a size.
\<close>

definition pn_dispatcher_output ::
  "'a pn_transport_scheme \<Rightarrow> nat \<Rightarrow> int \<times> byte list \<times> 'a pn_transport_scheme" where
  "pn_dispatcher_output tr sz =
     (let (got, bytes) = pn_buffer_get (tr_output_buffer tr) 0 sz;
          n = int_of_size got;
          (_, output) = pn_buffer_trim (tr_output_buffer tr) (nat (n mod 2 ^ 64)) 0
      in (n, bytes, tr\<lparr>tr_output_buffer := output\<rparr>))"

section \<open>The input loop\<close>

lemmas loop_simps = pn_dispatcher_amqp_loop.simps

definition handlers_report :: "'a handlers \<Rightarrow> bool" where
  "handlers_report h \<longleftrightarrow> (\<forall>a t ch p tr. fst (h a t ch p tr) \<le> 0)"

lemma dispatch_amqp_nonpos:
  assumes "handlers_report h"
  shows "fst (pni_dispatch_amqp_frame h f tr) \<le> 0"
  using assms
  by (auto simp: handlers_report_def pni_dispatch_amqp_frame_def pni_dispatch_amqp_action_def pni_bad_frame_def Let_def
      split: option.splits)

text \<open>One step of the loop when a frame is complete.\<close>

lemma loop_step:
  assumes "bytes \<noteq> []" "\<not> tr_halt tr" "pn_read_frame bytes (tr_local_max_frame tr) = (n, Some f)"
    "pni_dispatch_amqp_frame h f (count_input tr) = (e, tr')"
  shows "pn_dispatcher_amqp_loop h de tr bytes k =
    (if e \<noteq> 0 then (e, tr') else pn_dispatcher_amqp_loop h de tr' (drop (nat n) bytes) (k + nat n))"
  using assms by (subst loop_simps) simp

lemma loop_shift:
  assumes "handlers_report h"
  shows "pn_dispatcher_amqp_loop h de tr bytes (k + m) =
    (case pn_dispatcher_amqp_loop h de tr bytes k of (r, tr') \<Rightarrow> (if r \<ge> 0 then r + int m else r, tr'))"
  using assms
proof (induction h de tr bytes k rule: pn_dispatcher_amqp_loop.induct)
  case (1 h de tr bytes k)
  obtain n fo where rd: "pn_read_frame bytes (tr_local_max_frame tr) = (n, fo)" by force
  show ?case
  proof (cases "bytes = [] \<or> tr_halt tr \<or> fo = None")
    case True
    then show ?thesis using rd by (auto simp: loop_simps)
  next
    case False
    then obtain f where Some: "fo = Some f" and go: "\<not> (bytes = [] \<or> tr_halt tr)" by auto
    obtain e tr' where d: "pni_dispatch_amqp_frame h f (count_input tr) = (e, tr')" by force
    note step = loop_step [OF _ _ rd [unfolded Some] d]
    show ?thesis
    proof (cases "e = 0")
      case True
      have "pn_dispatcher_amqp_loop h de tr bytes (k + m) =
          pn_dispatcher_amqp_loop h de tr' (drop (nat n) bytes) (k + m + nat n)" using True go step by simp
      also have "k + m + nat n = k + nat n + m" by simp
      finally show ?thesis
        using 1(1) [OF go rd [symmetric] Some d [symmetric] refl _ 1(2)] True go step by simp
    next
      case False
      with dispatch_amqp_nonpos [OF 1(2), of f "count_input tr"] d have "e < 0" by simp
      with False go step show ?thesis by simp
    qed
  qed
qed

text \<open>Feeding bytes in two pieces: the loop on the first piece, then on what it left and the second.\<close>

lemma loop_chunks:
  assumes "handlers_report h" "pn_dispatcher_amqp_loop h de tr a k = (r, tr')"
  shows "if r < 0 then pn_dispatcher_amqp_loop h de tr (a @ b) k = (r, tr')
    else \<exists>j. r = int (k + j) \<and> j \<le> length a \<and>
      pn_dispatcher_amqp_loop h de tr (a @ b) k = pn_dispatcher_amqp_loop h de tr' (drop j a @ b) (k + j)"
  using assms
proof (induction h de tr a k rule: pn_dispatcher_amqp_loop.induct)
  case (1 h de tr a k)
  obtain n fo where rd: "pn_read_frame a (tr_local_max_frame tr) = (n, fo)" by force
  show ?case
  proof (cases "a = [] \<or> tr_halt tr \<or> fo = None")
    case True
    show ?thesis
    proof (cases "a \<noteq> [] \<and> \<not> tr_halt tr \<and> n < 0")
      case bad: True
      then have "pn_read_frame (a @ b) (tr_local_max_frame tr) = (n, None)"
        using True rd read_frame_extend [of a "tr_local_max_frame tr" b] by auto
      with bad True rd 1(3) show ?thesis by (auto simp: loop_simps)
    next
      case stop: False
      then have "r = int k \<and> tr' = tr" using True rd 1(3) by (auto simp: loop_simps split: if_splits)
      then show ?thesis by (auto intro: exI [of _ 0])
    qed
  next
    case False
    then obtain f where Some: "fo = Some f" and go: "\<not> (a = [] \<or> tr_halt tr)" by auto
    obtain e tr1 where d: "pni_dispatch_amqp_frame h f (count_input tr) = (e, tr1)" by force
    have n: "0 < n" "nat n \<le> length a"
      using read_frame_progress read_frame_Some(1,3) [of a "tr_local_max_frame tr" n f] rd Some by auto
    have rd2: "pn_read_frame (a @ b) (tr_local_max_frame tr) = (n, Some f)"
      using read_frame_extend [of a "tr_local_max_frame tr" b] rd Some n(1) by simp
    note step = loop_step [OF _ _ rd [unfolded Some] d, of de k] and step2 = loop_step [OF _ _ rd2 d, of de k]
    show ?thesis
    proof (cases "e = 0")
      case True
      then have r: "pn_dispatcher_amqp_loop h de tr1 (drop (nat n) a) (k + nat n) = (r, tr')" using 1(3) step go by simp
      have dr: "drop (nat n) (a @ b) = drop (nat n) a @ b" using n(2) by simp
      from 1(1) [OF go rd [symmetric] Some d [symmetric] refl _ 1(2) r] True
      show ?thesis
      proof (cases "r < 0")
        case neg: True
        with \<open>\<not> e \<noteq> 0 \<Longrightarrow> _\<close> True step2 go dr show ?thesis by simp
      next
        case nonneg: False
        with \<open>\<not> e \<noteq> 0 \<Longrightarrow> _\<close> True obtain j where j: "r = int (k + nat n + j)" "j \<le> length (drop (nat n) a)"
          "pn_dispatcher_amqp_loop h de tr1 (drop (nat n) a @ b) (k + nat n) =
            pn_dispatcher_amqp_loop h de tr' (drop j (drop (nat n) a) @ b) (k + nat n + j)" by auto
        have "pn_dispatcher_amqp_loop h de tr (a @ b) k =
            pn_dispatcher_amqp_loop h de tr' (drop (nat n + j) a @ b) (k + (nat n + j))"
          using j(3) step2 go True dr by (simp add: add.commute add.left_commute)
        moreover have "nat n + j \<le> length a" using j(2) n(2) by simp
        ultimately show ?thesis using j(1) nonneg by (auto intro!: exI [of _ "nat n + j"])
      qed
    next
      case False
      with dispatch_amqp_nonpos [OF 1(2), of f "count_input tr"] d have "e < 0" by simp
      with False go step step2 1(3) show ?thesis by simp
    qed
  qed
qed

section \<open>Properties\<close>

text \<open>
  C4: how the network cuts the byte stream does not matter. If the bytes \<open>a\<close> are fed to
  \<open>pn_dispatcher_amqp_input\<close> first and the bytes it did not consume are fed again with \<open>b\<close> behind them,
  the handlers see the same frames, the transport ends in the same state and the same number of bytes
  is consumed as when \<open>a @ b\<close> is fed at once; an error in \<open>a\<close> is the same error for \<open>a @ b\<close>. (The
  handlers return 0 or a negative error code.)
\<close>

theorem amqp_input_chunking:
  assumes "handlers_report h" "pn_dispatcher_amqp_input h de tr a = (r, tr')"
  shows "pn_dispatcher_amqp_input h de tr (a @ b) =
    (if r < 0 then (r, tr')
     else case pn_dispatcher_amqp_input h de tr' (drop (nat r) a @ b) of
            (r2, tr'') \<Rightarrow> (if r2 \<ge> 0 then r + r2 else r2, tr''))"
proof (cases "r < 0")
  case True
  with loop_chunks [OF assms(1) assms(2) [unfolded pn_dispatcher_amqp_input_def], of b] show ?thesis
    by (simp add: pn_dispatcher_amqp_input_def)
next
  case False
  with loop_chunks [OF assms(1) assms(2) [unfolded pn_dispatcher_amqp_input_def], of b] obtain j where
    j: "r = int j" "pn_dispatcher_amqp_loop h de tr (a @ b) 0 = pn_dispatcher_amqp_loop h de tr' (drop j a @ b) (0 + j)"
    by auto
  with loop_shift [OF assms(1), of de tr' "drop j a @ b" 0 j] False show ?thesis
    by (simp add: pn_dispatcher_amqp_input_def add.commute split: prod.splits)
qed

definition null_handlers :: "'a handlers" where
  "null_handlers a t ch p tr = (0, tr)"

definition null_error :: "'a error_handler" where
  "null_error name description tr = tr"

lemma null_handlers_report: "handlers_report null_handlers"
  by (simp add: handlers_report_def null_handlers_def)

text \<open>An empty frame and the first byte of another, then the rest of it.\<close>

lemma input_empty_frames:
  "pn_dispatcher_amqp_input null_handlers null_error example_transport [0, 0, 0, 8, 2, 0, 0, 0, 0] =
     (8, count_input example_transport)"
  "pn_dispatcher_amqp_input null_handlers null_error (count_input example_transport) [0, 0, 0, 8, 2, 0, 0, 0] =
     (8, count_input (count_input example_transport))"
  by (simp_all add: pn_dispatcher_amqp_input_def loop_simps example_transport_def count_input_def pn_read_frame_def
      pni_read32_def pni_read16_def pni_dispatch_amqp_frame_def wrap64_def)

theorem amqp_input_chunking_witness:
  "pn_dispatcher_amqp_input null_handlers null_error example_transport ([0, 0, 0, 8, 2, 0, 0, 0, 0] @ [0, 0, 8, 2, 0, 0, 0]) =
     (16, count_input (count_input example_transport))"
  using amqp_input_chunking [OF null_handlers_report input_empty_frames(1), of "[0, 0, 8, 2, 0, 0, 0]"] input_empty_frames(2)
  by simp

text \<open>The frames of a byte stream in turn, as one would specify the dispatcher.\<close>

fun run_frames :: "'a handlers \<Rightarrow> 'a pn_transport_scheme \<Rightarrow> pn_frame list \<Rightarrow> nat \<Rightarrow> int \<times> 'a pn_transport_scheme" where
  "run_frames h tr [] k = (int k, tr)"
| "run_frames h tr (f # fs) k =
     (if tr_halt tr then (int k, tr)
      else
        let (e, tr) = pni_dispatch_amqp_frame h (joined f) (count_input tr)
        in if e \<noteq> 0 then (e, tr) else run_frames h tr fs (k + length (frame_bytes f)))"

definition keeps_max_frame :: "'a handlers \<Rightarrow> bool" where
  "keeps_max_frame h \<longleftrightarrow> (\<forall>a t ch p tr. tr_local_max_frame (snd (h a t ch p tr)) = tr_local_max_frame tr)"

lemma dispatch_keeps_max:
  assumes "keeps_max_frame h" "pni_dispatch_amqp_frame h f tr = (e, tr')"
  shows "tr_local_max_frame tr' = tr_local_max_frame tr"
proof -
  have "tr_local_max_frame (snd (pni_dispatch_amqp_frame h f tr)) = tr_local_max_frame tr"
    using assms(1)
    by (simp add: keeps_max_frame_def pni_dispatch_amqp_frame_def pni_dispatch_amqp_action_def pni_bad_frame_def
        Let_def split: option.splits)
  then show ?thesis using assms(2) by simp
qed

definition frame_accepted :: "u32 \<Rightarrow> pn_frame \<Rightarrow> bool" where
  "frame_accepted max_frame f \<longleftrightarrow> frame_ok f \<and> (max_frame = 0 \<or> length (frame_bytes f) \<le> unat max_frame)"

lemma loop_stop:
  assumes "frame_accepted (tr_local_max_frame tr) g" "j < length (frame_bytes g)"
  shows "pn_dispatcher_amqp_loop h de tr (take j (frame_bytes g)) k = (int k, tr)"
  using read_frame_prefix [of g "tr_local_max_frame tr" j] assms
  by (auto simp: frame_accepted_def loop_simps)

lemma loop_frames:
  assumes "keeps_max_frame h" "\<forall>f\<in>set fs. frame_accepted (tr_local_max_frame tr) f"
    "frame_accepted (tr_local_max_frame tr) g" "j < length (frame_bytes g)"
  shows "pn_dispatcher_amqp_loop h de tr (concat (map frame_bytes fs) @ take j (frame_bytes g)) k = run_frames h tr fs k"
  using assms(2,3)
proof (induction fs arbitrary: tr k)
  case Nil
  then show ?case using loop_stop [OF _ assms(4)] by simp
next
  case (Cons f fs)
  let ?rest = "concat (map frame_bytes fs) @ take j (frame_bytes g)"
  have ne: "frame_bytes f @ ?rest \<noteq> []" using length_frame_bytes [of f] by auto
  have rd: "pn_read_frame (frame_bytes f @ ?rest) (tr_local_max_frame tr) = (int (length (frame_bytes f)), Some (joined f))"
    using Cons.prems by (intro read_frame_bytes) (auto simp: frame_accepted_def)
  obtain e tr' where d: "pni_dispatch_amqp_frame h (joined f) (count_input tr) = (e, tr')" by force
  have max: "tr_local_max_frame tr' = tr_local_max_frame tr"
    using dispatch_keeps_max [OF assms(1) d] by (simp add: count_input_def)
  show ?case
  proof (cases "tr_halt tr")
    case True
    then show ?thesis by (simp add: loop_simps)
  next
    case False
    from loop_step [OF ne False rd d, of de k] Cons.IH [of tr' "k + length (frame_bytes f)"] Cons.prems max False d
    show ?thesis by simp
  qed
qed





text \<open>The type byte of a frame is not looked at: a SASL frame on the AMQP layer is dispatched like an AMQP frame.\<close>

lemma frame_type_ignored: "pni_dispatch_amqp_frame h (f\<lparr>frame_type := t\<rparr>) tr = pni_dispatch_amqp_frame h f tr"
  by (simp add: pni_dispatch_amqp_frame_def Let_def split: option.splits)

end
