(* ===== verification/Autodetect.thy ===== *)
theory Autodetect
  imports Proton_Prelude
begin

text \<open>
  Protocol detection on the first bytes of a connection (\<open>core/autodetect.c\<close>). Bytes are plain
  \<open>char\<close>s, signed on the supported platforms, so the order comparisons read them with \<open>sint\<close>.
\<close>

datatype pni_protocol_type =
    PNI_PROTOCOL_INSUFFICIENT
  | PNI_PROTOCOL_UNKNOWN
  | PNI_PROTOCOL_SSL
  | PNI_PROTOCOL_AMQP_SSL
  | PNI_PROTOCOL_AMQP_SASL
  | PNI_PROTOCOL_AMQP1
  | PNI_PROTOCOL_AMQP_OTHER

definition pni_sniff_header :: "byte list \<Rightarrow> pni_protocol_type" where
  "pni_sniff_header buf =
     (let len = length buf
      in if len < 3 then PNI_PROTOCOL_INSUFFICIENT
      else
        let isSSL3Handshake = (buf ! 0 = 22 \<and> buf ! 1 = 3 \<and> sint (buf ! 2) \<le> 3)
        in if isSSL3Handshake then PNI_PROTOCOL_SSL
        else
          let isFirst3AMQP = (buf ! 0 = 0x41 \<and> buf ! 1 = 0x4D \<and> buf ! 2 = 0x51);
              isFirst3SSL2ClientHello = (buf ! 2 = 1)
          in if \<not> isFirst3AMQP \<and> \<not> isFirst3SSL2ClientHello then PNI_PROTOCOL_UNKNOWN
          else if len < 4 then PNI_PROTOCOL_INSUFFICIENT
          else
            let isAMQP = (isFirst3AMQP \<and> buf ! 3 = 0x50);
                isFirst4SSL2ClientHello = (isFirst3SSL2ClientHello \<and> (buf ! 3 = 2 \<or> buf ! 3 = 3))
            in if \<not> isAMQP \<and> \<not> isFirst4SSL2ClientHello then PNI_PROTOCOL_UNKNOWN
            else if len < 5 then PNI_PROTOCOL_INSUFFICIENT
            else
              let isSSL2Handshake = (buf ! 2 = 1 \<and>
                    (buf ! 3 = 3 \<and> sint (buf ! 4) \<le> 3 \<or> buf ! 3 = 2 \<and> buf ! 4 = 0))
              in if isSSL2Handshake then PNI_PROTOCOL_SSL
              else
                let isFirst5OldAMQP = (isAMQP \<and> buf ! 4 = 1);
                    isFirst5AMQP = (isAMQP \<and> (buf ! 4 = 0 \<or> buf ! 4 = 2 \<or> buf ! 4 = 3))
                in if \<not> isFirst5AMQP \<and> \<not> isFirst5OldAMQP then PNI_PROTOCOL_UNKNOWN
                else if len < 6 then PNI_PROTOCOL_INSUFFICIENT
                else if buf ! 5 \<noteq> 1 then PNI_PROTOCOL_UNKNOWN
                else if len < 8 then PNI_PROTOCOL_INSUFFICIENT
                else if buf ! 6 = 0 \<and> buf ! 7 = 0 \<and> buf ! 4 = 0 then PNI_PROTOCOL_AMQP1
                else if buf ! 6 = 0 \<and> buf ! 7 = 0 \<and> buf ! 4 = 2 then PNI_PROTOCOL_AMQP_SSL
                else if buf ! 6 = 0 \<and> buf ! 7 = 0 \<and> buf ! 4 = 3 then PNI_PROTOCOL_AMQP_SASL
                else PNI_PROTOCOL_AMQP_OTHER)"

fun pni_protocol_name :: "pni_protocol_type \<Rightarrow> string" where
  "pni_protocol_name PNI_PROTOCOL_INSUFFICIENT = ''Insufficient data to determine protocol''"
| "pni_protocol_name PNI_PROTOCOL_UNKNOWN = ''Unknown protocol''"
| "pni_protocol_name PNI_PROTOCOL_SSL = ''SSL/TLS connection''"
| "pni_protocol_name PNI_PROTOCOL_AMQP_SSL = ''AMQP TLS layer''"
| "pni_protocol_name PNI_PROTOCOL_AMQP_SASL = ''AMQP SASL layer''"
| "pni_protocol_name PNI_PROTOCOL_AMQP1 = ''AMQP 1.0 layer''"
| "pni_protocol_name PNI_PROTOCOL_AMQP_OTHER = ''Pre standard AMQP connection''"

text \<open>The protocol headers \<open>AMQP_HEADER\<close>, \<open>SSL_HEADER\<close> and \<open>SASL_HEADER\<close> (protocol id 0, 2 and 3).\<close>

definition proto_header :: "byte \<Rightarrow> byte list" where
  "proto_header i = [0x41, 0x4D, 0x51, 0x50, i, 1, 0, 0]"

lemma nth_take_less: "n \<le> length buf \<Longrightarrow> i < n \<Longrightarrow> (buf @ ys) ! i = buf ! i"
  by (simp add: nth_append)

lemma take_proto_header:
  "take 8 buf = proto_header i \<longleftrightarrow> 8 \<le> length buf \<and> buf ! 0 = 0x41 \<and> buf ! 1 = 0x4D \<and> buf ! 2 = 0x51 \<and>
     buf ! 3 = 0x50 \<and> buf ! 4 = i \<and> buf ! 5 = 1 \<and> buf ! 6 = 0 \<and> buf ! 7 = 0"
proof -
  have set: "{..<8} = {0, 1, 2, 3, 4, 5, 6, 7::nat}" by (simp add: lessThan_nat_numeral lessThan_Suc insert_commute)
  have ex: "(\<forall>k<8. P k) \<longleftrightarrow> P 0 \<and> P 1 \<and> P 2 \<and> P 3 \<and> P 4 \<and> P 5 \<and> P 6 \<and> P (7::nat)" for P
    unfolding lessThan_iff [symmetric] set by blast
  have "take 8 buf = proto_header i \<longleftrightarrow>
      8 \<le> length buf \<and> (\<forall>k<8. take 8 buf ! k = proto_header i ! k)"
    by (auto simp: list_eq_iff_nth_eq proto_header_def min_def)
  also have "\<dots> \<longleftrightarrow> 8 \<le> length buf \<and> (\<forall>k<8. buf ! k = proto_header i ! k)" by simp
  finally show ?thesis unfolding ex by (simp add: proto_header_def)
qed

text \<open>
  The shape of the decision: the length tests interleaved with the tests \<open>n3\<close>, \<open>n4\<close>, \<open>n5\<close>, \<open>n6\<close> that
  rule every protocol out, the TLS tests \<open>s3\<close> and \<open>s2\<close>, and the final verdict \<open>v\<close>.
\<close>

definition decide_header ::
  "nat \<Rightarrow> bool \<Rightarrow> bool \<Rightarrow> bool \<Rightarrow> bool \<Rightarrow> bool \<Rightarrow> bool \<Rightarrow> pni_protocol_type \<Rightarrow> pni_protocol_type" where
  "decide_header l s3 n3 n4 s2 n5 n6 v =
     (if l < 3 then PNI_PROTOCOL_INSUFFICIENT else if s3 then PNI_PROTOCOL_SSL
      else if n3 then PNI_PROTOCOL_UNKNOWN else if l < 4 then PNI_PROTOCOL_INSUFFICIENT
      else if n4 then PNI_PROTOCOL_UNKNOWN else if l < 5 then PNI_PROTOCOL_INSUFFICIENT
      else if s2 then PNI_PROTOCOL_SSL else if n5 then PNI_PROTOCOL_UNKNOWN
      else if l < 6 then PNI_PROTOCOL_INSUFFICIENT else if n6 then PNI_PROTOCOL_UNKNOWN
      else if l < 8 then PNI_PROTOCOL_INSUFFICIENT else v)"

definition tls3 :: "byte list \<Rightarrow> bool" where
  "tls3 buf \<longleftrightarrow> buf ! 0 = 22 \<and> buf ! 1 = 3 \<and> sint (buf ! 2) \<le> 3"

definition not3 :: "byte list \<Rightarrow> bool" where
  "not3 buf \<longleftrightarrow> \<not> (buf ! 0 = 0x41 \<and> buf ! 1 = 0x4D \<and> buf ! 2 = 0x51) \<and> \<not> buf ! 2 = 1"

definition not4 :: "byte list \<Rightarrow> bool" where
  "not4 buf \<longleftrightarrow> \<not> ((buf ! 0 = 0x41 \<and> buf ! 1 = 0x4D \<and> buf ! 2 = 0x51) \<and> buf ! 3 = 0x50) \<and>
     \<not> (buf ! 2 = 1 \<and> (buf ! 3 = 2 \<or> buf ! 3 = 3))"

definition tls2 :: "byte list \<Rightarrow> bool" where
  "tls2 buf \<longleftrightarrow> buf ! 2 = 1 \<and> (buf ! 3 = 3 \<and> sint (buf ! 4) \<le> 3 \<or> buf ! 3 = 2 \<and> buf ! 4 = 0)"

definition not5 :: "byte list \<Rightarrow> bool" where
  "not5 buf \<longleftrightarrow>
     \<not> (((buf ! 0 = 0x41 \<and> buf ! 1 = 0x4D \<and> buf ! 2 = 0x51) \<and> buf ! 3 = 0x50) \<and>
        (buf ! 4 = 0 \<or> buf ! 4 = 2 \<or> buf ! 4 = 3)) \<and>
     \<not> (((buf ! 0 = 0x41 \<and> buf ! 1 = 0x4D \<and> buf ! 2 = 0x51) \<and> buf ! 3 = 0x50) \<and> buf ! 4 = 1)"

definition amqp_verdict :: "byte list \<Rightarrow> pni_protocol_type" where
  "amqp_verdict buf =
     (if buf ! 6 = 0 \<and> buf ! 7 = 0 \<and> buf ! 4 = 0 then PNI_PROTOCOL_AMQP1
      else if buf ! 6 = 0 \<and> buf ! 7 = 0 \<and> buf ! 4 = 2 then PNI_PROTOCOL_AMQP_SSL
      else if buf ! 6 = 0 \<and> buf ! 7 = 0 \<and> buf ! 4 = 3 then PNI_PROTOCOL_AMQP_SASL
      else PNI_PROTOCOL_AMQP_OTHER)"

lemma sniff_decide:
  "pni_sniff_header buf =
     decide_header (length buf) (tls3 buf) (not3 buf) (not4 buf) (tls2 buf) (not5 buf) (buf ! 5 \<noteq> 1) (amqp_verdict buf)"
  unfolding pni_sniff_header_def decide_header_def tls3_def not3_def not4_def tls2_def not5_def amqp_verdict_def Let_def
  by (rule refl)

lemma decide_header_extend:
  assumes "decide_header l s3 n3 n4 s2 n5 n6 v \<noteq> PNI_PROTOCOL_INSUFFICIENT" "l \<le> l'"
    "3 \<le> l \<Longrightarrow> s3' = s3 \<and> n3' = n3" "4 \<le> l \<Longrightarrow> n4' = n4" "5 \<le> l \<Longrightarrow> s2' = s2 \<and> n5' = n5"
    "6 \<le> l \<Longrightarrow> n6' = n6" "8 \<le> l \<Longrightarrow> v' = v"
  shows "decide_header l' s3' n3' n4' s2' n5' n6' v' = decide_header l s3 n3 n4 s2 n5 n6 v"
  using assms unfolding decide_header_def by (auto split: if_splits)

lemma decide_header_amqp:
  assumes "v \<noteq> PNI_PROTOCOL_INSUFFICIENT" "w \<notin> {PNI_PROTOCOL_INSUFFICIENT, PNI_PROTOCOL_UNKNOWN, PNI_PROTOCOL_SSL}"
  shows "decide_header l s3 n3 n4 s2 n5 n6 v = w \<longleftrightarrow>
    8 \<le> l \<and> \<not> s3 \<and> \<not> n3 \<and> \<not> n4 \<and> \<not> s2 \<and> \<not> n5 \<and> \<not> n6 \<and> v = w"
  using assms unfolding decide_header_def by auto

lemma sniff_amqp_iff:
  assumes "w \<notin> {PNI_PROTOCOL_INSUFFICIENT, PNI_PROTOCOL_UNKNOWN, PNI_PROTOCOL_SSL}"
  shows "pni_sniff_header buf = w \<longleftrightarrow>
    8 \<le> length buf \<and> buf ! 0 = 0x41 \<and> buf ! 1 = 0x4D \<and> buf ! 2 = 0x51 \<and> buf ! 3 = 0x50 \<and>
    buf ! 4 \<in> {0, 1, 2, 3} \<and> buf ! 5 = 1 \<and> amqp_verdict buf = w"
proof -
  have v: "amqp_verdict buf \<noteq> PNI_PROTOCOL_INSUFFICIENT" by (simp add: amqp_verdict_def)
  have 1: "\<not> not5 buf \<longleftrightarrow> buf ! 0 = 0x41 \<and> buf ! 1 = 0x4D \<and> buf ! 2 = 0x51 \<and> buf ! 3 = 0x50 \<and> buf ! 4 \<in> {0, 1, 2, 3}"
    unfolding not5_def by blast
  have 2: "buf ! 0 = 0x41 \<and> buf ! 1 = 0x4D \<and> buf ! 2 = 0x51 \<and> buf ! 3 = 0x50 \<Longrightarrow>
      \<not> tls3 buf \<and> \<not> not3 buf \<and> \<not> not4 buf \<and> \<not> tls2 buf"
    by (simp add: tls3_def not3_def not4_def tls2_def)
  show ?thesis unfolding sniff_decide decide_header_amqp [OF v assms] 1 using 2 by blast
qed

text \<open>
  C17: detection is a function of at most eight bytes and never changes its mind: once it has
  decided, more input does not alter the verdict, and with eight bytes it has always decided.
\<close>

theorem pni_sniff_header_stable:
  "(pni_sniff_header buf \<noteq> PNI_PROTOCOL_INSUFFICIENT \<longrightarrow>
     pni_sniff_header (buf @ ys) = pni_sniff_header buf) \<and>
   (8 \<le> length buf \<longrightarrow> pni_sniff_header buf \<noteq> PNI_PROTOCOL_INSUFFICIENT)"
proof -
  have nth: "(buf @ ys) ! i = buf ! i" if "i < length buf" for i using that by (simp add: nth_append)
  have nth0: "(buf @ ys) ! 0 = buf ! 0" if "3 \<le> length buf" using that by (auto simp: nth_append)
  have "pni_sniff_header (buf @ ys) = pni_sniff_header buf" if "pni_sniff_header buf \<noteq> PNI_PROTOCOL_INSUFFICIENT"
    unfolding sniff_decide
  proof (rule decide_header_extend)
    show "decide_header (length buf) (tls3 buf) (not3 buf) (not4 buf) (tls2 buf) (not5 buf) (buf ! 5 \<noteq> 1)
        (amqp_verdict buf) \<noteq> PNI_PROTOCOL_INSUFFICIENT" using that by (simp only: sniff_decide not_False_eq_True)
  qed (simp_all add: tls3_def not3_def not4_def tls2_def not5_def amqp_verdict_def nth nth0)
  moreover have "pni_sniff_header buf \<noteq> PNI_PROTOCOL_INSUFFICIENT" if "8 \<le> length buf"
    using that unfolding sniff_decide decide_header_def amqp_verdict_def by simp
  ultimately show ?thesis by blast
qed

theorem pni_sniff_header_stable_witness:
  "pni_sniff_header ([22, 3, 1] @ [7]) = PNI_PROTOCOL_SSL \<and> pni_sniff_header [22, 3, 1] = PNI_PROTOCOL_SSL"
  using pni_sniff_header_stable [of "[22, 3, 1]" "[7]"] by (simp add: pni_sniff_header_def)

text \<open>
  C18: the AMQP verdicts are exact. A connection is taken as AMQP 1.0, AMQP over TLS or AMQP over
  SASL exactly when its first eight bytes are the corresponding protocol header.
\<close>

theorem pni_sniff_header_amqp:
  "(pni_sniff_header buf = PNI_PROTOCOL_AMQP1 \<longleftrightarrow> take 8 buf = proto_header 0) \<and>
   (pni_sniff_header buf = PNI_PROTOCOL_AMQP_SSL \<longleftrightarrow> take 8 buf = proto_header 2) \<and>
   (pni_sniff_header buf = PNI_PROTOCOL_AMQP_SASL \<longleftrightarrow> take 8 buf = proto_header 3)"
proof -
  have "amqp_verdict buf = PNI_PROTOCOL_AMQP1 \<longleftrightarrow> buf ! 6 = 0 \<and> buf ! 7 = 0 \<and> buf ! 4 = 0"
    "amqp_verdict buf = PNI_PROTOCOL_AMQP_SSL \<longleftrightarrow> buf ! 6 = 0 \<and> buf ! 7 = 0 \<and> buf ! 4 = 2"
    "amqp_verdict buf = PNI_PROTOCOL_AMQP_SASL \<longleftrightarrow> buf ! 6 = 0 \<and> buf ! 7 = 0 \<and> buf ! 4 = 3"
    by (simp_all add: amqp_verdict_def)
  note v = this
  show ?thesis unfolding take_proto_header by (simp add: sniff_amqp_iff v) blast
qed

text \<open>
  The comments of the code allow the minor versions 0 to 3 only; the comparison of a signed
  \<open>char\<close> also accepts every byte from 0x80 on.
\<close>

lemma pni_sniff_header_high_minor: "pni_sniff_header [22, 3, 0xFF] = PNI_PROTOCOL_SSL"
  by (simp add: pni_sniff_header_def)

end
