(* ===== verification/Pn_List.thy ===== *)
theory Pn_List
  imports Bytes_Util "HOL-Library.Multiset"
begin

text \<open>
  The growable list of \<open>core/object/list.c\<close>, with its use as a binary min-heap. The live elements are a
  HOL list (\<open>size\<close> is its length), the capacity is kept beside it. Reference counting of the elements
  is left out: it is the allocation discipline of \<open>object.c\<close>. The comparison and the equality of the
  element class are arguments.
\<close>

section \<open>State and operations\<close>

record 'a pn_list =
  list_capacity :: nat
  list_elements :: "'a list"

definition pn_list_new :: "nat \<Rightarrow> 'a pn_list" where
  "pn_list_new capacity = \<lparr>list_capacity = (if capacity \<noteq> 0 then capacity else 16), list_elements = []\<rparr>"

definition pn_list_size :: "'a pn_list \<Rightarrow> nat" where
  "pn_list_size l = length (list_elements l)"

text \<open>\<open>index % list->size\<close>: the \<open>int\<close> index is converted to \<open>size_t\<close> first.\<close>

definition list_index :: "'a pn_list \<Rightarrow> int \<Rightarrow> nat" where
  "list_index l i = nat (i mod 2 ^ 64) mod pn_list_size l"

text \<open>\<open>None\<close> is the failed assertion that the list is not empty.\<close>

definition pn_list_get :: "'a pn_list \<Rightarrow> int \<Rightarrow> 'a option" where
  "pn_list_get l i = (if pn_list_size l = 0 then None else Some (list_elements l ! list_index l i))"

definition pn_list_set :: "'a pn_list \<Rightarrow> int \<Rightarrow> 'a \<Rightarrow> 'a pn_list option" where
  "pn_list_set l i v =
     (if pn_list_size l = 0 then None else Some (l\<lparr>list_elements := (list_elements l)[list_index l i := v]\<rparr>))"

text \<open>The loop \<open>while (newcap < capacity) newcap *= 2\<close>; the fuel bounds the number of doublings.\<close>

fun grow_capacity :: "nat \<Rightarrow> nat \<Rightarrow> nat \<Rightarrow> nat option" where
  "grow_capacity 0 newcap capacity = None"
| "grow_capacity (Suc n) newcap capacity =
     (if newcap < capacity then grow_capacity n (newcap * 2) capacity else Some newcap)"

definition pni_list_ensure :: "'a pn_list \<Rightarrow> nat \<Rightarrow> 'a pn_list option" where
  "pni_list_ensure l capacity =
     (if list_capacity l < capacity then
        map_option (\<lambda>newcap. l\<lparr>list_capacity := newcap\<rparr>) (grow_capacity (Suc capacity) (list_capacity l) capacity)
      else Some l)"

definition pn_list_add :: "'a pn_list \<Rightarrow> 'a \<Rightarrow> 'a pn_list option" where
  "pn_list_add l v =
     map_option (\<lambda>l. l\<lparr>list_elements := list_elements l @ [v]\<rparr>) (pni_list_ensure l (pn_list_size l + 1))"

definition pn_list_pop :: "'a pn_list \<Rightarrow> 'a option \<times> 'a pn_list" where
  "pn_list_pop l =
     (if pn_list_size l \<noteq> 0 then (Some (last (list_elements l)), l\<lparr>list_elements := butlast (list_elements l)\<rparr>)
      else (None, l))"

fun index_loop :: "('a \<Rightarrow> 'a \<Rightarrow> bool) \<Rightarrow> 'a list \<Rightarrow> 'a \<Rightarrow> nat \<Rightarrow> int" where
  "index_loop eq [] v i = - 1"
| "index_loop eq (x # xs) v i = (if eq x v then int i else index_loop eq xs v (Suc i))"

definition pn_list_index :: "('a \<Rightarrow> 'a \<Rightarrow> bool) \<Rightarrow> 'a pn_list \<Rightarrow> 'a \<Rightarrow> int" where
  "pn_list_index eq l v = index_loop eq (list_elements l) v 0"

text \<open>The loop that moves \<open>slide\<close> elements down by \<open>n\<close>.\<close>

fun slide_loop :: "nat \<Rightarrow> nat \<Rightarrow> nat \<Rightarrow> 'a list \<Rightarrow> nat \<Rightarrow> 'a list" where
  "slide_loop index n 0 xs i = xs"
| "slide_loop index n (Suc slide) xs i = slide_loop index n slide (xs[index + i := xs ! (index + n + i)]) (Suc i)"

text \<open>\<open>None\<close> when the range does not lie in the list: the C code would read past the elements.\<close>

definition pn_list_del :: "'a pn_list \<Rightarrow> int \<Rightarrow> nat \<Rightarrow> 'a pn_list option" where
  "pn_list_del l i n =
     (if pn_list_size l = 0 then Some l
      else
        let index = list_index l i
        in if index + n > pn_list_size l then None
        else
          let xs = slide_loop index n (pn_list_size l - (index + n)) (list_elements l) 0
          in Some (l\<lparr>list_elements := take (pn_list_size l - n) xs\<rparr>))"

definition pn_list_remove :: "('a \<Rightarrow> 'a \<Rightarrow> bool) \<Rightarrow> 'a pn_list \<Rightarrow> 'a \<Rightarrow> (bool \<times> 'a pn_list) option" where
  "pn_list_remove eq l v =
     (let idx = pn_list_index eq l v
      in if idx < 0 then Some (False, l) else map_option (Pair True) (pn_list_del l idx 1))"

definition pn_list_clear :: "'a pn_list \<Rightarrow> 'a pn_list option" where
  "pn_list_clear l = pn_list_del l 0 (pn_list_size l)"

section \<open>The heap operations\<close>

text \<open>With one-based indexing, as in the code: \<open>heap[i]\<close> is \<open>elements[i - 1]\<close>.\<close>

function sift_up :: "('a \<Rightarrow> 'a \<Rightarrow> int) \<Rightarrow> 'a \<Rightarrow> nat \<Rightarrow> 'a list \<Rightarrow> 'a list" where
  "sift_up cmp value now xs =
     (if now > 1 \<and> cmp (xs ! (now div 2 - 1)) value > 0
      then sift_up cmp value (now div 2) (xs[now - 1 := xs ! (now div 2 - 1)])
      else xs[now - 1 := value])"
  by pat_completeness auto
termination by (relation "measure (\<lambda>(_, _, now, _). now)") auto

declare sift_up.simps [simp del]

definition pn_list_minpush :: "('a \<Rightarrow> 'a \<Rightarrow> int) \<Rightarrow> 'a pn_list \<Rightarrow> 'a \<Rightarrow> 'a pn_list option" where
  "pn_list_minpush cmp l value =
     map_option (\<lambda>l. l\<lparr>list_elements := sift_up cmp value (pn_list_size l) (list_elements l)\<rparr>) (pn_list_add l value)"

text \<open>The loop starts at 1 and goes to children, so \<open>now\<close> is never 0.\<close>

function sift_down :: "('a \<Rightarrow> 'a \<Rightarrow> int) \<Rightarrow> 'a \<Rightarrow> nat \<Rightarrow> 'a list \<Rightarrow> 'a list" where
  "sift_down cmp lst now xs =
     (if 0 < now \<and> now * 2 \<le> length xs then
        let child = now * 2;
            child = (if child \<noteq> length xs \<and> cmp (xs ! (child - 1)) (xs ! child) > 0 then child + 1 else child)
        in if cmp lst (xs ! (child - 1)) > 0
           then sift_down cmp lst child (xs[now - 1 := xs ! (child - 1)])
           else xs[now - 1 := lst]
      else xs[now - 1 := lst])"
  by pat_completeness auto
termination by (relation "measure (\<lambda>(_, _, now, xs). length xs - now)") (auto simp: Let_def)

declare sift_down.simps [simp del]

text \<open>
  The minimum of a non-empty heap and the heap without it; on an empty list the C code reads an
  uninitialised element, which is \<open>None\<close> here.
\<close>

definition pn_list_minpop :: "('a \<Rightarrow> 'a \<Rightarrow> int) \<Rightarrow> 'a pn_list \<Rightarrow> ('a \<times> 'a pn_list) option" where
  "pn_list_minpop cmp l =
     (if pn_list_size l = 0 then None
      else
        let min = list_elements l ! 0;
            (lst, l) = pn_list_pop l
        in case lst of
             None \<Rightarrow> None
           | Some lst \<Rightarrow> Some (min, l\<lparr>list_elements := sift_down cmp lst 1 (list_elements l)\<rparr>))"

section \<open>Iteration, hashing and comparison\<close>

record 'a pni_list_iter =
  iter_list :: "'a pn_list"
  iter_index :: nat

definition pn_list_iterator :: "'a pn_list \<Rightarrow> 'a pni_list_iter" where
  "pn_list_iterator l = \<lparr>iter_list = l, iter_index = 0\<rparr>"

definition pni_list_next :: "'a pni_list_iter \<Rightarrow> 'a option \<times> 'a pni_list_iter" where
  "pni_list_next it =
     (if iter_index it < pn_list_size (iter_list it)
      then (pn_list_get (iter_list it) (int (iter_index it)), it\<lparr>iter_index := iter_index it + 1\<rparr>)
      else (None, it))"

fun hash_loop :: "('a \<Rightarrow> 64 word) \<Rightarrow> 'a list \<Rightarrow> 64 word \<Rightarrow> 64 word" where
  "hash_loop hashcode [] h = h"
| "hash_loop hashcode (x # xs) h = hash_loop hashcode xs (h * 31 + hashcode x)"

definition pn_list_hashcode :: "('a \<Rightarrow> 64 word) \<Rightarrow> 'a pn_list \<Rightarrow> 64 word" where
  "pn_list_hashcode hashcode l = hash_loop hashcode (list_elements l) 1"

fun compare_loop :: "('a \<Rightarrow> 'a \<Rightarrow> int) \<Rightarrow> 'a list \<Rightarrow> 'a list \<Rightarrow> int" where
  "compare_loop cmp (x # xs) (y # ys) = (let delta = cmp x y in if delta \<noteq> 0 then delta else compare_loop cmp xs ys)"
| "compare_loop cmp xs ys = 0"

definition pn_list_compare :: "('a \<Rightarrow> 'a \<Rightarrow> int) \<Rightarrow> 'a pn_list \<Rightarrow> 'a pn_list \<Rightarrow> int" where
  "pn_list_compare cmp a b =
     (if pn_list_size a \<noteq> pn_list_size b then int (pn_list_size b) - int (pn_list_size a)
      else compare_loop cmp (list_elements a) (list_elements b))"

section \<open>The list invariant\<close>

definition list_ok :: "'a pn_list \<Rightarrow> bool" where
  "list_ok l \<longleftrightarrow> 0 < list_capacity l \<and> pn_list_size l \<le> list_capacity l"

lemma pn_list_new_ok [simp]: "list_ok (pn_list_new n)" "list_elements (pn_list_new n) = []"
  by (auto simp: pn_list_new_def list_ok_def pn_list_size_def)

lemma grow_capacity_some:
  assumes "0 < newcap" "capacity \<le> newcap * 2 ^ n"
  shows "\<exists>c. grow_capacity (Suc n) newcap capacity = Some c \<and> capacity \<le> c \<and> newcap \<le> c"
  using assms
proof (induction n arbitrary: newcap)
  case (Suc n)
  show ?case
  proof (cases "newcap < capacity")
    case True
    have "\<exists>c. grow_capacity (Suc n) (newcap * 2) capacity = Some c \<and> capacity \<le> c \<and> newcap * 2 \<le> c"
      using Suc.prems by (intro Suc.IH) (auto simp: algebra_simps)
    then show ?thesis using True by fastforce
  qed auto
qed auto

lemma pni_list_ensure_some:
  assumes "list_ok l"
  shows "\<exists>c. pni_list_ensure l n = Some (l\<lparr>list_capacity := c\<rparr>) \<and> n \<le> c \<and> list_capacity l \<le> c"
proof (cases "list_capacity l < n")
  case True
  have "n \<le> list_capacity l * 2 ^ n"
  proof -
    have "n \<le> 2 ^ n" by (simp add: less_imp_le)
    also have "\<dots> \<le> list_capacity l * 2 ^ n" using assms by (simp add: list_ok_def)
    finally show ?thesis .
  qed
  with grow_capacity_some [of "list_capacity l" n n] assms
  obtain c where "grow_capacity (Suc n) (list_capacity l) n = Some c" "n \<le> c" "list_capacity l \<le> c"
    by (auto simp: list_ok_def)
  with True show ?thesis by (auto simp: pni_list_ensure_def simp del: grow_capacity.simps)
next
  case False
  then show ?thesis by (intro exI [of _ "list_capacity l"]) (simp add: pni_list_ensure_def)
qed

lemma pn_list_add_some:
  assumes "list_ok l"
  shows "\<exists>l'. pn_list_add l v = Some l' \<and> list_ok l' \<and> list_elements l' = list_elements l @ [v]"
  using pni_list_ensure_some [OF assms, of "pn_list_size l + 1"] assms
  by (fastforce simp: pn_list_add_def list_ok_def pn_list_size_def)

section \<open>Heap order\<close>

definition heap_ok :: "('a \<Rightarrow> 'k::linorder) \<Rightarrow> 'a list \<Rightarrow> bool" where
  "heap_ok key xs \<longleftrightarrow> (\<forall>i\<in>set [2..<Suc (length xs)]. key (xs ! (i div 2 - 1)) \<le> key (xs ! (i - 1)))"

text \<open>One-based access, and all edges of the tree but some.\<close>

definition heap_at :: "'a list \<Rightarrow> nat \<Rightarrow> 'a" where
  "heap_at xs i = xs ! (i - 1)"

definition edges :: "('a \<Rightarrow> 'k::linorder) \<Rightarrow> (nat \<Rightarrow> bool) \<Rightarrow> 'a list \<Rightarrow> bool" where
  "edges key P xs \<longleftrightarrow> (\<forall>i. 1 < i \<longrightarrow> i \<le> length xs \<longrightarrow> P i \<longrightarrow> key (heap_at xs (i div 2)) \<le> key (heap_at xs i))"

lemma heap_ok_edges: "heap_ok key xs \<longleftrightarrow> edges key (\<lambda>_. True) xs"
  by (auto simp: heap_ok_def edges_def heap_at_def simp del: upt_Suc)

lemma heap_ok_Nil [simp]: "heap_ok key []"
  by (simp add: heap_ok_def)

lemma heap_at_update:
  "\<lbrakk>0 < n; n \<le> length xs; 0 < i; i \<le> length xs\<rbrakk> \<Longrightarrow> heap_at (xs[n - 1 := v]) i = (if i = n then v else heap_at xs i)"
  by (auto simp: heap_at_def nth_list_update)

lemma mset_move:
  assumes "i < length xs" "j < length xs" "i \<noteq> j"
  shows "mset (xs[i := xs ! j, j := v]) = mset (xs[i := v])"
proof -
  have "xs[i := xs ! j, j := v] = (xs[i := v])[i := xs[i := v] ! j, j := xs[i := v] ! i]"
    using assms by (simp add: nth_list_update)
  also have "mset \<dots> = mset (xs[i := v])" by (rule mset_swap) (use assms in simp_all)
  finally show ?thesis .
qed

lemma heap_root_min:
  assumes "edges key (\<lambda>_. True) xs" "0 < i" "i \<le> length xs"
  shows "key (heap_at xs 1) \<le> key (heap_at xs i)"
  using assms(2,3)
proof (induction i rule: less_induct)
  case (less i)
  show ?case
  proof (cases "i = 1")
    case False
    with less.prems have "1 < i" by simp
    then have "0 < i div 2" "i div 2 < i" by auto
    then have "key (heap_at xs 1) \<le> key (heap_at xs (i div 2))" using less.prems by (intro less.IH) auto
    also have "\<dots> \<le> key (heap_at xs i)" using assms(1) \<open>1 < i\<close> less.prems by (simp add: edges_def)
    finally show ?thesis .
  qed simp
qed

lemma heap_head_min:
  assumes "heap_ok key xs" "x \<in> set xs"
  shows "key (xs ! 0) \<le> key x"
proof -
  obtain k where "k < length xs" "x = xs ! k" using assms(2) by (metis in_set_conv_nth)
  with heap_root_min [of key xs "Suc k"] assms(1) show ?thesis by (simp add: heap_ok_edges heap_at_def)
qed

lemma edges_butlast:
  assumes "heap_ok key xs"
  shows "edges key (\<lambda>_. True) (butlast xs)"
  using assms unfolding heap_ok_edges edges_def heap_at_def
  by (auto simp: nth_butlast)

text \<open>A client that pushes a list of values, and one that pops \<open>n\<close> times.\<close>

fun push_all :: "('a \<Rightarrow> 'a \<Rightarrow> int) \<Rightarrow> 'a list \<Rightarrow> 'a pn_list \<Rightarrow> 'a pn_list option" where
  "push_all cmp [] l = Some l"
| "push_all cmp (v # vs) l = (case pn_list_minpush cmp l v of None \<Rightarrow> None | Some l \<Rightarrow> push_all cmp vs l)"

fun pop_all :: "('a \<Rightarrow> 'a \<Rightarrow> int) \<Rightarrow> nat \<Rightarrow> 'a pn_list \<Rightarrow> ('a list \<times> 'a pn_list) option" where
  "pop_all cmp 0 l = Some ([], l)"
| "pop_all cmp (Suc n) l =
     (case pn_list_minpop cmp l of
        None \<Rightarrow> None
      | Some (v, l) \<Rightarrow> map_option (map_prod (Cons v) id) (pop_all cmp n l))"

section \<open>What the heap relies on, and what it gives\<close>

text \<open>The comparison of the element class orders by a key.\<close>

locale pn_comparable =
  fixes cmp :: "'a \<Rightarrow> 'a \<Rightarrow> int"
    and key :: "'a \<Rightarrow> 'k::linorder"
  assumes cmp_pos: "0 < cmp a b \<longleftrightarrow> key b < key a"
begin

text \<open>
  Filling the hole at \<open>now\<close> with \<open>value\<close> breaks at most the edge to its parent, and the children of the
  hole are above the parent.
\<close>

definition up_inv :: "'a \<Rightarrow> nat \<Rightarrow> 'a list \<Rightarrow> bool" where
  "up_inv v now xs \<longleftrightarrow>
     0 < now \<and> now \<le> length xs \<and> edges key (\<lambda>i. i \<noteq> now) (xs[now - 1 := v]) \<and>
     (1 < now \<longrightarrow> (\<forall>i. i div 2 = now \<longrightarrow> i \<le> length xs \<longrightarrow> key (heap_at xs (now div 2)) \<le> key (heap_at xs i)))"

lemma up_inv_edge:
  assumes "up_inv v now xs" "1 < i" "i \<le> length xs" "i \<noteq> now"
  shows "key (if i div 2 = now then v else heap_at xs (i div 2)) \<le> key (heap_at xs i)"
proof -
  from assms(1) have now: "0 < now" "now \<le> length xs" and e: "edges key (\<lambda>i. i \<noteq> now) (xs[now - 1 := v])"
    by (auto simp: up_inv_def)
  have half: "0 < i div 2" "i div 2 \<le> length xs" using assms(2,3) by auto
  from e assms(2-4) have "key (heap_at (xs[now - 1 := v]) (i div 2)) \<le> key (heap_at (xs[now - 1 := v]) i)"
    by (simp add: edges_def)
  then show ?thesis
    using now half assms(2-4) heap_at_update [of now xs "i div 2" v] heap_at_update [of now xs i v] by simp
qed

lemma up_inv_step:
  assumes inv: "up_inv v now xs" and now: "1 < now" and less: "key v < key (heap_at xs (now div 2))"
  shows "up_inv v (now div 2) (xs[now - 1 := heap_at xs (now div 2)])"
proof -
  let ?p = "now div 2" and ?xs = "xs[now - 1 := heap_at xs (now div 2)]"
  have le: "now \<le> length xs" using inv by (simp add: up_inv_def)
  have p: "0 < ?p" "?p < now" "?p \<le> length xs" using now le by auto
  have at: "heap_at ?xs i = (if i = now then heap_at xs ?p else heap_at xs i)" if "0 < i" "i \<le> length xs" for i
    using heap_at_update [of now xs i] le now that by simp
  have grand: "key (heap_at xs ?p) \<le> key (heap_at xs i)" if "i div 2 = now" "i \<le> length xs" for i
    using inv now that by (simp add: up_inv_def)
  have edge: "key (heap_at xs (i div 2)) \<le> key (heap_at xs i)"
    if "1 < i" "i \<le> length xs" "i \<noteq> now" "i div 2 \<noteq> now" for i
    using up_inv_edge [OF inv that(1-3)] that(4) by simp
  have "edges key (\<lambda>i. i \<noteq> ?p) (?xs[?p - 1 := v])"
    unfolding edges_def
  proof (intro allI impI)
    fix i assume i: "1 < i" "i \<le> length (?xs[?p - 1 := v])" "i \<noteq> ?p"
    then have h: "0 < i div 2" "i div 2 \<le> length xs" "i \<le> length xs" "0 < i" by auto
    have at2: "heap_at (?xs[?p - 1 := v]) k = (if k = ?p then v else heap_at ?xs k)" if "0 < k" "k \<le> length xs" for k
      using heap_at_update [of ?p ?xs k v] p that by simp
    have "key (if i div 2 = ?p then v else heap_at ?xs (i div 2)) \<le> key (heap_at ?xs i)"
    proof (cases "i = now")
      case True
      then show ?thesis using at [of now] less le now by simp
    next
      case False
      then have ati: "heap_at ?xs i = heap_at xs i" using at h by simp
      consider "i div 2 = now" | "i div 2 = ?p" | "i div 2 \<noteq> now" "i div 2 \<noteq> ?p" by blast
      then show ?thesis
      proof cases
        case 1
        then show ?thesis using grand [of i] at [of now] le now p ati h by auto
      next
        case 2
        then show ?thesis using edge [of i] False i h p less ati by auto
      next
        case 3
        then show ?thesis using edge [of i] at [of "i div 2"] False i h ati by simp
      qed
    qed
    then show "key (heap_at (?xs[?p - 1 := v]) (i div 2)) \<le> key (heap_at (?xs[?p - 1 := v]) i)"
      using at2 [of i] at2 [of "i div 2"] h i by simp
  qed
  moreover have "key (heap_at ?xs (?p div 2)) \<le> key (heap_at ?xs i)"
    if one: "1 < ?p" and i: "i div 2 = ?p" "i \<le> length xs" for i
  proof -
    have up: "key (heap_at xs (?p div 2)) \<le> key (heap_at xs ?p)" using edge [of ?p] p one by simp
    have "key (heap_at xs (?p div 2)) \<le> key (heap_at ?xs i)"
    proof (cases "i = now")
      case True
      then show ?thesis using up at [of i] i p by auto
    next
      case False
      then have "key (heap_at xs ?p) \<le> key (heap_at xs i)" using edge [of i] i one p by auto
      then show ?thesis using up False at [of i] i one by (cases "i = 0") auto
    qed
    moreover have "?p div 2 \<noteq> now" "0 < ?p div 2" "?p div 2 \<le> length xs" using p one by auto
    ultimately show ?thesis using at [of "?p div 2"] by simp
  qed
  ultimately show ?thesis using p by (simp add: up_inv_def)
qed

lemma up_inv_done:
  assumes "up_inv v now xs" and "1 < now \<Longrightarrow> key (heap_at xs (now div 2)) \<le> key v"
  shows "edges key (\<lambda>_. True) (xs[now - 1 := v])"
proof -
  have now: "0 < now" "now \<le> length xs" and e: "edges key (\<lambda>i. i \<noteq> now) (xs[now - 1 := v])"
    using assms(1) by (auto simp: up_inv_def)
  have "key (heap_at (xs[now - 1 := v]) (now div 2)) \<le> key (heap_at (xs[now - 1 := v]) now)" if "1 < now"
    using heap_at_update [of now xs "now div 2" v] heap_at_update [of now xs now v] now that assms(2) by auto
  with e show ?thesis by (auto simp: edges_def)
qed

lemma sift_up_heap: "up_inv v now xs \<Longrightarrow> edges key (\<lambda>_. True) (sift_up cmp v now xs)"
proof (induction now arbitrary: xs rule: less_induct)
  case (less now)
  show ?case
  proof (cases "1 < now \<and> key v < key (heap_at xs (now div 2))")
    case True
    then have "up_inv v (now div 2) (xs[now - 1 := heap_at xs (now div 2)])" using up_inv_step less.prems by blast
    then have "edges key (\<lambda>_. True) (sift_up cmp v (now div 2) (xs[now - 1 := heap_at xs (now div 2)]))"
      using True by (intro less.IH) auto
    then show ?thesis using True by (subst sift_up.simps) (simp add: cmp_pos heap_at_def)
  next
    case False
    then have "edges key (\<lambda>_. True) (xs[now - 1 := v])" using up_inv_done less.prems by force
    then show ?thesis using False by (subst sift_up.simps) (auto simp: cmp_pos heap_at_def)
  qed
qed

lemma sift_up_mset:
  "\<lbrakk>0 < now; now \<le> length xs\<rbrakk> \<Longrightarrow> mset (sift_up cmp v now xs) = mset (xs[now - 1 := v])"
proof (induction now arbitrary: xs rule: less_induct)
  case (less now)
  show ?case
  proof (cases "1 < now \<and> 0 < cmp (xs ! (now div 2 - 1)) v")
    case True
    let ?p = "now div 2" and ?xs = "xs[now - 1 := xs ! (now div 2 - 1)]"
    have "mset (sift_up cmp v ?p ?xs) = mset (?xs[?p - 1 := v])"
      using True less.prems by (intro less.IH) auto
    also have "\<dots> = mset (xs[now - 1 := v])" using True less.prems by (intro mset_move) auto
    finally show ?thesis using True by (subst sift_up.simps) simp
  next
    case False
    then show ?thesis by (subst sift_up.simps) auto
  qed
qed

text \<open>Filling the hole at \<open>now\<close> breaks at most the edges to its children, which are above its parent.\<close>

definition down_inv :: "'a \<Rightarrow> nat \<Rightarrow> 'a list \<Rightarrow> bool" where
  "down_inv v now xs \<longleftrightarrow>
     0 < now \<and> now \<le> length xs \<and> edges key (\<lambda>i. i div 2 \<noteq> now) (xs[now - 1 := v]) \<and>
     (1 < now \<longrightarrow> (\<forall>i. i div 2 = now \<longrightarrow> i \<le> length xs \<longrightarrow> key (heap_at xs (now div 2)) \<le> key (heap_at xs i)))"

lemma down_inv_edge:
  assumes "down_inv v now xs" "1 < i" "i \<le> length xs" "i div 2 \<noteq> now"
  shows "key (heap_at xs (i div 2)) \<le> key (if i = now then v else heap_at xs i)"
proof -
  from assms(1) have now: "0 < now" "now \<le> length xs" and e: "edges key (\<lambda>i. i div 2 \<noteq> now) (xs[now - 1 := v])"
    by (auto simp: down_inv_def)
  have half: "0 < i div 2" "i div 2 \<le> length xs" using assms(2,3) by auto
  from e assms(2-4) have "key (heap_at (xs[now - 1 := v]) (i div 2)) \<le> key (heap_at (xs[now - 1 := v]) i)"
    by (simp add: edges_def)
  then show ?thesis
    using now half assms(2-4) heap_at_update [of now xs "i div 2" v] heap_at_update [of now xs i v] by simp
qed

lemma down_inv_step:
  assumes inv: "down_inv v now xs" and c: "c div 2 = now" "c \<le> length xs"
    and least: "\<And>i. \<lbrakk>i div 2 = now; i \<le> length xs\<rbrakk> \<Longrightarrow> key (heap_at xs c) \<le> key (heap_at xs i)"
    and less: "key (heap_at xs c) < key v"
  shows "down_inv v c (xs[now - 1 := heap_at xs c])"
proof -
  let ?xs = "xs[now - 1 := heap_at xs c]"
  have now: "0 < now" "now \<le> length xs" "now < c" "1 < c" using inv c by (auto simp: down_inv_def)
  have at: "heap_at ?xs i = (if i = now then heap_at xs c else heap_at xs i)" if "0 < i" "i \<le> length xs" for i
    using heap_at_update [of now xs i] now that by simp
  have grand: "key (heap_at xs (now div 2)) \<le> key (heap_at xs c)" if "1 < now"
    using inv c that by (simp add: down_inv_def)
  have edge: "key (heap_at xs (i div 2)) \<le> key (heap_at xs i)"
    if "1 < i" "i \<le> length xs" "i \<noteq> now" "i div 2 \<noteq> now" for i
    using down_inv_edge [OF inv that(1,2,4)] that(3) by simp
  have "edges key (\<lambda>i. i div 2 \<noteq> c) (?xs[c - 1 := v])"
    unfolding edges_def
  proof (intro allI impI)
    fix i assume i: "1 < i" "i \<le> length (?xs[c - 1 := v])" "i div 2 \<noteq> c"
    then have h: "0 < i div 2" "i div 2 \<le> length xs" "i \<le> length xs" "0 < i" by auto
    have at2: "heap_at (?xs[c - 1 := v]) k = (if k = c then v else heap_at ?xs k)" if "0 < k" "k \<le> length xs" for k
      using heap_at_update [of c ?xs k v] now c that by simp
    have "key (heap_at ?xs (i div 2)) \<le> key (if i = c then v else heap_at ?xs i)"
    proof (cases "i = now")
      case True
      then show ?thesis using at [of now] at [of "now div 2"] grand now h i by auto
    next
      case False
      then have ati: "heap_at ?xs i = heap_at xs i" using at h by simp
      show ?thesis
      proof (cases "i div 2 = now")
        case True
        then show ?thesis using at [of now] least [of i] less ati now h by auto
      next
        case inner: False
        then show ?thesis using edge [of i] at [of "i div 2"] False i h ati c by auto
      qed
    qed
    then show "key (heap_at (?xs[c - 1 := v]) (i div 2)) \<le> key (heap_at (?xs[c - 1 := v]) i)"
      using at2 [of i] at2 [of "i div 2"] h i by simp
  qed
  moreover have "key (heap_at ?xs (c div 2)) \<le> key (heap_at ?xs i)" if i: "i div 2 = c" "i \<le> length xs" for i
    using edge [of i] at [of now] at [of i] i c now by auto
  ultimately show ?thesis using c now by (simp add: down_inv_def)
qed

lemma down_inv_done:
  assumes "down_inv v now xs" and "\<And>i. \<lbrakk>i div 2 = now; i \<le> length xs\<rbrakk> \<Longrightarrow> key v \<le> key (heap_at xs i)"
  shows "edges key (\<lambda>_. True) (xs[now - 1 := v])"
proof -
  have now: "0 < now" "now \<le> length xs" and e: "edges key (\<lambda>i. i div 2 \<noteq> now) (xs[now - 1 := v])"
    using assms(1) by (auto simp: down_inv_def)
  have "key (heap_at (xs[now - 1 := v]) (i div 2)) \<le> key (heap_at (xs[now - 1 := v]) i)"
    if "i div 2 = now" "i \<le> length xs" for i
    using heap_at_update [of now xs now v] heap_at_update [of now xs i v] now that assms(2) [of i] by auto
  with e show ?thesis by (auto simp: edges_def)
qed

definition min_child :: "nat \<Rightarrow> 'a list \<Rightarrow> nat" where
  "min_child now xs = (if now * 2 \<noteq> length xs \<and> 0 < cmp (xs ! (now * 2 - 1)) (xs ! (now * 2)) then now * 2 + 1 else now * 2)"

lemma min_child:
  assumes "0 < now" "now * 2 \<le> length xs"
  shows "min_child now xs div 2 = now" "min_child now xs \<le> length xs"
    and "\<lbrakk>i div 2 = now; i \<le> length xs\<rbrakk> \<Longrightarrow> key (heap_at xs (min_child now xs)) \<le> key (heap_at xs i)"
proof -
  assume i: "i div 2 = now" "i \<le> length xs"
  then have "i = now * 2 \<or> i = now * 2 + 1" by auto
  then show "key (heap_at xs (min_child now xs)) \<le> key (heap_at xs i)"
  proof
    assume "i = now * 2"
    then show ?thesis by (auto simp: min_child_def heap_at_def cmp_pos not_less)
  next
    assume "i = now * 2 + 1"
    then show ?thesis using i(2) by (simp add: min_child_def heap_at_def cmp_pos not_less)
  qed
qed (use assms in \<open>auto simp: min_child_def\<close>)

lemma sift_down_unfold:
  "sift_down cmp v now xs =
     (if 0 < now \<and> now * 2 \<le> length xs \<and> key (heap_at xs (min_child now xs)) < key v
      then sift_down cmp v (min_child now xs) (xs[now - 1 := heap_at xs (min_child now xs)])
      else xs[now - 1 := v])"
  by (subst sift_down.simps) (auto simp: min_child_def Let_def cmp_pos heap_at_def)

lemma sift_down_heap: "down_inv v now xs \<Longrightarrow> edges key (\<lambda>_. True) (sift_down cmp v now xs)"
proof (induction "length xs - now" arbitrary: now xs rule: less_induct)
  case less
  have now: "0 < now" "now \<le> length xs" using less.prems by (auto simp: down_inv_def)
  show ?case
  proof (cases "now * 2 \<le> length xs \<and> key (heap_at xs (min_child now xs)) < key v")
    case True
    let ?c = "min_child now xs"
    have c: "?c div 2 = now" "?c \<le> length xs" using min_child now True by auto
    have "down_inv v ?c (xs[now - 1 := heap_at xs ?c])"
      using down_inv_step [OF less.prems c] min_child(3) now True by blast
    then have "edges key (\<lambda>_. True) (sift_down cmp v ?c (xs[now - 1 := heap_at xs ?c]))"
      using c now by (intro less.hyps) auto
    then show ?thesis using True now by (subst sift_down_unfold) simp
  next
    case False
    have "key v \<le> key (heap_at xs i)" if i: "i div 2 = now" "i \<le> length xs" for i
    proof -
      have "now * 2 \<le> length xs" using i by auto
      then show ?thesis using False min_child(3) [OF now(1), of xs i] i by force
    qed
    then have "edges key (\<lambda>_. True) (xs[now - 1 := v])" by (rule down_inv_done [OF less.prems])
    then show ?thesis using False by (subst sift_down_unfold) auto
  qed
qed

lemma sift_down_mset:
  "\<lbrakk>0 < now; now \<le> length xs\<rbrakk> \<Longrightarrow> mset (sift_down cmp v now xs) = mset (xs[now - 1 := v])"
proof (induction "length xs - now" arbitrary: now xs rule: less_induct)
  case less
  show ?case
  proof (cases "now * 2 \<le> length xs \<and> key (heap_at xs (min_child now xs)) < key v")
    case True
    let ?c = "min_child now xs"
    have c: "?c div 2 = now" "?c \<le> length xs" using min_child less.prems True by auto
    then have "now < ?c" using less.prems by (auto simp: min_child_def)
    then have "mset (sift_down cmp v ?c (xs[now - 1 := heap_at xs ?c])) = mset (xs[now - 1 := heap_at xs ?c, ?c - 1 := v])"
      using c less.prems by (intro less.hyps) auto
    also have "\<dots> = mset (xs[now - 1 := v])"
      unfolding heap_at_def using c less.prems \<open>now < ?c\<close> by (intro mset_move) auto
    finally show ?thesis using True less.prems by (subst sift_down_unfold) simp
  next
    case False
    then show ?thesis by (subst sift_down_unfold) auto
  qed
qed

definition heap_list :: "'a pn_list \<Rightarrow> bool" where
  "heap_list l \<longleftrightarrow> list_ok l \<and> heap_ok key (list_elements l)"

lemma minpush_correct:
  assumes "heap_list l"
  shows "\<exists>l'. pn_list_minpush cmp l v = Some l' \<and> heap_list l' \<and> mset (list_elements l') = add_mset v (mset (list_elements l))"
proof -
  let ?xs = "list_elements l @ [v]"
  have half_below: "i div 2 \<noteq> Suc n" if "i \<le> Suc n" for i n :: nat using that by presburger
  obtain l1 where l1: "pn_list_add l v = Some l1" "list_ok l1" "list_elements l1 = ?xs"
    using pn_list_add_some [of l v] assms by (auto simp: heap_list_def)
  have "edges key (\<lambda>i. i \<noteq> length ?xs) ?xs"
    unfolding edges_def
  proof (intro allI impI)
    fix i assume i: "1 < i" "i \<le> length ?xs" "i \<noteq> length ?xs"
    then have "i div 2 - 1 < length (list_elements l)" "i - 1 < length (list_elements l)" by auto
    then have "heap_at ?xs (i div 2) = heap_at (list_elements l) (i div 2)" "heap_at ?xs i = heap_at (list_elements l) i"
      by (simp_all add: heap_at_def nth_append)
    then show "key (heap_at ?xs (i div 2)) \<le> key (heap_at ?xs i)"
      using assms i by (simp add: heap_list_def heap_ok_edges edges_def)
  qed
  then have inv: "up_inv v (length ?xs) ?xs"
    using half_below by (simp add: up_inv_def) blast
  let ?l = "l1\<lparr>list_elements := sift_up cmp v (length ?xs) ?xs\<rparr>"
  have mset: "mset (sift_up cmp v (length ?xs) ?xs) = add_mset v (mset (list_elements l))"
    using sift_up_mset [of "length ?xs" ?xs v] by simp
  have "pn_list_minpush cmp l v = Some ?l" using l1 by (simp add: pn_list_minpush_def pn_list_size_def)
  moreover have "length (sift_up cmp v (length ?xs) ?xs) = length ?xs"
    by (rule mset_eq_length) (simp add: mset del: length_append)
  then have "heap_list ?l"
    using sift_up_heap [OF inv] l1 by (simp add: heap_list_def heap_ok_edges list_ok_def pn_list_size_def)
  ultimately show ?thesis using mset by (intro exI [of _ ?l]) simp
qed

lemma minpop_correct:
  assumes "heap_list l" "list_elements l \<noteq> []"
  shows "\<exists>l'. pn_list_minpop cmp l = Some (list_elements l ! 0, l') \<and> heap_list l' \<and>
    mset (list_elements l) = add_mset (list_elements l ! 0) (mset (list_elements l'))"
proof -
  let ?xs = "list_elements l"
  have pop: "pn_list_minpop cmp l = Some (?xs ! 0, l\<lparr>list_elements := sift_down cmp (last ?xs) 1 (butlast ?xs)\<rparr>)"
    using assms(2) by (simp add: pn_list_minpop_def pn_list_pop_def pn_list_size_def)
  show ?thesis
  proof (cases "list_elements l" rule: rev_cases)
    case (snoc ws v)
    show ?thesis
    proof (cases ws)
      case Nil
      moreover have "sift_down cmp v 1 [] = []" by (subst sift_down.simps) simp
      ultimately show ?thesis
        using pop assms(1) snoc by (auto simp: heap_list_def list_ok_def pn_list_size_def heap_ok_def)
    next
      case (Cons x zs)
      then have xs: "?xs = x # zs @ [v]" using snoc by simp
      have e: "edges key (\<lambda>_. True) (x # zs)"
        using edges_butlast [of key ?xs] assms(1) xs by (simp add: heap_list_def butlast_append)
      have "edges key (\<lambda>i. i div 2 \<noteq> 1) (v # zs)"
        unfolding edges_def
      proof (intro allI impI)
        fix i assume i: "1 < i" "i \<le> length (v # zs)" "i div 2 \<noteq> 1"
        then have "1 < i div 2" by linarith
        then show "key (heap_at (v # zs) (i div 2)) \<le> key (heap_at (v # zs) i)"
          using e i unfolding edges_def by (fastforce simp: heap_at_def nth_Cons')
      qed
      then have inv: "down_inv v 1 (x # zs)" by (simp add: down_inv_def)
      have mset: "mset (sift_down cmp v 1 (x # zs)) = mset (v # zs)" by (subst sift_down_mset) auto
      have "heap_list (l\<lparr>list_elements := sift_down cmp v 1 (x # zs)\<rparr>)"
        using sift_down_heap [OF inv] assms(1) mset_eq_length [OF mset] xs
        by (simp add: heap_list_def heap_ok_edges list_ok_def pn_list_size_def)
      then show ?thesis using pop mset xs by (auto simp: butlast_append)
    qed
  qed (use assms in simp)
qed

lemma push_all_correct:
  "heap_list l \<Longrightarrow>
   \<exists>l'. push_all cmp vs l = Some l' \<and> heap_list l' \<and> mset (list_elements l') = mset vs + mset (list_elements l)"
proof (induction vs arbitrary: l)
  case (Cons v vs)
  from minpush_correct [OF Cons.prems, of v] obtain l1
    where l1: "pn_list_minpush cmp l v = Some l1" "heap_list l1" "mset (list_elements l1) = add_mset v (mset (list_elements l))"
    by blast
  from Cons.IH [OF l1(2)] show ?case using l1 by auto
qed auto

lemma pop_all_correct:
  "\<lbrakk>heap_list l; n = length (list_elements l)\<rbrakk> \<Longrightarrow>
   \<exists>ys l'. pop_all cmp n l = Some (ys, l') \<and> list_elements l' = [] \<and> sorted (map key ys) \<and> mset ys = mset (list_elements l)"
proof (induction n arbitrary: l)
  case (Suc n)
  let ?x = "list_elements l ! 0"
  from minpop_correct [OF Suc.prems(1)] Suc.prems(2) obtain l1
    where l1: "pn_list_minpop cmp l = Some (?x, l1)" "heap_list l1"
      "mset (list_elements l) = add_mset ?x (mset (list_elements l1))" by fastforce
  have "size (mset (list_elements l)) = size (add_mset ?x (mset (list_elements l1)))" using l1(3) by simp
  then have "n = length (list_elements l1)" using Suc.prems(2) by simp
  from Suc.IH [OF l1(2) this] obtain ys l' where ys: "pop_all cmp n l1 = Some (ys, l')" "list_elements l' = []"
    "sorted (map key ys)" "mset ys = mset (list_elements l1)" by blast
  have "set ys \<subseteq> set (list_elements l)" using ys(4) l1(3) by (metis mset_eq_setD set_mset_add_mset_insert set_mset_mset subset_insertI)
  then have "\<forall>y\<in>set ys. key ?x \<le> key y" using heap_head_min [of key "list_elements l"] Suc.prems(1) by (auto simp: heap_list_def)
  then show ?case using l1 ys by auto
qed auto

end

section \<open>Deletion\<close>

lemma slide_loop_length [simp]: "length (slide_loop idx n k xs i) = length xs"
  by (induction k arbitrary: xs i) auto

lemma slide_loop_nth:
  "\<lbrakk>idx + n + i + k \<le> length xs; j < length xs\<rbrakk> \<Longrightarrow>
   slide_loop idx n k xs i ! j = (if idx + i \<le> j \<and> j < idx + i + k then xs ! (j + n) else xs ! j)"
proof (induction k arbitrary: xs i)
  case (Suc k)
  let ?xs = "xs[idx + i := xs ! (idx + n + i)]"
  have "slide_loop idx n k ?xs (Suc i) ! j = (if idx + Suc i \<le> j \<and> j < idx + Suc i + k then ?xs ! (j + n) else ?xs ! j)"
    using Suc.prems by (intro Suc.IH) auto
  then show ?case using Suc.prems by (auto simp: nth_list_update add.commute add.left_commute)
qed auto

lemma pn_list_del_elements:
  assumes "pn_list_size l \<noteq> 0" "list_index l i + n \<le> pn_list_size l"
  shows "pn_list_del l i n =
    Some (l\<lparr>list_elements := take (list_index l i) (list_elements l) @ drop (list_index l i + n) (list_elements l)\<rparr>)"
proof -
  let ?i = "list_index l i" and ?xs = "list_elements l"
  have "take (length ?xs - n) (slide_loop ?i n (length ?xs - (?i + n)) ?xs 0) = take ?i ?xs @ drop (?i + n) ?xs"
    using assms
    by (intro nth_equalityI) (auto simp: pn_list_size_def slide_loop_nth nth_append add.commute)
  with assms show ?thesis by (simp add: pn_list_del_def pn_list_size_def Let_def)
qed

lemma list_index_small:
  assumes "n < pn_list_size l" "pn_list_size l < 2 ^ 64"
  shows "list_index l (int n) = n"
proof -
  have "n < 2 ^ 64" using assms by (rule less_trans)
  then have "int n < int (2 ^ 64)" by (simp only: of_nat_less_iff)
  then have "int n < 2 ^ 64" by simp
  then have "int n mod 2 ^ 64 = int n" by (intro mod_pos_pos_trivial) auto
  then show ?thesis using assms by (simp add: list_index_def)
qed

lemma first_index_less: "v \<in> set xs \<Longrightarrow> length (takeWhile (\<lambda>x. x \<noteq> v) xs) < length xs"
  by (induction xs) auto

lemma index_loop_eq:
  "index_loop (=) xs v i = (if v \<in> set xs then int (i + length (takeWhile (\<lambda>x. x \<noteq> v) xs)) else - 1)"
  by (induction xs arbitrary: i) auto

lemma remove1_takeWhile:
  "v \<in> set xs \<Longrightarrow>
   remove1 v xs = take (length (takeWhile (\<lambda>x. x \<noteq> v) xs)) xs @ drop (Suc (length (takeWhile (\<lambda>x. x \<noteq> v) xs))) xs"
  by (induction xs) auto

section \<open>Properties\<close>





end
