(* ===== verification/Pn_Record.thy ===== *)
theory Pn_Record
  imports Proton_Prelude "HOL-Library.Multiset"
begin

text \<open>
  The attachment records of \<open>core/object/record.c\<close>: a growable array of typed fields found by linear
  search. Object pointers and class pointers are numbers, \<open>None\<close> is the null pointer. An operation that
  takes or drops references to the stored objects returns, beside the new record, the list of the calls of
  \<open>pn_class_incref\<close> and \<open>pn_class_decref\<close> it makes on non-null pointers, in order.
\<close>

section \<open>References\<close>

type_synonym pn_clazz = nat
type_synonym pn_object = nat

datatype ref_op = Incref pn_clazz pn_object | Decref pn_clazz pn_object

definition log_incref :: "pn_clazz \<Rightarrow> pn_object option \<Rightarrow> ref_op list" where
  "log_incref clazz obj = (case obj of None \<Rightarrow> [] | Some v \<Rightarrow> [Incref clazz v])"

definition log_decref :: "pn_clazz \<Rightarrow> pn_object option \<Rightarrow> ref_op list" where
  "log_decref clazz obj = (case obj of None \<Rightarrow> [] | Some v \<Rightarrow> [Decref clazz v])"

text \<open>The references on \<open>v\<close> that a sequence of calls leaves taken.\<close>

fun net_refs :: "ref_op list \<Rightarrow> pn_object \<Rightarrow> int" where
  "net_refs [] v = 0"
| "net_refs (Incref c w # log) v = (if w = v then 1 else 0) + net_refs log v"
| "net_refs (Decref c w # log) v = (if w = v then - 1 else 0) + net_refs log v"

lemma net_refs_append [simp]: "net_refs (xs @ ys) v = net_refs xs v + net_refs ys v"
  by (induction xs v rule: net_refs.induct) auto

definition points_to :: "pn_object option \<Rightarrow> pn_object \<Rightarrow> int" where
  "points_to p v = (if p = Some v then 1 else 0)"

lemma net_refs_class_ref [simp]:
  "net_refs (log_incref c p) v = points_to p v"
  "net_refs (log_decref c p) v = - points_to p v"
  by (auto simp: log_incref_def log_decref_def points_to_def split: option.splits)

section \<open>Records\<close>

definition PN_LEGCTX :: nat where "PN_LEGCTX = 0"
definition PN_VOID :: pn_clazz where "PN_VOID = 0"

record pni_field =
  field_key :: nat
  field_clazz :: pn_clazz
  field_value :: "pn_object option"

text \<open>\<open>size\<close> is the length of the fields.\<close>

record pn_record =
  rec_capacity :: nat
  rec_fields :: "pni_field list"

definition pn_record_initialize :: pn_record where
  "pn_record_initialize = \<lparr>rec_capacity = 0, rec_fields = []\<rparr>"

fun find_field :: "pni_field list \<Rightarrow> nat \<Rightarrow> nat \<Rightarrow> nat option" where
  "find_field [] key i = None"
| "find_field (f # fs) key i = (if field_key f = key then Some i else find_field fs key (Suc i))"

definition pni_record_find :: "pn_record \<Rightarrow> nat \<Rightarrow> nat option" where
  "pni_record_find r key = find_field (rec_fields r) key 0"

text \<open>The new field is filled in by the only caller.\<close>

definition pni_record_create :: "pn_record \<Rightarrow> pni_field \<Rightarrow> pn_record" where
  "pni_record_create r f =
     (let sz = length (rec_fields r) + 1
      in \<lparr>rec_capacity = (if sz > rec_capacity r then sz else rec_capacity r), rec_fields = rec_fields r @ [f]\<rparr>)"

text \<open>\<open>None\<close> is the failed assertion that a field is not redefined with another class.\<close>

definition pn_record_def' :: "pn_record \<Rightarrow> nat \<Rightarrow> pn_clazz \<Rightarrow> pn_record option" where
  "pn_record_def' r key clazz =
     (case pni_record_find r key of
        Some i \<Rightarrow> if field_clazz (rec_fields r ! i) = clazz then Some r else None
      | None \<Rightarrow> Some (pni_record_create r \<lparr>field_key = key, field_clazz = clazz, field_value = None\<rparr>))"

definition pn_record_has :: "pn_record \<Rightarrow> nat \<Rightarrow> bool" where
  "pn_record_has r key = (case pni_record_find r key of Some i \<Rightarrow> True | None \<Rightarrow> False)"

definition pn_record_get :: "pn_record \<Rightarrow> nat \<Rightarrow> pn_object option" where
  "pn_record_get r key =
     (case pni_record_find r key of Some i \<Rightarrow> field_value (rec_fields r ! i) | None \<Rightarrow> None)"

definition pn_record_set :: "pn_record \<Rightarrow> nat \<Rightarrow> pn_object option \<Rightarrow> pn_record \<times> ref_op list" where
  "pn_record_set r key value =
     (case pni_record_find r key of
        Some i \<Rightarrow>
          let f = rec_fields r ! i; old = field_value f
          in (r\<lparr>rec_fields := (rec_fields r)[i := f\<lparr>field_value := value\<rparr>]\<rparr>,
              log_incref (field_clazz f) value @ log_decref (field_clazz f) old)
      | None \<Rightarrow> (r, []))"

definition decref_fields :: "pni_field list \<Rightarrow> ref_op list" where
  "decref_fields fs = concat (map (\<lambda>f. log_decref (field_clazz f) (field_value f)) fs)"

text \<open>The record is emptied, keeping its capacity, and the legacy context is defined again.\<close>

definition pn_record_clear :: "pn_record \<Rightarrow> pn_record \<times> ref_op list" where
  "pn_record_clear r =
     (pni_record_create (r\<lparr>rec_fields := []\<rparr>) \<lparr>field_key = PN_LEGCTX, field_clazz = PN_VOID, field_value = None\<rparr>,
      decref_fields (rec_fields r))"

definition pn_record_finalize :: "pn_record \<Rightarrow> ref_op list" where
  "pn_record_finalize r = decref_fields (rec_fields r)"

definition pn_record_new :: pn_record where
  "pn_record_new =
     pni_record_create pn_record_initialize \<lparr>field_key = PN_LEGCTX, field_clazz = PN_VOID, field_value = None\<rparr>"

section \<open>The record as a finite map\<close>

definition rec_inv :: "pn_record \<Rightarrow> bool" where
  "rec_inv r \<longleftrightarrow> distinct (map field_key (rec_fields r)) \<and> length (rec_fields r) \<le> rec_capacity r"

definition field_map :: "pni_field list \<Rightarrow> nat \<rightharpoonup> pn_clazz \<times> pn_object option" where
  "field_map fs = map_of (map (\<lambda>f. (field_key f, field_clazz f, field_value f)) fs)"

definition rec_map :: "pn_record \<Rightarrow> nat \<rightharpoonup> pn_clazz \<times> pn_object option" where
  "rec_map r = field_map (rec_fields r)"

text \<open>How many fields hold \<open>v\<close>.\<close>

definition field_refs :: "pni_field list \<Rightarrow> pn_object \<Rightarrow> int" where
  "field_refs fs v = sum_list (map (\<lambda>f. points_to (field_value f) v) fs)"

lemma field_map_simps [simp]:
  "field_map [] = Map.empty"
  "field_map (f # fs) = (field_map fs)(field_key f \<mapsto> (field_clazz f, field_value f))"
  by (auto simp: field_map_def)

lemma field_refs_simps [simp]:
  "field_refs [] v = 0"
  "field_refs (f # fs) v = points_to (field_value f) v + field_refs fs v"
  "field_refs (fs @ gs) v = field_refs fs v + field_refs gs v"
  by (auto simp: field_refs_def)

lemma net_refs_decref_fields [simp]: "net_refs (decref_fields fs) v = - field_refs fs v"
  by (induction fs) (auto simp: decref_fields_def)

lemma field_map_None: "field_map fs key = None \<longleftrightarrow> key \<notin> field_key ` set fs"
  by (induction fs) auto

lemma find_field_cases:
  "(find_field fs key i = None \<and> field_map fs key = None) \<or>
   (\<exists>pre f post. fs = pre @ f # post \<and> field_key f = key \<and> key \<notin> field_key ` set pre \<and> find_field fs key i = Some (i + length pre))"
proof (induction fs arbitrary: i)
  case (Cons f fs)
  show ?case
  proof (cases "field_key f = key")
    case True
    then show ?thesis by (intro disjI2 exI [of _ "[]"]) auto
  next
    case False
    from Cons.IH [of "Suc i"] show ?thesis
    proof (elim disjE exE conjE)
      fix pre g post
      assume g: "fs = pre @ g # post" "field_key g = key" "key \<notin> field_key ` set pre" "find_field fs key (Suc i) = Some (Suc i + length pre)"
      then have "f # fs = (f # pre) @ g # post \<and> field_key g = key \<and> key \<notin> field_key ` set (f # pre) \<and>
        find_field (f # fs) key i = Some (i + length (f # pre))"
        using False by auto
      then show ?thesis by blast
    qed (use False in auto)
  qed
qed auto

text \<open>The two outcomes of the search.\<close>

lemma record_find:
  obtains (missing) "pni_record_find r key = None" "rec_map r key = None"
  | (found) pre f post where "rec_fields r = pre @ f # post" "field_key f = key" "key \<notin> field_key ` set pre"
      "pni_record_find r key = Some (length pre)" "rec_fields r ! length pre = f"
  using find_field_cases [of "rec_fields r" key 0] by (fastforce simp: pni_record_find_def rec_map_def)

lemma field_map_middle:
  "key \<notin> field_key ` set pre \<Longrightarrow> field_key f = key \<Longrightarrow> field_map (pre @ f # post) key = Some (field_clazz f, field_value f)"
  by (induction pre) auto

lemma field_map_replace:
  assumes "field_key f = key" "field_key g = key" "key \<notin> field_key ` set pre"
  shows "field_map (pre @ g # post) = (field_map (pre @ f # post))(key \<mapsto> (field_clazz g, field_value g))"
  using assms by (induction pre) (auto simp: fun_upd_twist)

lemma field_map_snoc:
  "field_key f \<notin> field_key ` set fs \<Longrightarrow>
   field_map (fs @ [f]) = (field_map fs)(field_key f \<mapsto> (field_clazz f, field_value f))"
  by (induction fs) (auto simp: fun_upd_twist)

section \<open>Runs of operations\<close>

datatype rec_op = RDef nat pn_clazz | RSet nat "pn_object option" | RClear

fun rec_exec :: "rec_op \<Rightarrow> pn_record \<Rightarrow> (pn_record \<times> ref_op list) option" where
  "rec_exec (RDef k c) r = map_option (\<lambda>r. (r, [])) (pn_record_def' r k c)"
| "rec_exec (RSet k v) r = Some (pn_record_set r k v)"
| "rec_exec RClear r = Some (pn_record_clear r)"

fun rec_run :: "rec_op list \<Rightarrow> pn_record \<Rightarrow> (pn_record \<times> ref_op list) option" where
  "rec_run [] r = Some (r, [])"
| "rec_run (oper # ops) r =
     (case rec_exec oper r of
        None \<Rightarrow> None
      | Some (r, log) \<Rightarrow> map_option (map_prod id ((@) log)) (rec_run ops r))"

fun map_exec :: "rec_op \<Rightarrow> (nat \<rightharpoonup> pn_clazz \<times> pn_object option) \<Rightarrow> (nat \<rightharpoonup> pn_clazz \<times> pn_object option) option" where
  "map_exec (RDef k c) m =
     (case m k of None \<Rightarrow> Some (m(k \<mapsto> (c, None))) | Some (c', v) \<Rightarrow> if c' = c then Some m else None)"
| "map_exec (RSet k v) m = (case m k of None \<Rightarrow> Some m | Some (c, w) \<Rightarrow> Some (m(k \<mapsto> (c, v))))"
| "map_exec RClear m = Some [PN_LEGCTX \<mapsto> (PN_VOID, None)]"

fun map_run :: "rec_op list \<Rightarrow> (nat \<rightharpoonup> pn_clazz \<times> pn_object option) \<Rightarrow> (nat \<rightharpoonup> pn_clazz \<times> pn_object option) option" where
  "map_run [] m = Some m"
| "map_run (oper # ops) m = (case map_exec oper m of None \<Rightarrow> None | Some m \<Rightarrow> map_run ops m)"

lemma record_new_inv [simp]: "rec_inv pn_record_new" "rec_map pn_record_new = [PN_LEGCTX \<mapsto> (PN_VOID, None)]"
  "field_refs (rec_fields pn_record_new) v = 0"
  by (auto simp: pn_record_new_def pn_record_initialize_def pni_record_create_def rec_inv_def rec_map_def points_to_def)

definition rec_sim :: "(pn_record \<times> ref_op list) option \<Rightarrow> pn_record \<Rightarrow> (nat \<rightharpoonup> pn_clazz \<times> pn_object option) option \<Rightarrow> bool" where
  "rec_sim res r m =
     (case res of
        None \<Rightarrow> m = None
      | Some (r', log) \<Rightarrow> rec_inv r' \<and> m = Some (rec_map r') \<and>
          (\<forall>v. field_refs (rec_fields r') v = field_refs (rec_fields r) v + net_refs log v))"

lemma rec_exec_def_sim: "rec_inv r \<Longrightarrow> rec_sim (rec_exec (RDef k c) r) r (map_exec (RDef k c) (rec_map r))"
proof (cases rule: record_find [of r k])
  case missing
  then have "k \<notin> field_key ` set (rec_fields r)" by (simp add: rec_map_def field_map_None)
  then show "rec_inv r \<Longrightarrow> ?thesis" using missing
    by (auto simp: rec_sim_def pn_record_def'_def pni_record_create_def rec_inv_def rec_map_def Let_def field_map_snoc points_to_def)
next
  case (found pre f post)
  then show "rec_inv r \<Longrightarrow> ?thesis"
    by (auto simp: rec_sim_def pn_record_def'_def rec_map_def field_map_middle)
qed

lemma rec_exec_set_sim: "rec_inv r \<Longrightarrow> rec_sim (rec_exec (RSet k v) r) r (map_exec (RSet k v) (rec_map r))"
proof (cases rule: record_find [of r k])
  case missing
  then show "rec_inv r \<Longrightarrow> ?thesis" by (simp add: rec_sim_def pn_record_set_def)
next
  case (found pre f post)
  then show "rec_inv r \<Longrightarrow> ?thesis"
    using field_map_replace [of f k "f\<lparr>field_value := v\<rparr>" pre post]
    by (simp add: rec_sim_def pn_record_set_def Let_def rec_inv_def rec_map_def field_map_middle)
qed

lemma rec_exec_clear_sim: "rec_sim (rec_exec RClear r) r (map_exec RClear (rec_map r))"
  by (simp add: rec_sim_def pn_record_clear_def pni_record_create_def rec_inv_def rec_map_def points_to_def)

lemma rec_exec_sim: "rec_inv r \<Longrightarrow> rec_sim (rec_exec oper r) r (map_exec oper (rec_map r))"
  by (cases oper) (simp_all only: rec_exec_def_sim rec_exec_set_sim rec_exec_clear_sim)

lemma rec_run_sim: "rec_inv r \<Longrightarrow> rec_sim (rec_run ops r) r (map_run ops (rec_map r))"
proof (induction ops arbitrary: r)
  case (Cons oper ops)
  show ?case
  proof (cases "rec_exec oper r")
    case None
    then show ?thesis using rec_exec_sim [OF Cons.prems, of oper] by (simp add: rec_sim_def)
  next
    case (Some p)
    obtain r1 log where p: "p = (r1, log)" by fastforce
    then have "rec_inv r1" "map_exec oper (rec_map r) = Some (rec_map r1)"
      "\<And>v. field_refs (rec_fields r1) v = field_refs (rec_fields r) v + net_refs log v"
      using rec_exec_sim [OF Cons.prems, of oper] Some by (auto simp: rec_sim_def)
    then show ?thesis using Cons.IH [of r1] Some p by (auto simp: rec_sim_def split: option.splits)
  qed
qed (simp add: rec_sim_def)

lemma pn_record_get_map: "pn_record_get r k = (case rec_map r k of None \<Rightarrow> None | Some (c, v) \<Rightarrow> v)"
  by (cases rule: record_find [of r k]) (auto simp: pn_record_get_def rec_map_def field_map_middle)

lemma pn_record_has_map: "pn_record_has r k \<longleftrightarrow> rec_map r k \<noteq> None"
  by (cases rule: record_find [of r k]) (auto simp: pn_record_has_def rec_map_def field_map_middle)

text \<open>Storing an object takes the new reference before it drops the old one.\<close>

lemma pn_record_set_keeps: "0 \<le> net_refs (take n (snd (pn_record_set r k (Some w)))) w"
  by (cases n; cases "n - 1")
    (auto simp: pn_record_set_def Let_def log_incref_def log_decref_def split: option.splits)

section \<open>Property\<close>

text \<open>
  C29: a record is a finite map from keys to typed values, and it never leaks or over-releases a
  reference. After any sequence of definitions, assignments and clears of a new record, membership and
  lookup agree with the map the same operations build (an assignment to an undefined key is ignored, a
  redefinition with another class fails), and destroying the record balances the references on every
  object exactly.
\<close>

theorem record_refines_map:
  "case rec_run ops pn_record_new of
     None \<Rightarrow> map_run ops [PN_LEGCTX \<mapsto> (PN_VOID, None)] = None
   | Some (r, log) \<Rightarrow>
       map_run ops [PN_LEGCTX \<mapsto> (PN_VOID, None)] = Some (rec_map r) \<and>
       (\<forall>k. pn_record_has r k \<longleftrightarrow> rec_map r k \<noteq> None) \<and>
       (\<forall>k. pn_record_get r k = (case rec_map r k of None \<Rightarrow> None | Some (c, v) \<Rightarrow> v)) \<and>
       (\<forall>v. net_refs (log @ pn_record_finalize r) v = 0)"
  using rec_run_sim [of pn_record_new ops]
  by (auto simp: rec_sim_def pn_record_has_map pn_record_get_map pn_record_finalize_def split: option.splits)

end
