(* ===== verification/Collector.thy ===== *)
theory Collector
  imports Pn_List Pn_Record
begin

text \<open>
  The event collector of \<open>core/event.c\<close>: a queue of event objects linked by their \<open>next\<close> fields, with a
  pool of recycled events. The event objects live in a heap of their own, \<open>col_events\<close>; a freed object is
  no longer in it, and an access to an object that is not there is undefined behaviour, which is \<open>None\<close>.
  Reference counts of the events and of the pool are kept; the calls made on the events' contexts are
  logged. The attachment record of an event is left out (see theory \<open>Pn_Record\<close>), and so is what the
  destruction of a context may do in turn. The functions are those for a collector that is not null.
\<close>

section \<open>Event types\<close>

type_synonym pn_event_type = nat

definition event_type_names :: "string list" where
  "event_type_names = [
    ''PN_EVENT_NONE'', ''PN_REACTOR_INIT'', ''PN_REACTOR_QUIESCED'', ''PN_REACTOR_FINAL'', ''PN_TIMER_TASK'',
    ''PN_CONNECTION_INIT'', ''PN_CONNECTION_BOUND'', ''PN_CONNECTION_UNBOUND'', ''PN_CONNECTION_LOCAL_OPEN'',
    ''PN_CONNECTION_REMOTE_OPEN'', ''PN_CONNECTION_LOCAL_CLOSE'', ''PN_CONNECTION_REMOTE_CLOSE'',
    ''PN_CONNECTION_FINAL'', ''PN_SESSION_INIT'', ''PN_SESSION_LOCAL_OPEN'', ''PN_SESSION_REMOTE_OPEN'',
    ''PN_SESSION_LOCAL_CLOSE'', ''PN_SESSION_REMOTE_CLOSE'', ''PN_SESSION_FINAL'', ''PN_LINK_INIT'',
    ''PN_LINK_LOCAL_OPEN'', ''PN_LINK_REMOTE_OPEN'', ''PN_LINK_LOCAL_CLOSE'', ''PN_LINK_REMOTE_CLOSE'',
    ''PN_LINK_LOCAL_DETACH'', ''PN_LINK_REMOTE_DETACH'', ''PN_LINK_FLOW'', ''PN_LINK_FINAL'', ''PN_DELIVERY'',
    ''PN_TRANSPORT'', ''PN_TRANSPORT_AUTHENTICATED'', ''PN_TRANSPORT_ERROR'', ''PN_TRANSPORT_HEAD_CLOSED'',
    ''PN_TRANSPORT_TAIL_CLOSED'', ''PN_TRANSPORT_CLOSED'', ''PN_SELECTABLE_INIT'', ''PN_SELECTABLE_UPDATED'',
    ''PN_SELECTABLE_READABLE'', ''PN_SELECTABLE_WRITABLE'', ''PN_SELECTABLE_ERROR'', ''PN_SELECTABLE_EXPIRED'',
    ''PN_SELECTABLE_FINAL'', ''PN_CONNECTION_WAKE'', ''PN_LISTENER_ACCEPT'', ''PN_LISTENER_CLOSE'',
    ''PN_PROACTOR_INTERRUPT'', ''PN_PROACTOR_TIMEOUT'', ''PN_PROACTOR_INACTIVE'', ''PN_LISTENER_OPEN'',
    ''PN_RAW_CONNECTION_CONNECTED'', ''PN_RAW_CONNECTION_CLOSED_READ'', ''PN_RAW_CONNECTION_CLOSED_WRITE'',
    ''PN_RAW_CONNECTION_DISCONNECTED'', ''PN_RAW_CONNECTION_NEED_READ_BUFFERS'',
    ''PN_RAW_CONNECTION_NEED_WRITE_BUFFERS'', ''PN_RAW_CONNECTION_READ'', ''PN_RAW_CONNECTION_WRITTEN'',
    ''PN_RAW_CONNECTION_WAKE'', ''PN_RAW_CONNECTION_DRAIN_BUFFERS'']"

definition PN_EVENT_NONE :: pn_event_type where "PN_EVENT_NONE = 0"
definition PN_TIMER_TASK :: pn_event_type where "PN_TIMER_TASK = 4"

definition pn_event_type_name :: "pn_event_type \<Rightarrow> string" where
  "pn_event_type_name t = (if t < length event_type_names then event_type_names ! t else ''PN_UNKNOWN'')"

section \<open>State\<close>

type_synonym event_ref = nat

text \<open>\<open>ev_pool\<close> says whether the \<open>pool\<close> pointer is set; it then points to the pool of the collector.\<close>

record pn_event =
  ev_pool :: bool
  ev_clazz :: "pn_clazz option"
  ev_context :: "pn_object option"
  ev_next :: "event_ref option"
  ev_type :: pn_event_type
  ev_refcount :: nat

record pn_collector =
  col_pool :: "event_ref pn_list"
  col_head :: "event_ref option"
  col_tail :: "event_ref option"
  col_prev :: "event_ref option"
  col_freed :: bool
  col_pool_refs :: nat
  col_events :: "event_ref \<rightharpoonup> pn_event"
  col_fresh :: event_ref
  col_refs :: "ref_op list"

definition pn_collector_initialize :: pn_collector where
  "pn_collector_initialize =
     \<lparr>col_pool = pn_list_new 0, col_head = None, col_tail = None, col_prev = None, col_freed = False,
      col_pool_refs = 1, col_events = Map.empty, col_fresh = 0, col_refs = []\<rparr>"

section \<open>Events\<close>

definition pn_event_initialize :: pn_event where
  "pn_event_initialize =
     \<lparr>ev_pool = False, ev_clazz = None, ev_context = None, ev_next = None, ev_type = PN_EVENT_NONE, ev_refcount = 1\<rparr>"

text \<open>The address of a new object was never used before.\<close>

definition pn_event_new :: "pn_collector \<Rightarrow> event_ref \<times> pn_collector" where
  "pn_event_new c =
     (col_fresh c, c\<lparr>col_events := (col_events c)(col_fresh c \<mapsto> pn_event_initialize), col_fresh := col_fresh c + 1\<rparr>)"

definition put_event :: "event_ref \<Rightarrow> pn_event \<Rightarrow> pn_collector \<Rightarrow> pn_collector" where
  "put_event i e c = c\<lparr>col_events := (col_events c)(i \<mapsto> e)\<rparr>"

text \<open>
  The collector itself holds a reference on the pool, so an event never drops the last one; \<open>None\<close>
  stands for that case, which is outside the model.
\<close>

definition pool_decref :: "pn_collector \<Rightarrow> pn_collector option" where
  "pool_decref c = (if col_pool_refs c > 1 then Some (c\<lparr>col_pool_refs := col_pool_refs c - 1\<rparr>) else None)"

definition context_decref :: "pn_event \<Rightarrow> ref_op list" where
  "context_decref e = (case ev_clazz e of None \<Rightarrow> [] | Some clazz \<Rightarrow> log_decref clazz (ev_context e))"

definition pn_event_finalize :: "event_ref \<Rightarrow> pn_collector \<Rightarrow> pn_collector option" where
  "pn_event_finalize i c =
     (case col_events c i of
        None \<Rightarrow> None
      | Some e \<Rightarrow>
          let c = c\<lparr>col_refs := col_refs c @ context_decref e\<rparr>
          in if ev_pool e \<and> col_pool_refs c > 1 then
               case pn_list_add (col_pool c) i of
                 None \<Rightarrow> None
               | Some pool \<Rightarrow>
                   pool_decref
                     (put_event i
                        (e\<lparr>ev_pool := False, ev_type := PN_EVENT_NONE, ev_clazz := None, ev_context := None,
                           ev_next := None, ev_refcount := ev_refcount e + 1\<rparr>)
                        (c\<lparr>col_pool := pool\<rparr>))
             else if ev_pool e then pool_decref c else Some c)"

text \<open>\<open>pn_decref\<close> of an event: the count is read again after the finalizer, which may have revived it.\<close>

definition event_decref :: "event_ref \<Rightarrow> pn_collector \<Rightarrow> pn_collector option" where
  "event_decref i c =
     (case col_events c i of
        None \<Rightarrow> None
      | Some e \<Rightarrow>
          if ev_refcount e = 0 then None
          else
            let c = put_event i (e\<lparr>ev_refcount := ev_refcount e - 1\<rparr>) c
            in if ev_refcount e - 1 = 0 then
                 case pn_event_finalize i c of
                   None \<Rightarrow> None
                 | Some c \<Rightarrow>
                     (case col_events c i of
                        None \<Rightarrow> None
                      | Some e \<Rightarrow> if ev_refcount e = 0 then Some (c\<lparr>col_events := (col_events c)(i := None)\<rparr>) else Some c)
               else Some c)"

section \<open>The collector\<close>

definition pn_collector_peek :: "pn_collector \<Rightarrow> event_ref option" where
  "pn_collector_peek c = col_head c"

definition pn_collector_prev :: "pn_collector \<Rightarrow> event_ref option" where
  "pn_collector_prev c = col_prev c"

definition pn_collector_more :: "pn_collector \<Rightarrow> bool option" where
  "pn_collector_more c =
     (case col_head c of
        None \<Rightarrow> Some False
      | Some h \<Rightarrow> map_option (\<lambda>e. ev_next e \<noteq> None) (col_events c h))"

text \<open>Taking an event from the pool, or a new one.\<close>

definition take_event :: "pn_collector \<Rightarrow> event_ref \<times> pn_collector" where
  "take_event c =
     (let (i, pool) = pn_list_pop (col_pool c)
      in case i of None \<Rightarrow> pn_event_new c | Some i \<Rightarrow> (i, c\<lparr>col_pool := pool\<rparr>))"

definition link_event :: "event_ref \<Rightarrow> pn_collector \<Rightarrow> pn_collector option" where
  "link_event i c =
     (case col_tail c of
        Some t \<Rightarrow> map_option (\<lambda>e. (put_event t (e\<lparr>ev_next := Some i\<rparr>) c)\<lparr>col_tail := Some i\<rparr>) (col_events c t)
      | None \<Rightarrow> Some (c\<lparr>col_tail := Some i, col_head := Some i\<rparr>))"

definition enqueue :: "pn_clazz \<Rightarrow> pn_object \<Rightarrow> pn_event_type \<Rightarrow> pn_collector \<Rightarrow> (event_ref option \<times> pn_collector) option" where
  "enqueue clazz context type c =
     (let (i, c) = take_event c
      in case col_events c i of
           None \<Rightarrow> None
         | Some e \<Rightarrow>
             (case link_event i ((put_event i (e\<lparr>ev_pool := True\<rparr>) c)\<lparr>col_pool_refs := col_pool_refs c + 1\<rparr>) of
                None \<Rightarrow> None
              | Some c \<Rightarrow>
                  (case col_events c i of
                     None \<Rightarrow> None
                   | Some e \<Rightarrow>
                       Some (Some i,
                         (put_event i (e\<lparr>ev_clazz := Some clazz, ev_context := Some context, ev_type := type\<rparr>) c)
                           \<lparr>col_refs := col_refs c @ log_incref clazz (Some context)\<rparr>))))"

definition pn_collector_put :: "pn_clazz \<Rightarrow> pn_object \<Rightarrow> pn_event_type \<Rightarrow> pn_collector \<Rightarrow> (event_ref option \<times> pn_collector) option" where
  "pn_collector_put clazz context type c =
     (if col_freed c then Some (None, c)
      else
        case col_tail c of
          None \<Rightarrow> enqueue clazz context type c
        | Some t \<Rightarrow>
            (case col_events c t of
               None \<Rightarrow> None
             | Some e \<Rightarrow>
                 if ev_type e = type \<and> ev_context e = Some context then Some (None, c)
                 else enqueue clazz context type c))"

definition pop_internal :: "pn_collector \<Rightarrow> (event_ref option \<times> pn_collector) option" where
  "pop_internal c =
     (case col_head c of
        None \<Rightarrow> Some (None, c)
      | Some h \<Rightarrow>
          map_option
            (\<lambda>e. (Some h, c\<lparr>col_head := ev_next e, col_tail := (if ev_next e = None then None else col_tail c)\<rparr>))
            (col_events c h))"

definition pn_collector_pop :: "pn_collector \<Rightarrow> (bool \<times> pn_collector) option" where
  "pn_collector_pop c =
     (case pop_internal c of
        None \<Rightarrow> None
      | Some (None, c) \<Rightarrow> Some (False, c)
      | Some (Some i, c) \<Rightarrow> map_option (Pair True) (event_decref i c))"

definition pn_collector_next :: "pn_collector \<Rightarrow> (event_ref option \<times> pn_collector) option" where
  "pn_collector_next c =
     (case (case col_prev c of None \<Rightarrow> Some c | Some p \<Rightarrow> event_decref p c) of
        None \<Rightarrow> None
      | Some c \<Rightarrow> map_option (\<lambda>(i, c). (i, c\<lparr>col_prev := i\<rparr>)) (pop_internal c))"

text \<open>The loop of \<open>pn_collector_drain\<close>; a collector never has more queued events than it ever allocated.\<close>

fun drain_loop :: "nat \<Rightarrow> pn_collector \<Rightarrow> pn_collector option" where
  "drain_loop 0 c = None"
| "drain_loop (Suc n) c =
     (case pn_collector_next c of
        None \<Rightarrow> None
      | Some (None, c) \<Rightarrow> Some c
      | Some (Some i, c) \<Rightarrow> drain_loop n c)"

definition pn_collector_drain :: "pn_collector \<Rightarrow> pn_collector option" where
  "pn_collector_drain c =
     (case drain_loop (col_fresh c + 1) c of
        None \<Rightarrow> None
      | Some c \<Rightarrow> if col_head c = None \<and> col_tail c = None then Some c else None)"

fun decref_all :: "event_ref list \<Rightarrow> pn_collector \<Rightarrow> pn_collector option" where
  "decref_all [] c = Some c"
| "decref_all (i # is) c = (case event_decref i c of None \<Rightarrow> None | Some c \<Rightarrow> decref_all is c)"

definition pn_collector_shrink :: "pn_collector \<Rightarrow> pn_collector option" where
  "pn_collector_shrink c =
     (case decref_all (list_elements (col_pool c)) c of
        None \<Rightarrow> None
      | Some c \<Rightarrow> map_option (\<lambda>pool. c\<lparr>col_pool := pool\<rparr>) (pn_list_clear (col_pool c)))"

definition pn_collector_release :: "pn_collector \<Rightarrow> pn_collector option" where
  "pn_collector_release c =
     (if col_freed c then Some c
      else case pn_collector_drain (c\<lparr>col_freed := True\<rparr>) of None \<Rightarrow> None | Some c \<Rightarrow> pn_collector_shrink c)"

section \<open>Event accessors\<close>

definition pn_event_type' :: "pn_collector \<Rightarrow> event_ref option \<Rightarrow> pn_event_type option" where
  "pn_event_type' c i = (case i of None \<Rightarrow> Some PN_EVENT_NONE | Some i \<Rightarrow> map_option ev_type (col_events c i))"

definition pn_event_class :: "pn_collector \<Rightarrow> event_ref \<Rightarrow> pn_clazz option option" where
  "pn_event_class c i = map_option ev_clazz (col_events c i)"

definition pn_event_context :: "pn_collector \<Rightarrow> event_ref \<Rightarrow> pn_object option option" where
  "pn_event_context c i = map_option ev_context (col_events c i)"

section \<open>The representation of a queue\<close>

text \<open>The linked events from \<open>p\<close> on.\<close>

fun chain :: "(event_ref \<rightharpoonup> pn_event) \<Rightarrow> event_ref option \<Rightarrow> event_ref list \<Rightarrow> bool" where
  "chain h p [] \<longleftrightarrow> p = None"
| "chain h p (i # is) \<longleftrightarrow> p = Some i \<and> (case h i of None \<Rightarrow> False | Some e \<Rightarrow> chain h (ev_next e) is)"

definition queued :: "pn_event \<Rightarrow> bool" where
  "queued e \<longleftrightarrow> ev_refcount e = 1 \<and> ev_pool e \<and> ev_clazz e \<noteq> None \<and> ev_context e \<noteq> None"

type_synonym event_view = "pn_clazz option \<times> pn_object option \<times> pn_event_type"

definition event_view :: "pn_event \<Rightarrow> event_view" where
  "event_view e = (ev_clazz e, ev_context e, ev_type e)"

definition view :: "pn_collector \<Rightarrow> event_ref \<Rightarrow> event_view" where
  "view c i = (case col_events c i of None \<Rightarrow> (None, None, PN_EVENT_NONE) | Some e \<Rightarrow> event_view e)"

definition context_refs :: "event_view list \<Rightarrow> pn_object \<Rightarrow> int" where
  "context_refs vs v = sum_list (map (\<lambda>(_, p, _). points_to p v) vs)"

lemma context_refs_simps [simp]:
  "context_refs [] v = 0"
  "context_refs (x # xs) v = points_to (fst (snd x)) v + context_refs xs v"
  "context_refs (xs @ ys) v = context_refs xs v + context_refs ys v"
  by (auto simp: context_refs_def split: prod.splits)

definition opt_list :: "'a option \<Rightarrow> 'a list" where
  "opt_list p = (case p of None \<Rightarrow> [] | Some x \<Rightarrow> [x])"

lemma opt_list_simps [simp]: "opt_list None = []" "opt_list (Some x) = [x]"
  by (auto simp: opt_list_def)

text \<open>
  The queue holds the events \<open>qs\<close>, further events \<open>hs\<close> are out of the queue but still referenced, all
  others are in the pool: every live event is in exactly one of the three, nothing is leaked, and the
  references on contexts are those of the events in use.
\<close>

definition rep :: "pn_collector \<Rightarrow> event_ref list \<Rightarrow> event_ref list \<Rightarrow> bool" where
  "rep c qs hs \<longleftrightarrow>
     chain (col_events c) (col_head c) qs \<and> col_tail c = (if qs = [] then None else Some (last qs)) \<and>
     distinct (qs @ hs @ list_elements (col_pool c)) \<and>
     dom (col_events c) = set (qs @ hs @ list_elements (col_pool c)) \<and>
     (\<forall>i\<in>dom (col_events c). i < col_fresh c) \<and>
     (\<forall>i\<in>set (qs @ hs). \<exists>e. col_events c i = Some e \<and> queued e) \<and>
     (\<forall>i\<in>set (list_elements (col_pool c)). col_events c i = Some pn_event_initialize) \<and>
     list_ok (col_pool c) \<and> col_pool_refs c = 1 + length qs + length hs \<and>
     (\<forall>v. net_refs (col_refs c) v = context_refs (map (view c) (qs @ hs)) v)"

lemma repD:
  assumes "rep c qs hs"
  shows "chain (col_events c) (col_head c) qs" "col_tail c = (if qs = [] then None else Some (last qs))"
    "distinct (qs @ hs @ list_elements (col_pool c))" "dom (col_events c) = set (qs @ hs @ list_elements (col_pool c))"
    "\<And>i. i \<in> dom (col_events c) \<Longrightarrow> i < col_fresh c"
    "\<And>i. i \<in> set (qs @ hs) \<Longrightarrow> \<exists>e. col_events c i = Some e \<and> queued e"
    "\<And>i. i \<in> set (list_elements (col_pool c)) \<Longrightarrow> col_events c i = Some pn_event_initialize"
    "list_ok (col_pool c)" "col_pool_refs c = 1 + length qs + length hs"
    "\<And>v. net_refs (col_refs c) v = context_refs (map (view c) (qs @ hs)) v"
  using assms by (auto simp: rep_def)

lemma chain_cong:
  "(\<And>i. i \<in> set qs \<Longrightarrow> h' i = h i) \<Longrightarrow> chain h' p qs = chain h p qs"
  by (induction qs arbitrary: p) (auto split: option.splits)

lemma chain_update [simp]: "i \<notin> set qs \<Longrightarrow> chain (h(i := y)) p qs = chain h p qs"
  by (rule chain_cong) auto

lemma chain_snoc:
  assumes "chain h p qs" "qs \<noteq> []" "h (last qs) = Some e" "distinct qs" "i \<notin> set qs" "h i = Some e'" "ev_next e' = None"
  shows "chain (h(last qs \<mapsto> e\<lparr>ev_next := Some i\<rparr>)) p (qs @ [i])"
  using assms
proof (induction qs arbitrary: p)
  case (Cons q qs)
  show ?case
  proof (cases "qs = []")
    case True
    then show ?thesis using Cons.prems by auto
  next
    case False
    then have "q \<noteq> last qs" using Cons.prems(4) by auto
    moreover from Cons.prems(1) obtain f where "h q = Some f" "chain h (ev_next f) qs" by (auto split: option.splits)
    moreover from this have "chain (h(last qs \<mapsto> e\<lparr>ev_next := Some i\<rparr>)) (ev_next f) (qs @ [i])"
      using Cons.prems False by (intro Cons.IH) auto
    ultimately show ?thesis using Cons.prems False by (simp add: fun_upd_def)
  qed
qed simp

text \<open>An event in use loses its last reference: it goes back to the pool.\<close>

lemma event_decref_rep:
  assumes "rep c qs (i # hs)"
  shows "\<exists>c'. event_decref i c = Some c' \<and> rep c' qs hs \<and> (\<forall>j\<in>set (qs @ hs). view c' j = view c j) \<and>
    col_head c' = col_head c \<and> col_tail c' = col_tail c \<and> col_prev c' = col_prev c \<and> col_freed c' = col_freed c \<and>
    col_fresh c' = col_fresh c"
proof -
  note rep = repD [OF assms]
  obtain e where e: "col_events c i = Some e" "queued e" using rep(6) [of i] by auto
  obtain pool where pool: "pn_list_add (col_pool c) i = Some pool" "list_ok pool"
      "list_elements pool = list_elements (col_pool c) @ [i]"
    using pn_list_add_some [OF rep(8), of i] by blast
  let ?c = "c\<lparr>col_events := (col_events c)(i \<mapsto> pn_event_initialize), col_pool := pool,
    col_pool_refs := col_pool_refs c - 1, col_refs := col_refs c @ context_decref e\<rparr>"
  have dec: "event_decref i c = Some ?c"
    using e pool(1) rep(9)
    by (cases e) (auto simp: event_decref_def pn_event_finalize_def put_event_def pool_decref_def queued_def Let_def
        pn_event_initialize_def context_decref_def)
  have i: "i \<notin> set qs" "i \<notin> set hs" "i \<notin> set (list_elements (col_pool c))" using rep(3) by auto
  have view: "view ?c j = view c j" if "j \<in> set (qs @ hs)" for j using that i by (auto simp: view_def)
  have "net_refs (context_decref e) v = - points_to (fst (snd (view c i))) v" for v
    using e by (auto simp: context_decref_def view_def event_view_def queued_def)
  then have "net_refs (col_refs ?c) v = context_refs (map (view ?c) (qs @ hs)) v" for v
    using rep(10) [of v] view by (simp cong: map_cong)
  moreover have "chain (col_events ?c) (col_head ?c) qs"
    using rep(1) i by simp
  ultimately have "rep ?c qs hs"
    using rep pool i unfolding rep_def by (auto simp: insert_commute)
  then show ?thesis using dec view by auto
qed

lemma pop_internal_rep:
  assumes "rep c (q # qs) hs"
  shows "\<exists>c'. pop_internal c = Some (Some q, c') \<and> rep c' qs (q # hs) \<and> view c' = view c \<and>
    col_prev c' = col_prev c \<and> col_freed c' = col_freed c \<and> col_fresh c' = col_fresh c"
proof -
  note rep = repD [OF assms]
  obtain e where e: "col_events c q = Some e" "chain (col_events c) (ev_next e) qs" "col_head c = Some q"
    using rep(1) by (auto split: option.splits)
  let ?c = "c\<lparr>col_head := ev_next e, col_tail := (if ev_next e = None then None else col_tail c)\<rparr>"
  have "ev_next e = None \<longleftrightarrow> qs = []" using e(2) by (cases qs) auto
  moreover have view: "view ?c = view c" by (simp add: view_def fun_eq_iff)
  ultimately have "rep ?c qs (q # hs)"
    using rep e unfolding rep_def by auto
  then show ?thesis using e view by (auto simp: pop_internal_def)
qed

text \<open>A fresh event object, from the pool or newly allocated.\<close>

lemma take_event_rep:
  assumes "rep c qs hs"
  shows "\<exists>i pool evs n. take_event c = (i, c\<lparr>col_pool := pool, col_events := evs, col_fresh := n\<rparr>) \<and>
    i \<notin> set (qs @ hs) \<and> distinct (i # list_elements pool) \<and> list_ok pool \<and>
    set (list_elements pool) \<inter> set (qs @ hs) = {} \<and> evs i = Some pn_event_initialize \<and>
    dom evs = insert i (set (qs @ hs @ list_elements pool)) \<and>
    (\<forall>j\<in>set (qs @ hs). evs j = col_events c j) \<and> (\<forall>j\<in>dom evs. j < n) \<and>
    (\<forall>j\<in>set (list_elements pool). evs j = Some pn_event_initialize)"
proof -
  note rep = repD [OF assms]
  show ?thesis
  proof (cases "list_elements (col_pool c)" rule: rev_cases)
    case Nil
    let ?evs = "(col_events c)(col_fresh c \<mapsto> pn_event_initialize)"
    have "take_event c = (col_fresh c, c\<lparr>col_pool := col_pool c, col_events := ?evs, col_fresh := col_fresh c + 1\<rparr>)"
      using Nil by (simp add: take_event_def pn_list_pop_def pn_list_size_def pn_event_new_def)
    moreover have "col_fresh c \<notin> dom (col_events c)" using rep(5) by blast
    ultimately show ?thesis
      using rep(3,4,8) Nil rep(5)
      by (intro exI [of _ "col_fresh c"] exI [of _ "col_pool c"] exI [of _ ?evs] exI [of _ "col_fresh c + 1"])
        (auto simp: less_Suc_eq)
  next
    case (snoc js i)
    let ?pool = "(col_pool c)\<lparr>list_elements := js\<rparr>"
    have "take_event c = (i, c\<lparr>col_pool := ?pool, col_events := col_events c, col_fresh := col_fresh c\<rparr>)"
      using snoc by (simp add: take_event_def pn_list_pop_def pn_list_size_def)
    then show ?thesis
      using rep(3,4,5,7,8) snoc
      by (intro exI [of _ i] exI [of _ ?pool] exI [of _ "col_events c"] exI [of _ "col_fresh c"])
        (auto simp: list_ok_def pn_list_size_def)
  qed
qed

lemma enqueue_rep:
  assumes "rep c qs hs"
  shows "\<exists>i c'. enqueue clazz context type c = Some (Some i, c') \<and> rep c' (qs @ [i]) hs \<and>
    view c' i = (Some clazz, Some context, type) \<and> (\<forall>j\<in>set (qs @ hs). view c' j = view c j) \<and>
    col_prev c' = col_prev c \<and> col_freed c' = col_freed c"
proof -
  note rep = repD [OF assms]
  obtain i pool evs n where take: "take_event c = (i, c\<lparr>col_pool := pool, col_events := evs, col_fresh := n\<rparr>)"
    and i: "i \<notin> set (qs @ hs)" "distinct (i # list_elements pool)" "list_ok pool"
      "set (list_elements pool) \<inter> set (qs @ hs) = {}" "evs i = Some pn_event_initialize"
      "dom evs = insert i (set (qs @ hs @ list_elements pool))"
    and old: "\<And>j. j \<in> set (qs @ hs) \<Longrightarrow> evs j = col_events c j" "\<And>j. j \<in> dom evs \<Longrightarrow> j < n"
      "\<And>j. j \<in> set (list_elements pool) \<Longrightarrow> evs j = Some pn_event_initialize"
    using take_event_rep [OF assms] by (elim exE conjE) blast
  let ?new = "\<lparr>ev_pool = True, ev_clazz = Some clazz, ev_context = Some context, ev_next = None, ev_type = type, ev_refcount = 1\<rparr>"
  let ?c = "\<lambda>evs hd. c\<lparr>col_pool := pool, col_events := evs, col_fresh := n, col_head := hd, col_tail := Some i,
    col_pool_refs := col_pool_refs c + 1, col_refs := col_refs c @ log_incref clazz (Some context)\<rparr>"
  have result: ?thesis if evs': "enqueue clazz context type c = Some (Some i, ?c evs' hd)" "evs' i = Some ?new"
    "chain evs' hd (qs @ [i])" "dom evs' = dom evs" "\<And>j. j \<in> set (list_elements pool) \<Longrightarrow> evs' j = evs j"
    "\<And>j. j \<in> set (qs @ hs) \<Longrightarrow> \<exists>e e'. evs j = Some e \<and> evs' j = Some e' \<and> event_view e' = event_view e \<and> (queued e \<longrightarrow> queued e')"
    for evs' hd
  proof -
    have view: "view (?c evs' hd) j = view c j" if "j \<in> set (qs @ hs)" for j
      using evs'(6) [OF that] old(1) [OF that] by (auto simp: view_def)
    have new: "view (?c evs' hd) i = (Some clazz, Some context, type)" using evs'(2) by (simp add: view_def event_view_def)
    have "\<exists>e. evs' j = Some e \<and> queued e" if "j \<in> set (qs @ [i] @ hs)" for j
    proof (cases "j = i")
      case False
      then have j: "j \<in> set (qs @ hs)" using that by auto
      then show ?thesis using evs'(6) [OF j] rep(6) [OF j] old(1) [OF j] by auto
    qed (use evs'(2) in \<open>simp add: queued_def\<close>)
    moreover have "net_refs (col_refs (?c evs' hd)) v = context_refs (map (view (?c evs' hd)) ((qs @ [i]) @ hs)) v" for v
      using rep(10) [of v] view new by (simp cong: map_cong)
    ultimately have "rep (?c evs' hd) (qs @ [i]) hs"
      using evs'(3-5) i old rep(3,9) unfolding rep_def by auto
    then show ?thesis using evs'(1) view new by auto
  qed
  show ?thesis
  proof (cases "qs = []")
    case True
    then show ?thesis
      using take i rep(2) old(1) repD(6) [OF assms]
      by (intro result [where evs' = "evs(i \<mapsto> ?new)" and hd = "Some i"])
        (auto simp: enqueue_def link_event_def put_event_def pn_event_initialize_def)
  next
    case False
    let ?t = "last qs"
    have t: "?t \<in> set qs" "?t \<noteq> i" using False i(1) by (auto simp: last_in_set)
    obtain e where e: "evs ?t = Some e" using rep(6) [of ?t] old(1) [of ?t] t by auto
    let ?evs = "evs(i \<mapsto> ?new, ?t \<mapsto> e\<lparr>ev_next := Some i\<rparr>)"
    have "chain evs (col_head c) qs" using rep(1) chain_cong [of qs evs "col_events c"] old(1) by simp
    then have "chain (evs(i \<mapsto> ?new)) (col_head c) qs" using i(1) by simp
    then have "chain ?evs (col_head c) (qs @ [i])"
      using False i(1) e rep(3) t by (intro chain_snoc [of _ _ _ _ _ ?new]) auto
    moreover have "enqueue clazz context type c = Some (Some i, ?c ?evs (col_head c))"
      using take i(5) False rep(2) e t
      by (simp add: enqueue_def link_event_def put_event_def pn_event_initialize_def fun_upd_twist)
    moreover have "\<exists>e e'. evs j = Some e \<and> ?evs j = Some e' \<and> event_view e' = event_view e \<and> (queued e \<longrightarrow> queued e')"
      if "j \<in> set (qs @ hs)" for j
      using rep(6) [OF that] old(1) [OF that] e i(1) that by (auto simp: event_view_def queued_def)
    moreover have "dom ?evs = dom evs" using e i(6) by auto
    moreover have "?evs j = evs j" if "j \<in> set (list_elements pool)" for j using that i(2,4) t by auto
    ultimately show ?thesis using t by (intro result [where evs' = ?evs and hd = "col_head c"]) auto
  qed
qed

lemma pop_internal_empty: "rep c [] hs \<Longrightarrow> pop_internal c = Some (None, c)"
  by (simp add: rep_def pop_internal_def)

section \<open>The specification: a queue that drops a repeated last event\<close>

definition hd_opt :: "'a list \<Rightarrow> 'a option" where
  "hd_opt xs = (if xs = [] then None else Some (hd xs))"

record event_queue =
  eq_queue :: "event_view list"
  eq_prev :: "event_view option"
  eq_freed :: bool

datatype col_op = CPut pn_clazz pn_object pn_event_type | CPop | CNext | CDrain | CRelease

datatype col_result = Put bool | Popped bool | Returned "event_view option" | Done

definition repeated :: "event_view list \<Rightarrow> pn_object \<Rightarrow> pn_event_type \<Rightarrow> bool" where
  "repeated q context type \<longleftrightarrow> q \<noteq> [] \<and> snd (last q) = (Some context, type)"

fun queue_exec :: "col_op \<Rightarrow> event_queue \<Rightarrow> col_result \<times> event_queue" where
  "queue_exec (CPut clazz context type) q =
     (if eq_freed q \<or> repeated (eq_queue q) context type then (Put False, q)
      else (Put True, q\<lparr>eq_queue := eq_queue q @ [(Some clazz, Some context, type)]\<rparr>))"
| "queue_exec CPop q = (Popped (eq_queue q \<noteq> []), q\<lparr>eq_queue := tl (eq_queue q)\<rparr>)"
| "queue_exec CNext q =
     (Returned (hd_opt (eq_queue q)), q\<lparr>eq_queue := tl (eq_queue q), eq_prev := hd_opt (eq_queue q)\<rparr>)"
| "queue_exec CDrain q = (Done, q\<lparr>eq_queue := [], eq_prev := None\<rparr>)"
| "queue_exec CRelease q = (Done, if eq_freed q then q else \<lparr>eq_queue = [], eq_prev = None, eq_freed = True\<rparr>)"

fun col_exec :: "col_op \<Rightarrow> pn_collector \<Rightarrow> (col_result \<times> pn_collector) option" where
  "col_exec (CPut clazz context type) c = map_option (map_prod (\<lambda>i. Put (i \<noteq> None)) id) (pn_collector_put clazz context type c)"
| "col_exec CPop c = map_option (map_prod Popped id) (pn_collector_pop c)"
| "col_exec CNext c = map_option (\<lambda>(i, c). (Returned (map_option (view c) i), c)) (pn_collector_next c)"
| "col_exec CDrain c = map_option (Pair Done) (pn_collector_drain c)"
| "col_exec CRelease c = map_option (Pair Done) (pn_collector_release c)"

fun queue_run :: "col_op list \<Rightarrow> event_queue \<Rightarrow> col_result list \<times> event_queue" where
  "queue_run [] q = ([], q)"
| "queue_run (oper # ops) q = (let (r, q) = queue_exec oper q; (rs, q) = queue_run ops q in (r # rs, q))"

fun col_run :: "col_op list \<Rightarrow> pn_collector \<Rightarrow> (col_result list \<times> pn_collector) option" where
  "col_run [] c = Some ([], c)"
| "col_run (oper # ops) c =
     (case col_exec oper c of
        None \<Rightarrow> None
      | Some (r, c) \<Rightarrow> map_option (map_prod (Cons r) id) (col_run ops c))"

definition col_sim :: "pn_collector \<Rightarrow> event_queue \<Rightarrow> bool" where
  "col_sim c q \<longleftrightarrow>
     (\<exists>qs. rep c qs (opt_list (col_prev c)) \<and> eq_queue q = map (view c) qs) \<and>
     eq_prev q = map_option (view c) (col_prev c) \<and> eq_freed q = col_freed c"

lemma col_simI:
  "\<lbrakk>rep c qs (opt_list (col_prev c)); eq_queue q = map (view c) qs; eq_prev q = map_option (view c) (col_prev c);
    eq_freed q = col_freed c\<rbrakk> \<Longrightarrow> col_sim c q"
  by (auto simp: col_sim_def)

definition exec_sim :: "(col_result \<times> pn_collector) option \<Rightarrow> col_result \<times> event_queue \<Rightarrow> bool" where
  "exec_sim res spec = (case res of None \<Rightarrow> False | Some (r, c) \<Rightarrow> r = fst spec \<and> col_sim c (snd spec))"

lemma put_sim:
  assumes "col_sim c q"
  shows "exec_sim (col_exec (CPut clazz context type) c) (queue_exec (CPut clazz context type) q)"
proof -
  from assms obtain qs where r: "rep c qs (opt_list (col_prev c))" and q: "eq_queue q = map (view c) qs"
    "eq_prev q = map_option (view c) (col_prev c)" "eq_freed q = col_freed c" by (auto simp: col_sim_def)
  show ?thesis
  proof (cases "col_freed c \<or> repeated (eq_queue q) context type")
    case True
    have "pn_collector_put clazz context type c = Some (None, c)"
    proof (cases "col_freed c")
      case False
      with True have ne: "qs \<noteq> []" "snd (view c (last qs)) = (Some context, type)"
        by (auto simp: repeated_def q last_map)
      obtain e where "col_events c (last qs) = Some e" using repD(6) [OF r, of "last qs"] ne(1) by auto
      then show ?thesis using False ne repD(2) [OF r] by (simp add: pn_collector_put_def view_def event_view_def)
    qed (simp add: pn_collector_put_def)
    then show ?thesis using True assms q by (simp add: exec_sim_def)
  next
    case False
    have "pn_collector_put clazz context type c = enqueue clazz context type c"
    proof (cases "qs = []")
      case ne: False
      obtain e where "col_events c (last qs) = Some e" using repD(6) [OF r, of "last qs"] ne by auto
      then show ?thesis
        using False ne repD(2) [OF r] q by (auto simp: pn_collector_put_def repeated_def last_map view_def event_view_def)
    qed (use False q(3) repD(2) [OF r] in \<open>simp add: pn_collector_put_def\<close>)
    moreover obtain i c' where e: "enqueue clazz context type c = Some (Some i, c')" "rep c' (qs @ [i]) (opt_list (col_prev c))"
      "view c' i = (Some clazz, Some context, type)" "\<forall>j\<in>set (qs @ opt_list (col_prev c)). view c' j = view c j"
      "col_prev c' = col_prev c" "col_freed c' = col_freed c"
      using enqueue_rep [OF r] by blast
    moreover have "col_sim c' (q\<lparr>eq_queue := eq_queue q @ [(Some clazz, Some context, type)]\<rparr>)"
      using e q by (intro col_simI [of _ "qs @ [i]"]) (auto split: option.splits simp: opt_list_def)
    ultimately show ?thesis using False q by (simp add: exec_sim_def)
  qed
qed

lemma pop_sim: "col_sim c q \<Longrightarrow> exec_sim (col_exec CPop c) (queue_exec CPop q)"
proof -
  assume "col_sim c q"
  then obtain qs where r: "rep c qs (opt_list (col_prev c))" and q: "eq_queue q = map (view c) qs"
    "eq_prev q = map_option (view c) (col_prev c)" "eq_freed q = col_freed c" by (auto simp: col_sim_def)
  show ?thesis
  proof (cases qs)
    case Nil
    then show ?thesis using \<open>col_sim c q\<close> r q pop_internal_empty [of c]
      by (cases q) (simp add: exec_sim_def pn_collector_pop_def)
  next
    case (Cons i js)
    obtain c1 where c1: "pop_internal c = Some (Some i, c1)" "rep c1 js (i # opt_list (col_prev c))" "view c1 = view c"
      "col_prev c1 = col_prev c" "col_freed c1 = col_freed c" using pop_internal_rep r Cons by blast
    obtain c2 where c2: "event_decref i c1 = Some c2" "rep c2 js (opt_list (col_prev c))"
      "\<forall>j\<in>set (js @ opt_list (col_prev c)). view c2 j = view c1 j" "col_prev c2 = col_prev c1" "col_freed c2 = col_freed c1"
      using event_decref_rep [OF c1(2)] by blast
    have "col_sim c2 (q\<lparr>eq_queue := tl (eq_queue q)\<rparr>)"
      using c1 c2 q Cons by (intro col_simI [of _ js]) (auto split: option.splits simp: opt_list_def)
    then show ?thesis using c1 c2 q Cons by (simp add: exec_sim_def pn_collector_pop_def)
  qed
qed

lemma next_rep:
  assumes "rep c qs (opt_list (col_prev c))"
  shows "\<exists>c'. pn_collector_next c = Some (hd_opt qs, c') \<and> rep c' (tl qs) (opt_list (hd_opt qs)) \<and> col_prev c' = hd_opt qs \<and>
    col_freed c' = col_freed c \<and> col_fresh c' = col_fresh c \<and> (\<forall>j\<in>set qs. view c' j = view c j)"
proof -
  have "\<exists>c1. (case col_prev c of None \<Rightarrow> Some c | Some p \<Rightarrow> event_decref p c) = Some c1 \<and> rep c1 qs [] \<and>
    col_freed c1 = col_freed c \<and> col_fresh c1 = col_fresh c \<and> (\<forall>j\<in>set qs. view c1 j = view c j)"
  proof (cases "col_prev c")
    case (Some p)
    then show ?thesis using event_decref_rep [of c qs p "[]"] assms by auto
  qed (use assms in simp)
  then obtain c1 where c1: "(case col_prev c of None \<Rightarrow> Some c | Some p \<Rightarrow> event_decref p c) = Some c1" "rep c1 qs []"
    "col_freed c1 = col_freed c" "col_fresh c1 = col_fresh c" "\<forall>j\<in>set qs. view c1 j = view c j" by blast
  have prev: "rep (c\<lparr>col_prev := p\<rparr>) qs hs = rep c qs hs" "view (c\<lparr>col_prev := p\<rparr>) = view c" for c p qs hs
    by (auto simp: rep_def view_def fun_eq_iff cong: map_cong)
  show ?thesis
  proof (cases qs)
    case Nil
    then show ?thesis using c1 pop_internal_empty [of c1] prev by (simp add: pn_collector_next_def hd_opt_def)
  next
    case (Cons i js)
    with c1(2) pop_internal_rep obtain c2 where "pop_internal c1 = Some (Some i, c2)" "rep c2 js [i]" "view c2 = view c1"
      "col_freed c2 = col_freed c1" "col_fresh c2 = col_fresh c1" by blast
    then show ?thesis using c1 Cons prev by (simp add: pn_collector_next_def hd_opt_def)
  qed
qed

lemma next_sim: "col_sim c q \<Longrightarrow> exec_sim (col_exec CNext c) (queue_exec CNext q)"
proof -
  assume "col_sim c q"
  then obtain qs where r: "rep c qs (opt_list (col_prev c))" and q: "eq_queue q = map (view c) qs"
    "eq_prev q = map_option (view c) (col_prev c)" "eq_freed q = col_freed c" by (auto simp: col_sim_def)
  obtain c' where c': "pn_collector_next c = Some (hd_opt qs, c')" "rep c' (tl qs) (opt_list (hd_opt qs))" "col_prev c' = hd_opt qs"
    "col_freed c' = col_freed c" "\<forall>j\<in>set qs. view c' j = view c j" using next_rep [OF r] by blast
  have v: "map_option (view c') (hd_opt qs) = hd_opt (eq_queue q)" using c'(5) q by (cases qs) (auto simp: hd_opt_def)
  have "col_sim c' (q\<lparr>eq_queue := tl (eq_queue q), eq_prev := hd_opt (eq_queue q)\<rparr>)"
    using c' q v by (intro col_simI [of _ "tl qs"]) (cases qs; auto)+
  then show ?thesis using c' v by (simp add: exec_sim_def)
qed

lemma drain_loop_rep:
  "\<lbrakk>rep c qs (opt_list (col_prev c)); length qs < n\<rbrakk> \<Longrightarrow>
   \<exists>c'. drain_loop n c = Some c' \<and> rep c' [] [] \<and> col_prev c' = None \<and> col_freed c' = col_freed c \<and> col_fresh c' = col_fresh c"
proof (induction n arbitrary: c qs)
  case (Suc n)
  obtain c1 where c1: "pn_collector_next c = Some (hd_opt qs, c1)" "rep c1 (tl qs) (opt_list (hd_opt qs))" "col_prev c1 = hd_opt qs"
    "col_freed c1 = col_freed c" "col_fresh c1 = col_fresh c" using next_rep [OF Suc.prems(1)] by blast
  show ?case
  proof (cases qs)
    case Nil
    then show ?thesis using c1 by (simp add: hd_opt_def)
  next
    case (Cons i js)
    then show ?thesis using c1 Suc.IH [of c1 js] Suc.prems(2) by (simp add: hd_opt_def)
  qed
qed simp

lemma rep_queue_bound:
  assumes "rep c qs hs"
  shows "length qs \<le> col_fresh c"
proof -
  have "set qs \<subseteq> {..<col_fresh c}" using repD(4,5) [OF assms] by auto
  then have "card (set qs) \<le> card {..<col_fresh c}" by (intro card_mono) auto
  then show ?thesis using repD(3) [OF assms] by (simp add: distinct_card)
qed

lemma drain_rep:
  assumes "rep c qs (opt_list (col_prev c))"
  shows "\<exists>c'. pn_collector_drain c = Some c' \<and> rep c' [] [] \<and> col_prev c' = None \<and> col_freed c' = col_freed c"
  using drain_loop_rep [OF assms, of "col_fresh c + 1"] rep_queue_bound [OF assms]
  by (auto simp: pn_collector_drain_def rep_def)

lemma decref_all_pooled:
  "\<lbrakk>\<forall>i\<in>set js. col_events c i = Some pn_event_initialize; distinct js\<rbrakk> \<Longrightarrow>
   decref_all js c = Some (c\<lparr>col_events := (\<lambda>j. if j \<in> set js then None else col_events c j)\<rparr>)"
proof (induction js arbitrary: c)
  case (Cons i js)
  let ?c = "c\<lparr>col_events := (col_events c)(i := None)\<rparr>"
  have "event_decref i c = Some ?c"
    using Cons.prems
    by (simp add: event_decref_def pn_event_finalize_def put_event_def pn_event_initialize_def context_decref_def Let_def)
  moreover have "decref_all js ?c = Some (?c\<lparr>col_events := (\<lambda>j. if j \<in> set js then None else col_events ?c j)\<rparr>)"
    using Cons.prems by (intro Cons.IH) auto
  ultimately show ?case by (simp add: fun_eq_iff)
qed simp

lemma shrink_rep:
  assumes "rep c [] []" "col_prev c = None"
  shows "\<exists>c'. pn_collector_shrink c = Some c' \<and> rep c' [] [] \<and> col_prev c' = None \<and> col_freed c' = col_freed c \<and>
    col_events c' = Map.empty"
proof -
  note rep = repD [OF assms(1)]
  let ?js = "list_elements (col_pool c)"
  have ev: "(\<lambda>j. if j \<in> set ?js then None else col_events c j) = Map.empty" using rep(4) by (auto simp: fun_eq_iff dom_def)
  have clear: "pn_list_clear (col_pool c) = Some ((col_pool c)\<lparr>list_elements := []\<rparr>)"
  proof (cases "?js = []")
    case True
    then show ?thesis by (cases "col_pool c") (simp add: pn_list_clear_def pn_list_del_def pn_list_size_def)
  next
    case False
    then show ?thesis by (simp add: pn_list_clear_def pn_list_del_elements list_index_def pn_list_size_def)
  qed
  have "pn_collector_shrink c = Some (c\<lparr>col_events := Map.empty, col_pool := (col_pool c)\<lparr>list_elements := []\<rparr>\<rparr>)"
    using decref_all_pooled [of ?js c] rep(3,7) ev clear by (simp add: pn_collector_shrink_def)
  moreover have "rep (c\<lparr>col_events := Map.empty, col_pool := (col_pool c)\<lparr>list_elements := []\<rparr>\<rparr>) [] []"
    using rep by (auto simp: rep_def list_ok_def pn_list_size_def)
  ultimately show ?thesis using assms(2) by simp
qed

lemma drain_sim: "col_sim c q \<Longrightarrow> exec_sim (col_exec CDrain c) (queue_exec CDrain q)"
  using drain_rep unfolding col_sim_def exec_sim_def by fastforce

lemma release_sim:
  assumes "col_sim c q"
  shows "exec_sim (col_exec CRelease c) (queue_exec CRelease q)"
proof (cases "col_freed c")
  case True
  then show ?thesis using assms by (simp add: exec_sim_def pn_collector_release_def col_sim_def)
next
  case False
  let ?c = "c\<lparr>col_freed := True\<rparr>"
  obtain qs where r: "rep c qs (opt_list (col_prev c))" using assms by (auto simp: col_sim_def)
  have "view ?c = view c" by (simp add: view_def fun_eq_iff)
  then have "rep ?c qs (opt_list (col_prev ?c))" using r by (simp add: rep_def)
  then obtain c1 where c1: "pn_collector_drain ?c = Some c1" "rep c1 [] []" "col_prev c1 = None" "col_freed c1" 
    using drain_rep by fastforce
  then obtain c2 where "pn_collector_shrink c1 = Some c2" "rep c2 [] []" "col_prev c2 = None" "col_freed c2"
    using shrink_rep by fastforce
  then show ?thesis using c1 False assms by (simp add: exec_sim_def pn_collector_release_def col_sim_def)
qed

lemma col_exec_sim: "col_sim c q \<Longrightarrow> exec_sim (col_exec oper c) (queue_exec oper q)"
  by (cases oper) (simp_all only: put_sim pop_sim next_sim drain_sim release_sim)

lemma col_run_sim:
  "col_sim c q \<Longrightarrow> \<exists>c'. col_run ops c = Some (fst (queue_run ops q), c') \<and> col_sim c' (snd (queue_run ops q))"
proof (induction ops arbitrary: c q)
  case (Cons oper ops)
  obtain r c1 where c1: "col_exec oper c = Some (r, c1)" "r = fst (queue_exec oper q)" "col_sim c1 (snd (queue_exec oper q))"
    using col_exec_sim [OF Cons.prems, of oper] by (auto simp: exec_sim_def split: option.splits)
  then show ?case using Cons.IH [OF c1(3)] by (auto split: prod.splits simp: Let_def)
qed auto

lemma col_sim_initialize: "col_sim pn_collector_initialize \<lparr>eq_queue = [], eq_prev = None, eq_freed = False\<rparr>"
  by (intro col_simI [of _ "[]"]) (auto simp: pn_collector_initialize_def rep_def)

section \<open>What the operations log\<close>

lemma enqueue_log: "enqueue clazz context type c = Some (r, c') \<Longrightarrow> r \<noteq> None \<and> col_refs c' = col_refs c @ [Incref clazz context]"
  by (auto simp: enqueue_def take_event_def pn_event_new_def link_event_def put_event_def log_incref_def Let_def
      split: option.splits prod.splits)

lemma put_log:
  "pn_collector_put clazz context type c = Some (r, c') \<Longrightarrow>
   col_refs c' = col_refs c @ (if r = None then [] else [Incref clazz context])"
  by (auto simp: pn_collector_put_def dest: enqueue_log split: if_splits option.splits)

lemma finalize_log:
  "\<lbrakk>pn_event_finalize i c = Some c'; col_events c i = Some e\<rbrakk> \<Longrightarrow> col_refs c' = col_refs c @ context_decref e"
  by (auto simp: pn_event_finalize_def pool_decref_def put_event_def Let_def split: option.splits if_splits)

lemma decref_log:
  assumes "event_decref i c = Some c'" "col_events c i = Some e" "queued e"
  shows "col_refs c' = col_refs c @ context_decref e"
proof -
  let ?e = "e\<lparr>ev_refcount := 0\<rparr>"
  obtain c1 where "pn_event_finalize i (put_event i ?e c) = Some c1" "col_refs c' = col_refs c1"
    using assms by (auto simp: event_decref_def queued_def Let_def split: option.splits if_splits)
  moreover have "context_decref ?e = context_decref e"
    by (cases "ev_clazz e") (auto simp: context_decref_def)
  ultimately show ?thesis using finalize_log [of i "put_event i ?e c" c1 ?e] by (simp add: put_event_def)
qed

text \<open>The reference that the next call of \<open>pn_collector_next\<close> gives up.\<close>

definition prev_release :: "event_view option \<Rightarrow> ref_op list" where
  "prev_release p = (case p of Some (Some clazz, Some context, _) \<Rightarrow> [Decref clazz context] | _ \<Rightarrow> [])"

lemma next_log:
  assumes "rep c qs (opt_list (col_prev c))" "pn_collector_next c = Some (r, c')"
  shows "col_refs c' = col_refs c @ prev_release (map_option (view c) (col_prev c))"
proof -
  obtain c1 where c1: "(case col_prev c of None \<Rightarrow> Some c | Some p \<Rightarrow> event_decref p c) = Some c1" "col_refs c' = col_refs c1"
    using assms(2) by (auto simp: pn_collector_next_def pop_internal_def split: option.splits)
  show ?thesis
  proof (cases "col_prev c")
    case (Some p)
    then obtain e where e: "col_events c p = Some e" "queued e" using repD(6) [OF assms(1), of p] by auto
    moreover have "context_decref e = prev_release (Some (view c p))"
      using e by (auto simp: context_decref_def prev_release_def view_def event_view_def queued_def log_decref_def)
    ultimately show ?thesis using decref_log [of p c c1 e] c1 Some by simp
  qed (use c1 in \<open>simp add: prev_release_def\<close>)
qed

section \<open>Property\<close>

text \<open>
  C23: the collector is a queue of events that only drops an event equal in type and context to the last
  one queued. Any sequence of puts, pops, nexts, drains and releases of a new collector runs without
  touching a freed event, returns what the plain queue returns and leaves the queue's content; every
  event object is then queued, the one last returned, or in the pool; and the collector holds exactly
  one reference on the context of each event in use.
\<close>

theorem collector_refines_queue:
  "\<exists>c qs. col_run ops pn_collector_initialize =
       Some (fst (queue_run ops \<lparr>eq_queue = [], eq_prev = None, eq_freed = False\<rparr>), c) \<and>
     (let q = snd (queue_run ops \<lparr>eq_queue = [], eq_prev = None, eq_freed = False\<rparr>)
      in chain (col_events c) (col_head c) qs \<and> map (view c) qs = eq_queue q \<and>
         map_option (view c) (col_prev c) = eq_prev q \<and> col_freed c = eq_freed q \<and>
         distinct (qs @ opt_list (col_prev c) @ list_elements (col_pool c)) \<and>
         dom (col_events c) = set (qs @ opt_list (col_prev c) @ list_elements (col_pool c)) \<and>
         (\<forall>v. net_refs (col_refs c) v = context_refs (eq_queue q @ opt_list (eq_prev q)) v))"
proof -
  let ?q = "\<lparr>eq_queue = [], eq_prev = None, eq_freed = False\<rparr>"
  obtain c where c: "col_run ops pn_collector_initialize = Some (fst (queue_run ops ?q), c)" "col_sim c (snd (queue_run ops ?q))"
    using col_run_sim [OF col_sim_initialize] by blast
  then obtain qs where r: "rep c qs (opt_list (col_prev c))" "eq_queue (snd (queue_run ops ?q)) = map (view c) qs"
    "eq_prev (snd (queue_run ops ?q)) = map_option (view c) (col_prev c)" "eq_freed (snd (queue_run ops ?q)) = col_freed c"
    by (auto simp: col_sim_def)
  have "map (view c) (opt_list (col_prev c)) = opt_list (map_option (view c) (col_prev c))" by (cases "col_prev c") auto
  then show ?thesis using c r repD [OF r(1)] by (intro exI [of _ c] exI [of _ qs]) (simp add: Let_def)
qed

end
