(* ===== verification/Timer.thy ===== *)
theory Timer
  imports Collector
begin

text \<open>
  The timer of \<open>reactor/timer.c\<close>: a binary heap of task objects ordered by deadline, a pool of recycled
  tasks, and the collector that gets a \<open>PN_TIMER_TASK\<close> event for each task that fires. As in theory
  \<open>Collector\<close> the task objects live in a heap with reference counts; the references the collector takes
  and drops on a task are applied to its count. Deadlines are unbounded integers: the C code compares
  them by their difference, which is exact unless it overflows 64 bits. Attachments are left out.
\<close>

section \<open>Tasks\<close>

type_synonym task_ref = nat

definition PN_TASK :: pn_clazz where "PN_TASK = 1"

record pn_task =
  task_pool :: bool
  task_deadline :: int
  task_cancelled :: bool
  task_refcount :: nat

record pn_timer =
  tm_pool :: "task_ref pn_list"
  tm_tasks :: "task_ref pn_list"
  tm_collector :: pn_collector
  tm_store :: "task_ref \<rightharpoonup> pn_task"
  tm_pool_refs :: nat
  tm_fresh :: task_ref

definition pn_task_initialize :: pn_task where
  "pn_task_initialize = \<lparr>task_pool = False, task_deadline = 0, task_cancelled = False, task_refcount = 1\<rparr>"

definition pn_task_new :: "pn_timer \<Rightarrow> task_ref \<times> pn_timer" where
  "pn_task_new t =
     (tm_fresh t, t\<lparr>tm_store := (tm_store t)(tm_fresh t \<mapsto> pn_task_initialize), tm_fresh := tm_fresh t + 1\<rparr>)"

definition put_task :: "task_ref \<Rightarrow> pn_task \<Rightarrow> pn_timer \<Rightarrow> pn_timer" where
  "put_task i k t = t\<lparr>tm_store := (tm_store t)(i \<mapsto> k)\<rparr>"

definition deadline_of :: "(task_ref \<rightharpoonup> pn_task) \<Rightarrow> task_ref \<Rightarrow> int" where
  "deadline_of store i = (case store i of None \<Rightarrow> 0 | Some k \<Rightarrow> task_deadline k)"

definition pn_task_compare :: "(task_ref \<rightharpoonup> pn_task) \<Rightarrow> task_ref \<Rightarrow> task_ref \<Rightarrow> int" where
  "pn_task_compare store a b = deadline_of store a - deadline_of store b"

text \<open>The timer holds a reference on the pool: \<open>None\<close> stands for a task that outlives its timer.\<close>

definition pn_task_finalize :: "task_ref \<Rightarrow> pn_timer \<Rightarrow> pn_timer option" where
  "pn_task_finalize i t =
     (case tm_store t i of
        None \<Rightarrow> None
      | Some k \<Rightarrow>
          if task_pool k \<and> tm_pool_refs t > 1 then
            case pn_list_add (tm_pool t) i of
              None \<Rightarrow> None
            | Some pool \<Rightarrow>
                Some (put_task i (k\<lparr>task_refcount := task_refcount k + 1, task_pool := False\<rparr>)
                  (t\<lparr>tm_pool := pool, tm_pool_refs := tm_pool_refs t - 1\<rparr>))
          else if task_pool k then None else Some t)"

definition task_incref :: "task_ref \<Rightarrow> pn_timer \<Rightarrow> pn_timer option" where
  "task_incref i t = map_option (\<lambda>k. put_task i (k\<lparr>task_refcount := task_refcount k + 1\<rparr>) t) (tm_store t i)"

definition task_decref :: "task_ref \<Rightarrow> pn_timer \<Rightarrow> pn_timer option" where
  "task_decref i t =
     (case tm_store t i of
        None \<Rightarrow> None
      | Some k \<Rightarrow>
          if task_refcount k = 0 then None
          else
            let t = put_task i (k\<lparr>task_refcount := task_refcount k - 1\<rparr>) t
            in if task_refcount k - 1 = 0 then
                 case pn_task_finalize i t of
                   None \<Rightarrow> None
                 | Some t \<Rightarrow>
                     (case tm_store t i of
                        None \<Rightarrow> None
                      | Some k \<Rightarrow> if task_refcount k = 0 then Some (t\<lparr>tm_store := (tm_store t)(i := None)\<rparr>) else Some t)
               else Some t)"

definition pn_task_cancel :: "task_ref \<Rightarrow> pn_timer \<Rightarrow> pn_timer option" where
  "pn_task_cancel i t = map_option (\<lambda>k. put_task i (k\<lparr>task_cancelled := True\<rparr>) t) (tm_store t i)"

section \<open>The timer\<close>

definition pn_timer_initialize :: "pn_collector \<Rightarrow> pn_timer" where
  "pn_timer_initialize c =
     \<lparr>tm_pool = pn_list_new 0, tm_tasks = pn_list_new 0, tm_collector = c, tm_store = Map.empty, tm_pool_refs = 1, tm_fresh = 0\<rparr>"

definition take_task :: "pn_timer \<Rightarrow> task_ref \<times> pn_timer" where
  "take_task t =
     (let (i, pool) = pn_list_pop (tm_pool t)
      in case i of None \<Rightarrow> pn_task_new t | Some i \<Rightarrow> (i, t\<lparr>tm_pool := pool\<rparr>))"

text \<open>\<open>pn_list_minpush\<close> on the tasks: the list takes a reference.\<close>

definition push_task :: "task_ref \<Rightarrow> pn_timer \<Rightarrow> pn_timer option" where
  "push_task i t =
     (case pn_list_minpush (pn_task_compare (tm_store t)) (tm_tasks t) i of
        None \<Rightarrow> None
      | Some tasks \<Rightarrow> task_incref i (t\<lparr>tm_tasks := tasks\<rparr>))"

definition pn_timer_schedule :: "int \<Rightarrow> pn_timer \<Rightarrow> (task_ref \<times> pn_timer) option" where
  "pn_timer_schedule deadline t =
     (let (i, t) = take_task t
      in case tm_store t i of
           None \<Rightarrow> None
         | Some k \<Rightarrow>
             (case push_task i
                     ((put_task i (k\<lparr>task_pool := True, task_deadline := deadline, task_cancelled := False\<rparr>) t)
                        \<lparr>tm_pool_refs := tm_pool_refs t + 1\<rparr>) of
                None \<Rightarrow> None
              | Some t \<Rightarrow> map_option (Pair i) (task_decref i t)))"

text \<open>\<open>pn_list_minpop\<close> on the tasks: the reference of the list passes to the caller.\<close>

definition pop_task :: "pn_timer \<Rightarrow> (task_ref \<times> pn_timer) option" where
  "pop_task t =
     map_option (\<lambda>(i, tasks). (i, t\<lparr>tm_tasks := tasks\<rparr>)) (pn_list_minpop (pn_task_compare (tm_store t)) (tm_tasks t))"

text \<open>The references a collector operation took and dropped, on the tasks among the contexts.\<close>

fun apply_refs :: "ref_op list \<Rightarrow> pn_timer \<Rightarrow> pn_timer option" where
  "apply_refs [] t = Some t"
| "apply_refs (Incref clazz i # log) t =
     (if clazz = PN_TASK then case task_incref i t of None \<Rightarrow> None | Some t \<Rightarrow> apply_refs log t else apply_refs log t)"
| "apply_refs (Decref clazz i # log) t =
     (if clazz = PN_TASK then case task_decref i t of None \<Rightarrow> None | Some t \<Rightarrow> apply_refs log t else apply_refs log t)"

definition with_collector :: "(pn_collector \<Rightarrow> ('r \<times> pn_collector) option) \<Rightarrow> pn_timer \<Rightarrow> ('r \<times> pn_timer) option" where
  "with_collector f t =
     (case f (tm_collector t) of
        None \<Rightarrow> None
      | Some (r, c) \<Rightarrow>
          map_option (Pair r) (apply_refs (drop (length (col_refs (tm_collector t))) (col_refs c)) (t\<lparr>tm_collector := c\<rparr>)))"

text \<open>The loops run at most once per task; the fuel is one more than the number of tasks.\<close>

fun flush_loop :: "nat \<Rightarrow> pn_timer \<Rightarrow> pn_timer option" where
  "flush_loop 0 t = None"
| "flush_loop (Suc n) t =
     (case pn_list_get (tm_tasks t) 0 of
        None \<Rightarrow> Some t
      | Some i \<Rightarrow>
          (case tm_store t i of
             None \<Rightarrow> None
           | Some k \<Rightarrow>
               if task_cancelled k then
                 case pop_task t of
                   None \<Rightarrow> None
                 | Some (m, t) \<Rightarrow>
                     if m \<noteq> i then None
                     else (case task_decref m t of None \<Rightarrow> None | Some t \<Rightarrow> flush_loop n t)
               else Some t))"

definition pni_timer_flush_cancelled :: "pn_timer \<Rightarrow> pn_timer option" where
  "pni_timer_flush_cancelled t = flush_loop (pn_list_size (tm_tasks t) + 1) t"

definition pn_timer_deadline :: "pn_timer \<Rightarrow> (int \<times> pn_timer) option" where
  "pn_timer_deadline t =
     (case pni_timer_flush_cancelled t of
        None \<Rightarrow> None
      | Some t \<Rightarrow>
          (case pn_list_get (tm_tasks t) 0 of
             None \<Rightarrow> Some (0, t)
           | Some i \<Rightarrow> map_option (\<lambda>k. (task_deadline k, t)) (tm_store t i)))"

definition pn_timer_tasks :: "pn_timer \<Rightarrow> (nat \<times> pn_timer) option" where
  "pn_timer_tasks t = map_option (\<lambda>t. (pn_list_size (tm_tasks t), t)) (pni_timer_flush_cancelled t)"

definition fire_task :: "task_ref \<Rightarrow> pn_timer \<Rightarrow> pn_timer option" where
  "fire_task m t =
     (case tm_store t m of
        None \<Rightarrow> None
      | Some k \<Rightarrow>
          (case (if task_cancelled k then Some t
                 else map_option snd (with_collector (pn_collector_put PN_TASK m PN_TIMER_TASK) t)) of
             None \<Rightarrow> None
           | Some t \<Rightarrow> task_decref m t))"

fun tick_loop :: "nat \<Rightarrow> int \<Rightarrow> pn_timer \<Rightarrow> pn_timer option" where
  "tick_loop 0 now t = None"
| "tick_loop (Suc n) now t =
     (case pn_list_get (tm_tasks t) 0 of
        None \<Rightarrow> Some t
      | Some i \<Rightarrow>
          (case tm_store t i of
             None \<Rightarrow> None
           | Some k \<Rightarrow>
               if now \<ge> task_deadline k then
                 case pop_task t of
                   None \<Rightarrow> None
                 | Some (m, t) \<Rightarrow>
                     if m \<noteq> i then None
                     else (case fire_task m t of None \<Rightarrow> None | Some t \<Rightarrow> tick_loop n now t)
               else Some t))"

definition pn_timer_tick :: "int \<Rightarrow> pn_timer \<Rightarrow> pn_timer option" where
  "pn_timer_tick now t = tick_loop (pn_list_size (tm_tasks t) + 1) now t"

section \<open>Tasks are ordered by deadline\<close>

interpretation task: pn_comparable "pn_task_compare store" "deadline_of store" for store
  by unfold_locales (auto simp: pn_task_compare_def)

section \<open>The invariant\<close>

text \<open>The tasks whose event is in the collector.\<close>

fun flight :: "event_view list \<Rightarrow> task_ref list" where
  "flight [] = []"
| "flight ((clazz, context, type) # vs) = (if clazz = Some PN_TASK then opt_list context else []) @ flight vs"

lemma flight_append [simp]: "flight (vs @ ws) = flight vs @ flight ws"
  by (induction vs rule: flight.induct) auto

definition in_use :: "event_queue \<Rightarrow> event_view list" where
  "in_use q = eq_queue q @ opt_list (eq_prev q)"

definition task_held :: "pn_task \<Rightarrow> bool" where
  "task_held k \<longleftrightarrow> task_refcount k = 1 \<and> task_pool k"

definition task_pooled :: "pn_task \<Rightarrow> bool" where
  "task_pooled k \<longleftrightarrow> task_refcount k = 1 \<and> \<not> task_pool k"

text \<open>
  Every task object is scheduled, in the pool, in flight as the context of one event, or one of the
  tasks \<open>hs\<close> an operation is just working on; the scheduled ones form a heap.
\<close>

definition tm_rep :: "pn_timer \<Rightarrow> event_queue \<Rightarrow> task_ref list \<Rightarrow> bool" where
  "tm_rep t q hs \<longleftrightarrow>
     col_sim (tm_collector t) q \<and> (\<forall>v\<in>set (in_use q). snd (snd v) = PN_TIMER_TASK \<longrightarrow> fst v = Some PN_TASK) \<and>
     list_ok (tm_tasks t) \<and> list_ok (tm_pool t) \<and> heap_ok (deadline_of (tm_store t)) (list_elements (tm_tasks t)) \<and>
     distinct (hs @ list_elements (tm_tasks t) @ flight (in_use q) @ list_elements (tm_pool t)) \<and>
     dom (tm_store t) = set (hs @ list_elements (tm_tasks t) @ flight (in_use q) @ list_elements (tm_pool t)) \<and>
     (\<forall>i\<in>dom (tm_store t). i < tm_fresh t) \<and>
     (\<forall>i\<in>set (hs @ list_elements (tm_tasks t) @ flight (in_use q)). \<exists>k. tm_store t i = Some k \<and> task_held k) \<and>
     (\<forall>i\<in>set (list_elements (tm_pool t)). \<exists>k. tm_store t i = Some k \<and> task_pooled k) \<and>
     tm_pool_refs t = 1 + length hs + length (list_elements (tm_tasks t)) + length (flight (in_use q))"

lemma tm_repD:
  assumes "tm_rep t q hs"
  shows "col_sim (tm_collector t) q" "\<And>v. v \<in> set (in_use q) \<Longrightarrow> snd (snd v) = PN_TIMER_TASK \<Longrightarrow> fst v = Some PN_TASK"
    "list_ok (tm_tasks t)" "list_ok (tm_pool t)" "heap_ok (deadline_of (tm_store t)) (list_elements (tm_tasks t))"
    "distinct (hs @ list_elements (tm_tasks t) @ flight (in_use q) @ list_elements (tm_pool t))"
    "dom (tm_store t) = set (hs @ list_elements (tm_tasks t) @ flight (in_use q) @ list_elements (tm_pool t))"
    "\<And>i. i \<in> dom (tm_store t) \<Longrightarrow> i < tm_fresh t"
    "\<And>i. i \<in> set (hs @ list_elements (tm_tasks t) @ flight (in_use q)) \<Longrightarrow> \<exists>k. tm_store t i = Some k \<and> task_held k"
    "\<And>i. i \<in> set (list_elements (tm_pool t)) \<Longrightarrow> \<exists>k. tm_store t i = Some k \<and> task_pooled k"
    "tm_pool_refs t = 1 + length hs + length (list_elements (tm_tasks t)) + length (flight (in_use q))"
  using assms by (auto simp: tm_rep_def)

lemma heap_ok_cong: "(\<And>i. i \<in> set xs \<Longrightarrow> f i = g i) \<Longrightarrow> heap_ok f xs = heap_ok g xs"
proof -
  assume fg: "\<And>i. i \<in> set xs \<Longrightarrow> f i = g i"
  have "f (xs ! (i div 2 - 1)) = g (xs ! (i div 2 - 1)) \<and> f (xs ! (i - 1)) = g (xs ! (i - 1))"
    if "1 < i" "i \<le> length xs" for i
    using that by (intro conjI fg nth_mem) auto
  then show ?thesis by (auto simp: heap_ok_edges edges_def heap_at_def)
qed

lemma task_decref_rep:
  assumes "tm_rep t q (i # hs)"
  shows "\<exists>t'. task_decref i t = Some t' \<and> tm_rep t' q hs \<and> tm_tasks t' = tm_tasks t \<and>
    (\<forall>j\<in>set (hs @ list_elements (tm_tasks t) @ flight (in_use q)). tm_store t' j = tm_store t j)"
proof -
  note rep = tm_repD [OF assms]
  obtain k where k: "tm_store t i = Some k" "task_held k" using rep(9) [of i] by auto
  obtain pool where pool: "pn_list_add (tm_pool t) i = Some pool" "list_ok pool" "list_elements pool = list_elements (tm_pool t) @ [i]"
    using pn_list_add_some [OF rep(4), of i] by blast
  let ?k = "k\<lparr>task_pool := False\<rparr>"
  let ?t = "t\<lparr>tm_store := (tm_store t)(i \<mapsto> ?k), tm_pool := pool, tm_pool_refs := tm_pool_refs t - 1\<rparr>"
  have dec: "task_decref i t = Some ?t"
    using k pool(1) rep(11)
    by (cases k) (auto simp: task_decref_def pn_task_finalize_def put_task_def task_held_def Let_def)
  have i: "i \<notin> set (hs @ list_elements (tm_tasks t) @ flight (in_use q) @ list_elements (tm_pool t))" using rep(6) by auto
  have "heap_ok (deadline_of (tm_store ?t)) (list_elements (tm_tasks t))"
    using rep(5) i by (subst heap_ok_cong [of _ _ "deadline_of (tm_store t)"]) (auto simp: deadline_of_def)
  moreover have "task_pooled ?k" using k by (simp add: task_held_def task_pooled_def)
  ultimately have "tm_rep ?t q hs"
    using rep pool i unfolding tm_rep_def by (auto simp: insert_commute)
  then show ?thesis using dec i by auto
qed

lemma mset_add_facts:
  assumes "mset xs = add_mset x (mset ys)"
  shows "set xs = insert x (set ys)" "length xs = Suc (length ys)" "distinct xs \<longleftrightarrow> x \<notin> set ys \<and> distinct ys"
proof -
  have m: "mset xs = mset (x # ys)" using assms by simp
  show "set xs = insert x (set ys)" using mset_eq_setD [OF m] by simp
  show "length xs = Suc (length ys)" using mset_eq_length [OF m] by simp
  show "distinct xs \<longleftrightarrow> x \<notin> set ys \<and> distinct ys" using mset_eq_imp_distinct_iff [OF m] by simp
qed

lemma pop_task_rep:
  assumes "tm_rep t q hs" "list_elements (tm_tasks t) \<noteq> []"
  shows "\<exists>tasks. pop_task t = Some (list_elements (tm_tasks t) ! 0, t\<lparr>tm_tasks := tasks\<rparr>) \<and>
    tm_rep (t\<lparr>tm_tasks := tasks\<rparr>) q (list_elements (tm_tasks t) ! 0 # hs) \<and>
    mset (list_elements (tm_tasks t)) = add_mset (list_elements (tm_tasks t) ! 0) (mset (list_elements tasks))"
proof -
  note rep = tm_repD [OF assms(1)]
  let ?i = "list_elements (tm_tasks t) ! 0"
  have "task.heap_list (tm_store t) (tm_tasks t)" using rep(3,5) by (simp add: task.heap_list_def)
  then obtain tasks where l: "pn_list_minpop (pn_task_compare (tm_store t)) (tm_tasks t) = Some (?i, tasks)"
    "task.heap_list (tm_store t) tasks" "mset (list_elements (tm_tasks t)) = add_mset ?i (mset (list_elements tasks))"
    using task.minpop_correct [of "tm_store t" "tm_tasks t"] assms(2) by blast
  have set: "set (list_elements (tm_tasks t)) = insert ?i (set (list_elements tasks))"
    and len: "length (list_elements (tm_tasks t)) = Suc (length (list_elements tasks))"
    and dist: "distinct (list_elements (tm_tasks t)) = (?i \<notin> set (list_elements tasks) \<and> distinct (list_elements tasks))"
    using mset_add_facts [OF l(3)] by simp_all
  have "tm_rep (t\<lparr>tm_tasks := tasks\<rparr>) q (?i # hs)"
    using rep l(2) set len dist unfolding tm_rep_def task.heap_list_def by auto
  then show ?thesis using l by (auto simp: pop_task_def)
qed

section \<open>Firing\<close>

definition timer_event :: "task_ref \<Rightarrow> event_view" where
  "timer_event i = (Some PN_TASK, Some i, PN_TIMER_TASK)"

lemma flight_timer_event [simp]: "flight [timer_event i] = [i]"
  by (simp add: timer_event_def)

lemma in_use_snoc: "in_use (q\<lparr>eq_queue := eq_queue q @ [e]\<rparr>) = eq_queue q @ [e] @ opt_list (eq_prev q)"
  by (simp add: in_use_def)

lemma flight_member: "(Some PN_TASK, Some i, ty) \<in> set vs \<Longrightarrow> i \<in> set (flight vs)"
  by (induction vs rule: flight.induct) auto

text \<open>The task is not already the context of an event, so the collector does not take it for a repetition.\<close>

lemma not_repeated:
  assumes "tm_rep t q (i # hs)"
  shows "\<not> repeated (eq_queue q) i PN_TIMER_TASK"
proof
  assume r: "repeated (eq_queue q) i PN_TIMER_TASK"
  then obtain clazz where "last (eq_queue q) = (clazz, Some i, PN_TIMER_TASK)" "eq_queue q \<noteq> []"
    by (cases "last (eq_queue q)") (auto simp: repeated_def)
  then have m: "(clazz, Some i, PN_TIMER_TASK) \<in> set (in_use q)" by (metis Un_iff in_use_def last_in_set set_append)
  then have "clazz = Some PN_TASK" using tm_repD(2) [OF assms m] by simp
  then have "i \<in> set (flight (in_use q))" using m flight_member by blast
  then show False using tm_repD(6) [OF assms] by auto
qed

lemma fire_task_rep:
  assumes "tm_rep t q (i # hs)" "tm_store t i = Some k" "\<not> task_cancelled k" "\<not> eq_freed q"
  shows "\<exists>c. fire_task i t = Some (t\<lparr>tm_collector := c\<rparr>) \<and>
    tm_rep (t\<lparr>tm_collector := c\<rparr>) (q\<lparr>eq_queue := eq_queue q @ [timer_event i]\<rparr>) hs"
proof -
  note rep = tm_repD [OF assms(1)]
  let ?q = "q\<lparr>eq_queue := eq_queue q @ [timer_event i]\<rparr>"
  have held: "task_held k" using rep(9) [of i] assms(2) by auto
  obtain r c where c: "pn_collector_put PN_TASK i PN_TIMER_TASK (tm_collector t) = Some (r, c)" "r \<noteq> None" "col_sim c ?q"
    using put_sim [OF rep(1), of PN_TASK i PN_TIMER_TASK] not_repeated [OF assms(1)] assms(4)
    by (auto simp: exec_sim_def timer_event_def split: option.splits)
  have log: "drop (length (col_refs (tm_collector t))) (col_refs c) = [Incref PN_TASK i]"
    using put_log [OF c(1)] c(2) by simp
  have "fire_task i t = Some (t\<lparr>tm_collector := c, tm_store := (tm_store t)(i \<mapsto> k)\<rparr>)"
    using assms(2,3) c(1) log held
    by (cases k) (auto simp: fire_task_def with_collector_def task_incref_def task_decref_def put_task_def task_held_def Let_def)
  then have "fire_task i t = Some (t\<lparr>tm_collector := c\<rparr>)" using assms(2) by (simp add: fun_upd_idem)
  moreover have "tm_rep (t\<lparr>tm_collector := c\<rparr>) ?q hs"
    using rep c(3) unfolding tm_rep_def in_use_snoc by (auto simp: in_use_def timer_event_def)
  ultimately show ?thesis by blast
qed

text \<open>A cancelled task, or one that fires into a released collector, goes back to the pool.\<close>

lemma drop_task_rep:
  assumes "tm_rep t q (i # hs)" "tm_store t i = Some k" "task_cancelled k \<or> eq_freed q"
  shows "\<exists>t'. fire_task i t = Some t' \<and> tm_rep t' q hs \<and> tm_tasks t' = tm_tasks t \<and>
    (\<forall>j\<in>set (hs @ list_elements (tm_tasks t) @ flight (in_use q)). tm_store t' j = tm_store t j)"
proof (cases "task_cancelled k")
  case True
  then show ?thesis using task_decref_rep [OF assms(1)] assms(2) by (simp add: fire_task_def)
next
  case False
  have "col_freed (tm_collector t)" using tm_repD(1) [OF assms(1)] assms(3) False by (simp add: col_sim_def)
  then have "with_collector (pn_collector_put PN_TASK i PN_TIMER_TASK) t = Some (None, t)"
    by (simp add: with_collector_def pn_collector_put_def)
  then show ?thesis using task_decref_rep [OF assms(1)] assms(2) False by (simp add: fire_task_def)
qed

definition cancelled_of :: "(task_ref \<rightharpoonup> pn_task) \<Rightarrow> task_ref \<Rightarrow> bool" where
  "cancelled_of store i = (case store i of None \<Rightarrow> False | Some k \<Rightarrow> task_cancelled k)"

lemma top_task:
  assumes "tm_rep t q hs" "list_elements (tm_tasks t) \<noteq> []"
  shows "pn_list_get (tm_tasks t) 0 = Some (list_elements (tm_tasks t) ! 0)"
    and "\<exists>k. tm_store t (list_elements (tm_tasks t) ! 0) = Some k \<and> task_held k"
    and "\<And>j. j \<in> set (list_elements (tm_tasks t)) \<Longrightarrow>
      deadline_of (tm_store t) (list_elements (tm_tasks t) ! 0) \<le> deadline_of (tm_store t) j"
proof -
  show "pn_list_get (tm_tasks t) 0 = Some (list_elements (tm_tasks t) ! 0)"
    using assms(2) by (simp add: pn_list_get_def pn_list_size_def list_index_def)
  show "\<exists>k. tm_store t (list_elements (tm_tasks t) ! 0) = Some k \<and> task_held k"
    using tm_repD(9) [OF assms(1)] assms(2) by (simp add: nth_mem)
qed (rule heap_head_min [OF tm_repD(5) [OF assms(1)]])

lemma no_task: "list_elements (tm_tasks t) = [] \<Longrightarrow> pn_list_get (tm_tasks t) 0 = None"
  by (simp add: pn_list_get_def pn_list_size_def)

lemma filter_mset_all: "(\<And>x. x \<in># M \<Longrightarrow> P x) \<Longrightarrow> filter_mset P M = M"
  by (induction M) auto

lemma filter_mset_none: "(\<And>x. x \<in># M \<Longrightarrow> \<not> P x) \<Longrightarrow> filter_mset P M = {#}"
  by (induction M) auto

text \<open>The step that both loops share: the first task is taken off the heap and fired or dropped.\<close>

lemma take_first_rep:
  assumes "tm_rep t q []" "list_elements (tm_tasks t) \<noteq> []"
  obtains i k tasks where "i = list_elements (tm_tasks t) ! 0" "tm_store t i = Some k"
    "pn_list_get (tm_tasks t) 0 = Some i" "pop_task t = Some (i, t\<lparr>tm_tasks := tasks\<rparr>)"
    "tm_rep (t\<lparr>tm_tasks := tasks\<rparr>) q [i]" "mset (list_elements (tm_tasks t)) = add_mset i (mset (list_elements tasks))"
    "\<And>j. j \<in> set (list_elements (tm_tasks t)) \<Longrightarrow> deadline_of (tm_store t) i \<le> deadline_of (tm_store t) j"
  using top_task [OF assms] pop_task_rep [OF assms] by blast

lemma tick_loop_rep:
  assumes "tm_rep t q []" "\<not> eq_freed q" "length (list_elements (tm_tasks t)) < n"
  shows "\<exists>t' fired. tick_loop n now t = Some t' \<and> tm_rep t' (q\<lparr>eq_queue := eq_queue q @ map timer_event fired\<rparr>) [] \<and>
    sorted (map (deadline_of (tm_store t)) fired) \<and>
    mset fired = {#i \<in># mset (list_elements (tm_tasks t)). deadline_of (tm_store t) i \<le> now \<and> \<not> cancelled_of (tm_store t) i#} \<and>
    mset (list_elements (tm_tasks t')) = {#i \<in># mset (list_elements (tm_tasks t)). now < deadline_of (tm_store t) i#} \<and>
    (\<forall>j\<in>set (list_elements (tm_tasks t')). tm_store t' j = tm_store t j)"
  using assms
proof (induction n arbitrary: t q)
  case (Suc n)
  let ?dl = "deadline_of (tm_store t)"
  show ?case
  proof (cases "list_elements (tm_tasks t) = []")
    case True
    then show ?thesis using Suc.prems by (intro exI [of _ t] exI [of _ "[]"]) (simp add: no_task)
  next
    case False
    with Suc.prems(1) obtain i k tasks where i: "tm_store t i = Some k" "pn_list_get (tm_tasks t) 0 = Some i"
      "pop_task t = Some (i, t\<lparr>tm_tasks := tasks\<rparr>)" "tm_rep (t\<lparr>tm_tasks := tasks\<rparr>) q [i]"
      "mset (list_elements (tm_tasks t)) = add_mset i (mset (list_elements tasks))"
      and least: "\<And>j. j \<in> set (list_elements (tm_tasks t)) \<Longrightarrow> ?dl i \<le> ?dl j"
      by (metis take_first_rep)
    have dl: "task_deadline k = ?dl i" "task_cancelled k = cancelled_of (tm_store t) i"
      using i(1) by (auto simp: deadline_of_def cancelled_of_def)
    have facts: "set (list_elements (tm_tasks t)) = insert i (set (list_elements tasks))"
      "length (list_elements (tm_tasks t)) = Suc (length (list_elements tasks))" using mset_add_facts [OF i(5)] by auto
    show ?thesis
    proof (cases "?dl i \<le> now")
      case False
      then have late: "now < ?dl j" if "j \<in># mset (list_elements (tm_tasks t))" for j using least [of j] that by auto
      have "tick_loop (Suc n) now t = Some t" using i dl False by simp
      moreover have "{#i \<in># mset (list_elements (tm_tasks t)). ?dl i \<le> now \<and> \<not> cancelled_of (tm_store t) i#} = {#}"
        using late by (intro filter_mset_none) fastforce
      moreover have "{#i \<in># mset (list_elements (tm_tasks t)). now < ?dl i#} = mset (list_elements (tm_tasks t))"
        using late by (intro filter_mset_all)
      ultimately show ?thesis using Suc.prems(1) by (intro exI [of _ t] exI [of _ "[]"]) simp
    next
      case True
      let ?new = "if cancelled_of (tm_store t) i then [] else [i]"
      have "\<exists>t1. fire_task i (t\<lparr>tm_tasks := tasks\<rparr>) = Some t1 \<and>
        tm_rep t1 (q\<lparr>eq_queue := eq_queue q @ map timer_event ?new\<rparr>) [] \<and> tm_tasks t1 = tasks \<and>
        (\<forall>j\<in>set (list_elements tasks). tm_store t1 j = tm_store t j)"
        using fire_task_rep [OF i(4)] drop_task_rep [OF i(4)] i(1) dl(2) Suc.prems(2) by (cases "task_cancelled k") fastforce+
      then obtain t1 where t1: "fire_task i (t\<lparr>tm_tasks := tasks\<rparr>) = Some t1"
        "tm_rep t1 (q\<lparr>eq_queue := eq_queue q @ map timer_event ?new\<rparr>) []" "tm_tasks t1 = tasks"
        "\<And>j. j \<in> set (list_elements tasks) \<Longrightarrow> tm_store t1 j = tm_store t j" by blast
      from Suc.IH [OF t1(2)] obtain t' fired where t': "tick_loop n now t1 = Some t'"
        "tm_rep t' (q\<lparr>eq_queue := eq_queue q @ map timer_event (?new @ fired)\<rparr>) []"
        "sorted (map (deadline_of (tm_store t1)) fired)"
        "mset fired = {#i \<in># mset (list_elements tasks). deadline_of (tm_store t1) i \<le> now \<and> \<not> cancelled_of (tm_store t1) i#}"
        "mset (list_elements (tm_tasks t')) = {#i \<in># mset (list_elements tasks). now < deadline_of (tm_store t1) i#}"
        "\<forall>j\<in>set (list_elements (tm_tasks t')). tm_store t' j = tm_store t1 j"
        using Suc.prems(2,3) facts(2) t1(3) by auto
      have same: "deadline_of (tm_store t1) j = ?dl j" "cancelled_of (tm_store t1) j = cancelled_of (tm_store t) j"
        if "j \<in># mset (list_elements tasks)" for j using t1(4) that by (auto simp: deadline_of_def cancelled_of_def)
      have filters:
        "{#i \<in># mset (list_elements tasks). deadline_of (tm_store t1) i \<le> now \<and> \<not> cancelled_of (tm_store t1) i#} =
         {#i \<in># mset (list_elements tasks). ?dl i \<le> now \<and> \<not> cancelled_of (tm_store t) i#}"
        "{#i \<in># mset (list_elements tasks). now < deadline_of (tm_store t1) i#} = {#i \<in># mset (list_elements tasks). now < ?dl i#}"
        using same by (auto intro!: filter_mset_cong)
      have sub: "set fired \<subseteq> set (list_elements tasks)" "set (list_elements (tm_tasks t')) \<subseteq> set (list_elements tasks)"
        using arg_cong [OF t'(4), of set_mset] arg_cong [OF t'(5), of set_mset] by auto
      have "map (deadline_of (tm_store t1)) fired = map ?dl fired" using same sub(1) by auto
      then have "sorted (map ?dl fired)" using t'(3) by (simp only:)
      then have "sorted (map ?dl (?new @ fired))" using least sub(1) facts(1) by auto
      moreover have "mset (?new @ fired) = {#i \<in># mset (list_elements (tm_tasks t)). ?dl i \<le> now \<and> \<not> cancelled_of (tm_store t) i#}"
        using i(5) True by (simp add: t'(4) filters)
      moreover have "mset (list_elements (tm_tasks t')) = {#i \<in># mset (list_elements (tm_tasks t)). now < ?dl i#}"
        using i(5) True by (simp add: t'(5) filters)
      moreover have "tick_loop (Suc n) now t = Some t'" using i dl True t1(1) t'(1) by simp
      moreover have "\<forall>j\<in>set (list_elements (tm_tasks t')). tm_store t' j = tm_store t j" using t'(6) t1(4) sub(2) by auto
      ultimately show ?thesis using t'(2) by (intro exI [of _ t'] exI [of _ "?new @ fired"]) simp
    qed
  qed
qed simp

section \<open>Flushing cancelled tasks\<close>

lemma flush_loop_rep:
  assumes "tm_rep t q []" "length (list_elements (tm_tasks t)) < n"
  shows "\<exists>t'. flush_loop n t = Some t' \<and> tm_rep t' q [] \<and>
    {#i \<in># mset (list_elements (tm_tasks t')). \<not> cancelled_of (tm_store t) i#} =
    {#i \<in># mset (list_elements (tm_tasks t)). \<not> cancelled_of (tm_store t) i#} \<and>
    set (list_elements (tm_tasks t')) \<subseteq> set (list_elements (tm_tasks t)) \<and>
    (\<forall>j\<in>set (list_elements (tm_tasks t')). tm_store t' j = tm_store t j) \<and>
    (list_elements (tm_tasks t') = [] \<or> \<not> cancelled_of (tm_store t) (list_elements (tm_tasks t') ! 0))"
  using assms
proof (induction n arbitrary: t)
  case (Suc n)
  show ?case
  proof (cases "list_elements (tm_tasks t) = []")
    case True
    then show ?thesis using Suc.prems by (simp add: no_task)
  next
    case False
    with Suc.prems(1) obtain i k tasks where top: "i = list_elements (tm_tasks t) ! 0" and
      i: "tm_store t i = Some k" "pn_list_get (tm_tasks t) 0 = Some i"
      "pop_task t = Some (i, t\<lparr>tm_tasks := tasks\<rparr>)" "tm_rep (t\<lparr>tm_tasks := tasks\<rparr>) q [i]"
      "mset (list_elements (tm_tasks t)) = add_mset i (mset (list_elements tasks))"
      by (metis take_first_rep)
    have c: "task_cancelled k = cancelled_of (tm_store t) i" using i(1) by (simp add: cancelled_of_def)
    show ?thesis
    proof (cases "cancelled_of (tm_store t) i")
      case False
      then show ?thesis using i c top Suc.prems(1) by (intro exI [of _ t]) simp
    next
      case True
      obtain t1 where t1: "task_decref i (t\<lparr>tm_tasks := tasks\<rparr>) = Some t1" "tm_rep t1 q []" "tm_tasks t1 = tasks"
        "\<And>j. j \<in> set (list_elements tasks) \<Longrightarrow> tm_store t1 j = tm_store t j"
        using task_decref_rep [OF i(4)] by auto
      have len: "length (list_elements tasks) < n" using mset_add_facts(2) [OF i(5)] Suc.prems(2) by simp
      have same: "cancelled_of (tm_store t1) j = cancelled_of (tm_store t) j" if "j \<in> set (list_elements tasks)" for j
        using t1(4) that by (simp add: cancelled_of_def)
      from Suc.IH [OF t1(2)] len t1(3) obtain t' where t': "flush_loop n t1 = Some t'" "tm_rep t' q []"
        "{#i \<in># mset (list_elements (tm_tasks t')). \<not> cancelled_of (tm_store t1) i#} =
         {#i \<in># mset (list_elements tasks). \<not> cancelled_of (tm_store t1) i#}"
        "set (list_elements (tm_tasks t')) \<subseteq> set (list_elements tasks)"
        "\<forall>j\<in>set (list_elements (tm_tasks t')). tm_store t' j = tm_store t1 j"
        "list_elements (tm_tasks t') = [] \<or> \<not> cancelled_of (tm_store t1) (list_elements (tm_tasks t') ! 0)" by auto
      have "{#i \<in># mset (list_elements tasks). \<not> cancelled_of (tm_store t1) i#} = {#i \<in># mset (list_elements tasks). \<not> cancelled_of (tm_store t) i#}"
        "{#i \<in># mset (list_elements (tm_tasks t')). \<not> cancelled_of (tm_store t1) i#} = {#i \<in># mset (list_elements (tm_tasks t')). \<not> cancelled_of (tm_store t) i#}"
        using same t'(4) by (auto intro!: filter_mset_cong)
      then have "{#i \<in># mset (list_elements (tm_tasks t')). \<not> cancelled_of (tm_store t) i#} =
         {#i \<in># mset (list_elements (tm_tasks t)). \<not> cancelled_of (tm_store t) i#}" using t'(3) i(5) True by simp
      moreover have "flush_loop (Suc n) t = Some t'" using i c True t1(1) t'(1) by simp
      moreover have "list_elements (tm_tasks t') = [] \<or> \<not> cancelled_of (tm_store t) (list_elements (tm_tasks t') ! 0)"
        using t'(4,6) same nth_mem [of 0 "list_elements (tm_tasks t')"] by fastforce
      ultimately show ?thesis using t' t1(4) mset_add_facts(1) [OF i(5)] by (intro exI [of _ t']) auto
    qed
  qed
qed simp

definition active_tasks :: "pn_timer \<Rightarrow> task_ref multiset" where
  "active_tasks t = {#i \<in># mset (list_elements (tm_tasks t)). \<not> cancelled_of (tm_store t) i#}"

lemma flush_rep:
  assumes "tm_rep t q []"
  shows "\<exists>t'. pni_timer_flush_cancelled t = Some t' \<and> tm_rep t' q [] \<and> active_tasks t' = active_tasks t \<and>
    (\<forall>j\<in>set (list_elements (tm_tasks t')). tm_store t' j = tm_store t j) \<and>
    (list_elements (tm_tasks t') = [] \<or> list_elements (tm_tasks t') ! 0 \<in># active_tasks t')"
proof -
  obtain t' where t': "flush_loop (pn_list_size (tm_tasks t) + 1) t = Some t'" "tm_rep t' q []"
    "{#i \<in># mset (list_elements (tm_tasks t')). \<not> cancelled_of (tm_store t) i#} =
     {#i \<in># mset (list_elements (tm_tasks t)). \<not> cancelled_of (tm_store t) i#}"
    "\<forall>j\<in>set (list_elements (tm_tasks t')). tm_store t' j = tm_store t j"
    "list_elements (tm_tasks t') = [] \<or> \<not> cancelled_of (tm_store t) (list_elements (tm_tasks t') ! 0)"
    using flush_loop_rep [OF assms, of "pn_list_size (tm_tasks t) + 1"] by (auto simp: pn_list_size_def)
  have "active_tasks t' = {#i \<in># mset (list_elements (tm_tasks t')). \<not> cancelled_of (tm_store t) i#}"
    unfolding active_tasks_def using t'(4) by (intro filter_mset_cong) (auto simp: cancelled_of_def)
  moreover have "list_elements (tm_tasks t') ! 0 \<in># active_tasks t'" if "list_elements (tm_tasks t') \<noteq> []"
  proof -
    have "list_elements (tm_tasks t') ! 0 \<in> set (list_elements (tm_tasks t'))" using that by simp
    then show ?thesis using t'(4,5) that by (auto simp: active_tasks_def cancelled_of_def)
  qed
  ultimately show ?thesis using t' by (auto simp: pni_timer_flush_cancelled_def active_tasks_def [of t])
qed

section \<open>Scheduling, cancelling and releasing\<close>

lemma take_task_rep:
  assumes "tm_rep t q []"
  shows "\<exists>i pool store n k. take_task t = (i, t\<lparr>tm_pool := pool, tm_store := store, tm_fresh := n\<rparr>) \<and>
    i \<notin> set (list_elements (tm_tasks t) @ flight (in_use q)) \<and> distinct (i # list_elements pool) \<and> list_ok pool \<and>
    set (list_elements pool) \<inter> set (list_elements (tm_tasks t) @ flight (in_use q)) = {} \<and>
    store i = Some k \<and> task_pooled k \<and>
    dom store = insert i (set (list_elements (tm_tasks t) @ flight (in_use q) @ list_elements pool)) \<and>
    (\<forall>j\<in>set (list_elements (tm_tasks t) @ flight (in_use q) @ list_elements pool). store j = tm_store t j) \<and>
    (\<forall>j\<in>dom store. j < n) \<and> set (list_elements pool) \<subseteq> set (list_elements (tm_pool t))"
proof -
  note rep = tm_repD [OF assms]
  show ?thesis
  proof (cases "list_elements (tm_pool t)" rule: rev_cases)
    case Nil
    let ?store = "(tm_store t)(tm_fresh t \<mapsto> pn_task_initialize)"
    have "take_task t = (tm_fresh t, t\<lparr>tm_pool := tm_pool t, tm_store := ?store, tm_fresh := tm_fresh t + 1\<rparr>)"
      using Nil by (simp add: take_task_def pn_list_pop_def pn_list_size_def pn_task_new_def)
    moreover have "tm_fresh t \<notin> dom (tm_store t)" using rep(8) by blast
    ultimately show ?thesis
      using rep(4,6,7,8) Nil
      by (intro exI [of _ "tm_fresh t"] exI [of _ "tm_pool t"] exI [of _ ?store] exI [of _ "tm_fresh t + 1"] exI [of _ pn_task_initialize])
        (auto simp: less_Suc_eq task_pooled_def pn_task_initialize_def)
  next
    case (snoc js i)
    let ?pool = "(tm_pool t)\<lparr>list_elements := js\<rparr>"
    obtain k where "tm_store t i = Some k" "task_pooled k" using rep(10) [of i] snoc by auto
    moreover have "take_task t = (i, t\<lparr>tm_pool := ?pool, tm_store := tm_store t, tm_fresh := tm_fresh t\<rparr>)"
      using snoc by (simp add: take_task_def pn_list_pop_def pn_list_size_def)
    ultimately show ?thesis
      using rep(4,6,7,8) snoc
      by (intro exI [of _ i] exI [of _ ?pool] exI [of _ "tm_store t"] exI [of _ "tm_fresh t"] exI [of _ k])
        (auto simp: list_ok_def pn_list_size_def)
  qed
qed

lemma pn_timer_schedule_rep:
  assumes "tm_rep t q []"
  shows "\<exists>i t'. pn_timer_schedule d t = Some (i, t') \<and> tm_rep t' q [] \<and> i \<notin> set (list_elements (tm_tasks t)) \<and>
    mset (list_elements (tm_tasks t')) = add_mset i (mset (list_elements (tm_tasks t))) \<and>
    deadline_of (tm_store t') i = d \<and> \<not> cancelled_of (tm_store t') i \<and>
    (\<forall>j\<in>set (list_elements (tm_tasks t)). tm_store t' j = tm_store t j)"
proof -
  note rep = tm_repD [OF assms]
  obtain i pool store n k where take: "take_task t = (i, t\<lparr>tm_pool := pool, tm_store := store, tm_fresh := n\<rparr>)"
    and i: "i \<notin> set (list_elements (tm_tasks t) @ flight (in_use q))" "distinct (i # list_elements pool)" "list_ok pool"
      "set (list_elements pool) \<inter> set (list_elements (tm_tasks t) @ flight (in_use q)) = {}" "store i = Some k" "task_pooled k"
      "dom store = insert i (set (list_elements (tm_tasks t) @ flight (in_use q) @ list_elements pool))"
    and old: "\<And>j. j \<in> set (list_elements (tm_tasks t) @ flight (in_use q) @ list_elements pool) \<Longrightarrow> store j = tm_store t j"
      "\<And>j. j \<in> dom store \<Longrightarrow> j < n" "set (list_elements pool) \<subseteq> set (list_elements (tm_pool t))"
    using take_task_rep [OF assms] by (elim exE conjE) blast
  let ?k = "\<lparr>task_pool = True, task_deadline = d, task_cancelled = False, task_refcount = 1\<rparr>"
  let ?store = "store(i \<mapsto> ?k)"
  have "heap_ok (deadline_of ?store) (list_elements (tm_tasks t))"
    using rep(5) i(1) old(1)
    by (subst heap_ok_cong [of _ _ "deadline_of (tm_store t)"]) (auto simp: deadline_of_def)
  then have "task.heap_list ?store (tm_tasks t)" using rep(3) by (simp add: task.heap_list_def)
  then obtain tasks where tasks: "pn_list_minpush (pn_task_compare ?store) (tm_tasks t) i = Some tasks"
    "task.heap_list ?store tasks" "mset (list_elements tasks) = add_mset i (mset (list_elements (tm_tasks t)))"
    using task.minpush_correct by blast
  let ?t = "t\<lparr>tm_pool := pool, tm_store := ?store, tm_fresh := n, tm_tasks := tasks, tm_pool_refs := tm_pool_refs t + 1\<rparr>"
  have "pn_timer_schedule d t = Some (i, ?t)"
    using take i(5,6) tasks(1)
    by (cases k) (simp add: pn_timer_schedule_def push_task_def task_incref_def task_decref_def put_task_def task_pooled_def Let_def)
  moreover have "tm_rep ?t q []"
  proof -
    note facts = mset_add_facts [OF tasks(3)]
    have "\<exists>k. ?store j = Some k \<and> task_held k" if "j \<in> set (list_elements tasks @ flight (in_use q))" for j
      using that facts(1) rep(9) [of j] old(1) [of j] by (auto simp: task_held_def)
    moreover have "\<exists>k. ?store j = Some k \<and> task_pooled k" if "j \<in> set (list_elements pool)" for j
      using that i(2) rep(10) [of j] old by auto
    ultimately show ?thesis
      using rep tasks(2) facts i old(2) unfolding tm_rep_def task.heap_list_def by auto
  qed
  moreover have "\<forall>j\<in>set (list_elements (tm_tasks t)). ?store j = tm_store t j" using i(1) old(1) by auto
  ultimately show ?thesis using tasks(3) i(1) by (intro exI [of _ i] exI [of _ ?t]) (auto simp: deadline_of_def cancelled_of_def)
qed

lemma pn_task_cancel_rep:
  assumes "tm_rep t q []" "tm_store t i = Some k"
  shows "pn_task_cancel i t = Some (put_task i (k\<lparr>task_cancelled := True\<rparr>) t)"
    and "tm_rep (put_task i (k\<lparr>task_cancelled := True\<rparr>) t) q []"
proof -
  note rep = tm_repD [OF assms(1)]
  show "pn_task_cancel i t = Some (put_task i (k\<lparr>task_cancelled := True\<rparr>) t)" using assms(2) by (simp add: pn_task_cancel_def)
  have "deadline_of (tm_store (put_task i (k\<lparr>task_cancelled := True\<rparr>) t)) = deadline_of (tm_store t)"
    using assms(2) by (auto simp: deadline_of_def put_task_def fun_eq_iff)
  moreover have "dom (tm_store (put_task i (k\<lparr>task_cancelled := True\<rparr>) t)) = dom (tm_store t)"
    using assms(2) by (auto simp: put_task_def)
  moreover have "\<exists>k'. tm_store (put_task i (k\<lparr>task_cancelled := True\<rparr>) t) j = Some k' \<and> task_held k'"
    if "\<exists>k. tm_store t j = Some k \<and> task_held k" for j using that assms(2) by (auto simp: put_task_def task_held_def)
  moreover have "\<exists>k'. tm_store (put_task i (k\<lparr>task_cancelled := True\<rparr>) t) j = Some k' \<and> task_pooled k'"
    if "\<exists>k. tm_store t j = Some k \<and> task_pooled k" for j using that assms(2) by (auto simp: put_task_def task_pooled_def)
  moreover have "tm_tasks (put_task i (k\<lparr>task_cancelled := True\<rparr>) t) = tm_tasks t"
    "tm_pool (put_task i (k\<lparr>task_cancelled := True\<rparr>) t) = tm_pool t"
    "tm_collector (put_task i (k\<lparr>task_cancelled := True\<rparr>) t) = tm_collector t"
    "tm_fresh (put_task i (k\<lparr>task_cancelled := True\<rparr>) t) = tm_fresh t"
    "tm_pool_refs (put_task i (k\<lparr>task_cancelled := True\<rparr>) t) = tm_pool_refs t" by (simp_all add: put_task_def)
  ultimately show "tm_rep (put_task i (k\<lparr>task_cancelled := True\<rparr>) t) q []"
    using rep unfolding tm_rep_def by simp
qed

text \<open>Taking the next event gives up the previous one; if that was a timer event its task returns to the pool.\<close>

lemma apply_prev_release:
  assumes "tm_rep t q (flight (opt_list p))"
  shows "\<exists>t'. apply_refs (prev_release p) t = Some t' \<and> tm_rep t' q [] \<and> tm_tasks t' = tm_tasks t \<and>
    (\<forall>j\<in>set (list_elements (tm_tasks t)). tm_store t' j = tm_store t j)"
proof (cases "\<exists>i ty. p = Some (Some PN_TASK, Some i, ty)")
  case True
  then obtain i ty where p: "p = Some (Some PN_TASK, Some i, ty)" by blast
  then show ?thesis using task_decref_rep [of t q i "[]"] assms by (auto simp: prev_release_def)
next
  case False
  then have "flight (opt_list p) = []" by (cases p; auto simp: opt_list_def split: option.splits)
  moreover have "apply_refs (prev_release p) t = Some t"
    using False by (auto simp: prev_release_def split: option.splits prod.splits)
  ultimately show ?thesis using assms by auto
qed

lemma in_use_next:
  "mset (in_use q) = mset (in_use (q\<lparr>eq_queue := tl (eq_queue q), eq_prev := hd_opt (eq_queue q)\<rparr>)) + mset (opt_list (eq_prev q))"
  by (cases "eq_queue q") (auto simp: in_use_def hd_opt_def)

lemma flight_image: "mset (flight vs) = \<Sum>\<^sub># (image_mset (\<lambda>v. mset (flight [v])) (mset vs))"
  by (induction vs rule: flight.induct) auto

lemma flight_mset: "mset vs = mset ws \<Longrightarrow> mset (flight vs) = mset (flight ws)"
  by (subst (1 2) flight_image) simp

lemma timer_next_rep:
  assumes "tm_rep t q []"
  shows "\<exists>r t'. with_collector pn_collector_next t = Some (r, t') \<and> tm_rep t' (snd (queue_exec CNext q)) [] \<and>
    tm_tasks t' = tm_tasks t \<and> (\<forall>j\<in>set (list_elements (tm_tasks t)). tm_store t' j = tm_store t j)"
proof -
  note rep = tm_repD [OF assms]
  let ?q = "q\<lparr>eq_queue := tl (eq_queue q), eq_prev := hd_opt (eq_queue q)\<rparr>"
  obtain r c where c: "pn_collector_next (tm_collector t) = Some (r, c)" "col_sim c ?q"
    using next_sim [OF rep(1)] by (auto simp: exec_sim_def split: option.splits)
  obtain qs where "rep (tm_collector t) qs (opt_list (col_prev (tm_collector t)))"
    "eq_prev q = map_option (view (tm_collector t)) (col_prev (tm_collector t))" using rep(1) by (auto simp: col_sim_def)
  then have log: "drop (length (col_refs (tm_collector t))) (col_refs c) = prev_release (eq_prev q)"
    using next_log [of "tm_collector t" qs r c] c(1) by simp
  have m: "mset (flight (in_use q)) = mset (flight (opt_list (eq_prev q)) @ flight (in_use ?q))"
    using flight_mset [of "in_use q" "in_use ?q @ opt_list (eq_prev q)"] in_use_next [of q] by simp
  note facts = mset_eq_setD [OF m] mset_eq_length [OF m] mset_eq_imp_distinct_iff [OF m]
  have "set (in_use ?q) \<subseteq> set (in_use q)" using in_use_next [of q] by (metis mset_subset_eq_add_left set_mset_mono set_mset_mset)
  then have "tm_rep (t\<lparr>tm_collector := c\<rparr>) ?q (flight (opt_list (eq_prev q)))"
    using rep c(2) facts unfolding tm_rep_def by auto
  from apply_prev_release [OF this] show ?thesis using c(1) log by (auto simp: with_collector_def)
qed

section \<open>Runs\<close>

text \<open>A client schedules tasks, cancels tasks it has, advances the time, takes events and asks for the deadline.\<close>

datatype tm_op = TSchedule int | TCancel task_ref | TTick int | TNext | TDeadline | TTasks

fun tm_exec :: "tm_op \<Rightarrow> pn_timer \<Rightarrow> pn_timer option" where
  "tm_exec (TSchedule d) t = map_option snd (pn_timer_schedule d t)"
| "tm_exec (TCancel i) t = (if tm_store t i = None then Some t else pn_task_cancel i t)"
| "tm_exec (TTick now) t = pn_timer_tick now t"
| "tm_exec TNext t = map_option snd (with_collector pn_collector_next t)"
| "tm_exec TDeadline t = map_option snd (pn_timer_deadline t)"
| "tm_exec TTasks t = map_option snd (pn_timer_tasks t)"

fun tm_run :: "tm_op list \<Rightarrow> pn_timer \<Rightarrow> pn_timer option" where
  "tm_run [] t = Some t"
| "tm_run (oper # ops) t = (case tm_exec oper t of None \<Rightarrow> None | Some t \<Rightarrow> tm_run ops t)"

lemma deadline_rep:
  assumes "tm_rep t q []"
  shows "\<exists>d t'. pn_timer_deadline t = Some (d, t') \<and> tm_rep t' q [] \<and> active_tasks t' = active_tasks t \<and>
    d = (if active_tasks t = {#} then 0 else Min (deadline_of (tm_store t) ` set_mset (active_tasks t)))"
proof -
  obtain t' where t': "pni_timer_flush_cancelled t = Some t'" "tm_rep t' q []" "active_tasks t' = active_tasks t"
    "\<forall>j\<in>set (list_elements (tm_tasks t')). tm_store t' j = tm_store t j"
    "list_elements (tm_tasks t') = [] \<or> list_elements (tm_tasks t') ! 0 \<in># active_tasks t'"
    using flush_rep [OF assms] by blast
  show ?thesis
  proof (cases "list_elements (tm_tasks t') = []")
    case True
    moreover have "active_tasks t' = {#}" using True by (simp add: active_tasks_def)
    ultimately show ?thesis using t' by (simp add: pn_timer_deadline_def no_task)
  next
    case False
    let ?i = "list_elements (tm_tasks t') ! 0"
    have top: "?i \<in># active_tasks t" using t'(3,5) False by simp
    have act: "j \<in> set (list_elements (tm_tasks t'))" if "j \<in># active_tasks t" for j
    proof -
      have "j \<in># active_tasks t'" using that t'(3) by simp
      then show ?thesis by (simp add: active_tasks_def)
    qed
    have same: "deadline_of (tm_store t') j = deadline_of (tm_store t) j" if "j \<in># active_tasks t" for j
      using act [OF that] t'(4) by (simp add: deadline_of_def)
    have "Min (deadline_of (tm_store t) ` set_mset (active_tasks t)) = deadline_of (tm_store t) ?i"
      using top_task(3) [OF t'(2) False] act same top by (intro Min_eqI) fastforce+
    moreover obtain k where "tm_store t' ?i = Some k" using top_task(2) [OF t'(2) False] by blast
    ultimately show ?thesis
      using t' top_task(1) [OF t'(2) False] same [OF top] top by (auto simp: pn_timer_deadline_def deadline_of_def)
  qed
qed

lemma tasks_rep:
  assumes "tm_rep t q []"
  shows "\<exists>n t'. pn_timer_tasks t = Some (n, t') \<and> tm_rep t' q [] \<and> (0 < n \<longleftrightarrow> active_tasks t \<noteq> {#})"
proof -
  obtain t' where t': "pni_timer_flush_cancelled t = Some t'" "tm_rep t' q []" "active_tasks t' = active_tasks t"
    "list_elements (tm_tasks t') = [] \<or> list_elements (tm_tasks t') ! 0 \<in># active_tasks t'"
    using flush_rep [OF assms] by blast
  moreover have "list_elements (tm_tasks t') = [] \<Longrightarrow> active_tasks t' = {#}" by (simp add: active_tasks_def)
  ultimately show ?thesis by (auto simp: pn_timer_tasks_def pn_list_size_def)
qed

lemma freed_stays:
  "\<not> eq_freed q \<Longrightarrow> \<not> eq_freed (q\<lparr>eq_queue := xs\<rparr>)" "\<not> eq_freed q \<Longrightarrow> \<not> eq_freed (snd (queue_exec CNext q))"
  by auto

lemma tm_exec_rep:
  assumes "tm_rep t q []" "\<not> eq_freed q"
  shows "\<exists>t' q'. tm_exec oper t = Some t' \<and> tm_rep t' q' [] \<and> \<not> eq_freed q'"
proof (cases oper)
  case (TSchedule d)
  then show ?thesis using pn_timer_schedule_rep [OF assms(1), of d] assms(2) by auto
next
  case (TCancel i)
  then show ?thesis using pn_task_cancel_rep [OF assms(1)] assms by (cases "tm_store t i") fastforce+
next
  case (TTick now)
  then show ?thesis
    using tick_loop_rep [OF assms, of "pn_list_size (tm_tasks t) + 1" now] freed_stays(1) [OF assms(2)]
    by (fastforce simp: pn_timer_tick_def pn_list_size_def simp del: tick_loop.simps)
next
  case TNext
  then show ?thesis using timer_next_rep [OF assms(1)] freed_stays(2) [OF assms(2)] by fastforce
next
  case TDeadline
  then show ?thesis using deadline_rep [OF assms(1)] assms(2) by auto
next
  case TTasks
  then show ?thesis using tasks_rep [OF assms(1)] assms(2) by auto
qed

lemma tm_run_rep: "\<lbrakk>tm_rep t q []; \<not> eq_freed q\<rbrakk> \<Longrightarrow> \<exists>t' q'. tm_run ops t = Some t' \<and> tm_rep t' q' [] \<and> \<not> eq_freed q'"
proof (induction ops arbitrary: t q)
  case (Cons oper ops)
  then show ?case using tm_exec_rep [OF Cons.prems, of oper] by fastforce
qed auto

lemma tm_rep_initialize:
  "tm_rep (pn_timer_initialize pn_collector_initialize) \<lparr>eq_queue = [], eq_prev = None, eq_freed = False\<rparr> []"
  using col_sim_initialize by (simp add: tm_rep_def pn_timer_initialize_def in_use_def)

section \<open>Properties\<close>


definition example_queue :: event_queue where
  "example_queue = \<lparr>eq_queue = [], eq_prev = None, eq_freed = False\<rparr>"

text \<open>Two tasks, due at 5 and at 3, and a cancelled one due at 2.\<close>

definition example_timer :: pn_timer where
  "example_timer =
     \<lparr>tm_pool = pn_list_new 0, tm_tasks = \<lparr>list_capacity = 16, list_elements = [2, 0, 1]\<rparr>, tm_collector = pn_collector_initialize,
      tm_store =
        [0 \<mapsto> \<lparr>task_pool = True, task_deadline = 5, task_cancelled = False, task_refcount = 1\<rparr>,
         1 \<mapsto> \<lparr>task_pool = True, task_deadline = 3, task_cancelled = False, task_refcount = 1\<rparr>,
         2 \<mapsto> \<lparr>task_pool = True, task_deadline = 2, task_cancelled = True, task_refcount = 1\<rparr>],
      tm_pool_refs = 4, tm_fresh = 3\<rparr>"

lemma example_timer_rep: "tm_rep example_timer example_queue []"
proof -
  have "[2..<Suc 3] = [2, 3 :: nat]" by code_simp
  then show ?thesis
    using col_sim_initialize
    by (auto simp: tm_rep_def example_timer_def example_queue_def in_use_def list_ok_def pn_list_size_def heap_ok_def
        deadline_of_def task_held_def pn_list_new_def numeral_3_eq_3 [symmetric])
qed





end
