(* ===== verification/Pn_Map.thy ===== *)
theory Pn_Map
  imports Proton_Prelude "HOL-Library.Multiset"
begin

text \<open>
  The hash table of \<open>core/object/map.c\<close>: coalesced hashing. Entries that collide are linked through
  their \<open>next\<close> index into free slots taken from the top of the table; only the lower 86 percent of the
  slots are addressed by the hash. Deleting an entry cuts its chain and reinserts what followed it.
  Keys are compared by equality, with the hash code of the key class a field of the map; values are
  pointers, \<open>None\<close> the null pointer. The load comparison and the scaling by 0.86 are done exactly, the
  load factor being the fraction \<open>map_load_num / map_load_den\<close>. Reference counts of keys and values are
  left out. \<open>None\<close> as a result is a walk that leaves the table, or fuel that is used up.
\<close>

section \<open>State\<close>

datatype entry_state = PNI_ENTRY_FREE | PNI_ENTRY_LINK | PNI_ENTRY_TAIL

record ('k, 'v) pni_entry =
  entry_key :: "'k option"
  entry_value :: "'v option"
  entry_next :: nat
  entry_state :: entry_state

record ('k, 'v) pn_map =
  map_entries :: "('k, 'v) pni_entry list"
  map_capacity :: nat
  map_addressable :: nat
  map_size :: nat
  map_hashcode :: "'k \<Rightarrow> nat"
  map_load_num :: nat
  map_load_den :: nat

definition free_entry :: "('k, 'v) pni_entry" where
  "free_entry = \<lparr>entry_key = None, entry_value = None, entry_next = 0, entry_state = PNI_ENTRY_FREE\<rparr>"

definition pni_map_allocate :: "('k, 'v) pn_map \<Rightarrow> ('k, 'v) pn_map" where
  "pni_map_allocate m = m\<lparr>map_entries := replicate (map_capacity m) free_entry, map_size := 0\<rparr>"

definition scale86 :: "nat \<Rightarrow> nat" where
  "scale86 n = n * 86 div 100"

definition pn_map_new :: "('k \<Rightarrow> nat) \<Rightarrow> nat \<Rightarrow> nat \<Rightarrow> nat \<Rightarrow> ('k, 'v) pn_map" where
  "pn_map_new hashcode capacity num den =
     (let capacity = (if capacity \<noteq> 0 then capacity else 16)
      in pni_map_allocate
           \<lparr>map_entries = [], map_capacity = capacity,
            map_addressable = (if scale86 capacity = 0 then capacity else scale86 capacity),
            map_size = 0, map_hashcode = hashcode, map_load_num = num, map_load_den = den\<rparr>)"

definition pn_map_size :: "('k, 'v) pn_map \<Rightarrow> nat" where
  "pn_map_size m = map_size m"

text \<open>\<open>pni_map_load(map) > map->load_factor\<close>.\<close>

definition over_load :: "('k, 'v) pn_map \<Rightarrow> bool" where
  "over_load m \<longleftrightarrow> map_load_num m * map_addressable m < map_size m * map_load_den m"

section \<open>Looking up and creating entries\<close>

definition home :: "('k, 'v) pn_map \<Rightarrow> 'k \<Rightarrow> nat" where
  "home m key = map_hashcode m key mod map_addressable m"

text \<open>
  The loop along a chain: whether the key was found, the entry at which the loop stopped and the one
  before it.
\<close>

fun walk :: "nat \<Rightarrow> ('k, 'v) pni_entry list \<Rightarrow> 'k \<Rightarrow> nat option \<Rightarrow> nat \<Rightarrow> (bool \<times> nat \<times> nat option) option" where
  "walk 0 es key prev i = None"
| "walk (Suc n) es key prev i =
     (if i \<ge> length es then None
      else if entry_key (es ! i) = Some key then Some (True, i, prev)
      else if entry_state (es ! i) = PNI_ENTRY_TAIL then Some (False, i, prev)
      else walk n es key (Some i) (entry_next (es ! i)))"

text \<open>The last free slot, 0 if there is none.\<close>

fun find_empty :: "('k, 'v) pni_entry list \<Rightarrow> nat \<Rightarrow> nat" where
  "find_empty es 0 = 0"
| "find_empty es (Suc n) = (if entry_state (es ! n) = PNI_ENTRY_FREE then n else find_empty es n)"

fun grow_map :: "nat \<Rightarrow> ('k, 'v) pn_map \<Rightarrow> nat \<Rightarrow> ('k, 'v) pn_map option" where
  "grow_map 0 m capacity = None"
| "grow_map (Suc n) m capacity =
     (if map_capacity m < capacity \<or> over_load m
      then grow_map n (m\<lparr>map_capacity := map_capacity m * 2, map_addressable := scale86 (map_capacity m * 2)\<rparr>) capacity
      else Some m)"

definition grow_fuel :: "('k, 'v) pn_map \<Rightarrow> nat \<Rightarrow> nat" where
  "grow_fuel m capacity = capacity + map_size m * map_load_den m + 2"

text \<open>The loop that puts the used entries of the old table into the new one, with the put operation given.\<close>

fun reinsert :: "(('k, 'v) pn_map \<Rightarrow> 'k \<Rightarrow> 'v option \<Rightarrow> ('k, 'v) pn_map option) \<Rightarrow> ('k, 'v) pni_entry list \<Rightarrow>
    ('k, 'v) pn_map \<Rightarrow> ('k, 'v) pn_map option" where
  "reinsert put [] m = Some m"
| "reinsert put (e # es) m =
     (if entry_state e \<noteq> PNI_ENTRY_FREE then
        case entry_key e of
          None \<Rightarrow> None
        | Some key \<Rightarrow> (case put m key (entry_value e) of None \<Rightarrow> None | Some m \<Rightarrow> reinsert put es m)
      else reinsert put es m)"

definition use_entry :: "nat \<Rightarrow> 'k \<Rightarrow> ('k, 'v) pni_entry list \<Rightarrow> ('k, 'v) pni_entry list" where
  "use_entry i key es = es[i := (es ! i)\<lparr>entry_state := PNI_ENTRY_TAIL, entry_key := Some key\<rparr>]"

text \<open>
  \<open>pni_map_entry\<close>, \<open>pni_map_ensure\<close> and \<open>pn_map_put\<close> call each other. The fuel bounds the depth of the
  calls. The result of \<open>map_entry\<close> is the entry and the one before it in its chain.
\<close>

fun map_entry :: "nat \<Rightarrow> ('k, 'v) pn_map \<Rightarrow> 'k \<Rightarrow> bool \<Rightarrow> (nat option \<times> nat option \<times> ('k, 'v) pn_map) option"
  and map_ensure :: "nat \<Rightarrow> ('k, 'v) pn_map \<Rightarrow> nat \<Rightarrow> (bool \<times> ('k, 'v) pn_map) option"
  and map_put :: "nat \<Rightarrow> ('k, 'v) pn_map \<Rightarrow> 'k \<Rightarrow> 'v option \<Rightarrow> ('k, 'v) pn_map option" where
  "map_entry 0 m key create = None"
| "map_entry (Suc n) m key create =
     (if entry_state (map_entries m ! home m key) = PNI_ENTRY_FREE then
        if create then
          Some (Some (home m key), None,
            m\<lparr>map_entries := use_entry (home m key) key (map_entries m), map_size := map_size m + 1\<rparr>)
        else Some (None, None, m)
      else
        case walk (Suc (map_capacity m)) (map_entries m) key None (home m key) of
          None \<Rightarrow> None
        | Some (True, i, prev) \<Rightarrow> Some (Some i, prev, m)
        | Some (False, i, prev) \<Rightarrow>
            if create then
              case map_ensure n m (map_size m + 1) of
                None \<Rightarrow> None
              | Some (True, m) \<Rightarrow> map_entry n m key create
              | Some (False, m) \<Rightarrow>
                  let empty = find_empty (map_entries m) (map_capacity m);
                      es = map_entries m;
                      es = es[i := (es ! i)\<lparr>entry_next := empty, entry_state := PNI_ENTRY_LINK\<rparr>]
                  in Some (Some empty, Some i, m\<lparr>map_entries := use_entry empty key es, map_size := map_size m + 1\<rparr>)
            else Some (None, None, m))"
| "map_ensure 0 m capacity = None"
| "map_ensure (Suc n) m capacity =
     (if capacity \<le> map_capacity m \<and> \<not> over_load m then Some (False, m)
      else
        case grow_map (grow_fuel m capacity) m capacity of
          None \<Rightarrow> None
        | Some m' \<Rightarrow> map_option (Pair True) (reinsert (map_put n) (map_entries m) (pni_map_allocate m')))"
| "map_put 0 m key v = None"
| "map_put (Suc n) m key v =
     (case map_entry n m key True of
        Some (Some i, _, m) \<Rightarrow> Some (m\<lparr>map_entries := (map_entries m)[i := (map_entries m ! i)\<lparr>entry_value := v\<rparr>]\<rparr>)
      | _ \<Rightarrow> None)"

definition pni_map_entry :: "('k, 'v) pn_map \<Rightarrow> 'k \<Rightarrow> bool \<Rightarrow> (nat option \<times> nat option \<times> ('k, 'v) pn_map) option" where
  "pni_map_entry m key create = map_entry 6 m key create"

definition pn_map_put :: "('k, 'v) pn_map \<Rightarrow> 'k \<Rightarrow> 'v option \<Rightarrow> ('k, 'v) pn_map option" where
  "pn_map_put m key v = map_put 7 m key v"

definition pn_map_get :: "('k, 'v) pn_map \<Rightarrow> 'k \<Rightarrow> 'v option option" where
  "pn_map_get m key =
     (case pni_map_entry m key False of
        None \<Rightarrow> None
      | Some (None, _, _) \<Rightarrow> Some None
      | Some (Some i, _, _) \<Rightarrow> Some (entry_value (map_entries m ! i)))"

section \<open>Deletion\<close>

text \<open>The inner loop of \<open>pni_map_rehash\<close>, to the end of a chain.\<close>

fun chain_end :: "nat \<Rightarrow> ('k, 'v) pni_entry list \<Rightarrow> nat \<Rightarrow> nat option" where
  "chain_end 0 es i = None"
| "chain_end (Suc n) es i =
     (if i \<ge> length es then None
      else if entry_state (es ! i) = PNI_ENTRY_LINK then chain_end n es (entry_next (es ! i)) else Some i)"

text \<open>One iteration of the outer loop, for the entry at \<open>i\<close>.\<close>

definition rehash_entry :: "('k, 'v) pn_map \<Rightarrow> nat \<Rightarrow> ('k, 'v) pni_entry list \<Rightarrow> ('k, 'v) pni_entry list option" where
  "rehash_entry m i es =
     (case entry_key (es ! i) of
        None \<Rightarrow> None
      | Some key \<Rightarrow>
          let reloc = home m key
          in if entry_state (es ! reloc) = PNI_ENTRY_FREE then
               Some (es[reloc := (es ! reloc)\<lparr>entry_state := PNI_ENTRY_TAIL, entry_key := entry_key (es ! i),
                                              entry_value := entry_value (es ! i)\<rparr>,
                        i := free_entry])
             else
               case chain_end (Suc (map_capacity m)) es reloc of
                 None \<Rightarrow> None
               | Some reloc \<Rightarrow>
                   let es = es[reloc := (es ! reloc)\<lparr>entry_state := PNI_ENTRY_LINK, entry_next := i\<rparr>]
                   in Some (es[i := (es ! i)\<lparr>entry_state := PNI_ENTRY_TAIL, entry_next := 0\<rparr>]))"

fun rehash_loop :: "nat \<Rightarrow> ('k, 'v) pn_map \<Rightarrow> nat \<Rightarrow> ('k, 'v) pni_entry list \<Rightarrow> ('k, 'v) pni_entry list option" where
  "rehash_loop 0 m i es = None"
| "rehash_loop (Suc n) m i es =
     (if i \<ge> length es \<or> entry_state (es ! i) = PNI_ENTRY_FREE then None
      else
        case rehash_entry m i es of
          None \<Rightarrow> None
        | Some es' \<Rightarrow>
            if entry_state (es ! i) = PNI_ENTRY_TAIL then Some es' else rehash_loop n m (entry_next (es ! i)) es')"

definition pni_map_rehash :: "('k, 'v) pn_map \<Rightarrow> nat \<Rightarrow> ('k, 'v) pn_map option" where
  "pni_map_rehash m index =
     map_option (\<lambda>es. m\<lparr>map_entries := es\<rparr>) (rehash_loop (Suc (map_capacity m)) m index (map_entries m))"

definition pn_map_del :: "('k, 'v) pn_map \<Rightarrow> 'k \<Rightarrow> ('k, 'v) pn_map option" where
  "pn_map_del m key =
     (case pni_map_entry m key False of
        None \<Rightarrow> None
      | Some (None, _, _) \<Rightarrow> Some m
      | Some (Some i, prev, _) \<Rightarrow>
          let es = map_entries m;
              entry = es ! i;
              es = (case prev of
                      None \<Rightarrow> es
                    | Some p \<Rightarrow> es[p := (es ! p)\<lparr>entry_next := 0, entry_state := PNI_ENTRY_TAIL\<rparr>]);
              m = m\<lparr>map_entries := es[i := free_entry], map_size := map_size m - 1\<rparr>
          in if entry_state entry = PNI_ENTRY_LINK then pni_map_rehash m (entry_next entry) else Some m)"

section \<open>Iteration\<close>

text \<open>Handles are indices plus one, 0 is the end.\<close>

fun next_used :: "('k, 'v) pni_entry list \<Rightarrow> nat \<Rightarrow> nat" where
  "next_used [] i = 0"
| "next_used (e # es) i = (if entry_state e \<noteq> PNI_ENTRY_FREE then i + 1 else next_used es (i + 1))"

definition pn_map_head :: "('k, 'v) pn_map \<Rightarrow> nat" where
  "pn_map_head m = next_used (map_entries m) 0"

definition pn_map_next :: "('k, 'v) pn_map \<Rightarrow> nat \<Rightarrow> nat" where
  "pn_map_next m entry = next_used (drop entry (map_entries m)) entry"

definition pn_map_key :: "('k, 'v) pn_map \<Rightarrow> nat \<Rightarrow> 'k option" where
  "pn_map_key m entry = entry_key (map_entries m ! (entry - 1))"

definition pn_map_value :: "('k, 'v) pn_map \<Rightarrow> nat \<Rightarrow> 'v option" where
  "pn_map_value m entry = entry_value (map_entries m ! (entry - 1))"

fun sum_hash :: "('k \<Rightarrow> 64 word) \<Rightarrow> ('v option \<Rightarrow> 64 word) \<Rightarrow> ('k, 'v) pni_entry list \<Rightarrow> 64 word" where
  "sum_hash hk hv [] = 0"
| "sum_hash hk hv (e # es) =
     (if entry_state e \<noteq> PNI_ENTRY_FREE
      then sum_hash hk hv es + Bit_Operations.xor (case entry_key e of None \<Rightarrow> 0 | Some key \<Rightarrow> hk key) (hv (entry_value e))
      else sum_hash hk hv es)"

definition pn_map_hashcode :: "('k \<Rightarrow> 64 word) \<Rightarrow> ('v option \<Rightarrow> 64 word) \<Rightarrow> ('k, 'v) pn_map \<Rightarrow> 64 word" where
  "pn_map_hashcode hk hv m = sum_hash hk hv (map_entries m)"

section \<open>Integer keys\<close>

text \<open>The \<open>pn_hash\<close> functions are the map functions on pointer-sized integers, hashed and compared as they are.\<close>

type_synonym 'v pn_hash = "(nat, 'v) pn_map"

definition pni_identity_hashcode :: "nat \<Rightarrow> nat" where
  "pni_identity_hashcode obj = obj"

definition pn_hash_new :: "nat \<Rightarrow> nat \<Rightarrow> nat \<Rightarrow> 'v pn_hash" where
  "pn_hash_new capacity num den = pn_map_new pni_identity_hashcode capacity num den"

definition pn_hash_size :: "'v pn_hash \<Rightarrow> nat" where
  "pn_hash_size h = pn_map_size h"

definition pn_hash_put :: "'v pn_hash \<Rightarrow> nat \<Rightarrow> 'v option \<Rightarrow> 'v pn_hash option" where
  "pn_hash_put h key v = pn_map_put h key v"

definition pn_hash_get :: "'v pn_hash \<Rightarrow> nat \<Rightarrow> 'v option option" where
  "pn_hash_get h key = pn_map_get h key"

definition pn_hash_del :: "'v pn_hash \<Rightarrow> nat \<Rightarrow> 'v pn_hash option" where
  "pn_hash_del h key = pn_map_del h key"

definition pn_hash_head :: "'v pn_hash \<Rightarrow> nat" where
  "pn_hash_head h = pn_map_head h"

definition pn_hash_next :: "'v pn_hash \<Rightarrow> nat \<Rightarrow> nat" where
  "pn_hash_next h entry = pn_map_next h entry"

definition pn_hash_key :: "'v pn_hash \<Rightarrow> nat \<Rightarrow> nat option" where
  "pn_hash_key h entry = pn_map_key h entry"

definition pn_hash_value :: "'v pn_hash \<Rightarrow> nat \<Rightarrow> 'v option" where
  "pn_hash_value h entry = pn_map_value h entry"

end
