(* ===== verification/Pn_Map_Correct.thy ===== *)
theory Pn_Map_Correct
  imports Pn_Map
begin

text \<open>
  Correctness of the hash table of theory \<open>Pn_Map\<close>. The used slots of a table form disjoint linked chains in
  which every entry comes after the home slot of its key; this invariant is kept by insertion, by growth and
  by the reinsertion after a deletion, and it makes every lookup find its entry.
\<close>

section \<open>The chains of a table\<close>

definition used :: "('k, 'v) pni_entry \<Rightarrow> bool" where
  "used e \<longleftrightarrow> entry_state e \<noteq> PNI_ENTRY_FREE"

text \<open>The slots of a list are linked in this order and the last one is marked as the end.\<close>

fun linked :: "('k, 'v) pni_entry list \<Rightarrow> nat list \<Rightarrow> bool" where
  "linked es [] \<longleftrightarrow> True"
| "linked es [i] \<longleftrightarrow> entry_state (es ! i) = PNI_ENTRY_TAIL"
| "linked es (i # j # is) \<longleftrightarrow> entry_state (es ! i) = PNI_ENTRY_LINK \<and> entry_next (es ! i) = j \<and> linked es (j # is)"

definition home_of :: "('k, 'v) pn_map \<Rightarrow> ('k, 'v) pni_entry list \<Rightarrow> nat \<Rightarrow> nat" where
  "home_of m es i = home m (the (entry_key (es ! i)))"

text \<open>The first entry of a chain is in its home slot, the home slot of every other one is earlier in the chain.\<close>

definition chain_ok :: "('k, 'v) pn_map \<Rightarrow> ('k, 'v) pni_entry list \<Rightarrow> nat list \<Rightarrow> bool" where
  "chain_ok m es c \<longleftrightarrow>
     c \<noteq> [] \<and> home_of m es (hd c) = hd c \<and> (\<forall>k. 0 < k \<longrightarrow> k < length c \<longrightarrow> home_of m es (c ! k) \<in> set (take k c))"

text \<open>Every used entry has a key, and no two have the same.\<close>

definition keys_ok :: "('k, 'v) pni_entry list \<Rightarrow> bool" where
  "keys_ok es \<longleftrightarrow>
     (\<forall>i<length es. used (es ! i) \<longrightarrow> entry_key (es ! i) \<noteq> None) \<and>
     (\<forall>i j. i < length es \<longrightarrow> j < length es \<longrightarrow> used (es ! i) \<longrightarrow> used (es ! j) \<longrightarrow> entry_key (es ! i) = entry_key (es ! j) \<longrightarrow> i = j)"

text \<open>
  The used slots are partitioned into chains \<open>cs\<close> and, while a deletion is under way, a linked list
  \<open>pend\<close> of entries that are still to be reinserted.
\<close>

definition table :: "('k, 'v) pn_map \<Rightarrow> ('k, 'v) pni_entry list \<Rightarrow> nat list list \<Rightarrow> nat list \<Rightarrow> bool" where
  "table m es cs pend \<longleftrightarrow>
     length es = map_capacity m \<and> 0 < map_addressable m \<and> map_addressable m \<le> map_capacity m \<and>
     distinct (concat cs @ pend) \<and> set (concat cs @ pend) = {i. i < length es \<and> used (es ! i)} \<and>
     (\<forall>c\<in>set cs. linked es c \<and> chain_ok m es c) \<and> linked es pend \<and>
     (\<forall>k<length pend. home_of m es (pend ! k) \<notin> set (drop k pend)) \<and>
     (\<forall>i<length es. \<not> used (es ! i) \<longrightarrow> es ! i = free_entry) \<and> keys_ok es"

lemma tableD:
  assumes "table m es cs pend"
  shows "length es = map_capacity m" "0 < map_addressable m" "map_addressable m \<le> map_capacity m"
    "distinct (concat cs @ pend)" "set (concat cs @ pend) = {i. i < length es \<and> used (es ! i)}"
    "\<And>c. c \<in> set cs \<Longrightarrow> linked es c" "\<And>c. c \<in> set cs \<Longrightarrow> chain_ok m es c" "linked es pend"
    "\<And>k. k < length pend \<Longrightarrow> home_of m es (pend ! k) \<notin> set (drop k pend)"
    "\<And>i. i < length es \<Longrightarrow> \<not> used (es ! i) \<Longrightarrow> es ! i = free_entry"
    "\<And>i. i < length es \<Longrightarrow> used (es ! i) \<Longrightarrow> entry_key (es ! i) \<noteq> None"
    "\<And>i j. \<lbrakk>i < length es; j < length es; used (es ! i); used (es ! j); entry_key (es ! i) = entry_key (es ! j)\<rbrakk> \<Longrightarrow> i = j"
  using assms unfolding table_def keys_ok_def by blast+

lemma home_less: "table m es cs pend \<Longrightarrow> home m key < length es"
  using tableD(1-3) [of m es cs pend] by (simp add: home_def) (metis mod_less_divisor order_less_le_trans)

lemma linked_tl: "linked es (x # xs) \<Longrightarrow> linked es xs"
  by (cases xs) auto

lemma linked_append: "linked es (xs @ i # ys) \<Longrightarrow> linked es (i # ys)"
proof (induction xs)
  case (Cons x xs)
  then show ?case by (cases "xs @ i # ys") auto
qed simp

lemma linked_cong: "(\<And>i. i \<in> set is \<Longrightarrow> es' ! i = es ! i) \<Longrightarrow> linked es' is = linked es is"
  by (induction es "is" rule: linked.induct) auto

lemma linked_snoc:
  assumes "linked es (xs @ [i])" "i \<notin> set xs" "j \<notin> set (xs @ [i])"
    "\<And>x. x \<in> set xs \<Longrightarrow> es' ! x = es ! x" "entry_state (es' ! i) = PNI_ENTRY_LINK" "entry_next (es' ! i) = j"
    "entry_state (es' ! j) = PNI_ENTRY_TAIL"
  shows "linked es' (xs @ [i, j])"
  using assms
proof (induction xs)
  case (Cons x xs)
  then have "linked es (xs @ [i])" using linked_tl [of es x "xs @ [i]"] by simp
  then have "linked es' (xs @ [i, j])" using Cons by simp
  then show ?case using Cons.prems by (cases xs) auto
qed simp

lemma linked_cut:
  assumes "linked es (xs @ [i] @ ys)" "i \<notin> set xs" "\<And>x. x \<in> set xs \<Longrightarrow> es' ! x = es ! x" "entry_state (es' ! i) = PNI_ENTRY_TAIL"
  shows "linked es' (xs @ [i])"
  using assms
proof (induction xs)
  case (Cons x xs)
  then have "linked es (xs @ [i] @ ys)" using linked_tl [of es x "xs @ [i] @ ys"] by simp
  then have "linked es' (xs @ [i])" using Cons by simp
  then show ?case using Cons.prems by (cases xs) auto
qed simp

section \<open>Walking along a chain\<close>

lemma walk_linked:
  assumes "linked es (i # is)" "length is < n" "\<forall>j\<in>set (i # is). j < length es"
  shows "(\<exists>pre j post. i # is = pre @ j # post \<and> entry_key (es ! j) = Some key \<and> (\<forall>x\<in>set pre. entry_key (es ! x) \<noteq> Some key) \<and>
      walk n es key prev i = Some (True, j, if pre = [] then prev else Some (last pre))) \<or>
    (\<forall>j\<in>set (i # is). entry_key (es ! j) \<noteq> Some key) \<and> (\<exists>p. walk n es key prev i = Some (False, last (i # is), p))"
  using assms
proof (induction "is" arbitrary: i n prev)
  case Nil
  then obtain n' where "n = Suc n'" by (cases n) auto
  then show ?case
    using Nil.prems by (cases "entry_key (es ! i) = Some key") (auto intro!: exI [of _ "[]"] simp: Cons_eq_append_conv)
next
  case (Cons j js)
  then obtain n' where n: "n = Suc n'" by (cases n) auto
  show ?case
  proof (cases "entry_key (es ! i) = Some key")
    case True
    then show ?thesis using n Cons.prems by (intro disjI1 exI [of _ "[]"]) auto
  next
    case False
    have step: "walk n es key prev i = walk n' es key (Some i) j" using n False Cons.prems by simp
    have "linked es (j # js)" "length js < n'" "\<forall>k\<in>set (j # js). k < length es" using Cons.prems n by auto
    from Cons.IH [OF this, of "Some i"] show ?thesis
    proof (elim disjE exE conjE)
      fix pre k post
      assume p: "j # js = pre @ k # post" "entry_key (es ! k) = Some key" "\<forall>x\<in>set pre. entry_key (es ! x) \<noteq> Some key"
        "walk n' es key (Some i) j = Some (True, k, if pre = [] then Some i else Some (last pre))"
      then show ?thesis using step False by (intro disjI1 exI [of _ "i # pre"] exI [of _ k] exI [of _ post]) auto
    next
      fix p
      assume p: "\<forall>k\<in>set (j # js). entry_key (es ! k) \<noteq> Some key" "walk n' es key (Some i) j = Some (False, last (j # js), p)"
      then show ?thesis using step False by auto
    qed
  qed
qed

lemma chain_end_linked:
  "\<lbrakk>linked es (i # is); length is < n; \<forall>j\<in>set (i # is). j < length es\<rbrakk> \<Longrightarrow> chain_end n es i = Some (last (i # is))"
proof (induction "is" arbitrary: i n)
  case Nil
  then show ?case by (cases n) auto
next
  case (Cons j js)
  then show ?case by (cases n) auto
qed

declare walk.simps [simp del] and chain_end.simps [simp del]

section \<open>The map a table stands for\<close>

fun entries_map :: "('k, 'v) pni_entry list \<Rightarrow> ('k \<rightharpoonup> 'v option) \<Rightarrow> 'k \<rightharpoonup> 'v option" where
  "entries_map [] f = f"
| "entries_map (e # es) f = entries_map es (if used e then f(the (entry_key e) \<mapsto> entry_value e) else f)"

definition table_map :: "('k, 'v) pni_entry list \<Rightarrow> 'k \<rightharpoonup> 'v option" where
  "table_map es = entries_map es Map.empty"

definition holds :: "('k, 'v) pni_entry list \<Rightarrow> 'k \<Rightarrow> 'v option \<Rightarrow> bool" where
  "holds es k v \<longleftrightarrow> (\<exists>e\<in>set es. used e \<and> entry_key e = Some k \<and> entry_value e = v)"

lemma holds_nth:
  "holds es k v \<longleftrightarrow> (\<exists>i<length es. used (es ! i) \<and> entry_key (es ! i) = Some k \<and> entry_value (es ! i) = v)"
  unfolding holds_def by (metis in_set_conv_nth)

lemma table_keys_ok: "table m es cs pend \<Longrightarrow> keys_ok es"
  by (simp add: table_def)

lemma holds_Cons: "holds (e # es) k v \<longleftrightarrow> used e \<and> entry_key e = Some k \<and> entry_value e = v \<or> holds es k v"
  by (auto simp: holds_def)

lemma keys_ok_Cons:
  assumes "keys_ok (e # es)"
  shows "keys_ok es" "used e \<Longrightarrow> \<exists>k. entry_key e = Some k \<and> (\<forall>v. \<not> holds es k v)"
proof -
  have some: "entry_key ((e # es) ! i) \<noteq> None" if "i < Suc (length es)" "used ((e # es) ! i)" for i
    using assms that by (simp add: keys_ok_def)
  have inj: "i = j" if "i < Suc (length es)" "j < Suc (length es)" "used ((e # es) ! i)" "used ((e # es) ! j)"
    "entry_key ((e # es) ! i) = entry_key ((e # es) ! j)" for i j
    using assms that unfolding keys_ok_def length_Cons by blast
  have "i = j" if "i < length es" "j < length es" "used (es ! i)" "used (es ! j)" "entry_key (es ! i) = entry_key (es ! j)" for i j
    using inj [of "Suc i" "Suc j"] that by simp
  moreover have "entry_key (es ! i) \<noteq> None" if "i < length es" "used (es ! i)" for i
    using some [of "Suc i"] that by simp
  ultimately show "keys_ok es" unfolding keys_ok_def by blast
  assume u: "used e"
  then obtain k where k: "entry_key e = Some k" using some [of 0] by auto
  have "\<not> (used (es ! j) \<and> entry_key (es ! j) = Some k)" if "j < length es" for j
    using inj [of 0 "Suc j"] u k that by auto
  then show "\<exists>k. entry_key e = Some k \<and> (\<forall>v. \<not> holds es k v)" using k by (auto simp: holds_nth)
qed

lemma entries_map_iff:
  "keys_ok es \<Longrightarrow> entries_map es f k = Some v \<longleftrightarrow> holds es k v \<or> (\<forall>w. \<not> holds es k w) \<and> f k = Some v"
proof (induction es arbitrary: f)
  case Nil
  then show ?case by (simp add: holds_def)
next
  case (Cons e es)
  show ?case
  proof (cases "used e")
    case True
    with keys_ok_Cons [OF Cons.prems] obtain k' where "entry_key e = Some k'" "\<forall>v. \<not> holds es k' v" by blast
    with True keys_ok_Cons(1) [OF Cons.prems] show ?thesis by (auto simp: Cons.IH holds_Cons)
  next
    case False
    with keys_ok_Cons(1) [OF Cons.prems] show ?thesis by (auto simp: Cons.IH holds_Cons)
  qed
qed

lemma table_map_iff: "keys_ok es \<Longrightarrow> table_map es k = Some v \<longleftrightarrow> holds es k v"
  by (simp add: table_map_def entries_map_iff)

lemma table_map_eqI: "keys_ok es \<Longrightarrow> (\<And>k v. holds es k v \<longleftrightarrow> g k = Some v) \<Longrightarrow> table_map es = g"
  by (rule ext) (metis not_Some_eq table_map_iff)

lemma table_map_None: "keys_ok es \<Longrightarrow> table_map es k = None \<longleftrightarrow> (\<forall>i<length es. used (es ! i) \<longrightarrow> entry_key (es ! i) \<noteq> Some k)"
proof -
  assume ok: "keys_ok es"
  have "table_map es k = None \<longleftrightarrow> (\<forall>v. \<not> holds es k v)" using table_map_iff [OF ok] by (metis not_Some_eq)
  then show ?thesis by (auto simp: holds_nth)
qed

section \<open>Lookup\<close>

lemma chain_ok_cong:
  "(\<And>x. x \<in> set c \<Longrightarrow> entry_key (es' ! x) = entry_key (es ! x)) \<Longrightarrow> chain_ok m es' c = chain_ok m es c"
  by (auto simp: chain_ok_def home_of_def)

lemma chain_okD:
  assumes "chain_ok m es c"
  shows "\<lbrakk>0 < k; k < length c\<rbrakk> \<Longrightarrow> home_of m es (c ! k) \<in> set (take k c)" "c \<noteq> []" "home_of m es (hd c) = hd c"
  using assms by (auto simp: chain_ok_def)

lemma table_chain:
  assumes "table m es cs pend" "i \<in> set (concat cs)"
  obtains cs1 c cs2 pre post where "cs = cs1 @ c # cs2" "c = pre @ i # post"
proof -
  obtain c where "c \<in> set cs" "i \<in> set c" using assms(2) by auto
  then show thesis using that by (metis split_list)
qed

text \<open>The chain through the home slot of a key: the walk along it finds the key if it is in the table.\<close>

lemma chain_position:
  assumes "table m es cs []" "i < length es" "used (es ! i)" "entry_key (es ! i) = Some key"
  shows "\<exists>cs1 cs2 pre mid post. cs = cs1 @ (pre @ mid @ i # post) # cs2 \<and> hd (mid @ [i]) = home m key"
proof -
  note t = tableD [OF assms(1)]
  have "i \<in> set (concat cs)" using t(5) assms(2,3) by auto
  then obtain cs1 c cs2 pre post where c: "cs = cs1 @ c # cs2" "c = pre @ i # post" using table_chain [OF assms(1)] by metis
  have ok: "chain_ok m es c" using t(7) c by simp
  have h: "home_of m es i = home m key" using assms(4) by (simp add: home_of_def)
  show ?thesis
  proof (cases "pre = []")
    case True
    then have "home m key = i" using ok h c by (simp add: chain_ok_def)
    then have "cs = cs1 @ ([] @ [] @ i # post) # cs2 \<and> hd ([] @ [i]) = home m key" using c True by simp
    then show ?thesis by blast
  next
    case False
    have "home_of m es (c ! length pre) \<in> set (take (length pre) c)"
      using chain_okD(1) [OF ok, of "length pre"] c False by simp
    then have "home m key \<in> set pre" using h c by simp
    then obtain p1 p2 where "pre = p1 @ home m key # p2" by (metis split_list)
    then have "cs = cs1 @ (p1 @ (home m key # p2) @ i # post) # cs2 \<and> hd ((home m key # p2) @ [i]) = home m key" using c by simp
    then show ?thesis by blast
  qed
qed

lemma chain_facts:
  assumes "table m es cs pend" "c \<in> set cs"
  shows "distinct c" "\<And>j. j \<in> set c \<Longrightarrow> j < length es \<and> used (es ! j)" "length c \<le> map_capacity m"
proof -
  note t = tableD [OF assms(1)]
  obtain cs1 cs2 where "cs = cs1 @ c # cs2" using assms(2) by (metis split_list)
  then show d: "distinct c" using t(4) by simp
  show s: "j < length es \<and> used (es ! j)" if "j \<in> set c" for j using t(5) assms(2) that by fastforce
  have "card (set c) \<le> card {..<map_capacity m}" using s t(1) by (intro card_mono) auto
  then show "length c \<le> map_capacity m" using d by (simp add: distinct_card)
qed

lemma walk_found:
  assumes "table m es cs []" "i < length es" "used (es ! i)" "entry_key (es ! i) = Some key"
  shows "\<exists>cs1 cs2 pre post. cs = cs1 @ (pre @ i # post) # cs2 \<and> used (es ! home m key) \<and>
    walk (Suc (map_capacity m)) es key None (home m key) = Some (True, i, if pre = [] then None else Some (last pre))"
proof -
  obtain cs1 cs2 pre mid post where c: "cs = cs1 @ (pre @ mid @ i # post) # cs2" "hd (mid @ [i]) = home m key"
    using chain_position [OF assms] by blast
  let ?c = "pre @ mid @ i # post"
  have mem: "?c \<in> set cs" using c(1) by simp
  note facts = chain_facts [OF assms(1) mem] and ok = tableD(7) [OF assms(1) mem]
  obtain tl where suffix: "mid @ i # post = home m key # tl" using c(2) by (cases mid) auto
  have only: "j = i" if "j \<in> set ?c" "entry_key (es ! j) = Some key" for j
    using facts(2) [OF that(1)] tableD(12) [OF assms(1), of j i] assms(2-4) that(2) by simp
  have mid: "pre = []" if "mid = []"
  proof (rule ccontr)
    assume pre: "pre \<noteq> []"
    have "home_of m es (?c ! length pre) \<in> set (take (length pre) ?c)" using chain_okD(1) [OF ok, of "length pre"] pre by simp
    then have "home m key \<in> set pre" using that assms(4) by (simp add: home_of_def)
    then show False using facts(1) suffix that by auto
  qed
  have "linked es (home m key # tl)"
    using tableD(6) [OF assms(1) mem] suffix linked_append [of es pre "home m key" tl] by simp
  moreover have "length tl < Suc (map_capacity m)" using facts(3) arg_cong [OF suffix, of length] by simp
  moreover have sub: "set (home m key # tl) = set (mid @ i # post)" using arg_cong [OF suffix, of set] by (simp only:)
  then have "\<forall>j\<in>set (home m key # tl). j < length es" using facts(2) by auto
  ultimately have "(\<exists>q j post'. home m key # tl = q @ j # post' \<and> entry_key (es ! j) = Some key \<and> (\<forall>x\<in>set q. entry_key (es ! x) \<noteq> Some key) \<and>
      walk (Suc (map_capacity m)) es key None (home m key) = Some (True, j, if q = [] then None else Some (last q))) \<or>
    (\<forall>j\<in>set (home m key # tl). entry_key (es ! j) \<noteq> Some key)"
    using walk_linked [of es "home m key" tl "Suc (map_capacity m)" key None] by blast
  moreover have "i \<in> set (home m key # tl)" using sub by simp
  ultimately obtain q j post' where q: "home m key # tl = q @ j # post'" "entry_key (es ! j) = Some key"
    "walk (Suc (map_capacity m)) es key None (home m key) = Some (True, j, if q = [] then None else Some (last q))"
    using assms(4) by blast
  have "j \<in> set (home m key # tl)" unfolding q(1) by simp
  then have "j \<in> set (mid @ i # post)" unfolding sub .
  then have j: "j = i" using only [of j] q(2) by auto
  have "mid @ i # post = q @ i # post'" using suffix q(1) j by simp
  moreover have "i \<notin> set mid" "i \<notin> set post" using facts(1) by auto
  ultimately have q': "q = mid" using append_Cons_eq_iff [of i mid post q post'] by simp
  have "home m key \<in> set ?c" using sub by auto
  then have "used (es ! home m key)" using facts(2) by blast
  moreover have "(if q = [] then None else Some (last q)) = (if pre @ mid = [] then None else Some (last (pre @ mid)))"
    using q' mid by auto
  moreover have "cs = cs1 @ ((pre @ mid) @ i # post) # cs2" using c(1) by simp
  ultimately have "cs = cs1 @ ((pre @ mid) @ i # post) # cs2 \<and> used (es ! home m key) \<and>
    walk (Suc (map_capacity m)) es key None (home m key) = Some (True, i, if pre @ mid = [] then None else Some (last (pre @ mid)))"
    using q(3) j by simp
  then show ?thesis by blast
qed

lemma walk_missing:
  assumes "table m es cs []" "table_map es key = None" "used (es ! home m key)"
  shows "\<exists>cs1 cs2 c p. cs = cs1 @ c # cs2 \<and> home m key \<in> set c \<and>
    walk (Suc (map_capacity m)) es key None (home m key) = Some (False, last c, p)"
proof -
  have "home m key \<in> set (concat cs)" using tableD(5) [OF assms(1)] home_less [OF assms(1)] assms(3) by auto
  then obtain cs1 c cs2 pre post where c: "cs = cs1 @ c # cs2" "c = pre @ home m key # post" using table_chain [OF assms(1)] by metis
  have mem: "c \<in> set cs" using c(1) by simp
  note facts = chain_facts [OF assms(1) mem]
  have none: "entry_key (es ! j) \<noteq> Some key" if "j \<in> set c" for j
    using facts(2) [OF that] assms(2) table_map_None [OF table_keys_ok [OF assms(1)]] by blast
  have "linked es (home m key # post)" using tableD(6) [OF assms(1) mem] c(2) linked_append by metis
  moreover have "length post < Suc (map_capacity m)" using facts(3) c(2) by simp
  moreover have "\<forall>j\<in>set (home m key # post). j < length es" using facts(2) c(2) by auto
  ultimately have "(\<exists>q j post'. home m key # post = q @ j # post' \<and> entry_key (es ! j) = Some key) \<or>
    (\<exists>p. walk (Suc (map_capacity m)) es key None (home m key) = Some (False, last (home m key # post), p))"
    using walk_linked [of es "home m key" post "Suc (map_capacity m)" key None] by blast
  moreover have "\<not> (\<exists>q j post'. home m key # post = q @ j # post' \<and> entry_key (es ! j) = Some key)"
    using none c(2) by (metis Un_iff in_set_conv_decomp set_append)
  ultimately obtain p where "walk (Suc (map_capacity m)) es key None (home m key) = Some (False, last c, p)" using c(2) by auto
  moreover have "home m key \<in> set c" using c(2) by simp
  ultimately show ?thesis using c(1) by blast
qed

section \<open>Adding and removing an entry\<close>

definition tail_entry :: "'k \<Rightarrow> 'v option \<Rightarrow> ('k, 'v) pni_entry" where
  "tail_entry k v = \<lparr>entry_key = Some k, entry_value = v, entry_next = 0, entry_state = PNI_ENTRY_TAIL\<rparr>"

lemma tail_entry_simps [simp]:
  "entry_key (tail_entry k v) = Some k" "entry_value (tail_entry k v) = v" "entry_state (tail_entry k v) = PNI_ENTRY_TAIL"
  "entry_next (tail_entry k v) = 0" "used (tail_entry k v)" "\<not> used free_entry"
  by (simp_all add: tail_entry_def used_def free_entry_def)

text \<open>Changes of the links do not change the map.\<close>

definition same_content :: "('k, 'v) pni_entry \<Rightarrow> ('k, 'v) pni_entry \<Rightarrow> bool" where
  "same_content e e' \<longleftrightarrow> entry_key e' = entry_key e \<and> entry_value e' = entry_value e \<and> used e' = used e"

lemma same_content_refl [simp]: "same_content e e"
  by (simp add: same_content_def)

lemma keys_ok_same:
  "\<lbrakk>length es' = length es; \<forall>i<length es. same_content (es ! i) (es' ! i)\<rbrakk> \<Longrightarrow> keys_ok es' = keys_ok es"
  by (auto simp: keys_ok_def same_content_def)

lemma table_map_same:
  assumes "length es' = length es" "\<forall>i<length es. same_content (es ! i) (es' ! i)" "keys_ok es"
  shows "table_map es' = table_map es"
proof (rule table_map_eqI)
  show "keys_ok es'" using assms keys_ok_same by blast
  show "holds es' k v \<longleftrightarrow> table_map es k = Some v" for k v
    unfolding table_map_iff [OF assms(3)] holds_nth using assms(1,2) by (auto simp: same_content_def)
qed

lemma keys_ok_set:
  assumes "keys_ok es" "i < length es" "\<not> used (es ! i)" "table_map es k = None"
  shows "keys_ok (es[i := tail_entry k v])"
  using assms(1,2) table_map_None [OF assms(1), of k] assms(4) by (auto simp: keys_ok_def nth_list_update)

lemma table_map_set:
  assumes "keys_ok es" "i < length es" "\<not> used (es ! i)" "table_map es k = None"
  shows "table_map (es[i := tail_entry k v]) = (table_map es)(k \<mapsto> v)"
proof (rule table_map_eqI [OF keys_ok_set [OF assms]])
  fix k' v'
  have "holds (es[i := tail_entry k v]) k' v' \<longleftrightarrow> k' = k \<and> v' = v \<or> holds es k' v'"
    unfolding holds_nth using assms(2,3) by (auto simp: nth_list_update)
  moreover have "\<not> holds es k w" for w using assms(1,4) table_map_iff by (metis option.distinct(1))
  ultimately show "holds (es[i := tail_entry k v]) k' v' \<longleftrightarrow> ((table_map es)(k \<mapsto> v)) k' = Some v'"
    using table_map_iff [OF assms(1)] by auto
qed

lemma keys_ok_free: "keys_ok es \<Longrightarrow> i < length es \<Longrightarrow> keys_ok (es[i := free_entry])"
  by (auto simp: keys_ok_def nth_list_update split: if_splits)

lemma table_map_free:
  assumes "keys_ok es" "i < length es" "used (es ! i)" "entry_key (es ! i) = Some k"
  shows "table_map (es[i := free_entry]) = (table_map es)(k := None)"
proof (rule table_map_eqI [OF keys_ok_free [OF assms(1,2)]])
  fix k' v'
  have only: "j = i" if j: "j < length es" "used (es ! j)" "entry_key (es ! j) = Some k" for j
  proof -
    have "entry_key (es ! j) = entry_key (es ! i)" using j assms(4) by simp
    then show ?thesis using assms(1-3) j(1,2) unfolding keys_ok_def by blast
  qed
  have "holds (es[i := free_entry]) k' v' \<longleftrightarrow>
    (\<exists>j<length es. j \<noteq> i \<and> used (es ! j) \<and> entry_key (es ! j) = Some k' \<and> entry_value (es ! j) = v')"
    unfolding holds_nth using assms(2) by (auto simp: nth_list_update)
  also have "\<dots> \<longleftrightarrow> k' \<noteq> k \<and> holds es k' v'"
  proof (cases "k' = k")
    case True
    then show ?thesis using only by blast
  next
    case False
    then show ?thesis unfolding holds_nth using assms(4) by (metis option.inject)
  qed
  finally show "holds (es[i := free_entry]) k' v' \<longleftrightarrow> ((table_map es)(k := None)) k' = Some v'"
    using table_map_iff [OF assms(1)] by auto
qed

lemma used_update: "i < length es \<Longrightarrow> {j. j < length (es[i := e]) \<and> used (es[i := e] ! j)} =
    (if used e then insert i {j. j < length es \<and> used (es ! j)} else {j. j < length es \<and> used (es ! j)} - {i})"
  by (auto simp: nth_list_update)

lemma pend_cong:
  assumes "\<And>j. j \<in> set pend \<Longrightarrow> entry_key (es' ! j) = entry_key (es ! j)"
  shows "(\<forall>k<length pend. home_of m es' (pend ! k) \<notin> set (drop k pend)) = (\<forall>k<length pend. home_of m es (pend ! k) \<notin> set (drop k pend))"
  using assms by (simp add: home_of_def)

lemma table_add_home:
  assumes t: "table m es cs pend" and h: "home m k = h" "\<not> used (es ! h)" and k: "table_map es k = None"
  shows "table m (es[h := tail_entry k v]) ([h] # cs) pend" (is "table m ?es _ _")
proof -
  note t' = tableD [OF t]
  have h': "h < length es" using home_less [OF t, of k] h by simp
  have notin: "h \<notin> set (concat cs @ pend)" using t'(5) h(2) by auto
  have same: "?es ! j = es ! j" if "j \<in> set (concat cs @ pend)" for j
  proof -
    have "j \<noteq> h" using notin that by blast
    then show ?thesis by simp
  qed
  have "linked ?es c \<and> chain_ok m ?es c" if "c \<in> set cs" for c
  proof -
    have "?es ! j = es ! j" if "j \<in> set c" for j using same [of j] that \<open>c \<in> set cs\<close> by auto
    then show ?thesis using t'(6,7) [OF that] linked_cong [of c ?es es] chain_ok_cong [of c ?es es m] by simp
  qed
  moreover have "linked ?es pend" using t'(8) linked_cong [of pend ?es es] same by simp
  moreover have "linked ?es [h] \<and> chain_ok m ?es [h]" using h h' by (simp add: chain_ok_def home_of_def)
  moreover have "\<forall>k<length pend. home_of m ?es (pend ! k) \<notin> set (drop k pend)"
    using t'(9) pend_cong [of pend ?es es m] same by simp
  moreover have "distinct (concat ([h] # cs) @ pend)" using t'(4) notin by simp
  moreover have "set (concat ([h] # cs) @ pend) = {i. i < length ?es \<and> used (?es ! i)}"
    using t'(5) used_update [OF h', of "tail_entry k v"] by simp
  moreover have "\<forall>i<length ?es. \<not> used (?es ! i) \<longrightarrow> ?es ! i = free_entry" using t'(10) h' by (auto simp: nth_list_update)
  moreover have "keys_ok ?es" using keys_ok_set [OF table_keys_ok [OF t] h' h(2) k] .
  ultimately show ?thesis unfolding table_def using t'(1-3) by simp
qed

lemma table_add_chain:
  assumes t: "table m es (cs1 @ c # cs2) pend" and h: "home m k \<in> set c"
    and i: "i < length es" "\<not> used (es ! i)" and k: "table_map es k = None"
  shows "table m (es[last c := (es ! last c)\<lparr>entry_next := i, entry_state := PNI_ENTRY_LINK\<rparr>, i := tail_entry k v])
    (cs1 @ (c @ [i]) # cs2) pend" (is "table m ?es _ _")
    and "table_map (es[last c := (es ! last c)\<lparr>entry_next := i, entry_state := PNI_ENTRY_LINK\<rparr>, i := tail_entry k v]) =
      (table_map es)(k \<mapsto> v)"
proof -
  note t' = tableD [OF t]
  let ?l = "last c" and ?link = "(es ! last c)\<lparr>entry_next := i, entry_state := PNI_ENTRY_LINK\<rparr>"
  let ?es1 = "es[?l := ?link]"
  have c: "c \<in> set (cs1 @ c # cs2)" by simp
  have ne: "c \<noteq> []" using t'(7) [OF c] by (simp add: chain_ok_def)
  have l: "?l < length es" "used (es ! ?l)" using chain_facts(2) [OF t c, of ?l] ne by auto
  have li: "?l \<noteq> i" using l i by auto
  have notin: "i \<notin> set (concat (cs1 @ c # cs2) @ pend)" using t'(5) i(2) by blast
  have content: "\<forall>j<length es. same_content (es ! j) (?es1 ! j)" using l by (auto simp: nth_list_update same_content_def used_def)
  have ok1: "keys_ok ?es1" using keys_ok_same [of ?es1 es] content table_keys_ok [OF t] by simp
  have map1: "table_map ?es1 = table_map es" using table_map_same [of ?es1 es] content table_keys_ok [OF t] by simp
  have free: "\<not> used (?es1 ! i)" using li i by simp
  show "table_map ?es = (table_map es)(k \<mapsto> v)" using table_map_set [OF ok1 _ free, of k v] map1 k i by simp
  have neq: "j \<noteq> i" if "j \<in> set (concat (cs1 @ c # cs2) @ pend)" for j using notin that by blast
  have same: "?es ! j = es ! j" if "j \<in> set (concat (cs1 @ c # cs2) @ pend)" "j \<noteq> ?l" for j
    using neq [OF that(1)] that(2) by simp
  have key: "entry_key (?es ! j) = entry_key (es ! j)" if "j \<in> set (concat (cs1 @ c # cs2) @ pend)" for j
    using neq [OF that] l by (simp add: nth_list_update)
  have other: "linked ?es d \<and> chain_ok m ?es d" if "d \<in> set (cs1 @ cs2)" for d
  proof -
    have d: "d \<in> set (cs1 @ c # cs2)" using that by auto
    have nl: "?l \<notin> set d" using t'(4) that ne by (auto dest: last_in_set)
    have eq: "?es ! j = es ! j" if "j \<in> set d" for j
    proof (rule same)
      show "j \<in> set (concat (cs1 @ c # cs2) @ pend)" using that d by auto
      show "j \<noteq> ?l" using that nl by blast
    qed
    have "linked ?es d = linked es d" using eq by (rule linked_cong)
    moreover have "chain_ok m ?es d = chain_ok m es d" using eq by (intro chain_ok_cong) simp
    ultimately show ?thesis using t'(6,7) [OF d] by simp
  qed
  have inc: "j \<in> set (concat (cs1 @ c # cs2) @ pend)" if "j \<in> set c" for j using that by simp
  obtain xs z where xs: "c = xs @ [z]" using ne by (cases c rule: rev_cases) auto
  have lz: "last c = z" using xs by simp
  have z: "z \<notin> set xs" "z < length es" "z \<noteq> i" using chain_facts(1) [OF t c] l(1) li unfolding lz xs by auto
  have "linked ?es (xs @ [z, i])"
  proof (rule linked_snoc)
    show "linked es (xs @ [z])" using t'(6) [OF c] unfolding xs .
    show "z \<notin> set xs" by fact
    show "i \<notin> set (xs @ [z])" using notin unfolding xs by simp
    show "?es ! x = es ! x" if x: "x \<in> set xs" for x
    proof (rule same)
      show "x \<in> set (concat (cs1 @ c # cs2) @ pend)" by (rule inc) (simp add: xs x)
      show "x \<noteq> last c" unfolding lz using x z(1) by blast
    qed
    show "entry_state (?es ! z) = PNI_ENTRY_LINK" "entry_next (?es ! z) = i" using z(2,3) unfolding lz by simp_all
    show "entry_state (?es ! i) = PNI_ENTRY_TAIL" using i(1) by simp
  qed
  then have "linked ?es (c @ [i])" unfolding xs by simp
  moreover have "chain_ok m ?es (c @ [i])"
    unfolding chain_ok_def
  proof (intro conjI allI impI)
    show "home_of m ?es (hd (c @ [i])) = hd (c @ [i])"
      using chain_okD(3) [OF t'(7) [OF c]] key [OF inc, of "hd c"] ne by (simp add: home_of_def)
    fix n assume n: "0 < n" "n < length (c @ [i])"
    show "home_of m ?es ((c @ [i]) ! n) \<in> set (take n (c @ [i]))"
    proof (cases "n < length c")
      case True
      then show ?thesis
        using chain_okD(1) [OF t'(7) [OF c] n(1) True] key [OF inc, of "c ! n"] by (simp add: home_of_def nth_append)
    next
      case False
      then have "n = length c" using n by simp
      then show ?thesis using h i by (simp add: home_of_def)
    qed
  qed simp
  moreover have "linked ?es pend"
  proof -
    have "?l \<notin> set pend" using t'(4) ne by (auto dest: last_in_set)
    then have "?es ! j = es ! j" if "j \<in> set pend" for j using same [of j] that by auto
    then show ?thesis using t'(8) linked_cong [of pend ?es es] by blast
  qed
  moreover have "\<forall>k<length pend. home_of m ?es (pend ! k) \<notin> set (drop k pend)"
    using t'(9) pend_cong [of pend ?es es m] key by simp
  moreover have "distinct (concat (cs1 @ (c @ [i]) # cs2) @ pend)" using t'(4) notin by auto
  moreover have "{j. j < length ?es \<and> used (?es ! j)} = insert i {j. j < length es \<and> used (es ! j)}"
    using used_update [of i ?es1 "tail_entry k v"] used_update [OF l(1), of ?link] i l by (auto simp: used_def)
  then have "set (concat (cs1 @ (c @ [i]) # cs2) @ pend) = {j. j < length ?es \<and> used (?es ! j)}"
    using t'(5) by auto
  moreover have "\<forall>j<length ?es. \<not> used (?es ! j) \<longrightarrow> ?es ! j = free_entry"
    using t'(10) l(1) i(1) by (auto simp: nth_list_update used_def)
  moreover have "keys_ok ?es" using keys_ok_set [OF ok1 _ free, of k v] map1 k i by simp
  ultimately show "table m ?es (cs1 @ (c @ [i]) # cs2) pend"
    unfolding table_def using t'(1-3) other by auto
qed

text \<open>The first pending entry is taken out.\<close>

lemma table_remove_pending:
  assumes t: "table m es cs (i # pend)"
  shows "table m (es[i := free_entry]) cs pend" (is "table m ?es _ _")
proof -
  note t' = tableD [OF t]
  have i: "i < length es" "used (es ! i)" using t'(5) by auto
  have same: "?es ! j = es ! j" if "j \<in> set (concat cs @ pend)" for j
  proof -
    have "j \<noteq> i" using t'(4) that by auto
    then show ?thesis by simp
  qed
  have "linked ?es c \<and> chain_ok m ?es c" if "c \<in> set cs" for c
  proof -
    have eq: "?es ! j = es ! j" if "j \<in> set c" for j using same [of j] that \<open>c \<in> set cs\<close> by auto
    have "linked ?es c = linked es c" using eq by (rule linked_cong)
    moreover have "chain_ok m ?es c = chain_ok m es c" using eq by (intro chain_ok_cong) simp
    ultimately show ?thesis using t'(6,7) [OF that] by simp
  qed
  moreover have "linked ?es pend" using linked_tl [OF t'(8)] linked_cong [of pend ?es es] same by simp
  moreover have "\<forall>k<length pend. home_of m es (pend ! k) \<notin> set (drop k pend)"
    using t'(9) by (metis drop_Suc_Cons length_Cons not_less_eq nth_Cons_Suc)
  then have "\<forall>k<length pend. home_of m ?es (pend ! k) \<notin> set (drop k pend)"
    using pend_cong [of pend ?es es m] same by simp
  moreover have "distinct (concat cs @ pend)" using t'(4) by simp
  moreover have "set (concat cs @ pend) = {j. j < length es \<and> used (es ! j)} - {i}" using t'(4) t'(5) [symmetric] by auto
  then have "set (concat cs @ pend) = {j. j < length ?es \<and> used (?es ! j)}"
    using used_update [OF i(1), of free_entry] by simp
  moreover have "\<forall>j<length ?es. \<not> used (?es ! j) \<longrightarrow> ?es ! j = free_entry" using t'(10) i(1) by (auto simp: nth_list_update)
  moreover have "keys_ok ?es" using keys_ok_free [OF table_keys_ok [OF t] i(1)] .
  ultimately show ?thesis unfolding table_def using t'(1-3) by simp
qed

lemma link_order: "e\<lparr>entry_next := i, entry_state := x\<rparr> = e\<lparr>entry_state := x, entry_next := i\<rparr>"
  by simp

text \<open>One iteration of \<open>pni_map_rehash\<close> moves the first pending entry into the chains.\<close>

lemma rehash_entry_table:
  assumes t: "table m es cs (i # pend)"
  shows "\<exists>es' cs'. rehash_entry m i es = Some es' \<and> table m es' cs' pend \<and> table_map es' = table_map es \<and>
    length (concat cs') = Suc (length (concat cs))"
proof -
  note t' = tableD [OF t]
  have i: "i < length es" "used (es ! i)" using t'(5) by auto
  obtain k where k: "entry_key (es ! i) = Some k" using t'(11) [OF i] by blast
  let ?h = "home m k" and ?v = "entry_value (es ! i)" and ?es1 = "es[i := free_entry]"
  have t1: "table m ?es1 cs pend" using table_remove_pending [OF t] .
  have map1: "table_map ?es1 = (table_map es)(k := None)" using table_map_free [OF table_keys_ok [OF t] i k] .
  have stored: "(table_map es)(k \<mapsto> ?v) = table_map es"
    using table_map_iff [OF table_keys_ok [OF t], of k ?v] i k by (auto simp: holds_nth)
  have hl: "?h < length es" using home_less [OF t] .
  have "?h \<notin> set (drop 0 (i # pend))" using t'(9) [of 0] k by (simp add: home_of_def)
  then have hi: "?h \<noteq> i" "?h \<notin> set pend" by auto
  show ?thesis
  proof (cases "used (es ! ?h)")
    case False
    let ?es = "?es1[?h := tail_entry k ?v]"
    have "es ! ?h = free_entry" using t'(10) [OF hl False] .
    then have "rehash_entry m i es = Some ?es"
      using k False hi by (simp add: rehash_entry_def used_def tail_entry_def free_entry_def list_update_swap)
    moreover have free: "\<not> used (?es1 ! ?h)" using False hi by simp
    moreover have "table m ?es ([?h] # cs) pend" using table_add_home [OF t1 refl free] map1 by simp
    moreover have "table_map ?es = table_map es"
      using table_map_set [OF table_keys_ok [OF t1] _ free, of k ?v] map1 stored hl by simp
    ultimately show ?thesis by (intro exI [of _ ?es] exI [of _ "[?h] # cs"]) simp
  next
    case True
    have "?h \<in> set (concat cs)" using t'(5) hl True hi by auto
    then obtain cs1 c cs2 pre post where c: "cs = cs1 @ c # cs2" "c = pre @ ?h # post" using table_chain [OF t] by metis
    have mem: "c \<in> set cs" using c(1) by simp
    note facts = chain_facts [OF t mem]
    have "linked es (?h # post)" using t'(6) [OF mem] c(2) linked_append by metis
    then have ce: "chain_end (Suc (map_capacity m)) es ?h = Some (last c)"
      using chain_end_linked [of es ?h post] facts(2,3) c(2) by auto
    have l: "last c \<in> set c" using c(2) by simp
    have li: "last c \<noteq> i"
    proof
      assume "last c = i"
      then have "i \<in> set (concat cs)" using l mem by auto
      then show False using t'(4) by auto
    qed
    let ?es = "?es1[last c := (?es1 ! last c)\<lparr>entry_next := i, entry_state := PNI_ENTRY_LINK\<rparr>, i := tail_entry k ?v]"
    have tail: "(es ! i)\<lparr>entry_state := PNI_ENTRY_TAIL, entry_next := 0\<rparr> = tail_entry k ?v" using k by (simp add: tail_entry_def)
    have swap: "?es = es[last c := (es ! last c)\<lparr>entry_state := PNI_ENTRY_LINK, entry_next := i\<rparr>, i := tail_entry k ?v]"
      using li by (subst link_order) (simp add: list_update_swap)
    have "rehash_entry m i es =
      Some (es[last c := (es ! last c)\<lparr>entry_state := PNI_ENTRY_LINK, entry_next := i\<rparr>,
               i := (es ! i)\<lparr>entry_state := PNI_ENTRY_TAIL, entry_next := 0\<rparr>])"
      using k True ce li by (simp add: rehash_entry_def used_def Let_def)
    then have "rehash_entry m i es = Some ?es" unfolding tail swap .
    moreover have h: "?h \<in> set c" using c(2) by simp
    moreover have free: "\<not> used (?es1 ! i)" "i < length ?es1" using i by simp_all
    moreover have "table_map ?es1 k = None" using map1 by simp
    ultimately have "rehash_entry m i es = Some ?es \<and> table m ?es (cs1 @ (c @ [i]) # cs2) pend \<and> table_map ?es = table_map es"
      using table_add_chain [of m ?es1 cs1 c cs2 pend k i ?v] t1 map1 stored c(1) by simp
    moreover have "length (concat (cs1 @ (c @ [i]) # cs2)) = Suc (length (concat cs))" using c(1) by simp
    ultimately show ?thesis by blast
  qed
qed

lemma rehash_loop_table:
  "\<lbrakk>table m es cs (i # pend); length pend < n\<rbrakk> \<Longrightarrow>
   \<exists>es' cs'. rehash_loop n m i es = Some es' \<and> table m es' cs' [] \<and> table_map es' = table_map es \<and>
     length (concat cs') = length (concat cs) + Suc (length pend)"
proof (induction n arbitrary: es cs i pend)
  case (Suc n)
  note t' = tableD [OF Suc.prems(1)]
  have i: "i < length es" "used (es ! i)" using t'(5) by auto
  obtain es1 cs1 where es1: "rehash_entry m i es = Some es1" "table m es1 cs1 pend" "table_map es1 = table_map es"
    "length (concat cs1) = Suc (length (concat cs))" using rehash_entry_table [OF Suc.prems(1)] by blast
  show ?case
  proof (cases pend)
    case Nil
    then have "entry_state (es ! i) = PNI_ENTRY_TAIL" using t'(8) by simp
    then have "rehash_loop (Suc n) m i es = Some es1" using i es1(1) by (simp add: used_def)
    then show ?thesis using es1 Nil by auto
  next
    case (Cons j js)
    then have "entry_state (es ! i) = PNI_ENTRY_LINK" "entry_next (es ! i) = j" using t'(8) by auto
    then have step: "rehash_loop (Suc n) m i es = rehash_loop n m j es1" using i es1(1) by (simp add: used_def)
    have "length js < n" using Suc.prems(2) Cons by simp
    from Suc.IH [OF es1(2) [unfolded Cons] this] show ?thesis using step es1(3,4) Cons by auto
  qed
qed simp

text \<open>Cutting a chain at an entry: what follows it becomes pending.\<close>

lemma table_cut:
  assumes t: "table m es (cs1 @ (pre @ i # post) # cs2) []"
  defines "es0 \<equiv> (if pre = [] then es else es[last pre := (es ! last pre)\<lparr>entry_next := 0, entry_state := PNI_ENTRY_TAIL\<rparr>])"
  shows "table m (es0[i := free_entry]) (cs1 @ (if pre = [] then [] else [pre]) @ cs2) post" (is "table m ?es ?cs _")
    and "table_map (es0[i := free_entry]) = (table_map es)(the (entry_key (es ! i)) := None)"
proof -
  note t' = tableD [OF t]
  let ?c = "pre @ i # post"
  have c: "?c \<in> set (cs1 @ ?c # cs2)" by simp
  note facts = chain_facts [OF t c]
  have i: "i < length es" "used (es ! i)" using facts(2) [of i] by auto
  obtain k where k: "entry_key (es ! i) = Some k" using t'(11) [OF i] by blast
  have lp: "last pre < length es" "used (es ! last pre)" "last pre \<noteq> i" "last pre \<in> set pre" if "pre \<noteq> []"
  proof -
    show "last pre \<in> set pre" using that by simp
    then show "last pre < length es" "used (es ! last pre)" "last pre \<noteq> i" using facts(1,2) by auto
  qed
  have len: "length es0 = length es" by (simp add: es0_def)
  have content: "\<forall>j<length es. same_content (es ! j) (es0 ! j)"
    using lp by (auto simp: es0_def nth_list_update same_content_def used_def)
  have ok0: "keys_ok es0" using keys_ok_same [OF len content] table_keys_ok [OF t] by simp
  have i0: "es0 ! i = es ! i" using lp(3) by (simp add: es0_def)
  show "table_map ?es = (table_map es)(the (entry_key (es ! i)) := None)"
    using table_map_free [OF ok0, of i k] table_map_same [OF len content table_keys_ok [OF t]] i i0 k len by simp
  have neq: "j \<noteq> i" if "j \<in> set (concat ?cs @ post)" for j using t'(4) that by (auto split: if_splits)
  have key: "entry_key (?es ! j) = entry_key (es ! j)" if "j \<in> set (concat ?cs @ post)" for j
    using neq [OF that] lp(1) by (simp add: es0_def nth_list_update)
  have same: "?es ! j = es ! j" if "j \<in> set (concat ?cs @ post)" "pre = [] \<or> j \<noteq> last pre" for j
    using neq [OF that(1)] that(2) by (auto simp: es0_def)
  have lastpre: "last pre \<notin> set d" if "pre \<noteq> []" "d \<in> set (cs1 @ cs2) \<or> d = post" for d
    using t'(4) lp(4) [OF that(1)] that(2) by auto
  have other: "linked ?es d \<and> chain_ok m ?es d" if d: "d \<in> set (cs1 @ cs2)" for d
  proof -
    have eq: "?es ! j = es ! j" if "j \<in> set d" for j
      by (rule same) (use that d lastpre [of d] in auto)
    have "linked ?es d = linked es d" using eq by (rule linked_cong)
    moreover have "chain_ok m ?es d = chain_ok m es d" using eq by (intro chain_ok_cong) simp
    ultimately show ?thesis using t'(6,7) [of d] d by auto
  qed
  have first: "linked ?es pre \<and> chain_ok m ?es pre" if ne: "pre \<noteq> []"
  proof
    obtain xs z where xs: "pre = xs @ [z]" using ne by (cases pre rule: rev_cases) auto
    have "linked ?es (xs @ [z])"
    proof (rule linked_cut)
      show "linked es (xs @ [z] @ i # post)" using t'(6) [OF c] xs by simp
      show "z \<notin> set xs" using facts(1) xs by auto
      show "?es ! x = es ! x" if "x \<in> set xs" for x
        by (rule same) (use that xs \<open>z \<notin> set xs\<close> in auto)
      show "entry_state (?es ! z) = PNI_ENTRY_TAIL" using lp(1,3) [OF ne] xs by (simp add: es0_def)
    qed
    then show "linked ?es pre" using xs by simp
    have "home_of m es (hd pre) = hd pre" using chain_okD(3) [OF t'(7) [OF c]] ne by simp
    moreover have "home_of m es (pre ! n) \<in> set (take n pre)" if "0 < n" "n < length pre" for n
      using chain_okD(1) [OF t'(7) [OF c], of n] that by (simp add: nth_append)
    ultimately have "chain_ok m es pre" using ne by (simp add: chain_ok_def)
    then show "chain_ok m ?es pre" using key ne by (subst chain_ok_cong [of pre ?es es]) auto
  qed
  have "?es ! j = es ! j" if "j \<in> set post" for j
    by (rule same) (use that lastpre [of post] in auto)
  then have "linked ?es post"
    using linked_tl [OF linked_append [OF t'(6) [OF c]]] linked_cong [of post ?es es] by blast
  moreover have "home_of m es (post ! n) \<notin> set (drop n post)" if "n < length post" for n
  proof -
    have "home_of m es (post ! n) \<in> set (pre @ i # take n post)"
      using chain_okD(1) [OF t'(7) [OF c], of "length pre + Suc n"] that by (simp add: nth_append)
    moreover have "set (pre @ i # take n post) \<inter> set (drop n post) = {}"
      using facts(1) set_take_disj_set_drop_if_distinct [of post n n] set_drop_subset [of n post] by auto
    ultimately show ?thesis by blast
  qed
  then have "\<forall>n<length post. home_of m ?es (post ! n) \<notin> set (drop n post)"
    using pend_cong [of post ?es es m] key by simp
  moreover have "distinct (concat ?cs @ post)" using t'(4) by auto
  moreover have "{j. j < length es0 \<and> used (es0 ! j)} = {j. j < length es \<and> used (es ! j)}"
    using content len by (auto simp: same_content_def)
  then have "{j. j < length ?es \<and> used (?es ! j)} = set (concat (cs1 @ ?c # cs2)) - {i}"
    using used_update [of i es0 free_entry] i len t'(5) by auto
  then have "set (concat ?cs @ post) = {j. j < length ?es \<and> used (?es ! j)}" using t'(4) by auto
  moreover have "\<forall>j<length ?es. \<not> used (?es ! j) \<longrightarrow> ?es ! j = free_entry"
    using t'(10) i lp(1) by (auto simp: es0_def nth_list_update used_def)
  moreover have "keys_ok ?es" using keys_ok_free [OF ok0] i len by simp
  ultimately show "table m ?es ?cs post"
    unfolding table_def using t'(1-3) other first len by auto
qed

section \<open>The operations\<close>

definition map_ok :: "('k, 'v) pn_map \<Rightarrow> bool" where
  "map_ok m \<longleftrightarrow> (\<exists>cs. table m (map_entries m) cs [] \<and> map_size m = length (concat cs)) \<and> 0 < map_load_num m"

definition map_abs :: "('k, 'v) pn_map \<Rightarrow> 'k \<rightharpoonup> 'v option" where
  "map_abs m = table_map (map_entries m)"

lemma table_cong:
  "\<lbrakk>map_capacity m' = map_capacity m; map_addressable m' = map_addressable m; map_hashcode m' = map_hashcode m\<rbrakk> \<Longrightarrow>
   table m' = table m"
  by (auto simp: table_def chain_ok_def home_of_def home_def fun_eq_iff)

lemma map_okE:
  assumes "map_ok m"
  obtains cs where "table m (map_entries m) cs []" "map_size m = length (concat cs)" "0 < map_load_num m"
  using assms by (auto simp: map_ok_def)

lemma map_okI:
  "\<lbrakk>table m (map_entries m') cs []; map_size m' = length (concat cs); 0 < map_load_num m';
    map_capacity m' = map_capacity m; map_addressable m' = map_addressable m; map_hashcode m' = map_hashcode m\<rbrakk> \<Longrightarrow> map_ok m'"
  unfolding map_ok_def using table_cong [of m' m] by metis

lemma find_empty:
  "\<exists>i<n. entry_state (es ! i) = PNI_ENTRY_FREE \<Longrightarrow> find_empty es n < n \<and> entry_state (es ! find_empty es n) = PNI_ENTRY_FREE"
  by (induction n) (auto simp: less_Suc_eq)

lemma free_slot:
  assumes "table m es cs []" "length (concat cs) < map_capacity m"
  shows "\<exists>i<map_capacity m. entry_state (es ! i) = PNI_ENTRY_FREE"
proof (rule ccontr)
  assume "\<not> ?thesis"
  then have "{..<map_capacity m} \<subseteq> set (concat cs)" using tableD(1,5) [OF assms(1)] by (auto simp: used_def)
  then have "map_capacity m \<le> card (set (concat cs))" using card_mono [OF finite_set, of "{..<map_capacity m}" "concat cs"] by simp
  then show False using assms(2) card_length [of "concat cs"] by linarith
qed

text \<open>Looking up an entry.\<close>

lemma map_entry_lookup:
  assumes "map_ok m"
  shows "case map_abs m key of
      None \<Rightarrow> map_entry (Suc n) m key False = Some (None, None, m)
    | Some v \<Rightarrow> \<exists>i cs1 cs2 pre post. table m (map_entries m) (cs1 @ (pre @ i # post) # cs2) [] \<and>
        map_size m = length (concat (cs1 @ (pre @ i # post) # cs2)) \<and>
        entry_key (map_entries m ! i) = Some key \<and> entry_value (map_entries m ! i) = v \<and> i < length (map_entries m) \<and>
        (\<forall>create. map_entry (Suc n) m key create = Some (Some i, if pre = [] then None else Some (last pre), m))"
proof -
  obtain cs where t: "table m (map_entries m) cs []" "map_size m = length (concat cs)" using assms by (rule map_okE)
  note ok = table_keys_ok [OF t(1)]
  show ?thesis
  proof (cases "map_abs m key")
    case None
    then have none: "table_map (map_entries m) key = None" by (simp add: map_abs_def)
    have "map_entry (Suc n) m key False = Some (None, None, m)"
    proof (cases "used (map_entries m ! home m key)")
      case True
      then show ?thesis using walk_missing [OF t(1) none True] by (auto simp: used_def)
    qed (simp add: used_def)
    then show ?thesis using None by simp
  next
    case (Some v)
    then obtain i where i: "i < length (map_entries m)" "used (map_entries m ! i)" "entry_key (map_entries m ! i) = Some key"
      "entry_value (map_entries m ! i) = v"
      using table_map_iff [OF ok] by (auto simp: map_abs_def holds_nth)
    from walk_found [OF t(1) i(1-3)] obtain cs1 cs2 pre post where
      w: "cs = cs1 @ (pre @ i # post) # cs2" "used (map_entries m ! home m key)"
        "walk (Suc (map_capacity m)) (map_entries m) key None (home m key) = Some (True, i, if pre = [] then None else Some (last pre))"
      by blast
    then have "map_entry (Suc n) m key create = Some (Some i, if pre = [] then None else Some (last pre), m)" for create
      by (simp add: used_def)
    then show ?thesis using i t [unfolded w(1)] unfolding Some option.case by blast
  qed
qed

definition roomy :: "('k, 'v) pn_map \<Rightarrow> bool" where
  "roomy m \<longleftrightarrow> map_size m + 1 \<le> map_capacity m \<and> \<not> over_load m"

definition same_shape :: "('k, 'v) pn_map \<Rightarrow> ('k, 'v) pn_map \<Rightarrow> bool" where
  "same_shape m m' \<longleftrightarrow> map_capacity m' = map_capacity m \<and> map_addressable m' = map_addressable m \<and>
     map_hashcode m' = map_hashcode m \<and> map_load_num m' = map_load_num m \<and> map_load_den m' = map_load_den m"

text \<open>Creating an entry when the table need not grow.\<close>

lemma map_entry_create:
  assumes "map_ok m" "map_abs m key = None" "roomy m"
  shows "\<exists>i prev m'. map_entry (Suc (Suc n)) m key True = Some (Some i, prev, m') \<and> map_ok m' \<and> same_shape m m' \<and>
    map_abs m' = (map_abs m)(key \<mapsto> None) \<and> map_size m' = map_size m + 1 \<and> i < length (map_entries m') \<and>
    used (map_entries m' ! i) \<and> entry_key (map_entries m' ! i) = Some key"
proof -
  obtain cs where t: "table m (map_entries m) cs []" "map_size m = length (concat cs)" "0 < map_load_num m" using assms(1) by (rule map_okE)
  note ok = table_keys_ok [OF t(1)]
  let ?es = "map_entries m" and ?h = "home m key"
  have none: "table_map ?es key = None" using assms(2) by (simp add: map_abs_def)
  show ?thesis
  proof (cases "used (?es ! ?h)")
    case False
    have hl: "?h < length ?es" using home_less [OF t(1)] .
    have "?es ! ?h = free_entry" using tableD(10) [OF t(1) hl False] .
    then have use: "use_entry ?h key ?es = ?es[?h := tail_entry key None]"
      by (simp add: use_entry_def free_entry_def tail_entry_def)
    let ?m = "m\<lparr>map_entries := ?es[?h := tail_entry key None], map_size := map_size m + 1\<rparr>"
    have "map_entry (Suc (Suc n)) m key True = Some (Some ?h, None, ?m)" using False use by (simp add: used_def)
    moreover have "map_ok ?m"
      using table_add_home [OF t(1) refl False none, of None] t(2,3) by (intro map_okI [of m _ "[?h] # cs"]) auto
    moreover have "map_abs ?m = (map_abs m)(key \<mapsto> None)"
      using table_map_set [OF ok hl False none] by (simp add: map_abs_def)
    ultimately show ?thesis using hl by (intro exI [of _ ?h] exI [of _ None] exI [of _ ?m]) (simp add: same_shape_def)
  next
    case True
    from walk_missing [OF t(1) none True] obtain cs1 cs2 c p where
      w: "cs = cs1 @ c # cs2" "?h \<in> set c" "walk (Suc (map_capacity m)) ?es key None ?h = Some (False, last c, p)" by blast
    let ?i = "find_empty ?es (map_capacity m)"
    have len: "length ?es = map_capacity m" using tableD(1) [OF t(1)] .
    have i: "?i < length ?es" "\<not> used (?es ! ?i)"
      using find_empty [OF free_slot [OF t(1)]] assms(3) t(2) len by (auto simp: roomy_def used_def)
    let ?es1 = "?es[last c := (?es ! last c)\<lparr>entry_next := ?i, entry_state := PNI_ENTRY_LINK\<rparr>]"
    have "last c \<in> set c" using w(2) by (metis empty_iff last_in_set list.set(1))
    then have "used (?es ! last c)" using chain_facts(2) [OF t(1)] w(1) by auto
    then have li: "last c \<noteq> ?i" using i(2) by auto
    then have "?es1 ! ?i = free_entry" using tableD(10) [OF t(1) i] by simp
    then have use: "use_entry ?i key ?es1 = ?es1[?i := tail_entry key None]"
      by (simp add: use_entry_def free_entry_def tail_entry_def)
    let ?m = "m\<lparr>map_entries := ?es1[?i := tail_entry key None], map_size := map_size m + 1\<rparr>"
    have "map_ensure (Suc n) m (map_size m + 1) = Some (False, m)" using assms(3) by (simp add: roomy_def)
    then have "map_entry (Suc (Suc n)) m key True = Some (Some ?i, Some (last c), ?m)"
      using True w(3) use by (simp add: used_def Let_def)
    moreover note add = table_add_chain [OF t(1) [unfolded w(1)] w(2) i none, of None]
    have "map_ok ?m" using add(1) t(2,3) w(1) by (intro map_okI [of m _ "cs1 @ (c @ [?i]) # cs2"]) auto
    moreover have "map_abs ?m = (map_abs m)(key \<mapsto> None)" using add(2) by (simp add: map_abs_def)
    ultimately show ?thesis
      using i(1) by (intro exI [of _ ?i] exI [of _ "Some (last c)"] exI [of _ ?m]) (simp add: same_shape_def)
  qed
qed

text \<open>Storing the value.\<close>

lemma linked_state_cong:
  "(\<And>i. i \<in> set is \<Longrightarrow> entry_state (es' ! i) = entry_state (es ! i) \<and> entry_next (es' ! i) = entry_next (es ! i)) \<Longrightarrow>
   linked es' is = linked es is"
  by (induction es "is" rule: linked.induct) auto

lemma table_set_value:
  assumes t: "table m es cs []" and i: "i < length es" "used (es ! i)" "entry_key (es ! i) = Some key"
  shows "table m (es[i := (es ! i)\<lparr>entry_value := v\<rparr>]) cs []" (is "table m ?es _ _")
    and "table_map (es[i := (es ! i)\<lparr>entry_value := v\<rparr>]) = (table_map es)(key \<mapsto> v)"
proof -
  note t' = tableD [OF t]
  have nth: "entry_key (?es ! j) = entry_key (es ! j)" "entry_state (?es ! j) = entry_state (es ! j)"
    "entry_next (?es ! j) = entry_next (es ! j)" "used (?es ! j) = used (es ! j)" for j
    using i by (auto simp: nth_list_update used_def)
  have val: "entry_value (?es ! j) = (if j = i then v else entry_value (es ! j))" for j using i(1) by (simp add: nth_list_update)
  have keys: "keys_ok ?es" using table_keys_ok [OF t] by (simp add: keys_ok_def nth)
  have "linked ?es c = linked es c" "chain_ok m ?es c = chain_ok m es c" for c
    using linked_state_cong [of c ?es es] chain_ok_cong [of c ?es es m] nth by simp_all
  moreover have "\<forall>j<length ?es. \<not> used (?es ! j) \<longrightarrow> ?es ! j = free_entry" using t'(10) i by (auto simp: nth_list_update used_def)
  ultimately show "table m ?es cs []" using t keys unfolding table_def by (simp add: nth)
  show "table_map ?es = (table_map es)(key \<mapsto> v)"
  proof (rule table_map_eqI [OF keys])
    fix k' v'
    have only: "j = i" if j: "j < length es" "used (es ! j)" "entry_key (es ! j) = Some key" for j
      using t'(12) [of j i] i j by simp
    have "holds ?es k' v' \<longleftrightarrow> (\<exists>j<length es. used (es ! j) \<and> entry_key (es ! j) = Some k' \<and> (if j = i then v else entry_value (es ! j)) = v')"
      unfolding holds_nth by (simp add: nth val)
    also have "\<dots> \<longleftrightarrow> (if k' = key then v' = v else holds es k' v')"
    proof (cases "k' = key")
      case True
      then show ?thesis using i by (auto dest: only)
    next
      case False
      then have "entry_key (es ! j) = Some k' \<Longrightarrow> j \<noteq> i" for j using i(3) by auto
      then show ?thesis unfolding holds_nth using False by auto
    qed
    finally show "holds ?es k' v' \<longleftrightarrow> ((table_map es)(key \<mapsto> v)) k' = Some v'"
      using table_map_iff [OF table_keys_ok [OF t]] by auto
  qed
qed

lemma map_put_stored:
  assumes "map_ok m" "map_abs m key = Some w"
  shows "\<exists>m'. map_put (Suc (Suc n)) m key v = Some m' \<and> map_ok m' \<and> same_shape m m' \<and> map_abs m' = (map_abs m)(key \<mapsto> v) \<and>
    map_size m' = map_size m"
proof -
  obtain i cs1 cs2 pre post where e: "table m (map_entries m) (cs1 @ (pre @ i # post) # cs2) []"
      "map_size m = length (concat (cs1 @ (pre @ i # post) # cs2))"
      "entry_key (map_entries m ! i) = Some key" "i < length (map_entries m)"
      "map_entry (Suc n) m key True = Some (Some i, if pre = [] then None else Some (last pre), m)"
    using map_entry_lookup [OF assms(1), where key = key and n = n] unfolding assms(2) option.case by blast
  have u: "used (map_entries m ! i)" using chain_facts(2) [OF e(1), of "pre @ i # post" i] by simp
  let ?m = "m\<lparr>map_entries := (map_entries m)[i := (map_entries m ! i)\<lparr>entry_value := v\<rparr>]\<rparr>"
  note set = table_set_value [OF e(1,4) u e(3), of v]
  have "map_put (Suc (Suc n)) m key v = Some ?m" using e(5) by (simp del: map_entry.simps)
  moreover have "map_ok ?m" using set(1) e(2) assms(1) by (intro map_okI [of m _ "cs1 @ (pre @ i # post) # cs2"]) (auto elim: map_okE)
  ultimately show ?thesis using set(2) by (intro exI [of _ ?m]) (simp add: same_shape_def map_abs_def del: map_put.simps)
qed

lemma map_put_new:
  assumes "map_ok m" "map_abs m key = None" "map_entry n m key True = Some (Some i, prev, m1)"
    "map_ok m1" "map_abs m1 = (map_abs m)(key \<mapsto> None)" "i < length (map_entries m1)" "used (map_entries m1 ! i)"
    "entry_key (map_entries m1 ! i) = Some key"
  shows "\<exists>m'. map_put (Suc n) m key v = Some m' \<and> map_ok m' \<and> same_shape m1 m' \<and> map_abs m' = (map_abs m)(key \<mapsto> v) \<and>
    map_size m' = map_size m1"
proof -
  obtain cs where t: "table m1 (map_entries m1) cs []" "map_size m1 = length (concat cs)" "0 < map_load_num m1"
    using assms(4) by (rule map_okE)
  note set = table_set_value [OF t(1) assms(6-8), of v]
  let ?m = "m1\<lparr>map_entries := (map_entries m1)[i := (map_entries m1 ! i)\<lparr>entry_value := v\<rparr>]\<rparr>"
  have "map_put (Suc n) m key v = Some ?m" using assms(3) by simp
  moreover have "map_ok ?m" using set(1) t by (intro map_okI [of m1 _ cs]) auto
  moreover have "map_abs ?m = (map_abs m)(key \<mapsto> v)" using set(2) assms(5) by (simp add: map_abs_def)
  ultimately show ?thesis by (intro exI [of _ ?m]) (simp add: same_shape_def)
qed

lemma map_put_roomy:
  assumes "map_ok m" "map_abs m key = None" "roomy m"
  shows "\<exists>m'. map_put (Suc (Suc (Suc n))) m key v = Some m' \<and> map_ok m' \<and> same_shape m m' \<and> map_abs m' = (map_abs m)(key \<mapsto> v) \<and>
    map_size m' = map_size m + 1"
proof -
  obtain i prev m1 where e: "map_entry (Suc (Suc n)) m key True = Some (Some i, prev, m1)" "map_ok m1" "same_shape m m1"
    "map_abs m1 = (map_abs m)(key \<mapsto> None)" "map_size m1 = map_size m + 1" "i < length (map_entries m1)"
    "used (map_entries m1 ! i)" "entry_key (map_entries m1 ! i) = Some key"
    using map_entry_create [OF assms, of n] by blast
  from map_put_new [OF assms(1,2) e(1,2,4,6-8), of v] show ?thesis
    using e(3,5) unfolding same_shape_def by auto
qed

section \<open>Growing the table\<close>

lemma scale86_bounds: "scale86 c \<le> c" "2 \<le> c \<Longrightarrow> c \<le> 2 * scale86 c"
proof -
  show "scale86 c \<le> c" by (simp add: scale86_def)
  assume c: "2 \<le> c"
  show "c \<le> 2 * scale86 c"
  proof (cases "c = 2")
    case False
    have "c * 86 < 100 * (c * 86 div 100) + 100" using mult_div_mod_eq [of 100 "c * 86"] by (metis add_less_cancel_left mod_less_divisor zero_less_numeral)
    then show ?thesis using c False by (simp add: scale86_def)
  qed (simp add: scale86_def)
qed

definition grown :: "('k, 'v) pn_map \<Rightarrow> nat \<Rightarrow> ('k, 'v) pn_map \<Rightarrow> bool" where
  "grown m capacity m' \<longleftrightarrow>
     capacity \<le> map_capacity m' \<and> \<not> over_load m' \<and> 0 < map_addressable m' \<and> map_addressable m' \<le> map_capacity m' \<and>
     map_size m' = map_size m \<and> map_hashcode m' = map_hashcode m \<and> map_load_num m' = map_load_num m \<and>
     map_load_den m' = map_load_den m"

lemma grow_map_scaled:
  assumes "map_addressable m = scale86 (map_capacity m)" "2 \<le> map_capacity m" "0 < map_load_num m"
    "2 * (capacity + map_size m * map_load_den m) \<le> map_capacity m * 2 ^ n"
  shows "\<exists>m'. grow_map (Suc n) m capacity = Some m' \<and> grown m capacity m'"
  using assms
proof (induction n arbitrary: m)
  case 0
  have a: "map_capacity m \<le> 2 * map_addressable m" using scale86_bounds(2) 0 by simp
  have "map_size m * map_load_den m \<le> map_addressable m" using a 0 by simp
  also have "\<dots> \<le> map_load_num m * map_addressable m" using 0 by simp
  finally have "\<not> over_load m" by (simp add: over_load_def)
  then show ?case using 0 a scale86_bounds(1) [of "map_capacity m"] by (simp add: grown_def)
next
  case (Suc n)
  show ?case
  proof (cases "map_capacity m < capacity \<or> over_load m")
    case True
    let ?m = "m\<lparr>map_capacity := map_capacity m * 2, map_addressable := scale86 (map_capacity m * 2)\<rparr>"
    have "\<exists>m'. grow_map (Suc n) ?m capacity = Some m' \<and> grown ?m capacity m'"
      using Suc.prems by (intro Suc.IH) (auto simp: mult.assoc)
    moreover have "grown ?m capacity = grown m capacity" by (simp add: grown_def fun_eq_iff)
    moreover have "grow_map (Suc (Suc n)) m capacity = grow_map (Suc n) ?m capacity" using True by (subst grow_map.simps) simp
    ultimately show ?thesis by simp
  next
    case False
    then have "grow_map (Suc (Suc n)) m capacity = Some m" by simp
    moreover have "0 < map_addressable m" using scale86_bounds(2) [OF Suc.prems(2)] Suc.prems(1,2) by simp
    ultimately show ?thesis using False Suc.prems(1) scale86_bounds(1) [of "map_capacity m"] by (simp add: grown_def)
  qed
qed

lemma grow_map_some:
  assumes "0 < map_addressable m" "map_addressable m \<le> map_capacity m" "0 < map_load_num m"
  shows "\<exists>m'. grow_map (grow_fuel m capacity) m capacity = Some m' \<and> grown m capacity m'"
proof (cases "map_capacity m < capacity \<or> over_load m")
  case True
  let ?m = "m\<lparr>map_capacity := map_capacity m * 2, map_addressable := scale86 (map_capacity m * 2)\<rparr>"
  let ?n = "capacity + map_size m * map_load_den m"
  have "?n \<le> 2 ^ ?n" by (simp add: less_imp_le)
  also have "\<dots> \<le> map_capacity m * 2 ^ ?n" using assms by simp
  finally have "\<exists>m'. grow_map (Suc ?n) ?m capacity = Some m' \<and> grown ?m capacity m'"
    using assms by (intro grow_map_scaled) auto
  moreover have "grow_map (grow_fuel m capacity) m capacity = grow_map (Suc ?n) ?m capacity"
    using True by (simp add: grow_fuel_def)
  moreover have "grown ?m capacity = grown m capacity" by (simp add: grown_def fun_eq_iff)
  ultimately show ?thesis by simp
next
  case False
  then show ?thesis using assms by (simp add: grow_fuel_def grown_def)
qed

lemma table_allocate:
  assumes "0 < map_addressable m" "map_addressable m \<le> map_capacity m" "0 < map_load_num m"
  shows "map_ok (pni_map_allocate m)" "map_abs (pni_map_allocate m) = Map.empty" "map_size (pni_map_allocate m) = 0"
    "same_shape m (pni_map_allocate m)"
proof -
  have ok: "keys_ok (replicate n (free_entry :: ('a, 'b) pni_entry))" for n by (simp add: keys_ok_def)
  have "table m (replicate (map_capacity m) free_entry) [] []" using assms ok by (simp add: table_def)
  then show "map_ok (pni_map_allocate m)" using assms by (intro map_okI [of m _ "[]"]) (auto simp: pni_map_allocate_def)
  show "map_abs (pni_map_allocate m) = Map.empty"
    using table_map_eqI [OF ok, of _ Map.empty] by (auto simp: map_abs_def pni_map_allocate_def holds_def split: if_splits)
qed (simp_all add: pni_map_allocate_def same_shape_def)

definition used_count :: "('k, 'v) pni_entry list \<Rightarrow> nat" where
  "used_count es = length (filter used es)"

lemma reinsert_correct:
  assumes "keys_ok es" "map_ok m" "\<And>k v. holds es k v \<Longrightarrow> map_abs m k = None"
    "map_size m + used_count es \<le> s" "s + 1 \<le> map_capacity m" "s * map_load_den m \<le> map_load_num m * map_addressable m"
  shows "\<exists>m'. reinsert (map_put (Suc (Suc (Suc n)))) es m = Some m' \<and> map_ok m' \<and> same_shape m m' \<and>
    map_abs m' = entries_map es (map_abs m) \<and> map_size m' = map_size m + used_count es"
  using assms
proof (induction es arbitrary: m)
  case Nil
  then show ?case by (simp add: used_count_def same_shape_def)
next
  case (Cons e es)
  show ?case
  proof (cases "used e")
    case False
    then have "\<exists>m'. reinsert (map_put (Suc (Suc (Suc n)))) es m = Some m' \<and> map_ok m' \<and> same_shape m m' \<and>
      map_abs m' = entries_map es (map_abs m) \<and> map_size m' = map_size m + used_count es"
      using Cons.prems keys_ok_Cons(1) by (intro Cons.IH) (auto simp: holds_Cons used_count_def)
    then show ?thesis using False by (simp add: used_def used_count_def del: map_put.simps)
  next
    case True
    obtain k where k: "entry_key e = Some k" "\<And>v. \<not> holds es k v" using keys_ok_Cons(2) [OF Cons.prems(1) True] by blast
    have none: "map_abs m k = None" using Cons.prems(3) [of k "entry_value e"] k True by (simp add: holds_Cons)
    have size: "map_size m + Suc (used_count es) \<le> s" using Cons.prems(4) True by (simp add: used_count_def)
    have "map_size m * map_load_den m \<le> s * map_load_den m" using size by simp
    then have "\<not> over_load m" using Cons.prems(6) unfolding over_load_def by linarith
    then have "roomy m" using size Cons.prems(5) by (simp add: roomy_def)
    then obtain m1 where m1: "map_put (Suc (Suc (Suc n))) m k (entry_value e) = Some m1" "map_ok m1" "same_shape m m1"
      "map_abs m1 = (map_abs m)(k \<mapsto> entry_value e)" "map_size m1 = map_size m + 1"
      using map_put_roomy [OF Cons.prems(2) none, of n "entry_value e"] by blast
    have "\<exists>m'. reinsert (map_put (Suc (Suc (Suc n)))) es m1 = Some m' \<and> map_ok m' \<and> same_shape m1 m' \<and>
      map_abs m' = entries_map es (map_abs m1) \<and> map_size m' = map_size m1 + used_count es"
    proof (rule Cons.IH)
      show "map_abs m1 k' = None" if "holds es k' v" for k' v
        using that k(2) Cons.prems(3) [of k' v] m1(4) by (auto simp: holds_Cons)
    qed (use keys_ok_Cons(1) [OF Cons.prems(1)] m1 size Cons.prems(5,6) in \<open>auto simp: same_shape_def\<close>)
    then show ?thesis
      using True k(1) m1 by (auto simp: used_def used_count_def same_shape_def simp del: map_put.simps)
  qed
qed

lemma used_count_size: "table m es cs [] \<Longrightarrow> used_count es = length (concat cs)"
proof -
  assume t: "table m es cs []"
  have "used_count es = card {i. i < length es \<and> used (es ! i)}" by (simp add: used_count_def length_filter_conv_card)
  also have "\<dots> = card (set (concat cs))" using tableD(5) [OF t] by simp
  also have "\<dots> = length (concat cs)" using tableD(4) [OF t] distinct_card [of "concat cs"] by simp
  finally show ?thesis .
qed

lemma map_ensure_grow:
  assumes "map_ok m" "\<not> roomy m"
  shows "\<exists>m'. map_ensure (Suc (Suc (Suc (Suc n)))) m (map_size m + 1) = Some (True, m') \<and> map_ok m' \<and> roomy m' \<and>
    map_abs m' = map_abs m \<and> map_size m' = map_size m \<and> map_load_den m' = map_load_den m"
proof -
  obtain cs where t: "table m (map_entries m) cs []" "map_size m = length (concat cs)" "0 < map_load_num m"
    using assms(1) by (rule map_okE)
  obtain m1 where m1: "grow_map (grow_fuel m (map_size m + 1)) m (map_size m + 1) = Some m1" "grown m (map_size m + 1) m1"
    using grow_map_some [OF tableD(2,3) [OF t(1)] t(3)] by blast
  let ?m = "pni_map_allocate m1"
  have alloc: "map_ok ?m" "map_abs ?m = Map.empty" "map_size ?m = 0" "same_shape m1 ?m"
    using table_allocate [of m1] m1(2) t(3) by (auto simp: grown_def)
  obtain m2 where m2: "reinsert (map_put (Suc (Suc (Suc n)))) (map_entries m) ?m = Some m2" "map_ok m2" "same_shape ?m m2"
    "map_abs m2 = entries_map (map_entries m) Map.empty" "map_size m2 = used_count (map_entries m)"
    using reinsert_correct [OF table_keys_ok [OF t(1)] alloc(1), of "map_size m" n] alloc m1(2) used_count_size [OF t(1)] t(2)
    by (auto simp: grown_def same_shape_def over_load_def)
  have "map_ensure (Suc (Suc (Suc (Suc n)))) m (map_size m + 1) = Some (True, m2)"
    using assms(2) m1(1) m2(1) by (subst map_ensure.simps) (auto simp: roomy_def simp del: map_put.simps)
  moreover have "map_abs m2 = map_abs m" using m2(4) by (simp add: map_abs_def table_map_def)
  moreover have "map_size m2 = map_size m" using m2(5) used_count_size [OF t(1)] t(2) by simp
  moreover have "roomy m2" "map_load_den m2 = map_load_den m"
    using m2(3) alloc(4) m1(2) calculation(3) by (auto simp: roomy_def over_load_def grown_def same_shape_def)
  ultimately show ?thesis using m2(2) by blast
qed

lemma map_entry_total:
  assumes "map_ok m" "map_abs m key = None"
  shows "\<exists>i prev m'. map_entry (Suc (Suc (Suc (Suc (Suc (Suc n)))))) m key True = Some (Some i, prev, m') \<and> map_ok m' \<and>
    map_abs m' = (map_abs m)(key \<mapsto> None) \<and> map_size m' = map_size m + 1 \<and> i < length (map_entries m') \<and>
    used (map_entries m' ! i) \<and> entry_key (map_entries m' ! i) = Some key"
proof (cases "roomy m")
  case True
  then show ?thesis using map_entry_create [OF assms True, of "Suc (Suc (Suc (Suc n)))"] by blast
next
  case False
  let ?n = "Suc (Suc (Suc (Suc (Suc n))))"
  obtain cs where t: "table m (map_entries m) cs []" "map_size m = length (concat cs)" "0 < map_load_num m"
    using assms(1) by (rule map_okE)
  show ?thesis
  proof (cases "used (map_entries m ! home m key)")
    case home: True
    have none: "table_map (map_entries m) key = None" using assms(2) by (simp add: map_abs_def)
    from walk_missing [OF t(1) none home] obtain l p where
      w: "walk (Suc (map_capacity m)) (map_entries m) key None (home m key) = Some (False, l, p)" by blast
    obtain m1 where m1: "map_ensure ?n m (map_size m + 1) = Some (True, m1)" "map_ok m1" "roomy m1"
      "map_abs m1 = map_abs m" "map_size m1 = map_size m" using map_ensure_grow [OF assms(1) False, of "Suc n"] by blast
    have "map_entry (Suc ?n) m key True = map_entry ?n m1 key True"
      using home w m1(1) by (subst map_entry.simps) (simp add: used_def del: map_entry.simps map_ensure.simps)
    moreover have "map_abs m1 key = None" using m1(4) assms(2) by simp
    ultimately show ?thesis
      using map_entry_create [OF m1(2) _ m1(3), of key "Suc (Suc (Suc n))"] m1(4,5) by (simp del: map_entry.simps) blast
  next
    case free: False
    have hl: "home m key < length (map_entries m)" using home_less [OF t(1)] .
    have none: "table_map (map_entries m) key = None" using assms(2) by (simp add: map_abs_def)
    have "map_entries m ! home m key = free_entry" using tableD(10) [OF t(1) hl free] .
    then have use: "use_entry (home m key) key (map_entries m) = (map_entries m)[home m key := tail_entry key None]"
      by (simp add: use_entry_def free_entry_def tail_entry_def)
    let ?m = "m\<lparr>map_entries := (map_entries m)[home m key := tail_entry key None], map_size := map_size m + 1\<rparr>"
    have "map_entry (Suc ?n) m key True = Some (Some (home m key), None, ?m)" using free use by (simp add: used_def)
    moreover have "map_ok ?m"
      using table_add_home [OF t(1) refl free none, of None] t(2,3) by (intro map_okI [of m _ "[home m key] # cs"]) auto
    moreover have "map_abs ?m = (map_abs m)(key \<mapsto> None)"
      using table_map_set [OF table_keys_ok [OF t(1)] hl free none] by (simp add: map_abs_def)
    ultimately show ?thesis
      using hl by (intro exI [of _ "home m key"] exI [of _ None] exI [of _ ?m]) (simp del: map_entry.simps)
  qed
qed

lemma pn_map_put_correct:
  assumes "map_ok m"
  shows "\<exists>m'. pn_map_put m key v = Some m' \<and> map_ok m' \<and> map_abs m' = (map_abs m)(key \<mapsto> v) \<and>
    map_size m' = map_size m + (if map_abs m key = None then 1 else 0)"
proof (cases "map_abs m key")
  case None
  have six: "Suc (Suc (Suc (Suc (Suc (Suc 0))))) = 6" by simp
  obtain i prev m1 where e: "map_entry 6 m key True = Some (Some i, prev, m1)" "map_ok m1" "map_abs m1 = (map_abs m)(key \<mapsto> None)"
    "map_size m1 = map_size m + 1" "i < length (map_entries m1)" "used (map_entries m1 ! i)" "entry_key (map_entries m1 ! i) = Some key"
    using map_entry_total [OF assms None, of 0] unfolding six by blast
  have "pn_map_put m key v = map_put (Suc 6) m key v" by (simp add: pn_map_put_def)
  then show ?thesis using map_put_new [OF assms None e(1,2,3,5-7), of v] e(4) None by (auto simp del: map_put.simps)
next
  case (Some w)
  have "pn_map_put m key v = map_put (Suc (Suc 5)) m key v" by (simp add: pn_map_put_def)
  then show ?thesis using map_put_stored [OF assms Some, of 5 v] Some by (auto simp del: map_put.simps)
qed

lemma pn_map_get_correct:
  assumes "map_ok m"
  shows "pn_map_get m key = Some (case map_abs m key of None \<Rightarrow> None | Some v \<Rightarrow> v)"
proof -
  have "pni_map_entry m key False = map_entry (Suc 5) m key False" by (simp add: pni_map_entry_def)
  then show ?thesis
    using map_entry_lookup [OF assms, where key = key and n = 5]
    by (cases "map_abs m key") (auto simp: pn_map_get_def simp del: map_entry.simps)
qed

lemma pn_map_del_correct:
  assumes "map_ok m"
  shows "\<exists>m'. pn_map_del m key = Some m' \<and> map_ok m' \<and> map_abs m' = (map_abs m)(key := None) \<and>
    map_size m' = map_size m - (if map_abs m key = None then 0 else 1)"
proof (cases "map_abs m key")
  case None
  have "pni_map_entry m key False = map_entry (Suc 5) m key False" by (simp add: pni_map_entry_def)
  then have "pn_map_del m key = Some m"
    using map_entry_lookup [OF assms, where key = key and n = 5] None by (simp add: pn_map_del_def del: map_entry.simps)
  then show ?thesis using assms None by (simp add: fun_upd_idem)
next
  case (Some v)
  have "pni_map_entry m key False = map_entry (Suc 5) m key False" by (simp add: pni_map_entry_def)
  then obtain i cs1 cs2 pre post where e: "table m (map_entries m) (cs1 @ (pre @ i # post) # cs2) []"
      "map_size m = length (concat (cs1 @ (pre @ i # post) # cs2))" "entry_key (map_entries m ! i) = Some key"
      "pni_map_entry m key False = Some (Some i, if pre = [] then None else Some (last pre), m)"
    using map_entry_lookup [OF assms, where key = key and n = 5] unfolding Some option.case by metis
  let ?es0 = "if pre = [] then map_entries m
    else (map_entries m)[last pre := (map_entries m ! last pre)\<lparr>entry_next := 0, entry_state := PNI_ENTRY_TAIL\<rparr>]"
  let ?m = "m\<lparr>map_entries := ?es0[i := free_entry], map_size := map_size m - 1\<rparr>"
  let ?cs = "cs1 @ (if pre = [] then [] else [pre]) @ cs2"
  note cut = table_cut [OF e(1)]
  have num: "0 < map_load_num m" using assms by (rule map_okE)
  have abs: "map_abs ?m = (map_abs m)(key := None)" using cut(2) e(3) by (simp add: map_abs_def)
  have size: "map_size ?m = length (concat ?cs) + length post" using e(2) by simp
  have linked: "linked (map_entries m) (i # post)"
    using tableD(6) [OF e(1), of "pre @ i # post"] linked_append by (metis in_set_conv_decomp)
  show ?thesis
  proof (cases post)
    case Nil
    then have "entry_state (map_entries m ! i) = PNI_ENTRY_TAIL" using linked by simp
    then have "pn_map_del m key = Some ?m" using e(4) by (auto simp: pn_map_del_def Let_def)
    moreover have "map_ok ?m" using cut(1) size num Nil by (intro map_okI [of m _ ?cs]) auto
    ultimately show ?thesis using abs Some by auto
  next
    case (Cons j js)
    then have st: "entry_state (map_entries m ! i) = PNI_ENTRY_LINK" "entry_next (map_entries m ! i) = j" using linked by auto
    have tc: "table ?m = table m" by (rule table_cong) auto
    have "length post \<le> map_capacity m" using chain_facts(3) [OF e(1), of "pre @ i # post"] by simp
    then have len: "length js < Suc (map_capacity m)" using Cons by simp
    have "table m (?es0[i := free_entry]) ?cs (j # js)" using cut(1) unfolding Cons .
    then have "table ?m (map_entries ?m) ?cs (j # js)" unfolding tc by simp
    from rehash_loop_table [OF this len] obtain es cs' where r: "rehash_loop (Suc (map_capacity m)) ?m j (map_entries ?m) = Some es"
      "table ?m es cs' []" "table_map es = table_map (map_entries ?m)" "length (concat cs') = length (concat ?cs) + length post"
      using Cons by auto
    have "pn_map_del m key = pni_map_rehash ?m j" using e(4) st by (auto simp: pn_map_del_def Let_def)
    then have "pn_map_del m key = Some (?m\<lparr>map_entries := es\<rparr>)" using r(1) by (simp add: pni_map_rehash_def)
    moreover have "map_ok (?m\<lparr>map_entries := es\<rparr>)" using r(2,4) size num by (intro map_okI [of ?m _ cs']) auto
    moreover have "map_abs (?m\<lparr>map_entries := es\<rparr>) = (map_abs m)(key := None)" using r(3) abs by (simp add: map_abs_def)
    ultimately show ?thesis using Some by auto
  qed
qed

section \<open>The contract of a dictionary\<close>

datatype ('k, 'v) dict_op = DPut 'k 'v | DDel 'k

fun dict_run :: "('s \<Rightarrow> 'k \<Rightarrow> 'v \<Rightarrow> 's option) \<Rightarrow> ('s \<Rightarrow> 'k \<Rightarrow> 's option) \<Rightarrow> ('k, 'v) dict_op list \<Rightarrow> 's \<Rightarrow> 's option" where
  "dict_run put del [] s = Some s"
| "dict_run put del (DPut k v # ops) s = (case put s k v of None \<Rightarrow> None | Some s \<Rightarrow> dict_run put del ops s)"
| "dict_run put del (DDel k # ops) s = (case del s k of None \<Rightarrow> None | Some s \<Rightarrow> dict_run put del ops s)"

fun dict_spec :: "('k, 'v) dict_op list \<Rightarrow> ('k \<rightharpoonup> 'v) \<Rightarrow> 'k \<rightharpoonup> 'v" where
  "dict_spec [] f = f"
| "dict_spec (DPut k v # ops) f = dict_spec ops (f(k \<mapsto> v))"
| "dict_spec (DDel k # ops) f = dict_spec ops (f(k := None))"

locale dictionary =
  fixes ok :: "'s \<Rightarrow> bool"
    and content :: "'s \<Rightarrow> 'k \<rightharpoonup> 'v"
    and put :: "'s \<Rightarrow> 'k \<Rightarrow> 'v \<Rightarrow> 's option"
    and del :: "'s \<Rightarrow> 'k \<Rightarrow> 's option"
    and count :: "'s \<Rightarrow> nat"
  assumes put_law: "ok s \<Longrightarrow> \<exists>s'. put s k v = Some s' \<and> ok s' \<and> content s' = (content s)(k \<mapsto> v) \<and>
      count s' = count s + (if content s k = None then 1 else 0)"
    and del_law: "ok s \<Longrightarrow> \<exists>s'. del s k = Some s' \<and> ok s' \<and> content s' = (content s)(k := None) \<and>
      count s' = count s - (if content s k = None then 0 else 1)"
begin

lemma run_correct:
  "\<lbrakk>ok s; finite (dom (content s)); count s = card (dom (content s))\<rbrakk> \<Longrightarrow>
   \<exists>s'. dict_run put del ops s = Some s' \<and> ok s' \<and> content s' = dict_spec ops (content s) \<and>
     finite (dom (content s')) \<and> count s' = card (dom (content s'))"
proof (induction ops arbitrary: s)
  case (Cons oper ops)
  show ?case
  proof (cases oper)
    case (DPut k v)
    from put_law [OF Cons.prems(1), of k v] obtain s1 where s1: "put s k v = Some s1" "ok s1" "content s1 = (content s)(k \<mapsto> v)"
      "count s1 = count s + (if content s k = None then 1 else 0)" by blast
    have "count s1 = card (dom (content s1))"
      using s1(3,4) Cons.prems(2,3) by (auto simp: card_insert_if domIff)
    moreover have "finite (dom (content s1))" using s1(3) Cons.prems(2) by simp
    ultimately obtain s' where "dict_run put del ops s1 = Some s'" "ok s'" "content s' = dict_spec ops (content s1)"
      "finite (dom (content s'))" "count s' = card (dom (content s'))" using Cons.IH [OF s1(2)] by blast
    then show ?thesis using s1(1,3) DPut by simp
  next
    case (DDel k)
    from del_law [OF Cons.prems(1), of k] obtain s1 where s1: "del s k = Some s1" "ok s1" "content s1 = (content s)(k := None)"
      "count s1 = count s - (if content s k = None then 0 else 1)" by blast
    have "count s1 = card (dom (content s1))"
      using s1(3,4) Cons.prems(2,3) by (auto simp: card_Diff_singleton_if domIff)
    moreover have "finite (dom (content s1))" using s1(3) Cons.prems(2) by simp
    ultimately obtain s' where "dict_run put del ops s1 = Some s'" "ok s'" "content s' = dict_spec ops (content s1)"
      "finite (dom (content s'))" "count s' = card (dom (content s'))" using Cons.IH [OF s1(2)] by blast
    then show ?thesis using s1(1,3) DDel by simp
  qed
qed auto

end

interpretation hash_table: dictionary map_ok map_abs pn_map_put pn_map_del map_size
  by unfold_locales (simp_all only: pn_map_put_correct pn_map_del_correct)

lemma pn_map_new_ok:
  fixes hashcode :: "'k \<Rightarrow> nat"
  assumes "0 < num" "m = (pn_map_new hashcode capacity num den :: ('k, 'v) pn_map)"
  shows "map_ok m" "map_abs m = Map.empty" "map_size m = 0"
proof -
  define c where "c = (if capacity \<noteq> 0 then capacity else 16)"
  define a where "a = (if scale86 c = 0 then c else scale86 c)"
  have "0 < a" "a \<le> c" using scale86_bounds(1) [of c] by (auto simp: a_def c_def)
  moreover have "m = pni_map_allocate \<lparr>map_entries = [], map_capacity = c, map_addressable = a, map_size = 0,
      map_hashcode = hashcode, map_load_num = num, map_load_den = den\<rparr>"
    by (simp add: assms(2) pn_map_new_def Let_def a_def c_def)
  ultimately show "map_ok m" "map_abs m = Map.empty" "map_size m = 0"
    using assms(1) by (simp_all add: table_allocate)
qed

section \<open>Iteration visits every entry once\<close>

fun handles :: "nat \<Rightarrow> ('k, 'v) pn_map \<Rightarrow> nat \<Rightarrow> nat list" where
  "handles 0 m h = []"
| "handles (Suc n) m h = (if h = 0 then [] else h # handles n m (pn_map_next m h))"

lemma next_used_split:
  "next_used es i = 0 \<and> filter used es = [] \<or>
   (\<exists>pre e post. es = pre @ e # post \<and> filter used pre = [] \<and> used e \<and> next_used es i = Suc (i + length pre))"
proof (induction es arbitrary: i)
  case (Cons e es)
  show ?case
  proof (cases "used e")
    case True
    then show ?thesis by (intro disjI2 exI [of _ "[]"]) (auto simp: used_def)
  next
    case False
    from Cons.IH [of "Suc i"] show ?thesis
    proof (elim disjE exE conjE)
      fix pre f post
      assume s: "es = pre @ f # post" "filter used pre = []" "used f" "next_used es (Suc i) = Suc (Suc i + length pre)"
      have "next_used (e # es) i = next_used es (Suc i)" using False by (simp add: used_def)
      then have "e # es = (e # pre) @ f # post \<and> filter used (e # pre) = [] \<and> used f \<and> next_used (e # es) i = Suc (i + length (e # pre))"
        using s False by simp
      then show ?thesis by blast
    qed (use False in \<open>simp add: used_def\<close>)
  qed
qed simp

lemma handles_from:
  "length (drop i (map_entries m)) < n \<Longrightarrow>
   map (\<lambda>h. map_entries m ! (h - 1)) (handles n m (next_used (drop i (map_entries m)) i)) = filter used (drop i (map_entries m))"
proof (induction n arbitrary: i)
  case (Suc n)
  let ?es = "drop i (map_entries m)"
  from next_used_split [of ?es i] show ?case
  proof (elim disjE exE conjE)
    fix pre e post
    assume s: "?es = pre @ e # post" "filter used pre = []" "used e" "next_used ?es i = Suc (i + length pre)"
    let ?j = "i + length pre"
    have d: "drop (Suc ?j) (map_entries m) = post"
      using arg_cong [OF s(1), of "drop (Suc (length pre))"] by (simp add: add.commute)
    have nth: "map_entries m ! ?j = e" using arg_cong [OF s(1), of "\<lambda>xs. xs ! length pre"] nth_drop [of i "map_entries m" "length pre"] s(1)
      by (metis append_is_Nil_conv drop_all list.distinct(1) nat_le_linear nth_append_length)
    have "length post < n" using Suc.prems s(1) by simp
    then have "map (\<lambda>h. map_entries m ! (h - 1)) (handles n m (next_used (drop (Suc ?j) (map_entries m)) (Suc ?j))) = filter used post"
      using Suc.IH [of "Suc ?j"] d by simp
    then show ?thesis using s nth d by (simp add: pn_map_next_def)
  qed simp
qed simp

lemma handles_entries:
  "map (\<lambda>h. map_entries m ! (h - 1)) (handles (Suc (length (map_entries m))) m (pn_map_head m)) = filter used (map_entries m)"
  using handles_from [of 0 m] by (simp add: pn_map_head_def del: handles.simps)

section \<open>Properties\<close>

text \<open>
  C22: the hash table is a map. Whatever the hash function, the initial capacity and the positive load
  factor, any sequence of \<open>pn_map_put\<close> and \<open>pn_map_del\<close> on a new table terminates, growing and rehashing
  as needed; afterwards \<open>pn_map_get\<close> returns for every key what the same operations leave in a plain
  map (null for a missing key), and the size is the number of keys.
\<close>

theorem hash_table_refines_map:
  assumes "0 < num"
  shows "\<exists>m. dict_run pn_map_put pn_map_del ops (pn_map_new hashcode capacity num den) = Some m \<and>
    (\<forall>k. pn_map_get m k = Some (case dict_spec ops Map.empty k of None \<Rightarrow> None | Some v \<Rightarrow> v)) \<and>
    pn_map_size m = card (dom (dict_spec ops Map.empty))"
proof -
  note new = pn_map_new_ok [OF assms refl, of hashcode capacity den]
  obtain m where m: "dict_run pn_map_put pn_map_del ops (pn_map_new hashcode capacity num den) = Some m" "map_ok m"
    "map_abs m = dict_spec ops Map.empty" "map_size m = card (dom (map_abs m))"
    using hash_table.run_correct [OF new(1), of ops] unfolding new(2,3) by auto
  then show ?thesis using pn_map_get_correct [OF m(2)] by (intro exI [of _ m]) (simp add: pn_map_size_def)
qed

theorem hash_table_refines_map_witness:
  "\<exists>m. dict_run pn_map_put pn_map_del [DPut 1 (Some 10), DPut 18 (Some 20), DPut 35 (Some 30), DDel 1]
      (pn_map_new (\<lambda>k. k) 16 3 4) = Some m \<and>
    pn_map_get m 18 = Some (Some (20 :: nat)) \<and> pn_map_get m (1 :: nat) = Some None"
  using hash_table_refines_map
    [of 3 "[DPut 1 (Some 10), DPut 18 (Some 20), DPut 35 (Some 30), DDel 1]" "\<lambda>k. k" 16 4]
  by (auto simp del: dict_run.simps)

text \<open>
  C26: iterating with \<open>pn_map_head\<close> and \<open>pn_map_next\<close> visits every entry of the table exactly once: the keys
  and values seen are those of the map, each key once.
\<close>

theorem map_iteration_complete:
  assumes "map_ok m"
  shows "distinct (map (pn_map_key m) (handles (Suc (length (map_entries m))) m (pn_map_head m))) \<and>
    (\<forall>k v. map_abs m k = Some v \<longleftrightarrow>
      (\<exists>h\<in>set (handles (Suc (length (map_entries m))) m (pn_map_head m)). pn_map_key m h = Some k \<and> pn_map_value m h = v))"
proof -
  let ?hs = "handles (Suc (length (map_entries m))) m (pn_map_head m)"
  obtain cs where t: "table m (map_entries m) cs []" using assms by (rule map_okE)
  note ok = table_keys_ok [OF t]
  note es = handles_entries [of m]
  have "pn_map_key m = (\<lambda>h. entry_key (map_entries m ! (h - 1)))" by (simp add: pn_map_key_def fun_eq_iff)
  then have keys: "map (pn_map_key m) ?hs = map entry_key (filter used (map_entries m))"
    using arg_cong [OF es, of "map entry_key"] by (simp add: comp_def del: handles.simps)
  have "distinct (map entry_key (filter used xs))" if "keys_ok xs" for xs :: "('a, 'b) pni_entry list"
    using that
  proof (induction xs)
    case (Cons e xs)
    then show ?case using keys_ok_Cons [OF Cons.prems] by (auto simp: holds_def) metis
  qed simp
  moreover have "map_abs m k = Some v \<longleftrightarrow> (\<exists>h\<in>set ?hs. pn_map_key m h = Some k \<and> pn_map_value m h = v)" for k v
  proof -
    have "map_abs m k = Some v \<longleftrightarrow> (\<exists>e\<in>set (filter used (map_entries m)). entry_key e = Some k \<and> entry_value e = v)"
      using table_map_iff [OF ok] by (auto simp: map_abs_def holds_def)
    also have "\<dots> \<longleftrightarrow> (\<exists>e\<in>set (map (\<lambda>h. map_entries m ! (h - 1)) ?hs). entry_key e = Some k \<and> entry_value e = v)"
      by (simp only: es)
    finally show ?thesis by (simp add: pn_map_key_def pn_map_value_def del: handles.simps)
  qed
  ultimately show ?thesis using keys ok by (simp del: handles.simps)
qed

theorem map_iteration_complete_witness:
  "\<exists>m. pn_map_put (pn_map_new id 4 1 2) (3 :: nat) (Some (7 :: nat)) = Some m \<and>
    (\<exists>h\<in>set (handles (Suc (length (map_entries m))) m (pn_map_head m)). pn_map_key m h = Some 3 \<and> pn_map_value m h = Some 7)"
proof -
  have ok: "map_ok (pn_map_new id 4 1 2 :: (nat, nat) pn_map)" by (rule pn_map_new_ok(1) [OF zero_less_one refl])
  obtain m where m: "pn_map_put (pn_map_new id 4 1 2) (3 :: nat) (Some (7 :: nat)) = Some m" "map_ok m"
    "map_abs m = (map_abs (pn_map_new id 4 1 2))(3 \<mapsto> Some 7)"
    using pn_map_put_correct [OF ok, of 3 "Some 7"] by blast
  then have "map_abs m 3 = Some (Some 7)" by simp
  then show ?thesis using map_iteration_complete [OF m(2)] m(1) by blast
qed

end
