(* ===== verification/Raw_Buffers.thy ===== *)
theory Raw_Buffers
  imports Proton_Prelude "HOL-Library.Monad_Syntax"
begin

text \<open>
  The buffer pools of a raw connection (\<open>proactor/raw_connection.c\<close>). The connection has one array of
  sixteen buffers for reading and one for writing; each array is threaded by three linked lists, of the
  buffers that are empty, those waiting to be read into or written from, and those that are finished and
  wait for the application. A \<open>buff_ptr\<close> is an index plus one, 0 is the null pointer. The two arrays
  have the same list heads under different names and are modelled by one record: \<open>todo\<close> stands for
  \<open>unused\<close> and \<open>towrite\<close>, \<open>done\<close> for \<open>read\<close> and \<open>written\<close>, and the buffer types for the pairs
  \<open>buff_rempty\<close> and \<open>buff_wempty\<close>, \<open>buff_unread\<close> and \<open>buff_unwritten\<close>, \<open>buff_read\<close> and
  \<open>buff_written\<close>. \<open>None\<close> is a failed assertion or an access outside the array.
\<close>

section \<open>State\<close>

definition read_buffer_count :: nat where "read_buffer_count = 16"
definition write_buffer_count :: nat where "write_buffer_count = 16"

datatype buff_type = buff_empty | buff_todo | buff_done

type_synonym buff_ptr = nat

text \<open>Memory addresses and the application's contexts are numbers.\<close>

record pbuffer =
  pb_context :: nat
  pb_bytes :: nat
  pb_capacity :: nat
  pb_size :: nat
  pb_offset :: nat
  pb_next :: buff_ptr
  pb_type :: buff_type

record pn_raw_buffer =
  raw_context :: nat
  raw_bytes :: nat
  raw_capacity :: nat
  raw_size :: nat
  raw_offset :: nat

record pni_buffers =
  buffers :: "pbuffer list"
  buffer_count :: nat
  first_empty :: buff_ptr
  first_todo :: buff_ptr
  last_todo :: buff_ptr
  first_done :: buff_ptr
  last_done :: buff_ptr

definition buf :: "pbuffer list \<Rightarrow> buff_ptr \<Rightarrow> pbuffer" where
  "buf bs p = bs ! (p - 1)"

definition set_buf :: "buff_ptr \<Rightarrow> (pbuffer \<Rightarrow> pbuffer) \<Rightarrow> pbuffer list \<Rightarrow> pbuffer list" where
  "set_buf p f bs = bs[p - 1 := f (bs ! (p - 1))]"

definition set_next :: "buff_ptr \<Rightarrow> buff_ptr \<Rightarrow> pbuffer list \<Rightarrow> pbuffer list" where
  "set_next p n = set_buf p (\<lambda>b. b\<lparr>pb_next := n\<rparr>)"

definition valid_ptr :: "pbuffer list \<Rightarrow> buff_ptr \<Rightarrow> bool" where
  "valid_ptr bs p \<longleftrightarrow> 0 < p \<and> p \<le> length bs"

definition zero_buffer :: pbuffer where
  "zero_buffer = \<lparr>pb_context = 0, pb_bytes = 0, pb_capacity = 0, pb_size = 0, pb_offset = 0, pb_next = 0, pb_type = buff_empty\<rparr>"

text \<open>The loop of \<open>pni_raw_initialize\<close> over one of the arrays, which was allocated zeroed.\<close>

definition init_buffers :: "nat \<Rightarrow> pni_buffers" where
  "init_buffers n =
     \<lparr>buffers = map (\<lambda>i. zero_buffer\<lparr>pb_next := (if i = n then 0 else i + 1), pb_type := buff_empty\<rparr>) [1..<n + 1],
      buffer_count = 0, first_empty = 1, first_todo = 0, last_todo = 0, first_done = 0, last_done = 0\<rparr>"

section \<open>Operations\<close>

text \<open>
  The loop that fills empty buffers from the application's, with the \<open>size\<close> field to store. The
  results are the pointers \<open>current\<close> and \<open>previous\<close> and the array.
\<close>

fun fill_loop :: "(pn_raw_buffer \<Rightarrow> nat) \<Rightarrow> pn_raw_buffer list \<Rightarrow> buff_ptr \<Rightarrow> buff_ptr \<Rightarrow> pbuffer list \<Rightarrow>
    (buff_ptr \<times> buff_ptr \<times> pbuffer list) option" where
  "fill_loop sz [] current previous bs = Some (current, previous, bs)"
| "fill_loop sz (r # rs) current previous bs =
     (if \<not> valid_ptr bs current \<or> pb_type (buf bs current) \<noteq> buff_empty then None
      else
        let bs = set_buf current (\<lambda>b. b\<lparr>pb_context := raw_context r, pb_bytes := raw_bytes r, pb_capacity := raw_capacity r,
                                        pb_size := sz r, pb_offset := raw_offset r, pb_type := buff_todo\<rparr>) bs
        in fill_loop sz rs (pb_next (buf bs current)) current bs)"

text \<open>The read side: the new buffers go before those that are already waiting.\<close>

definition give_buffers :: "pn_raw_buffer list \<Rightarrow> pni_buffers \<Rightarrow> pni_buffers option" where
  "give_buffers rs B =
     do {
       (current, previous, bs) \<leftarrow> fill_loop (\<lambda>_. 0) rs (first_empty B) 0 (buffers B);
       Some (B\<lparr>last_todo := (if last_todo B = 0 then previous else last_todo B),
               buffers := set_next previous (first_todo B) bs,
               first_todo := first_empty B,
               first_empty := current,
               buffer_count := buffer_count B + length rs\<rparr>)
     }"

text \<open>The write side: the new buffers go to the end.\<close>

definition append_buffers :: "pn_raw_buffer list \<Rightarrow> pni_buffers \<Rightarrow> pni_buffers option" where
  "append_buffers rs B =
     do {
       (current, previous, bs) \<leftarrow> fill_loop raw_size rs (first_empty B) 0 (buffers B);
       let bs = (if last_todo B \<noteq> 0 then set_next (last_todo B) (first_empty B) bs else bs);
       Some (B\<lparr>first_todo := (if first_todo B = 0 then first_empty B else first_todo B),
               last_todo := previous,
               buffers := set_next previous 0 bs,
               first_empty := current,
               buffer_count := buffer_count B + length rs\<rparr>)
     }"

definition raw_of :: "pbuffer \<Rightarrow> pn_raw_buffer" where
  "raw_of b = \<lparr>raw_context = pb_context b, raw_bytes = pb_bytes b, raw_capacity = pb_capacity b,
               raw_size = pb_size b, raw_offset = pb_offset b\<rparr>"

text \<open>The loop that hands finished buffers to the application, at most \<open>n\<close> of them.\<close>

fun take_loop :: "nat \<Rightarrow> buff_ptr \<Rightarrow> buff_ptr \<Rightarrow> pbuffer list \<Rightarrow>
    (pn_raw_buffer list \<times> buff_ptr \<times> buff_ptr \<times> pbuffer list) option" where
  "take_loop 0 current previous bs = Some ([], current, previous, bs)"
| "take_loop (Suc n) current previous bs =
     (if current = 0 then Some ([], current, previous, bs)
      else if \<not> valid_ptr bs current \<or> pb_type (buf bs current) \<noteq> buff_done then None
      else
        do {
          let bs = set_buf current (\<lambda>b. b\<lparr>pb_type := buff_empty\<rparr>) bs;
          (rs, current', previous, bs') \<leftarrow> take_loop n (pb_next (buf bs current)) current bs;
          Some (raw_of (buf bs current) # rs, current', previous, bs')
        })"

definition take_buffers :: "nat \<Rightarrow> pni_buffers \<Rightarrow> (pn_raw_buffer list \<times> pni_buffers) option" where
  "take_buffers n B =
     (if first_done B = 0 then Some ([], B)
      else
        do {
          (rs, current, previous, bs) \<leftarrow> take_loop n (first_done B) 0 (buffers B);
          if rs = [] then Some ([], B\<lparr>buffers := bs\<rparr>)
          else Some (rs, B\<lparr>buffers := set_next previous (first_empty B) bs,
                           first_empty := first_done B,
                           first_done := current,
                           last_done := (if current = 0 then 0 else last_done B),
                           buffer_count := buffer_count B - length rs\<rparr>)
        })"

text \<open>The first waiting buffer, with the check of its type.\<close>

definition todo_buffer :: "pni_buffers \<Rightarrow> pbuffer option" where
  "todo_buffer B =
     (if valid_ptr (buffers B) (first_todo B) \<and> pb_type (buf (buffers B) (first_todo B)) = buff_todo
      then Some (buf (buffers B) (first_todo B)) else None)"

text \<open>The first waiting buffer becomes the last finished one.\<close>

definition finish_buffer :: "pni_buffers \<Rightarrow> pni_buffers" where
  "finish_buffer B =
     (let p = first_todo B;
          bs = (if last_done B \<noteq> 0 then set_next (last_done B) p (buffers B) else buffers B)
      in B\<lparr>first_done := (if first_done B = 0 then p else first_done B),
           last_done := p,
           first_todo := pb_next (buf bs p),
           buffers := set_buf p (\<lambda>b. b\<lparr>pb_next := 0, pb_type := buff_done\<rparr>) bs\<rparr>)"

text \<open>The loops of \<open>pni_raw_release_buffers\<close>; \<open>reset\<close> is what they do to a buffer first. Both end with
  \<open>last_unused\<close> or \<open>last_towrite\<close> reset.\<close>

fun release_loop :: "nat \<Rightarrow> (pbuffer \<Rightarrow> pbuffer) \<Rightarrow> pni_buffers \<Rightarrow> pni_buffers option" where
  "release_loop 0 reset B = None"
| "release_loop (Suc n) reset B =
     (if first_todo B = 0 then Some (B\<lparr>last_todo := 0\<rparr>)
      else
        do {
          todo_buffer B;
          release_loop n reset (finish_buffer (B\<lparr>buffers := set_buf (first_todo B) reset (buffers B)\<rparr>))
        })"

definition release_buffers :: "(pbuffer \<Rightarrow> pbuffer) \<Rightarrow> pni_buffers \<Rightarrow> pni_buffers option" where
  "release_buffers reset B = release_loop (Suc (length (buffers B))) reset B"

section \<open>Validation\<close>

text \<open>
  \<open>count_buffers\<close> is one of the loops of \<open>pni_raw_validate\<close>: the length of a list, or \<open>Some None\<close> if a
  buffer has the wrong type. The fuel is used up on a cyclic list.
\<close>

fun count_buffers :: "nat \<Rightarrow> buff_type \<Rightarrow> pbuffer list \<Rightarrow> buff_ptr \<Rightarrow> nat option option" where
  "count_buffers 0 t bs i = None"
| "count_buffers (Suc n) t bs i =
     (if i = 0 then Some (Some 0)
      else if \<not> valid_ptr bs i then None
      else if pb_type (buf bs i) \<noteq> t then Some None
      else map_option (map_option Suc) (count_buffers n t bs (pb_next (buf bs i))))"

definition validate_last :: "pbuffer list \<Rightarrow> buff_type \<Rightarrow> buff_ptr \<Rightarrow> buff_ptr \<Rightarrow> bool option" where
  "validate_last bs t p q =
     (if p = 0 \<and> q \<noteq> 0 then Some False
      else if q = 0 then Some True
      else if \<not> valid_ptr bs q then None
      else Some (pb_type (buf bs q) = t \<and> pb_next (buf bs q) = 0))"

definition validate_buffers :: "nat \<Rightarrow> pni_buffers \<Rightarrow> bool option" where
  "validate_buffers n B =
     do {
       let bs = buffers B;
       e \<leftarrow> count_buffers (Suc (length bs)) buff_empty bs (first_empty B);
       (case e of
          None \<Rightarrow> Some False
        | Some e \<Rightarrow>
            do {
              t \<leftarrow> count_buffers (Suc (length bs)) buff_todo bs (first_todo B);
              (case t of
                 None \<Rightarrow> Some False
               | Some t \<Rightarrow>
                   do {
                     d \<leftarrow> count_buffers (Suc (length bs)) buff_done bs (first_done B);
                     (case d of
                        None \<Rightarrow> Some False
                      | Some d \<Rightarrow>
                          if e + t + d \<noteq> n then Some False
                          else
                            do {
                              a \<leftarrow> validate_last bs buff_todo (first_todo B) (last_todo B);
                              b \<leftarrow> (if a then validate_last bs buff_done (first_done B) (last_done B) else Some False);
                              Some b
                            })
                   })
            })
     }"

section \<open>Linked lists in the array\<close>

lemma length_set_buf [simp]: "length (set_buf p f bs) = length bs" "length (set_next p n bs) = length bs"
  by (simp_all add: set_buf_def set_next_def)

lemma valid_ptr_set [simp]: "valid_ptr (set_buf p f bs) q = valid_ptr bs q" "valid_ptr (set_next p n bs) q = valid_ptr bs q"
  by (simp_all add: valid_ptr_def)

lemma buf_set_buf:
  "valid_ptr bs p \<Longrightarrow> valid_ptr bs q \<Longrightarrow> buf (set_buf p f bs) q = (if p = q then f (buf bs q) else buf bs q)"
  by (auto simp: buf_def set_buf_def valid_ptr_def nth_list_update)

lemma buf_set_next:
  "valid_ptr bs p \<Longrightarrow> valid_ptr bs q \<Longrightarrow>
   buf (set_next p n bs) q = (if p = q then (buf bs q)\<lparr>pb_next := n\<rparr> else buf bs q)"
  by (simp add: set_next_def buf_set_buf)

text \<open>\<open>path bs p xs q\<close>: following the \<open>next\<close> fields from \<open>p\<close> visits \<open>xs\<close> and arrives at \<open>q\<close>.\<close>

fun path :: "pbuffer list \<Rightarrow> buff_ptr \<Rightarrow> buff_ptr list \<Rightarrow> buff_ptr \<Rightarrow> bool" where
  "path bs p [] q \<longleftrightarrow> p = q"
| "path bs p (x # xs) q \<longleftrightarrow> p = x \<and> valid_ptr bs x \<and> path bs (pb_next (buf bs x)) xs q"

lemma path_append: "path bs p (xs @ ys) q \<longleftrightarrow> (\<exists>r. path bs p xs r \<and> path bs r ys q)"
  by (induction xs arbitrary: p) auto

lemma path_valid: "path bs p xs q \<Longrightarrow> x \<in> set xs \<Longrightarrow> valid_ptr bs x"
  by (induction xs arbitrary: p) auto

lemma path_cong:
  "\<lbrakk>length bs' = length bs; \<And>x. x \<in> set xs \<Longrightarrow> valid_ptr bs x \<Longrightarrow> pb_next (buf bs' x) = pb_next (buf bs x)\<rbrakk> \<Longrightarrow>
   path bs' p xs q = path bs p xs q"
  by (induction xs arbitrary: p) (auto simp: valid_ptr_def)

lemma path_set_buf:
  "\<lbrakk>valid_ptr bs x; \<And>b. pb_next (f b) = pb_next b\<rbrakk> \<Longrightarrow> path (set_buf x f bs) p xs q = path bs p xs q"
  by (rule path_cong) (auto simp: buf_set_buf)

lemma path_redirect:
  assumes "path bs p xs q" "xs \<noteq> []" "distinct xs"
  shows "path (set_next (last xs) r bs) p xs r"
proof -
  obtain ys x where xs: "xs = ys @ [x]" using assms(2) by (cases xs rule: rev_cases) auto
  have "path bs p ys x" "valid_ptr bs x" using assms(1) xs by (auto simp: path_append)
  moreover have "path (set_next x r bs) p ys x = path bs p ys x"
    using assms(3) xs \<open>valid_ptr bs x\<close> by (intro path_cong) (auto simp: buf_set_next)
  ultimately show ?thesis using xs by (auto simp: path_append buf_set_next)
qed

lemma path_null_iff: "path bs p xs 0 \<Longrightarrow> p = 0 \<longleftrightarrow> xs = []"
  by (cases xs) (auto simp: valid_ptr_def)

section \<open>The pool invariant\<close>

definition last_or_null :: "buff_ptr list \<Rightarrow> buff_ptr" where
  "last_or_null xs = (if xs = [] then 0 else last xs)"

text \<open>The lists of empty, waiting and finished buffers are \<open>es\<close>, \<open>ts\<close> and \<open>ds\<close>.\<close>

definition pool :: "nat \<Rightarrow> pni_buffers \<Rightarrow> buff_ptr list \<Rightarrow> buff_ptr list \<Rightarrow> buff_ptr list \<Rightarrow> bool" where
  "pool n B es ts ds \<longleftrightarrow>
     length (buffers B) = n \<and> distinct (es @ ts @ ds) \<and> set (es @ ts @ ds) = {1..n} \<and>
     path (buffers B) (first_empty B) es 0 \<and> path (buffers B) (first_todo B) ts 0 \<and> path (buffers B) (first_done B) ds 0 \<and>
     last_todo B = last_or_null ts \<and> last_done B = last_or_null ds \<and>
     (\<forall>x\<in>set es. pb_type (buf (buffers B) x) = buff_empty) \<and> (\<forall>x\<in>set ts. pb_type (buf (buffers B) x) = buff_todo) \<and>
     (\<forall>x\<in>set ds. pb_type (buf (buffers B) x) = buff_done) \<and> buffer_count B = length ts + length ds"

definition contents :: "pbuffer list \<Rightarrow> buff_ptr list \<Rightarrow> pn_raw_buffer list" where
  "contents bs xs = map (\<lambda>x. raw_of (buf bs x)) xs"

definition holds :: "nat \<Rightarrow> pni_buffers \<Rightarrow> pn_raw_buffer list \<Rightarrow> pn_raw_buffer list \<Rightarrow> bool" where
  "holds n B todo done \<longleftrightarrow>
     (\<exists>es ts ds. pool n B es ts ds \<and> todo = contents (buffers B) ts \<and> done = contents (buffers B) ds)"

lemma contents_simps [simp]:
  "contents bs [] = []" "contents bs (x # xs) = raw_of (buf bs x) # contents bs xs"
  "contents bs (xs @ ys) = contents bs xs @ contents bs ys" "length (contents bs xs) = length xs"
  "contents bs xs = [] \<longleftrightarrow> xs = []"
  by (simp_all add: contents_def)

lemma holdsI:
  "\<lbrakk>pool n B es ts ds; contents (buffers B) ts = todo; contents (buffers B) ds = done\<rbrakk> \<Longrightarrow> holds n B todo done"
  by (auto simp: holds_def)

lemma contents_cong:
  "(\<And>x. x \<in> set xs \<Longrightarrow> raw_of (buf bs' x) = raw_of (buf bs x)) \<Longrightarrow> contents bs' xs = contents bs xs"
  by (simp add: contents_def)

lemma fill_loop_path:
  "\<lbrakk>path bs p xs q; length xs = length rs; distinct xs; \<forall>x\<in>set xs. pb_type (buf bs x) = buff_empty\<rbrakk> \<Longrightarrow>
   \<exists>bs'. fill_loop sz rs p prev bs = Some (q, (if xs = [] then prev else last xs), bs') \<and> length bs' = length bs \<and>
     (\<forall>x. valid_ptr bs x \<and> x \<notin> set xs \<longrightarrow> buf bs' x = buf bs x) \<and>
     (\<forall>x\<in>set xs. pb_type (buf bs' x) = buff_todo \<and> pb_next (buf bs' x) = pb_next (buf bs x)) \<and>
     contents bs' xs = map (\<lambda>r. r\<lparr>raw_size := sz r\<rparr>) rs"
proof (induction rs arbitrary: p xs prev bs)
  case (Cons r rs)
  obtain ys where xs: "xs = p # ys" "valid_ptr bs p" "path bs (pb_next (buf bs p)) ys q" "p \<notin> set ys"
    using Cons.prems by (cases xs) auto
  let ?f = "\<lambda>b. b\<lparr>pb_context := raw_context r, pb_bytes := raw_bytes r, pb_capacity := raw_capacity r,
                  pb_size := sz r, pb_offset := raw_offset r, pb_type := buff_todo\<rparr>"
  let ?bs = "set_buf p ?f bs"
  have ys: "valid_ptr bs y" if "y \<in> set ys" for y using path_valid [OF xs(3) that] .
  have old: "buf ?bs x = buf bs x" if "valid_ptr bs x" "x \<noteq> p" for x using that xs(2) by (simp add: buf_set_buf)
  have oldys: "buf ?bs y = buf bs y" if "y \<in> set ys" for y using that xs(4) ys old by metis
  have new: "buf ?bs p = ?f (buf bs p)" using xs(2) by (simp add: buf_set_buf)
  have "path ?bs (pb_next (buf bs p)) ys q = path bs (pb_next (buf bs p)) ys q"
    using xs(2) by (simp add: path_set_buf)
  moreover have "\<forall>x\<in>set ys. pb_type (buf ?bs x) = buff_empty" using Cons.prems(4) xs(1) oldys by auto
  ultimately obtain bs' where bs': "fill_loop sz rs (pb_next (buf bs p)) p ?bs = Some (q, (if ys = [] then p else last ys), bs')"
    "length bs' = length ?bs" "\<And>x. valid_ptr ?bs x \<Longrightarrow> x \<notin> set ys \<Longrightarrow> buf bs' x = buf ?bs x"
    "\<forall>x\<in>set ys. pb_type (buf bs' x) = buff_todo \<and> pb_next (buf bs' x) = pb_next (buf ?bs x)"
    "contents bs' ys = map (\<lambda>r. r\<lparr>raw_size := sz r\<rparr>) rs"
    using Cons.IH [of ?bs "pb_next (buf bs p)" ys p] Cons.prems xs by auto
  have "fill_loop sz (r # rs) p prev bs = Some (q, last xs, bs')"
    using bs'(1) xs(1,2) Cons.prems(4) new by (simp add: Let_def)
  moreover have p: "buf bs' p = ?f (buf bs p)" using bs'(3) xs(2,4) new by simp
  moreover have "raw_of (?f (buf bs p)) = r\<lparr>raw_size := sz r\<rparr>" by (simp add: raw_of_def)
  ultimately show ?case using xs(1,2) bs'(2,4,5) bs'(3) old oldys by auto
qed simp

lemma take_loop_path:
  "\<lbrakk>path bs p (xs @ ys) 0; length xs = min n (length (xs @ ys)); distinct (xs @ ys);
    \<forall>x\<in>set xs. pb_type (buf bs x) = buff_done\<rbrakk> \<Longrightarrow>
   \<exists>q bs'. take_loop n p prev bs = Some (contents bs xs, q, (if xs = [] then prev else last xs), bs') \<and> path bs p xs q \<and>
     path bs q ys 0 \<and> length bs' = length bs \<and> (\<forall>x. valid_ptr bs x \<and> x \<notin> set xs \<longrightarrow> buf bs' x = buf bs x) \<and>
     (\<forall>x\<in>set xs. buf bs' x = (buf bs x)\<lparr>pb_type := buff_empty\<rparr>)"
proof (induction n arbitrary: p xs prev bs)
  case 0
  then show ?case by auto
next
  case (Suc n)
  show ?case
  proof (cases xs)
    case Nil
    with Suc.prems have "ys = []" "p = 0" by (cases ys; auto)+
    then show ?thesis using Nil by simp
  next
    case (Cons x zs)
    then have x: "p = x" "valid_ptr bs x" "path bs (pb_next (buf bs x)) (zs @ ys) 0" "x \<notin> set (zs @ ys)"
      using Suc.prems by auto
    let ?bs = "set_buf x (\<lambda>b. b\<lparr>pb_type := buff_empty\<rparr>) bs"
    have old: "buf ?bs y = buf bs y" if "valid_ptr bs y" "y \<noteq> x" for y using that x(2) by (simp add: buf_set_buf)
    have new: "buf ?bs x = (buf bs x)\<lparr>pb_type := buff_empty\<rparr>" using x(2) by (simp add: buf_set_buf)
    have same: "path ?bs q vs r = path bs q vs r" for q vs r
      using x(2) by (simp add: path_set_buf)
    have zs: "valid_ptr bs y" if "y \<in> set zs" for y using path_valid [OF x(3)] that by auto
    have oldzs: "buf ?bs y = buf bs y" if "y \<in> set zs" for y using that x(4) zs old by (metis UnCI set_append)
    have "\<forall>y\<in>set zs. pb_type (buf ?bs y) = buff_done" using Suc.prems(4) Cons oldzs by auto
    moreover have "length zs = min n (length (zs @ ys))" using Suc.prems(2) Cons by auto
    ultimately obtain q bs' where IH: "take_loop n (pb_next (buf bs x)) x ?bs = Some (contents ?bs zs, q, (if zs = [] then x else last zs), bs')"
      "path ?bs (pb_next (buf bs x)) zs q" "path ?bs q ys 0" "length bs' = length ?bs"
      "\<And>y. valid_ptr ?bs y \<Longrightarrow> y \<notin> set zs \<Longrightarrow> buf bs' y = buf ?bs y"
      "\<forall>y\<in>set zs. buf bs' y = (buf ?bs y)\<lparr>pb_type := buff_empty\<rparr>"
      using Suc.IH [of ?bs "pb_next (buf bs x)" zs x] same Suc.prems(3) Cons x(3) by auto
    have "contents ?bs zs = contents bs zs" using oldzs by (intro contents_cong) auto
    moreover have "raw_of ((buf bs x)\<lparr>pb_type := buff_empty\<rparr>) = raw_of (buf bs x)" by (simp add: raw_of_def)
    ultimately have "take_loop (Suc n) p prev bs = Some (contents bs xs, q, last xs, bs')"
      using IH(1) Cons x(1,2) new Suc.prems(4) by (auto simp: Let_def valid_ptr_def)
    moreover have "buf bs' x = (buf bs x)\<lparr>pb_type := buff_empty\<rparr>" using IH(5) x new by simp
    ultimately show ?thesis using IH(2,3,4,6) IH(5) Cons x(1,2,4) same old oldzs by auto
  qed
qed

section \<open>The operations on the pool\<close>

lemma poolD:
  assumes "pool n B es ts ds"
  shows "length (buffers B) = n" "distinct (es @ ts @ ds)" "set (es @ ts @ ds) = {1..n}"
    "path (buffers B) (first_empty B) es 0" "path (buffers B) (first_todo B) ts 0" "path (buffers B) (first_done B) ds 0"
    "last_todo B = last_or_null ts" "last_done B = last_or_null ds"
    "\<forall>x\<in>set es. pb_type (buf (buffers B) x) = buff_empty" "\<forall>x\<in>set ts. pb_type (buf (buffers B) x) = buff_todo"
    "\<forall>x\<in>set ds. pb_type (buf (buffers B) x) = buff_done" "buffer_count B = length ts + length ds"
  using assms by (auto simp: pool_def)

lemma pool_length:
  assumes "pool n B es ts ds"
  shows "length es + length ts + length ds = n"
proof -
  have "card (set (es @ ts @ ds)) = length (es @ ts @ ds)" using poolD(2) [OF assms] by (rule distinct_card)
  then show ?thesis using poolD(3) [OF assms] by simp
qed

lemma pool_valid: "pool n B es ts ds \<Longrightarrow> x \<in> set (es @ ts @ ds) \<Longrightarrow> valid_ptr (buffers B) x"
  using poolD(1) [of n B es ts ds] eqset_imp_iff [OF poolD(3) [of n B es ts ds], of x] by (simp add: valid_ptr_def)

lemma holds_count: "holds n B todo done \<Longrightarrow> buffer_count B = length todo + length done"
  by (auto simp: holds_def poolD(12))

lemma holds_first:
  assumes "holds n B todo done"
  shows "first_todo B = 0 \<longleftrightarrow> todo = []" "first_done B = 0 \<longleftrightarrow> done = []"
    "first_empty B = 0 \<longleftrightarrow> length todo + length done = n"
proof -
  from assms obtain es ts ds where p: "pool n B es ts ds" and c: "todo = contents (buffers B) ts" "done = contents (buffers B) ds"
    by (auto simp: holds_def)
  show "first_todo B = 0 \<longleftrightarrow> todo = []" using path_null_iff [OF poolD(5) [OF p]] c by (cases ts) auto
  show "first_done B = 0 \<longleftrightarrow> done = []" using path_null_iff [OF poolD(6) [OF p]] c by (cases ds) auto
  show "first_empty B = 0 \<longleftrightarrow> length todo + length done = n"
    using path_null_iff [OF poolD(4) [OF p]] pool_length [OF p] c by (cases es) auto
qed

lemma last_or_null_append: "ys \<noteq> [] \<Longrightarrow> last_or_null (xs @ ys) = last ys" "last_or_null (xs @ [y]) = y"
  by (simp_all add: last_or_null_def)

lemma path_init:
  "\<lbrakk>i \<le> n; 0 < i\<rbrakk> \<Longrightarrow> path (buffers (init_buffers n)) i [i..<Suc n] 0"
proof (induction "n - i" arbitrary: i)
  case 0
  then have "i = n" by simp
  then show ?case using 0 by (simp add: init_buffers_def buf_def valid_ptr_def nth_append)
next
  case (Suc k)
  then have "[i..<Suc n] = i # [Suc i..<Suc n]" by (simp add: upt_conv_Cons)
  moreover have "path (buffers (init_buffers n)) (Suc i) [Suc i..<Suc n] 0" using Suc by (intro Suc.hyps(1)) auto
  moreover have "pb_next (buf (buffers (init_buffers n)) i) = Suc i"
    using Suc.prems Suc.hyps(2) by (simp add: init_buffers_def buf_def nth_append del: upt_Suc)
  ultimately show ?case using Suc.prems by (simp add: valid_ptr_def init_buffers_def del: upt_Suc)
qed

lemma init_holds: "0 < n \<Longrightarrow> holds n (init_buffers n) [] []"
  unfolding holds_def
proof (intro exI conjI)
  assume "0 < n"
  then have "path (buffers (init_buffers n)) 1 [1..<Suc n] 0" using path_init [of 1 n] by simp
  then show "pool n (init_buffers n) [1..<Suc n] [] []"
    by (auto simp: pool_def init_buffers_def last_or_null_def buf_def nth_append simp del: upt_Suc)
qed simp_all

lemma give_holds:
  assumes "holds n B todo done" "rs \<noteq> []" "length todo + length done + length rs \<le> n"
  shows "\<exists>B'. give_buffers rs B = Some B' \<and> holds n B' (map (\<lambda>r. r\<lparr>raw_size := 0\<rparr>) rs @ todo) done"
proof -
  from assms(1) obtain es ts ds where p: "pool n B es ts ds" and c: "todo = contents (buffers B) ts" "done = contents (buffers B) ds"
    by (auto simp: holds_def)
  note P = poolD [OF p]
  let ?bs = "buffers B"
  obtain xs ys where es: "es = xs @ ys" "length xs = length rs"
    using pool_length [OF p] assms(3) c that [of "take (length rs) es" "drop (length rs) es"] by simp
  then have xs: "xs \<noteq> []" using assms(2) by auto
  obtain q where q: "path ?bs (first_empty B) xs q" "path ?bs q ys 0" using P(4) es by (auto simp: path_append)
  obtain bs' where bs': "fill_loop (\<lambda>_. 0) rs (first_empty B) 0 ?bs = Some (q, last xs, bs')" "length bs' = length ?bs"
    "\<And>x. valid_ptr ?bs x \<Longrightarrow> x \<notin> set xs \<Longrightarrow> buf bs' x = buf ?bs x"
    "\<And>x. x \<in> set xs \<Longrightarrow> pb_type (buf bs' x) = buff_todo" "\<And>x. x \<in> set xs \<Longrightarrow> pb_next (buf bs' x) = pb_next (buf ?bs x)"
    "contents bs' xs = map (\<lambda>r. r\<lparr>raw_size := 0\<rparr>) rs"
    using fill_loop_path [OF q(1) es(2), of "\<lambda>_. 0" 0] P(2,9) es xs by auto
  let ?bs' = "set_next (last xs) (first_todo B) bs'"
  let ?B = "B\<lparr>last_todo := (if last_todo B = 0 then last xs else last_todo B), buffers := ?bs', first_todo := first_empty B,
    first_empty := q, buffer_count := buffer_count B + length rs\<rparr>"
  have vx: "valid_ptr ?bs x" if "x \<in> set (es @ ts @ ds)" for x using pool_valid [OF p that] .
  have v: "valid_ptr bs' x = valid_ptr ?bs x" for x using bs'(2) by (simp add: valid_ptr_def)
  have last: "last xs \<in> set xs" "valid_ptr ?bs (last xs)" using xs es vx by auto
  have old: "buf ?bs' x = buf ?bs x" if "x \<in> set (ys @ ts @ ds)" for x
  proof -
    have "x \<notin> set xs" "valid_ptr ?bs x" using that P(2) es vx by auto
    then show ?thesis using last v bs'(3) by (auto simp: buf_set_next)
  qed
  have new: "raw_of (buf ?bs' x) = raw_of (buf bs' x)" "pb_type (buf ?bs' x) = buff_todo" if "x \<in> set xs" for x
    using that last v vx es bs'(4) by (simp_all add: buf_set_next raw_of_def)
  have keep: "path ?bs' a zs b = path ?bs a zs b" if "set zs \<subseteq> set (ys @ ts @ ds)" for a zs b
    using that old bs'(2) by (intro path_cong) auto
  have "path bs' (first_empty B) xs q = path ?bs (first_empty B) xs q" using bs'(2,5) by (intro path_cong) auto
  then have "path ?bs' (first_empty B) xs (first_todo B)" using path_redirect [of bs' "first_empty B" xs q] q xs P(2) es by simp
  moreover have "path ?bs' (first_todo B) ts 0" using P(5) keep [of ts] by auto
  ultimately have todo: "path ?bs' (first_empty B) (xs @ ts) 0" by (auto simp: path_append)
  have z: "last_todo B = 0 \<longleftrightarrow> ts = []" using P(7) vx by (auto simp: last_or_null_def valid_ptr_def)
  have rest: "path ?bs' q ys 0" "path ?bs' (first_done B) ds 0" using q(2) P(6) keep [of ys] keep [of ds] by auto
  have "pool n ?B ys (xs @ ts) ds"
    using P(1,2,3,7-12) es bs'(2) old new(2) todo rest z xs
    by (auto simp: pool_def last_or_null_def)
  moreover have "contents ?bs' (xs @ ts) = map (\<lambda>r. r\<lparr>raw_size := 0\<rparr>) rs @ todo" "contents ?bs' ds = done"
    using contents_cong [of xs ?bs' bs', OF new(1)] contents_cong [of ts ?bs' ?bs] contents_cong [of ds ?bs' ?bs] old bs'(6) c by simp_all
  moreover have "give_buffers rs B = Some ?B" using bs'(1) by (simp add: give_buffers_def)
  ultimately show ?thesis by (intro exI [of _ ?B] conjI holdsI [of n ?B ys "xs @ ts" ds]) simp_all
qed

lemma append_holds:
  assumes "holds n B todo done" "rs \<noteq> []" "length todo + length done + length rs \<le> n"
  shows "\<exists>B'. append_buffers rs B = Some B' \<and> holds n B' (todo @ rs) done"
proof -
  from assms(1) obtain es ts ds where p: "pool n B es ts ds" and c: "todo = contents (buffers B) ts" "done = contents (buffers B) ds"
    by (auto simp: holds_def)
  note P = poolD [OF p]
  let ?bs = "buffers B"
  obtain xs ys where es: "es = xs @ ys" "length xs = length rs"
    using pool_length [OF p] assms(3) c that [of "take (length rs) es" "drop (length rs) es"] by simp
  then have xs: "xs \<noteq> []" using assms(2) by auto
  obtain q where q: "path ?bs (first_empty B) xs q" "path ?bs q ys 0" using P(4) es by (auto simp: path_append)
  obtain bs' where bs': "fill_loop raw_size rs (first_empty B) 0 ?bs = Some (q, last xs, bs')" "length bs' = length ?bs"
    "\<And>x. valid_ptr ?bs x \<Longrightarrow> x \<notin> set xs \<Longrightarrow> buf bs' x = buf ?bs x"
    "\<And>x. x \<in> set xs \<Longrightarrow> pb_type (buf bs' x) = buff_todo" "\<And>x. x \<in> set xs \<Longrightarrow> pb_next (buf bs' x) = pb_next (buf ?bs x)"
    "contents bs' xs = map (\<lambda>r. r\<lparr>raw_size := raw_size r\<rparr>) rs"
    using fill_loop_path [OF q(1) es(2), of raw_size 0] P(2,9) es xs by auto
  have vx: "valid_ptr ?bs x" if "x \<in> set (es @ ts @ ds)" for x using pool_valid [OF p that] .
  have v: "valid_ptr bs' x = valid_ptr ?bs x" for x using bs'(2) by (simp add: valid_ptr_def)
  have z: "last_todo B = 0 \<longleftrightarrow> ts = []" "first_todo B = 0 \<longleftrightarrow> ts = []" "ts \<noteq> [] \<Longrightarrow> last_todo B = last ts"
    using P(7) vx path_null_iff [OF P(5)] by (auto simp: last_or_null_def valid_ptr_def)
  define bs1 where "bs1 = (if last_todo B \<noteq> 0 then set_next (last_todo B) (first_empty B) bs' else bs')"
  have bs1: "length bs1 = length ?bs" using bs'(2) by (simp add: bs1_def)
  have last_ts: "ts \<noteq> [] \<Longrightarrow> last_todo B \<in> set ts \<and> valid_ptr bs' (last_todo B)" using z(3) v vx by auto
  have b1: "buf bs1 x = (if ts \<noteq> [] \<and> x = last ts then (buf bs' x)\<lparr>pb_next := first_empty B\<rparr> else buf bs' x)"
    if "x \<in> set (es @ ts @ ds)" for x
    using that vx v last_ts z by (auto simp: bs1_def buf_set_next)
  let ?bs' = "set_next (last xs) 0 bs1"
  let ?B = "B\<lparr>first_todo := (if first_todo B = 0 then first_empty B else first_todo B), last_todo := last xs, buffers := ?bs',
    first_empty := q, buffer_count := buffer_count B + length rs\<rparr>"
  have last: "last xs \<in> set xs" "valid_ptr bs1 (last xs)" using xs es vx bs1 by (auto simp: valid_ptr_def)
  have vs: "valid_ptr bs1 x" if "x \<in> set (es @ ts @ ds)" for x using vx [OF that] bs1 by (simp add: valid_ptr_def)
  have disj: "x \<notin> set xs" "x \<noteq> last xs" if "x \<in> set (ys @ ts @ ds)" for x using that P(2) es last(1) by auto
  have old: "buf ?bs' x = buf ?bs x" if "x \<in> set (ys @ ds)" for x
  proof -
    have "x \<notin> set ts" using that P(2) es by auto
    then have "ts = [] \<or> x \<noteq> last ts" using last_in_set [of ts] by blast
    moreover have "x \<in> set (es @ ts @ ds)" using that es by auto
    ultimately show ?thesis
      using that disj [of x] vs [of x] last b1 [of x] bs'(3) [of x] vx [of x] by (auto simp: buf_set_next)
  qed
  have raw: "raw_of (buf ?bs' x) = raw_of (buf bs' x)" "pb_type (buf ?bs' x) = buff_todo" if "x \<in> set (ts @ xs)" for x
    using that vs [of x] last b1 [of x] bs'(3,4) vx [of x] disj [of x] P(10) es by (auto simp: buf_set_next raw_of_def)
  have "path bs' (first_empty B) xs q = path ?bs (first_empty B) xs q" using bs'(2,5) by (intro path_cong) auto
  moreover have "pb_next (buf bs1 x) = pb_next (buf bs' x)" if "x \<in> set xs" for x
    using b1 [of x] that es disj [of x] by auto
  then have "path bs1 (first_empty B) xs q = path bs' (first_empty B) xs q" using bs1 bs'(2) by (intro path_cong) auto
  ultimately have pxs: "path ?bs' (first_empty B) xs 0" using path_redirect [of bs1 "first_empty B" xs q 0] q xs P(2) es by simp
  have pts: "path ?bs' (first_todo B) ts (first_empty B)" if "ts \<noteq> []"
  proof -
    have "path bs' (first_todo B) ts 0" using P(5) path_cong [of bs' ?bs ts] bs'(2,3) disj(1) by simp
    then have "path bs1 (first_todo B) ts (first_empty B)"
      using path_redirect [of bs' "first_todo B" ts 0 "first_empty B"] that z P(2) by (simp add: bs1_def)
    moreover have "path ?bs' (first_todo B) ts (first_empty B) = path bs1 (first_todo B) ts (first_empty B)"
      using disj(2) last by (intro path_cong) (auto simp: buf_set_next)
    ultimately show ?thesis by simp
  qed
  have todo: "path ?bs' (if first_todo B = 0 then first_empty B else first_todo B) (ts @ xs) 0"
    using pxs pts z(2) by (cases "ts = []") (auto simp: path_append)
  have keep: "path ?bs' a zs b = path ?bs a zs b" if "set zs \<subseteq> set (ys @ ds)" for a zs b
    using that old bs1 by (intro path_cong) auto
  have rest: "path ?bs' q ys 0" "path ?bs' (first_done B) ds 0" using q(2) P(6) keep [of ys] keep [of ds] by auto
  have "pool n ?B ys (ts @ xs) ds"
    using P(1,2,3,8-12) es bs1 old raw(2) todo rest xs
    by (auto simp: pool_def last_or_null_def)
  moreover have "contents bs' ts = contents ?bs ts" using bs'(3) disj(1) vx by (intro contents_cong) auto
  then have "contents ?bs' (ts @ xs) = todo @ rs" "contents ?bs' ds = done"
    using contents_cong [of xs ?bs' bs'] contents_cong [of ts ?bs' bs'] raw(1) contents_cong [of ds ?bs' ?bs] old bs'(6) c by simp_all
  moreover have "append_buffers rs B = Some ?B" using bs'(1) by (simp add: append_buffers_def bs1_def Let_def)
  ultimately show ?thesis by (intro exI [of _ ?B] conjI holdsI [of n ?B ys "ts @ xs" ds]) simp_all
qed

lemma take_holds:
  assumes "holds n B todo done"
  shows "\<exists>B'. take_buffers k B = Some (take k done, B') \<and> holds n B' todo (drop k done)"
proof -
  from assms obtain es ts ds where p: "pool n B es ts ds" and c: "todo = contents (buffers B) ts" "done = contents (buffers B) ds"
    by (auto simp: holds_def)
  note P = poolD [OF p]
  let ?bs = "buffers B"
  define xs ys where "xs = take k ds" "ys = drop k ds"
  then have ds: "ds = xs @ ys" and len: "length xs = min k (length (xs @ ys))" by simp_all
  have c': "take k done = contents ?bs xs" "drop k done = contents ?bs ys"
    using c by (simp_all add: xs_ys_def contents_def take_map drop_map)
  obtain q bs' where bs': "take_loop k (first_done B) 0 ?bs = Some (contents ?bs xs, q, (if xs = [] then 0 else last xs), bs')"
    "path ?bs (first_done B) xs q" "path ?bs q ys 0" "length bs' = length ?bs"
    "\<And>x. valid_ptr ?bs x \<Longrightarrow> x \<notin> set xs \<Longrightarrow> buf bs' x = buf ?bs x"
    "\<And>x. x \<in> set xs \<Longrightarrow> buf bs' x = (buf ?bs x)\<lparr>pb_type := buff_empty\<rparr>"
    using take_loop_path [OF _ len, of ?bs "first_done B" 0] P(2,6,11) ds by auto
  have vx: "valid_ptr ?bs x" if "x \<in> set (es @ ts @ ds)" for x using pool_valid [OF p that] .
  show ?thesis
  proof (cases "xs = []")
    case True
    have "k = 0 \<or> ds = []" using True xs_ys_def(1) by simp
    then have "take_buffers k B = Some ([], B)"
    proof
      assume "k = 0"
      then show ?thesis by (cases B) (simp add: take_buffers_def)
    next
      assume "ds = []"
      then show ?thesis using P(6) by (simp add: take_buffers_def)
    qed
    moreover have "take k done = []" "drop k done = done" using True ds c c' by simp_all
    ultimately show ?thesis using assms by auto
  next
    case False
    let ?bs' = "set_next (last xs) (first_empty B) bs'"
    let ?B = "B\<lparr>buffers := ?bs', first_empty := first_done B, first_done := q, last_done := (if q = 0 then 0 else last_done B),
      buffer_count := buffer_count B - length xs\<rparr>"
    have v: "valid_ptr bs' x = valid_ptr ?bs x" for x using bs'(4) by (simp add: valid_ptr_def)
    have last: "last xs \<in> set xs" "valid_ptr bs' (last xs)" using False ds vx v by auto
    have old: "buf ?bs' x = buf ?bs x" if "x \<in> set (es @ ts @ ys)" for x
    proof -
      have "x \<notin> set xs" "valid_ptr ?bs x" using that P(2) ds vx by auto
      then show ?thesis using last v bs'(5) by (auto simp: buf_set_next)
    qed
    have new: "pb_type (buf ?bs' x) = buff_empty" if "x \<in> set xs" for x
      using that last v vx ds bs'(6) by (simp add: buf_set_next)
    have keep: "path ?bs' a zs b = path ?bs a zs b" if "set zs \<subseteq> set (es @ ts @ ys)" for a zs b
      using that old bs'(4) by (intro path_cong) auto
    have "path bs' (first_done B) xs q = path ?bs (first_done B) xs q" using bs'(4,6) by (intro path_cong) auto
    then have "path ?bs' (first_done B) xs (first_empty B)" using path_redirect [of bs' "first_done B" xs q] bs'(2) False P(2) ds by simp
    moreover have "path ?bs' (first_empty B) es 0" using P(4) keep [of es] by auto
    ultimately have empty: "path ?bs' (first_done B) (xs @ es) 0" by (auto simp: path_append)
    have rest: "path ?bs' q ys 0" "path ?bs' (first_todo B) ts 0" using bs'(3) P(5) keep [of ys] keep [of ts] by auto
    have q: "q = 0 \<longleftrightarrow> ys = []" using path_null_iff [OF bs'(3)] .
    have "pool n ?B (xs @ es) ts ys"
      using P(1,2,3,7-12) ds bs'(4) old new empty rest q False
      by (auto simp: pool_def last_or_null_def)
    moreover have "contents ?bs' ts = todo" "contents ?bs' ys = drop k done"
      using contents_cong [of ts ?bs' ?bs] contents_cong [of ys ?bs' ?bs] old c(1) c'(2) by simp_all
    moreover have "first_done B \<noteq> 0" using P(6) path_null_iff ds False by auto
    then have "take_buffers k B = Some (take k done, ?B)"
      using bs'(1) False c'(1) by (cases xs) (simp_all add: take_buffers_def)
    ultimately show ?thesis by (intro exI [of _ ?B] conjI holdsI [of n ?B "xs @ es" ts ys]) simp_all
  qed
qed

text \<open>Inside the loops \<open>last_todo\<close> is not reset when the list of waiting buffers becomes empty.\<close>

definition holds_open :: "nat \<Rightarrow> pni_buffers \<Rightarrow> pn_raw_buffer list \<Rightarrow> pn_raw_buffer list \<Rightarrow> bool" where
  "holds_open n B todo done \<longleftrightarrow> holds n (B\<lparr>last_todo := (if todo = [] then 0 else last_todo B)\<rparr>) todo done"

lemma holds_openI: "holds n B todo done \<Longrightarrow> holds_open n B todo done"
proof -
  assume h: "holds n B todo done"
  then have "last_todo B = (if todo = [] then 0 else last_todo B)"
    by (auto simp: holds_def pool_def last_or_null_def)
  moreover have "B\<lparr>last_todo := last_todo B\<rparr> = B" by (cases B) simp
  ultimately have "B\<lparr>last_todo := (if todo = [] then 0 else last_todo B)\<rparr> = B" by metis
  then show ?thesis using h by (simp add: holds_open_def)
qed

lemma holds_open_first:
  assumes "holds_open n B todo done"
  shows "first_todo B = 0 \<longleftrightarrow> todo = []" "first_done B = 0 \<longleftrightarrow> done = []"
  using holds_first(1,2) [OF assms [unfolded holds_open_def]] by simp_all

lemma holds_open_close:
  assumes "holds_open n B todo done"
  shows "holds n (if first_todo B = 0 then B\<lparr>last_todo := 0\<rparr> else B) todo done"
proof -
  have "B\<lparr>last_todo := last_todo B\<rparr> = B" by (cases B) simp
  then show ?thesis using assms holds_open_first(1) [OF assms] by (auto simp: holds_open_def)
qed

lemma set_buf_id [simp]: "set_buf p (\<lambda>b. b) bs = bs"
  by (simp add: set_buf_def)

lemma path_extend:
  assumes "path bs p xs 0" "distinct xs" "x \<notin> set xs" "valid_ptr bs x"
  shows "path (set_buf x (\<lambda>b. b\<lparr>pb_next := 0, pb_type := t\<rparr>) (if xs = [] then bs else set_next (last xs) x bs))
    (if p = 0 then x else p) (xs @ [x]) 0"
proof (cases "xs = []")
  case True
  then show ?thesis using assms by (simp add: buf_set_buf)
next
  case False
  let ?bs = "set_next (last xs) x bs"
  have v: "valid_ptr ?bs x" using assms(4) by simp
  have "path ?bs p xs x" using path_redirect [OF assms(1) False assms(2)] .
  moreover have "path (set_buf x (\<lambda>b. b\<lparr>pb_next := 0, pb_type := t\<rparr>) ?bs) p xs x = path ?bs p xs x"
  proof (rule path_cong)
    fix y assume "y \<in> set xs" "valid_ptr ?bs y"
    moreover from this assms(3) have "x \<noteq> y" by auto
    ultimately show "pb_next (buf (set_buf x (\<lambda>b. b\<lparr>pb_next := 0, pb_type := t\<rparr>) ?bs) y) = pb_next (buf ?bs y)"
      using v by (simp add: buf_set_buf)
  qed simp
  moreover have "p \<noteq> 0" using path_null_iff [OF assms(1)] False by simp
  ultimately show ?thesis using False v by (auto simp: path_append buf_set_buf)
qed

lemma finish_open:
  assumes "holds_open n B (t # todo) done" and f: "\<And>b. pb_next (f b) = pb_next b" "\<And>b. pb_type (f b) = pb_type b"
  shows "\<exists>b. todo_buffer B = Some b \<and> raw_of b = t \<and>
    holds_open n (finish_buffer (B\<lparr>buffers := set_buf (first_todo B) f (buffers B)\<rparr>)) todo (done @ [raw_of (f b)])"
proof -
  from assms(1) obtain es ts ds where p: "pool n (B\<lparr>last_todo := last_todo B\<rparr>) es ts ds"
    and c: "t # todo = contents (buffers B) ts" "done = contents (buffers B) ds"
    by (auto simp: holds_open_def holds_def)
  obtain x zs where ts: "ts = x # zs" "t = raw_of (buf (buffers B) x)" "todo = contents (buffers B) zs"
    using c(1) by (cases ts) auto
  let ?bs = "buffers B"
  note P = poolD [OF p, simplified]
  have x: "first_todo B = x" "path ?bs (pb_next (buf ?bs x)) zs 0" "pb_type (buf ?bs x) = buff_todo" using P(5,10) ts by auto
  have vx: "valid_ptr ?bs y" if "y \<in> set (es @ ts @ ds)" for y using pool_valid [OF p that] by simp
  have vx': "valid_ptr ?bs x" using vx ts by simp
  let ?bz = "set_buf x f ?bs"
  let ?bs1 = "if ds = [] then ?bz else set_next (last ds) x ?bz"
  let ?bs2 = "set_buf x (\<lambda>b. b\<lparr>pb_next := 0, pb_type := buff_done\<rparr>) ?bs1"
  have last: "ds \<noteq> [] \<Longrightarrow> last ds \<in> set ds \<and> valid_ptr ?bs (last ds) \<and> last ds \<noteq> x"
    using vx P(2) ts last_in_set [of ds] by auto
  have z: "last_done B \<noteq> 0 \<longleftrightarrow> ds \<noteq> []" "ds \<noteq> [] \<Longrightarrow> last_done B = last ds" "first_done B = 0 \<longleftrightarrow> ds = []"
    using P(8) last path_null_iff [OF P(6)] by (auto simp: last_or_null_def valid_ptr_def)
  have b0: "buf ?bz y = (if y = x then f (buf ?bs x) else buf ?bs y)" if "valid_ptr ?bs y" for y
    using buf_set_buf [OF vx' that, of f] by auto
  have b1: "buf ?bs1 y = (if ds \<noteq> [] \<and> y = last ds then (buf ?bz y)\<lparr>pb_next := x\<rparr> else buf ?bz y)" if "valid_ptr ?bs y" for y
    using that last by (auto simp: buf_set_next)
  have b2: "buf ?bs2 y = (if y = x then (f (buf ?bs x))\<lparr>pb_next := 0, pb_type := buff_done\<rparr>
      else if ds \<noteq> [] \<and> y = last ds then (buf ?bs y)\<lparr>pb_next := x\<rparr> else buf ?bs y)" if "valid_ptr ?bs y" for y
    using that vx' b1 [OF that] b0 [OF that] last by (auto simp: buf_set_buf)
  let ?B = "finish_buffer (B\<lparr>buffers := ?bz\<rparr>)"
  have B: "?B = B\<lparr>first_done := (if first_done B = 0 then x else first_done B), last_done := x,
      first_todo := pb_next (buf ?bs x), buffers := ?bs2\<rparr>"
    using z x(1) b1 [OF vx'] b0 [OF vx'] last f(1) by (auto simp: finish_buffer_def Let_def)
  have "path ?bs2 (if first_done B = 0 then x else first_done B) (ds @ [x]) 0"
    using path_extend [of ?bz "first_done B" ds x buff_done] P(2,6) ts vx' f(1) by (simp add: path_set_buf)
  moreover have out: "buf ?bs2 y = buf ?bs y" if "y \<in> set (es @ zs)" for y
  proof -
    have "y \<noteq> x" "y \<notin> set ds" "valid_ptr ?bs y" using that P(2) ts vx by auto
    then show ?thesis using b2 last by auto
  qed
  moreover have keep: "path ?bs2 a ys 0 = path ?bs a ys 0" if "set ys \<subseteq> set (es @ zs)" for a ys
    using that out by (intro path_cong) auto
  moreover have ty: "pb_type (buf ?bs2 y) = buff_done" if "y \<in> set (ds @ [x])" for y
    using that b2 [of y] vx vx' P(11) by auto
  ultimately have pool: "pool n (?B\<lparr>last_todo := (if zs = [] then 0 else last_todo B)\<rparr>) es zs (ds @ [x])"
    using P(1-4,7,9,10,12) ts x(2) keep [of es] keep [of zs] unfolding B
    by (auto simp: pool_def last_or_null_def)
  have "raw_of (buf ?bs2 y) = raw_of (buf ?bs y)" if "y \<in> set (zs @ ds)" for y
  proof -
    have "y \<noteq> x" "valid_ptr ?bs y" using that P(2) ts vx by auto
    then show ?thesis using b2 [of y] by (auto simp: raw_of_def)
  qed
  then have "contents ?bs2 zs = todo" "contents ?bs2 ds = done"
    using contents_cong [of zs ?bs2 ?bs] contents_cong [of ds ?bs2 ?bs] ts(3) c(2) by simp_all
  moreover have "raw_of (buf ?bs2 x) = raw_of (f (buf ?bs x))" using b2 [OF vx'] by (simp add: raw_of_def)
  moreover have "buffers (?B\<lparr>last_todo := l\<rparr>) = ?bs2" for l by (simp only: B) simp
  ultimately have "holds n (?B\<lparr>last_todo := (if zs = [] then 0 else last_todo B)\<rparr>) todo (done @ [raw_of (f (buf ?bs x))])"
    by (intro holdsI [OF pool]) simp_all
  moreover have "todo = [] \<longleftrightarrow> zs = []" using ts(3) by simp
  moreover have "last_todo ?B = last_todo B" by (simp only: B) simp
  ultimately have "holds_open n ?B todo (done @ [raw_of (f (buf ?bs x))])"
    unfolding holds_open_def by (cases "zs = []") simp_all
  moreover have "todo_buffer B = Some (buf ?bs x)" using x vx' by (simp add: todo_buffer_def)
  ultimately show ?thesis using ts(2) x(1) by auto
qed

lemma finish_buffer_length [simp]: "length (buffers (finish_buffer B)) = length (buffers B)"
  by (simp add: finish_buffer_def Let_def)

text \<open>Releasing moves every waiting buffer, in order, behind the finished ones.\<close>

lemma release_loop_holds:
  assumes f: "\<And>b. pb_next (f b) = pb_next b" "\<And>b. pb_type (f b) = pb_type b" "\<And>b. raw_of (f b) = g (raw_of b)"
  shows "\<lbrakk>holds_open n B todo done; length todo < k\<rbrakk> \<Longrightarrow>
    \<exists>B'. release_loop k f B = Some B' \<and> holds n B' [] (done @ map g todo)"
proof (induction k arbitrary: B todo "done")
  case (Suc k)
  show ?case
  proof (cases todo)
    case Nil
    then show ?thesis using holds_open_close [OF Suc.prems(1)] holds_open_first(1) [OF Suc.prems(1)] by auto
  next
    case (Cons t ts)
    obtain b where b: "todo_buffer B = Some b" "raw_of b = t"
      "holds_open n (finish_buffer (B\<lparr>buffers := set_buf (first_todo B) f (buffers B)\<rparr>)) ts (done @ [raw_of (f b)])"
      using finish_open [of n B t ts "done" f] f Suc.prems(1) Cons by auto
    then show ?thesis
      using Suc.IH [OF b(3)] Suc.prems(2) Cons f(3) holds_open_first(1) [OF Suc.prems(1)] by auto
  qed
qed simp

lemma holds_bound: "holds n B todo done \<Longrightarrow> length todo + length done \<le> n \<and> length (buffers B) = n"
  using pool_length poolD(1) by (fastforce simp: holds_def)

lemma release_holds:
  assumes "holds n B todo done"
    and f: "\<And>b. pb_next (f b) = pb_next b" "\<And>b. pb_type (f b) = pb_type b" "\<And>b. raw_of (f b) = g (raw_of b)"
  shows "\<exists>B'. release_buffers f B = Some B' \<and> holds n B' [] (done @ map g todo)"
  unfolding release_buffers_def
  using holds_bound [OF assms(1)] by (intro release_loop_holds [OF f holds_openI [OF assms(1)]]) auto

lemma count_buffers_path:
  "\<lbrakk>path bs p xs 0; \<forall>x\<in>set xs. pb_type (buf bs x) = t; length xs < n\<rbrakk> \<Longrightarrow> count_buffers n t bs p = Some (Some (length xs))"
proof (induction n arbitrary: p xs)
  case (Suc n)
  show ?case
  proof (cases xs)
    case (Cons x ys)
    then have "count_buffers n t bs (pb_next (buf bs x)) = Some (Some (length ys))" using Suc by (intro Suc.IH) auto
    then show ?thesis using Suc.prems Cons by (auto simp: valid_ptr_def)
  qed (use Suc.prems in simp)
qed simp

lemma validate_last_path:
  assumes "path bs p xs 0" "\<forall>x\<in>set xs. pb_type (buf bs x) = t"
  shows "validate_last bs t p (last_or_null xs) = Some True"
proof (cases xs rule: rev_cases)
  case Nil
  then show ?thesis by (simp add: validate_last_def last_or_null_def)
next
  case (snoc ys x)
  then have "valid_ptr bs x" "pb_next (buf bs x) = 0" "pb_type (buf bs x) = t" "p \<noteq> 0"
    using assms path_null_iff [OF assms(1)] by (auto simp: path_append)
  then show ?thesis using snoc by (simp add: validate_last_def last_or_null_def valid_ptr_def)
qed

lemma validate_holds:
  assumes "holds n B todo done"
  shows "validate_buffers n B = Some True"
proof -
  from assms obtain es ts ds where p: "pool n B es ts ds" by (auto simp: holds_def)
  note P = poolD [OF p]
  have len: "length es + length ts + length ds = n" using pool_length [OF p] .
  have "count_buffers (Suc (length (buffers B))) buff_empty (buffers B) (first_empty B) = Some (Some (length es))"
    using P(1,4,9) len by (intro count_buffers_path) auto
  moreover have "count_buffers (Suc (length (buffers B))) buff_todo (buffers B) (first_todo B) = Some (Some (length ts))"
    using P(1,5,10) len by (intro count_buffers_path) auto
  moreover have "count_buffers (Suc (length (buffers B))) buff_done (buffers B) (first_done B) = Some (Some (length ds))"
    using P(1,6,11) len by (intro count_buffers_path) auto
  moreover have "validate_last (buffers B) buff_todo (first_todo B) (last_todo B) = Some True"
    "validate_last (buffers B) buff_done (first_done B) (last_done B) = Some True"
    using validate_last_path [OF P(5,10)] validate_last_path [OF P(6,11)] P(7,8) by simp_all
  ultimately show ?thesis using len by (simp add: validate_buffers_def Let_def del: count_buffers.simps)
qed

end
