(* ===== verification/Raw_Connection.thy ===== *)
theory Raw_Connection
  imports Raw_Buffers Collector
begin

text \<open>
  The raw connection of \<open>proactor/raw_connection.c\<close>: a state machine over the two buffer pools of theory
  \<open>Raw_Buffers\<close> that turns socket activity and calls of the application into events on a collector. The
  socket is a parameter: a call of \<open>recv\<close> or \<open>send\<close> is a function from the number of bytes asked for to
  the result, and an operation is given the list of the calls' behaviours; when the list is used up the
  socket would block. The operations return, beside the new connection, the calls they made with their
  results. Results are those after conversion to \<open>int\<close>. \<open>set_error\<close> is the one of the epoll proactor: it
  keeps the first error, of which the model has the message and the error number. \<open>None\<close> is a failed
  assertion. Destruction (\<open>pni_raw_finalize\<close>) is left out.
\<close>

section \<open>State\<close>

datatype raw_conn_state =
  conn_wrong | conn_init | conn_ro_wo | conn_ro_wd | conn_ro_wc | conn_ro_ws | conn_rc_wo | conn_rc_wd | conn_rs_wo |
  conn_rs_wd | conn_rs_ws | conn_fini

datatype raw_disconnect_state = disc_init | disc_drain_msg | disc_read_msg | disc_written_msg | disc_fini

text \<open>\<open>rc_self\<close> is the address of the connection.\<close>

record pn_raw_connection =
  rc_self :: pn_object
  rbuffers :: pni_buffers
  wbuffers :: pni_buffers
  condition :: "(string \<times> nat) option"
  collector :: pn_collector
  attachments :: pn_record
  unwritten_offset :: nat
  rc_state :: raw_conn_state
  disconnect_state :: raw_disconnect_state
  rrequestedbuffers :: bool
  wrequestedbuffers :: bool
  connectpending :: bool
  rpending :: bool
  wpending :: bool
  rclosedpending :: bool
  wclosedpending :: bool
  disconnectpending :: bool
  wakepending :: bool

definition pni_raw_initialize :: "pn_object \<Rightarrow> pn_raw_connection" where
  "pni_raw_initialize self =
     \<lparr>rc_self = self, rbuffers = init_buffers read_buffer_count, wbuffers = init_buffers write_buffer_count,
      condition = None, collector = pn_collector_initialize, attachments = pn_record_new, unwritten_offset = 0,
      rc_state = conn_init, disconnect_state = disc_init, rrequestedbuffers = False, wrequestedbuffers = False,
      connectpending = False, rpending = False, wpending = False, rclosedpending = False, wclosedpending = False,
      disconnectpending = False, wakepending = False\<rparr>"

section \<open>The state machine\<close>

datatype raw_event =
  conn_connected | conn_read_closed | conn_write_closed | conn_write_drained | int_read_shutdown | int_write_shutdown |
  int_disconnect | api_read_close | api_write_close

text \<open>
  The rows of the table, in the order of the events. \<open>conn_init\<close>, whose number is 0, stands for staying in the
  same state.
\<close>

fun state_row :: "raw_conn_state \<Rightarrow> raw_conn_state list" where
  "state_row conn_init = [conn_ro_wo, conn_wrong, conn_wrong, conn_wrong, conn_wrong, conn_wrong, conn_wrong, conn_rc_wo, conn_ro_wd]"
| "state_row conn_ro_wo = [conn_wrong, conn_rc_wo, conn_ro_wc, conn_init, conn_wrong, conn_wrong, conn_wrong, conn_rc_wo, conn_ro_wd]"
| "state_row conn_ro_wd = [conn_wrong, conn_rc_wd, conn_ro_wc, conn_ro_wc, conn_wrong, conn_wrong, conn_wrong, conn_rc_wd, conn_init]"
| "state_row conn_ro_wc = [conn_wrong, conn_rs_ws, conn_init, conn_wrong, conn_wrong, conn_ro_ws, conn_wrong, conn_rs_ws, conn_init]"
| "state_row conn_ro_ws = [conn_wrong, conn_rs_ws, conn_init, conn_init, conn_wrong, conn_wrong, conn_wrong, conn_rs_ws, conn_init]"
| "state_row conn_rc_wo = [conn_wrong, conn_init, conn_rs_ws, conn_init, conn_rs_wo, conn_wrong, conn_wrong, conn_init, conn_rc_wd]"
| "state_row conn_rc_wd = [conn_wrong, conn_init, conn_rs_ws, conn_rs_ws, conn_rs_wd, conn_wrong, conn_wrong, conn_init, conn_init]"
| "state_row conn_rs_wo = [conn_wrong, conn_init, conn_rs_ws, conn_init, conn_wrong, conn_wrong, conn_wrong, conn_init, conn_rs_wd]"
| "state_row conn_rs_wd = [conn_wrong, conn_init, conn_rs_ws, conn_rs_ws, conn_wrong, conn_wrong, conn_wrong, conn_init, conn_init]"
| "state_row conn_rs_ws = [conn_wrong, conn_init, conn_init, conn_wrong, conn_wrong, conn_wrong, conn_fini, conn_init, conn_init]"
| "state_row conn_fini = [conn_wrong, conn_wrong, conn_wrong, conn_wrong, conn_wrong, conn_wrong, conn_init, conn_init, conn_init]"
| "state_row conn_wrong = []"

fun event_index :: "raw_event \<Rightarrow> nat" where
  "event_index conn_connected = 0"
| "event_index conn_read_closed = 1"
| "event_index conn_write_closed = 2"
| "event_index conn_write_drained = 3"
| "event_index int_read_shutdown = 4"
| "event_index int_write_shutdown = 5"
| "event_index int_disconnect = 6"
| "event_index api_read_close = 7"
| "event_index api_write_close = 8"

definition state_transitions :: "raw_conn_state \<Rightarrow> raw_event \<Rightarrow> raw_conn_state" where
  "state_transitions s e = (if event_index e < length (state_row s) then state_row s ! event_index e else conn_wrong)"

definition pni_raw_new_state :: "pn_raw_connection \<Rightarrow> raw_event \<Rightarrow> raw_conn_state option" where
  "pni_raw_new_state c e =
     (let old_state = rc_state c; new_state = state_transitions old_state e
      in if new_state = conn_wrong then None
         else Some (if new_state = conn_init then old_state else new_state))"

text \<open>\<open>conn->state = pni_raw_new_state(conn, event)\<close>.\<close>

definition change_state :: "raw_event \<Rightarrow> pn_raw_connection \<Rightarrow> pn_raw_connection option" where
  "change_state e c = map_option (\<lambda>s. c\<lparr>rc_state := s\<rparr>) (pni_raw_new_state c e)"

definition pni_raw_ropen :: "pn_raw_connection \<Rightarrow> bool" where
  "pni_raw_ropen c \<longleftrightarrow> rc_state c \<in> {conn_ro_wo, conn_ro_wd, conn_ro_wc, conn_ro_ws}"

definition pni_raw_rclosed :: "pn_raw_connection \<Rightarrow> bool" where
  "pni_raw_rclosed c \<longleftrightarrow> rc_state c \<in> {conn_rc_wo, conn_rc_wd, conn_rs_wo, conn_rs_wd, conn_rs_ws, conn_fini}"

definition pni_raw_rclosing :: "pn_raw_connection \<Rightarrow> bool" where
  "pni_raw_rclosing c \<longleftrightarrow> rc_state c \<in> {conn_rc_wo, conn_rc_wd}"

definition pni_raw_wclosed :: "pn_raw_connection \<Rightarrow> bool" where
  "pni_raw_wclosed c \<longleftrightarrow> rc_state c \<in> {conn_ro_wd, conn_ro_wc, conn_ro_ws, conn_rc_wd, conn_rs_wd, conn_rs_ws, conn_fini}"

definition pni_raw_wdrained :: "pn_raw_connection \<Rightarrow> bool" where
  "pni_raw_wdrained c \<longleftrightarrow> rc_state c \<in> {conn_ro_wc, conn_ro_ws, conn_rs_ws, conn_fini}"

definition pni_raw_wclosing :: "pn_raw_connection \<Rightarrow> bool" where
  "pni_raw_wclosing c \<longleftrightarrow> rc_state c = conn_ro_wc"

definition pni_raw_rwclosed :: "pn_raw_connection \<Rightarrow> bool" where
  "pni_raw_rwclosed c \<longleftrightarrow> rc_state c \<in> {conn_rs_ws, conn_fini}"

definition pni_raw_validate :: "pn_raw_connection \<Rightarrow> bool option" where
  "pni_raw_validate c =
     do {
       r \<leftarrow> validate_buffers read_buffer_count (rbuffers c);
       if r then validate_buffers write_buffer_count (wbuffers c) else Some False
     }"

section \<open>Buffers\<close>

definition pn_raw_connection_read_buffers_capacity :: "pn_raw_connection \<Rightarrow> nat" where
  "pn_raw_connection_read_buffers_capacity c =
     (if pni_raw_rclosed c then 0 else read_buffer_count - buffer_count (rbuffers c))"

definition pn_raw_connection_write_buffers_capacity :: "pn_raw_connection \<Rightarrow> nat" where
  "pn_raw_connection_write_buffers_capacity c =
     (if pni_raw_wclosed c then 0 else write_buffer_count - buffer_count (wbuffers c))"

definition pn_raw_connection_give_read_buffers :: "pn_raw_buffer list \<Rightarrow> pn_raw_connection \<Rightarrow> (nat \<times> pn_raw_connection) option" where
  "pn_raw_connection_give_read_buffers rs c =
     (let can_take = min (length rs) (pn_raw_connection_read_buffers_capacity c)
      in if can_take = 0 then Some (0, c)
         else if first_empty (rbuffers c) = 0 then None
         else
           do {
             B \<leftarrow> give_buffers (take can_take rs) (rbuffers c);
             Some (can_take, c\<lparr>rbuffers := B, rrequestedbuffers := False\<rparr>)
           })"

definition pn_raw_connection_take_read_buffers :: "nat \<Rightarrow> pn_raw_connection \<Rightarrow> (pn_raw_buffer list \<times> pn_raw_connection) option" where
  "pn_raw_connection_take_read_buffers n c =
     do {
       (rs, B) \<leftarrow> take_buffers n (rbuffers c);
       Some (map (\<lambda>r. r\<lparr>raw_offset := sub32 (raw_offset r) (raw_size r)\<rparr>) rs, c\<lparr>rbuffers := B\<rparr>)
     }"

definition pn_raw_connection_write_buffers :: "pn_raw_buffer list \<Rightarrow> pn_raw_connection \<Rightarrow> (nat \<times> pn_raw_connection) option" where
  "pn_raw_connection_write_buffers rs c =
     (let can_take = min (length rs) (pn_raw_connection_write_buffers_capacity c)
      in if can_take = 0 then Some (0, c)
         else if first_empty (wbuffers c) = 0 then None
         else
           do {
             B \<leftarrow> append_buffers (take can_take rs) (wbuffers c);
             Some (can_take, c\<lparr>wbuffers := B, wrequestedbuffers := False\<rparr>)
           })"

definition pn_raw_connection_take_written_buffers :: "nat \<Rightarrow> pn_raw_connection \<Rightarrow> (pn_raw_buffer list \<times> pn_raw_connection) option" where
  "pn_raw_connection_take_written_buffers n c =
     do {
       (rs, B) \<leftarrow> take_buffers n (wbuffers c);
       Some (rs, c\<lparr>wbuffers := B\<rparr>)
     }"

definition pni_raw_release_buffers :: "pn_raw_connection \<Rightarrow> pn_raw_connection option" where
  "pni_raw_release_buffers c =
     do {
       R \<leftarrow> release_buffers (\<lambda>b. b\<lparr>pb_size := 0\<rparr>) (rbuffers c);
       W \<leftarrow> release_buffers (\<lambda>b. b) (wbuffers c);
       Some (c\<lparr>rbuffers := R, wbuffers := W\<rparr>)
     }"

section \<open>Connecting, closing and disconnecting\<close>

definition pni_raw_disconnect :: "pn_raw_connection \<Rightarrow> pn_raw_connection option" where
  "pni_raw_disconnect c =
     do {
       c \<leftarrow> pni_raw_release_buffers c;
       change_state int_disconnect (c\<lparr>disconnectpending := True, disconnect_state := disc_init\<rparr>)
     }"

definition pni_raw_connected :: "pn_raw_connection \<Rightarrow> pn_raw_connection option" where
  "pni_raw_connected c = change_state conn_connected (c\<lparr>condition := None, connectpending := True\<rparr>)"

definition pni_raw_connect_failed :: "pn_raw_connection \<Rightarrow> pn_raw_connection option" where
  "pni_raw_connect_failed c = pni_raw_disconnect (c\<lparr>rc_state := conn_fini\<rparr>)"

definition pni_raw_wake :: "pn_raw_connection \<Rightarrow> pn_raw_connection" where
  "pni_raw_wake c = (if disconnect_state c \<noteq> disc_fini then c\<lparr>wakepending := True\<rparr> else c)"

definition pni_raw_wake_is_pending :: "pn_raw_connection \<Rightarrow> bool" where
  "pni_raw_wake_is_pending c = wakepending c"

definition pni_raw_can_wake :: "pn_raw_connection \<Rightarrow> bool" where
  "pni_raw_can_wake c \<longleftrightarrow> disconnect_state c \<noteq> disc_fini"

definition pni_raw_finished :: "pn_raw_connection \<Rightarrow> bool" where
  "pni_raw_finished c \<longleftrightarrow> disconnect_state c = disc_fini \<and> pn_collector_peek (collector c) = None"

definition disconnect_if_closed :: "pn_raw_connection \<Rightarrow> pn_raw_connection option" where
  "disconnect_if_closed c = (if pni_raw_rwclosed c then pni_raw_disconnect c else Some c)"

text \<open>The part of \<open>pni_raw_read_close\<close> and \<open>pni_raw_close\<close> that closes the read side.\<close>

definition close_read_side :: "pn_raw_connection \<Rightarrow> pn_raw_connection option" where
  "close_read_side c =
     change_state api_read_close (if \<not> pni_raw_rclosed c then c\<lparr>rclosedpending := True\<rparr> else c)"

text \<open>The part of \<open>pni_raw_write_close\<close> and \<open>pni_raw_close\<close> that closes the write side.\<close>

definition close_write_side :: "pn_raw_connection \<Rightarrow> pn_raw_connection option" where
  "close_write_side c =
     (if \<not> pni_raw_wdrained c then
        do {
          c \<leftarrow> change_state api_write_close (if \<not> pni_raw_wclosed c then c\<lparr>wclosedpending := True\<rparr> else c);
          if first_todo (wbuffers c) = 0 then change_state conn_write_drained c else Some c
        }
      else Some c)"

definition pni_raw_read_close :: "pn_raw_connection \<Rightarrow> pn_raw_connection option" where
  "pni_raw_read_close c =
     (if pni_raw_rwclosed c then Some c
      else do { c \<leftarrow> close_read_side c; disconnect_if_closed c })"

definition pni_raw_write_close :: "pn_raw_connection \<Rightarrow> pn_raw_connection option" where
  "pni_raw_write_close c =
     (if pni_raw_rwclosed c then Some c
      else do { c \<leftarrow> close_write_side c; disconnect_if_closed c })"

definition pni_raw_close :: "pn_raw_connection \<Rightarrow> pn_raw_connection option" where
  "pni_raw_close c =
     (if pni_raw_rwclosed c then Some c
      else do { c \<leftarrow> close_read_side c; c \<leftarrow> close_write_side c; disconnect_if_closed c })"

definition pni_raw_async_disconnect :: "pn_raw_connection \<Rightarrow> pn_raw_connection option" where
  "pni_raw_async_disconnect c =
     (if pni_raw_rwclosed c then Some c
      else
        do {
          c \<leftarrow> (if \<not> pni_raw_rclosed c
                then map_option (\<lambda>c. c\<lparr>rclosedpending := True\<rparr>) (change_state conn_read_closed c) else Some c);
          c \<leftarrow> (if \<not> pni_raw_wclosed c
                then do {
                  c \<leftarrow> pni_raw_release_buffers c;
                  map_option (\<lambda>c. c\<lparr>wclosedpending := True\<rparr>) (change_state conn_write_closed c)
                }
                else Some c);
          pni_raw_disconnect c
        })"

definition pni_raw_process_shutdown :: "pn_raw_connection \<Rightarrow> pn_raw_connection option" where
  "pni_raw_process_shutdown c =
     do {
       c \<leftarrow> (if pni_raw_rclosing c then change_state int_read_shutdown c else Some c);
       if pni_raw_wclosing c then change_state int_write_shutdown c else Some c
     }"

section \<open>Reading and writing the socket\<close>

datatype io_result = IO_bytes nat | IO_errno nat

type_synonym socket_call = "nat \<Rightarrow> io_result"

text \<open>A call: the address, the size asked for and the result.\<close>

type_synonym io_log = "(nat \<times> nat \<times> io_result) list"

definition EINTR :: nat where "EINTR = 4"
definition EWOULDBLOCK :: nat where "EWOULDBLOCK = 11"

datatype io_exit = Io_finished | Io_closed | Io_failed nat

text \<open>Set the condition, preserving older error information.\<close>

definition set_error :: "string \<Rightarrow> nat \<Rightarrow> pn_raw_connection \<Rightarrow> pn_raw_connection" where
  "set_error msg err c = (if condition c = None then c\<lparr>condition := Some (msg, err)\<rparr> else c)"

definition received :: "nat \<Rightarrow> pni_buffers \<Rightarrow> pni_buffers" where
  "received n B =
     finish_buffer (B\<lparr>buffers := set_buf (first_todo B)
       (\<lambda>b. b\<lparr>pb_size := wrap32 (pb_size b + n), pb_offset := wrap32 (pb_offset b + n)\<rparr>) (buffers B)\<rparr>)"

fun read_loop :: "socket_call list \<Rightarrow> pni_buffers \<Rightarrow> (io_log \<times> io_exit \<times> pni_buffers) option" where
  "read_loop [] B = Some ([], Io_finished, B)"
| "read_loop (recv # calls) B =
     (if first_todo B = 0 then Some ([], Io_finished, B)
      else
        do {
          b \<leftarrow> todo_buffer B;
          let s = sub32 (pb_capacity b) (pb_offset b);
          let call = (pb_bytes b + pb_offset b, s, recv s);
          (case recv s of
             IO_errno e \<Rightarrow>
               if e = EINTR then map_option (map_prod (Cons call) id) (read_loop calls B)
               else if e = EWOULDBLOCK then Some ([call], Io_finished, B)
               else Some ([call], Io_failed e, B)
           | IO_bytes n \<Rightarrow>
               if n = 0 then Some ([call], Io_closed, received n B)
               else map_option (map_prod (Cons call) id) (read_loop calls (received n B)))
        })"

definition pni_raw_read :: "socket_call list \<Rightarrow> pn_raw_connection \<Rightarrow> (io_log \<times> pn_raw_connection) option" where
  "pni_raw_read calls c =
     (if \<not> pni_raw_ropen c then Some ([], c)
      else
        do {
          (log, exit, B) \<leftarrow> read_loop calls (rbuffers c);
          let c = c\<lparr>rbuffers := B\<rparr>;
          (case exit of
             Io_failed e \<Rightarrow> map_option (Pair log) (pni_raw_close (set_error ''recv error'' e c))
           | _ \<Rightarrow>
               do {
                 let c = (if first_todo B = 0 then c\<lparr>rbuffers := B\<lparr>last_todo := 0\<rparr>\<rparr> else c);
                 let c = (if first_done B \<noteq> 0 \<and> \<not> rpending c then c\<lparr>rpending := True\<rparr> else c);
                 let old_state = rc_state c;
                 c \<leftarrow> (if exit = Io_closed
                       then map_option (\<lambda>c. c\<lparr>rclosedpending := True\<rparr>) (change_state conn_read_closed c) else Some c);
                 c \<leftarrow> (if rc_state c \<noteq> old_state then disconnect_if_closed c else Some c);
                 Some (log, c)
               })
        })"

text \<open>The loop of \<open>pni_raw_write\<close>, on the buffers and \<open>unwritten_offset\<close>.\<close>

fun write_loop :: "socket_call list \<Rightarrow> pni_buffers \<Rightarrow> nat \<Rightarrow> (io_log \<times> io_exit \<times> pni_buffers \<times> nat) option" where
  "write_loop [] B off = Some ([], Io_finished, B, off)"
| "write_loop (send # calls) B off =
     (if first_todo B = 0 then Some ([], Io_finished, B, off)
      else
        do {
          b \<leftarrow> todo_buffer B;
          let s = sub32 (pb_size b) off;
          let call = (pb_bytes b + pb_offset b + off, s, send s);
          (case send s of
             IO_errno e \<Rightarrow>
               if e = EINTR then map_option (map_prod (Cons call) id) (write_loop calls B off)
               else if e = EWOULDBLOCK then Some ([call], Io_finished, B, off)
               else Some ([call], Io_failed e, B, off)
           | IO_bytes n \<Rightarrow>
               if n = 0 \<and> s > 0 then Some ([call], Io_closed, B, off)
               else if n \<noteq> s then Some ([call], Io_finished, B, wrap32 (off + n))
               else map_option (map_prod (Cons call) id) (write_loop calls (finish_buffer B) 0))
        })"

definition pni_raw_write :: "socket_call list \<Rightarrow> pn_raw_connection \<Rightarrow> (io_log \<times> pn_raw_connection) option" where
  "pni_raw_write calls c =
     (if pni_raw_wdrained c then Some ([], c)
      else
        do {
          (log, exit, B, off) \<leftarrow> write_loop calls (wbuffers c) (unwritten_offset c);
          let c = c\<lparr>wbuffers := B, unwritten_offset := off\<rparr>;
          (case exit of
             Io_failed e \<Rightarrow>
               do {
                 c \<leftarrow> pni_raw_release_buffers (set_error ''send error'' e c);
                 c \<leftarrow> pni_raw_close c;
                 Some (log, c)
               }
           | _ \<Rightarrow>
               do {
                 let drained = (first_todo B = 0);
                 let c = (if drained then c\<lparr>wbuffers := B\<lparr>last_todo := 0\<rparr>\<rparr> else c);
                 let c = (if first_done B \<noteq> 0 \<and> \<not> wpending c then c\<lparr>wpending := True\<rparr> else c);
                 let old_state = rc_state c;
                 c \<leftarrow> (if drained then change_state conn_write_drained c else Some c);
                 c \<leftarrow> (if exit = Io_closed
                       then map_option (\<lambda>c. c\<lparr>wclosedpending := True\<rparr>) (change_state conn_write_closed c) else Some c);
                 c \<leftarrow> (if rc_state c \<noteq> old_state then disconnect_if_closed c else Some c);
                 Some (log, c)
               })
        })"

definition pni_raw_can_read :: "pn_raw_connection \<Rightarrow> bool" where
  "pni_raw_can_read c \<longleftrightarrow> pni_raw_ropen c \<and> first_todo (rbuffers c) \<noteq> 0"

definition pni_raw_can_write :: "pn_raw_connection \<Rightarrow> bool" where
  "pni_raw_can_write c \<longleftrightarrow> \<not> pni_raw_wdrained c \<and> first_todo (wbuffers c) \<noteq> 0"

section \<open>Events\<close>

definition PN_RAW_CONNECTION_CONNECTED :: pn_event_type where "PN_RAW_CONNECTION_CONNECTED = 49"
definition PN_RAW_CONNECTION_CLOSED_READ :: pn_event_type where "PN_RAW_CONNECTION_CLOSED_READ = 50"
definition PN_RAW_CONNECTION_CLOSED_WRITE :: pn_event_type where "PN_RAW_CONNECTION_CLOSED_WRITE = 51"
definition PN_RAW_CONNECTION_DISCONNECTED :: pn_event_type where "PN_RAW_CONNECTION_DISCONNECTED = 52"
definition PN_RAW_CONNECTION_NEED_READ_BUFFERS :: pn_event_type where "PN_RAW_CONNECTION_NEED_READ_BUFFERS = 53"
definition PN_RAW_CONNECTION_NEED_WRITE_BUFFERS :: pn_event_type where "PN_RAW_CONNECTION_NEED_WRITE_BUFFERS = 54"
definition PN_RAW_CONNECTION_READ :: pn_event_type where "PN_RAW_CONNECTION_READ = 55"
definition PN_RAW_CONNECTION_WRITTEN :: pn_event_type where "PN_RAW_CONNECTION_WRITTEN = 56"
definition PN_RAW_CONNECTION_WAKE :: pn_event_type where "PN_RAW_CONNECTION_WAKE = 57"
definition PN_RAW_CONNECTION_DRAIN_BUFFERS :: pn_event_type where "PN_RAW_CONNECTION_DRAIN_BUFFERS = 58"

definition CID_pn_raw_connection :: pn_clazz where "CID_pn_raw_connection = 32"

definition pni_raw_put_event :: "pn_event_type \<Rightarrow> pn_raw_connection \<Rightarrow> pn_raw_connection option" where
  "pni_raw_put_event t c =
     map_option (\<lambda>(_, col). c\<lparr>collector := col\<rparr>) (pn_collector_put CID_pn_raw_connection (rc_self c) t (collector c))"

text \<open>
  One round of the loop of \<open>pni_raw_batch_has_events\<close>: the answer if it returns. A disconnection that is
  pending in another state than the two of the \<open>switch\<close> leaves the connection as it is.
\<close>

definition events_step :: "pn_raw_connection \<Rightarrow> (bool option \<times> pn_raw_connection) option" where
  "events_step c =
     (if pn_collector_peek (collector c) \<noteq> None then Some (Some True, c)
      else if connectpending c then
        map_option (\<lambda>c. (None, c\<lparr>connectpending := False\<rparr>)) (pni_raw_put_event PN_RAW_CONNECTION_CONNECTED c)
      else if wakepending c then
        map_option (\<lambda>c. (None, c\<lparr>wakepending := False\<rparr>)) (pni_raw_put_event PN_RAW_CONNECTION_WAKE c)
      else if rpending c then
        map_option (\<lambda>c. (None, c\<lparr>rpending := False\<rparr>)) (pni_raw_put_event PN_RAW_CONNECTION_READ c)
      else if wpending c then
        map_option (\<lambda>c. (None, c\<lparr>wpending := False\<rparr>)) (pni_raw_put_event PN_RAW_CONNECTION_WRITTEN c)
      else if rclosedpending c then
        map_option (\<lambda>c. (None, c\<lparr>rclosedpending := False\<rparr>)) (pni_raw_put_event PN_RAW_CONNECTION_CLOSED_READ c)
      else if wclosedpending c then
        map_option (\<lambda>c. (None, c\<lparr>wclosedpending := False\<rparr>)) (pni_raw_put_event PN_RAW_CONNECTION_CLOSED_WRITE c)
      else if disconnectpending c then
        (case disconnect_state c of
           disc_init \<Rightarrow>
             map_option (\<lambda>c. (None, c\<lparr>disconnect_state := disc_drain_msg\<rparr>))
               (if first_done (rbuffers c) \<noteq> 0 \<or> first_done (wbuffers c) \<noteq> 0
                then pni_raw_put_event PN_RAW_CONNECTION_DRAIN_BUFFERS c else Some c)
         | disc_drain_msg \<Rightarrow>
             map_option (\<lambda>c. (None, c\<lparr>disconnectpending := False, disconnect_state := disc_fini\<rparr>))
               (pni_raw_put_event PN_RAW_CONNECTION_DISCONNECTED c)
         | _ \<Rightarrow> Some (None, c))
      else if \<not> pni_raw_wdrained c \<and> first_todo (wbuffers c) = 0 \<and> \<not> wrequestedbuffers c then
        map_option (\<lambda>c. (None, c\<lparr>wrequestedbuffers := True\<rparr>)) (pni_raw_put_event PN_RAW_CONNECTION_NEED_WRITE_BUFFERS c)
      else if \<not> pni_raw_rclosed c \<and> first_todo (rbuffers c) = 0 \<and> \<not> rrequestedbuffers c then
        map_option (\<lambda>c. (None, c\<lparr>rrequestedbuffers := True\<rparr>)) (pni_raw_put_event PN_RAW_CONNECTION_NEED_READ_BUFFERS c)
      else Some (Some False, c))"

fun events_loop :: "nat \<Rightarrow> pn_raw_connection \<Rightarrow> (bool \<times> pn_raw_connection) option" where
  "events_loop 0 c = None"
| "events_loop (Suc n) c =
     do {
       (answer, c) \<leftarrow> events_step c;
       (case answer of Some b \<Rightarrow> Some (b, c) | None \<Rightarrow> events_loop n c)
     }"

text \<open>Three rounds are enough: a round without an event only leads from \<open>disc_init\<close> to \<open>disc_drain_msg\<close>.\<close>

definition pni_raw_batch_has_events :: "pn_raw_connection \<Rightarrow> (bool \<times> pn_raw_connection) option" where
  "pni_raw_batch_has_events c = events_loop 3 c"

definition pni_raw_event_next :: "pn_raw_connection \<Rightarrow> (event_ref option \<times> pn_raw_connection) option" where
  "pni_raw_event_next c =
     do {
       (has, c) \<leftarrow> pni_raw_batch_has_events c;
       if has then
         do {
           (event, col) \<leftarrow> pn_collector_next (collector c);
           if event = None then None else Some (event, c\<lparr>collector := col\<rparr>)
         }
       else Some (None, c)
     }"

section \<open>Accessors\<close>

definition pn_raw_connection_is_read_closed :: "pn_raw_connection \<Rightarrow> bool" where
  "pn_raw_connection_is_read_closed c = pni_raw_rclosed c"

definition pn_raw_connection_is_write_closed :: "pn_raw_connection \<Rightarrow> bool" where
  "pn_raw_connection_is_write_closed c = pni_raw_wclosed c"

definition pn_raw_connection_get_context :: "pn_raw_connection \<Rightarrow> pn_object option" where
  "pn_raw_connection_get_context c = pn_record_get (attachments c) PN_LEGCTX"

definition pn_raw_connection_set_context :: "pn_object option \<Rightarrow> pn_raw_connection \<Rightarrow> pn_raw_connection \<times> ref_op list" where
  "pn_raw_connection_set_context context c =
     (let (r, log) = pn_record_set (attachments c) PN_LEGCTX context in (c\<lparr>attachments := r\<rparr>, log))"

definition pn_event_raw_connection :: "pn_collector \<Rightarrow> event_ref \<Rightarrow> pn_object option option" where
  "pn_event_raw_connection col i =
     do {
       clazz \<leftarrow> pn_event_class col i;
       if clazz = Some CID_pn_raw_connection then pn_event_context col i else Some None
     }"

end
