(* ===== verification/Raw_Connection_Correct.thy ===== *)
theory Raw_Connection_Correct
  imports Raw_Connection
begin

text \<open>
  The invariant of a raw connection and what each operation does to it: closing and disconnecting, the
  generation of events, and the loops over the socket with the bytes they move.
\<close>

section \<open>The invariant\<close>

definition event_types :: "event_queue \<Rightarrow> pn_event_type list" where
  "event_types q = map (\<lambda>(_, _, t). t) (eq_queue q)"

definition pools :: "pn_raw_connection \<Rightarrow> pn_raw_buffer list \<Rightarrow> pn_raw_buffer list \<Rightarrow> pn_raw_buffer list \<Rightarrow> pn_raw_buffer list \<Rightarrow> bool" where
  "pools c rt rd wt wd \<longleftrightarrow> holds read_buffer_count (rbuffers c) rt rd \<and> holds write_buffer_count (wbuffers c) wt wd"

definition no_flags :: "pn_raw_connection \<Rightarrow> bool" where
  "no_flags c \<longleftrightarrow> \<not> connectpending c \<and> \<not> wakepending c \<and> \<not> rpending c \<and> \<not> wpending c \<and> \<not> rclosedpending c \<and>
     \<not> wclosedpending c \<and> \<not> disconnectpending c"

text \<open>\<open>evs\<close> are the events returned and queued so far.\<close>

definition ev_inv :: "pn_raw_connection \<Rightarrow> pn_event_type list \<Rightarrow> bool" where
  "ev_inv c evs \<longleftrightarrow>
     rc_state c \<notin> {conn_wrong, conn_rs_ws} \<and>
     (rc_state c = conn_fini \<longleftrightarrow> disconnectpending c \<or> disconnect_state c = disc_fini) \<and>
     disconnect_state c \<in> {disc_init, disc_drain_msg, disc_fini} \<and>
     (if disconnect_state c = disc_fini
      then no_flags c \<and> (\<exists>xs. evs = xs @ [PN_RAW_CONNECTION_DISCONNECTED] \<and> PN_RAW_CONNECTION_DISCONNECTED \<notin> set xs)
      else PN_RAW_CONNECTION_DISCONNECTED \<notin> set evs) \<and>
     count_list evs PN_RAW_CONNECTION_CONNECTED + of_bool (connectpending c) + of_bool (rc_state c = conn_init) \<le> (1::nat) \<and>
     count_list evs PN_RAW_CONNECTION_CLOSED_READ + of_bool (rclosedpending c) + of_bool (\<not> pni_raw_rclosed c) \<le> (1::nat)"

definition raw_inv :: "pn_raw_connection \<Rightarrow> pn_event_type list \<Rightarrow> pn_raw_buffer list \<Rightarrow> pn_raw_buffer list \<Rightarrow>
    pn_raw_buffer list \<Rightarrow> pn_raw_buffer list \<Rightarrow> event_queue \<Rightarrow> bool" where
  "raw_inv c evs rt rd wt wd q \<longleftrightarrow>
     pools c rt rd wt wd \<and> (rc_state c = conn_fini \<longrightarrow> rt = [] \<and> wt = []) \<and>
     col_sim (collector c) q \<and> \<not> eq_freed q \<and> length (eq_queue q) \<le> 1 \<and> ev_inv c (evs @ event_types q)"

section \<open>Closing\<close>

lemmas state_defs =
  change_state_def pni_raw_new_state_def state_transitions_def pni_raw_ropen_def pni_raw_rclosed_def pni_raw_rclosing_def
  pni_raw_wclosed_def pni_raw_wdrained_def pni_raw_wclosing_def pni_raw_rwclosed_def

definition reset_size :: "pn_raw_buffer \<Rightarrow> pn_raw_buffer" where
  "reset_size r = r\<lparr>raw_size := 0\<rparr>"

lemma release_pools:
  assumes "pools c rt rd wt wd"
  shows "\<exists>R W. pni_raw_release_buffers c = Some (c\<lparr>rbuffers := R, wbuffers := W\<rparr>) \<and>
    holds read_buffer_count R [] (rd @ map reset_size rt) \<and> holds write_buffer_count W [] (wd @ wt)"
proof -
  obtain R where R: "release_buffers (\<lambda>b. b\<lparr>pb_size := 0\<rparr>) (rbuffers c) = Some R" "holds read_buffer_count R [] (rd @ map reset_size rt)"
    using release_holds [of read_buffer_count "rbuffers c" rt rd "\<lambda>b. b\<lparr>pb_size := 0\<rparr>" reset_size] assms
    by (auto simp: pools_def raw_of_def reset_size_def)
  obtain W where W: "release_buffers (\<lambda>b. b) (wbuffers c) = Some W" "holds write_buffer_count W [] (wd @ wt)"
    using release_holds [of write_buffer_count "wbuffers c" wt wd "\<lambda>b. b" "\<lambda>r. r"] assms
    by (auto simp: pools_def)
  show ?thesis using R W by (auto simp: pni_raw_release_buffers_def)
qed

text \<open>Closing one or both sides changes the state and the closed flags only.\<close>

definition changes :: "pn_raw_connection \<Rightarrow> pn_raw_connection \<Rightarrow> bool" where
  "changes c c' \<longleftrightarrow>
     (\<exists>s a b. c' = c\<lparr>rc_state := s, rclosedpending := a, wclosedpending := b\<rparr> \<and>
        s \<notin> {conn_wrong, conn_fini} \<and> (s = conn_init \<longrightarrow> rc_state c = conn_init) \<and>
        (pni_raw_rclosed c \<longrightarrow> pni_raw_rclosed c') \<and>
        (a \<longrightarrow> rclosedpending c \<or> \<not> pni_raw_rclosed c \<and> pni_raw_rclosed c'))"

text \<open>The connection then stays open, or is disconnected with all buffers released.\<close>

definition closes :: "pn_raw_connection \<Rightarrow> pn_raw_buffer list \<Rightarrow> pn_raw_buffer list \<Rightarrow> pn_raw_buffer list \<Rightarrow> pn_raw_buffer list \<Rightarrow>
    pn_raw_connection \<Rightarrow> bool" where
  "closes c rt rd wt wd c' \<longleftrightarrow>
     changes c c' \<and> rc_state c' \<noteq> conn_rs_ws \<or>
     (\<exists>R W a b. c' = c\<lparr>rc_state := conn_fini, rclosedpending := a, wclosedpending := b, rbuffers := R, wbuffers := W,
                       disconnectpending := True, disconnect_state := disc_init\<rparr> \<and>
        (a \<longrightarrow> rclosedpending c \<or> \<not> pni_raw_rclosed c) \<and>
        holds read_buffer_count R [] (rd @ map reset_size rt) \<and> holds write_buffer_count W [] (wd @ wt))"

lemma changes_trans: "changes c c' \<Longrightarrow> changes c' c'' \<Longrightarrow> changes c c''"
proof -
  assume "changes c c'" "changes c' c''"
  then obtain s a b s' a' b' where 1: "c' = c\<lparr>rc_state := s, rclosedpending := a, wclosedpending := b\<rparr>"
    "s \<notin> {conn_wrong, conn_fini}" "s = conn_init \<longrightarrow> rc_state c = conn_init" "pni_raw_rclosed c \<longrightarrow> pni_raw_rclosed c'"
    "a \<longrightarrow> rclosedpending c \<or> \<not> pni_raw_rclosed c \<and> pni_raw_rclosed c'"
    and 2: "c'' = c'\<lparr>rc_state := s', rclosedpending := a', wclosedpending := b'\<rparr>"
    "s' \<notin> {conn_wrong, conn_fini}" "s' = conn_init \<longrightarrow> rc_state c' = conn_init" "pni_raw_rclosed c' \<longrightarrow> pni_raw_rclosed c''"
    "a' \<longrightarrow> rclosedpending c' \<or> \<not> pni_raw_rclosed c' \<and> pni_raw_rclosed c''"
    unfolding changes_def by blast
  have "c'' = c\<lparr>rc_state := s', rclosedpending := a', wclosedpending := b'\<rparr>" using 1(1) 2(1) by simp
  moreover have "rclosedpending c' = a" "rc_state c' = s" using 1(1) by simp_all
  ultimately show "changes c c''" unfolding changes_def using 1(2-) 2(2-) by blast
qed

lemma changes_refl: "rc_state c \<notin> {conn_wrong, conn_fini} \<Longrightarrow> changes c c"
  unfolding changes_def
  by (intro exI [of _ "rc_state c"] exI [of _ "rclosedpending c"] exI [of _ "wclosedpending c"]) simp

lemma changes_not_fini: "changes c c' \<Longrightarrow> rc_state c' \<notin> {conn_wrong, conn_fini}"
  by (auto simp: changes_def)

lemma changes_pools: "changes c c' \<Longrightarrow> pools c' rt rd wt wd = pools c rt rd wt wd"
  by (auto simp: changes_def pools_def)

text \<open>The transitions that are used, as functions of the state.\<close>

lemma new_state_read_close:
  "rc_state c \<notin> {conn_wrong, conn_fini} \<Longrightarrow> pni_raw_new_state c api_read_close =
     Some (case rc_state c of conn_init \<Rightarrow> conn_rc_wo | conn_ro_wo \<Rightarrow> conn_rc_wo | conn_ro_wd \<Rightarrow> conn_rc_wd | conn_ro_wc \<Rightarrow> conn_rs_ws
       | conn_ro_ws \<Rightarrow> conn_rs_ws | s \<Rightarrow> s)"
  by (cases "rc_state c") (simp_all add: pni_raw_new_state_def state_transitions_def)

lemma new_state_write_close:
  "rc_state c \<notin> {conn_wrong, conn_fini} \<Longrightarrow> pni_raw_new_state c api_write_close =
     Some (case rc_state c of conn_init \<Rightarrow> conn_ro_wd | conn_ro_wo \<Rightarrow> conn_ro_wd | conn_rc_wo \<Rightarrow> conn_rc_wd | conn_rs_wo \<Rightarrow> conn_rs_wd
       | s \<Rightarrow> s)"
  by (cases "rc_state c") (simp_all add: pni_raw_new_state_def state_transitions_def)

lemma new_state_drained:
  "rc_state c \<notin> {conn_wrong, conn_init, conn_ro_wc, conn_rs_ws, conn_fini} \<Longrightarrow> pni_raw_new_state c conn_write_drained =
     Some (case rc_state c of conn_ro_wd \<Rightarrow> conn_ro_wc | conn_rc_wd \<Rightarrow> conn_rs_ws | conn_rs_wd \<Rightarrow> conn_rs_ws | s \<Rightarrow> s)"
  by (cases "rc_state c") (simp_all add: pni_raw_new_state_def state_transitions_def)

lemma new_state_write_closed:
  "rc_state c \<notin> {conn_wrong, conn_init, conn_fini} \<Longrightarrow> pni_raw_new_state c conn_write_closed =
     Some (case rc_state c of conn_ro_wo \<Rightarrow> conn_ro_wc | conn_ro_wd \<Rightarrow> conn_ro_wc | conn_rc_wo \<Rightarrow> conn_rs_ws | conn_rc_wd \<Rightarrow> conn_rs_ws
       | conn_rs_wo \<Rightarrow> conn_rs_ws | conn_rs_wd \<Rightarrow> conn_rs_ws | s \<Rightarrow> s)"
  by (cases "rc_state c") (simp_all add: pni_raw_new_state_def state_transitions_def)

lemma new_state_read_closed:
  "rc_state c \<notin> {conn_wrong, conn_init, conn_fini} \<Longrightarrow> pni_raw_new_state c conn_read_closed =
     Some (case rc_state c of conn_ro_wo \<Rightarrow> conn_rc_wo | conn_ro_wd \<Rightarrow> conn_rc_wd | conn_ro_wc \<Rightarrow> conn_rs_ws | conn_ro_ws \<Rightarrow> conn_rs_ws
       | s \<Rightarrow> s)"
  by (cases "rc_state c") (simp_all add: pni_raw_new_state_def state_transitions_def)

lemma changesI:
  assumes "c' = c\<lparr>rc_state := s, rclosedpending := a, wclosedpending := b\<rparr>"
    "s \<notin> {conn_wrong, conn_fini}" "s = conn_init \<longrightarrow> rc_state c = conn_init"
    "pni_raw_rclosed c \<longrightarrow> pni_raw_rclosed (c\<lparr>rc_state := s\<rparr>)"
    "a \<longrightarrow> rclosedpending c \<or> \<not> pni_raw_rclosed c \<and> pni_raw_rclosed (c\<lparr>rc_state := s\<rparr>)"
  shows "changes c c'"
proof -
  have "pni_raw_rclosed c' = pni_raw_rclosed (c\<lparr>rc_state := s\<rparr>)" using assms(1) by (simp add: pni_raw_rclosed_def)
  then show ?thesis unfolding changes_def using assms by blast
qed

lemma close_read_side_changes:
  assumes "rc_state c \<notin> {conn_wrong, conn_fini}"
  shows "\<exists>c'. close_read_side c = Some c' \<and> changes c c'"
proof -
  obtain s where s: "pni_raw_new_state c api_read_close = Some s" using new_state_read_close [OF assms] by blast
  have closed: "pni_raw_rclosed (c\<lparr>rc_state := s\<rparr>)" "s \<notin> {conn_wrong, conn_fini, conn_init}"
    using assms s new_state_read_close [OF assms] by (cases "rc_state c"; simp add: pni_raw_rclosed_def)+
  have new: "pni_raw_new_state (c\<lparr>rclosedpending := True\<rparr>) api_read_close = Some s" using s by (simp add: pni_raw_new_state_def)
  let ?c = "if \<not> pni_raw_rclosed c then c\<lparr>rclosedpending := True\<rparr> else c"
  have "close_read_side c = Some (?c\<lparr>rc_state := s\<rparr>)" using s new by (simp add: close_read_side_def change_state_def)
  moreover have "changes c (?c\<lparr>rc_state := s\<rparr>)"
    using closed by (intro changesI [where s = s and a = "rclosedpending ?c" and b = "wclosedpending c"]) (auto intro: pn_raw_connection.equality)
  ultimately show ?thesis by blast
qed

lemma change_state_changes:
  assumes "pni_raw_new_state c e = Some s" "s \<notin> {conn_wrong, conn_fini, conn_init}"
    "pni_raw_rclosed c \<longrightarrow> pni_raw_rclosed (c\<lparr>rc_state := s\<rparr>)"
  shows "change_state e c = Some (c\<lparr>rc_state := s\<rparr>)" "changes c (c\<lparr>rc_state := s\<rparr>)"
  using assms by (simp_all add: change_state_def changesI [where s = s and a = "rclosedpending c" and b = "wclosedpending c"])

lemma changes_wclosed:
  assumes "rc_state c \<notin> {conn_wrong, conn_fini}"
  shows "changes c (c\<lparr>wclosedpending := b\<rparr>)"
  using assms by (intro changesI [where s = "rc_state c" and a = "rclosedpending c" and b = b]) simp_all

lemma close_write_side_changes:
  assumes "rc_state c \<notin> {conn_wrong, conn_fini}"
  shows "\<exists>c'. close_write_side c = Some c' \<and> changes c c'"
proof (cases "pni_raw_wdrained c")
  case True
  then show ?thesis using changes_refl [OF assms] by (simp add: close_write_side_def)
next
  case False
  define c1 where "c1 = (if \<not> pni_raw_wclosed c then c\<lparr>wclosedpending := True\<rparr> else c)"
  have c1: "rc_state c1 = rc_state c" "wbuffers c1 = wbuffers c" by (simp_all add: c1_def)
  have 1: "changes c c1" using changes_wclosed [OF assms] changes_refl [OF assms] by (simp add: c1_def)
  have st: "rc_state c \<in> {conn_init, conn_ro_wo, conn_ro_wd, conn_rc_wo, conn_rc_wd, conn_rs_wo, conn_rs_wd}"
    using False assms by (cases "rc_state c") (simp_all add: pni_raw_wdrained_def)
  then obtain s where s: "pni_raw_new_state c1 api_write_close = Some s" "s \<in> {conn_ro_wd, conn_rc_wd, conn_rs_wd}"
    "pni_raw_rclosed c1 \<longrightarrow> pni_raw_rclosed (c1\<lparr>rc_state := s\<rparr>)"
    using new_state_write_close [of c1] c1(1) by (auto simp: pni_raw_rclosed_def)
  let ?c = "c1\<lparr>rc_state := s\<rparr>"
  have 2: "change_state api_write_close c1 = Some ?c" "changes c1 ?c" using change_state_changes [OF s(1)] s by auto
  obtain s' where s': "pni_raw_new_state ?c conn_write_drained = Some s'" "s' \<in> {conn_ro_wc, conn_rs_ws}"
    "pni_raw_rclosed ?c \<longrightarrow> pni_raw_rclosed (?c\<lparr>rc_state := s'\<rparr>)"
    using new_state_drained [of ?c] s(2) by (auto simp: pni_raw_rclosed_def)
  have 3: "change_state conn_write_drained ?c = Some (?c\<lparr>rc_state := s'\<rparr>)" "changes ?c (?c\<lparr>rc_state := s'\<rparr>)"
    using change_state_changes [OF s'(1)] s' by auto
  have "close_write_side c = (if first_todo (wbuffers c) = 0 then Some (?c\<lparr>rc_state := s'\<rparr>) else Some ?c)"
    using False 2(1) 3(1) c1(2) unfolding close_write_side_def c1_def [symmetric] by simp
  then show ?thesis using changes_trans [OF 1 2(2)] changes_trans [OF changes_trans [OF 1 2(2)] 3(2)] by auto
qed

lemma disconnect_pools:
  assumes "pools c rt rd wt wd" "rc_state c \<in> {conn_rs_ws, conn_fini}"
  shows "\<exists>R W. pni_raw_disconnect c =
      Some (c\<lparr>rbuffers := R, wbuffers := W, disconnectpending := True, disconnect_state := disc_init, rc_state := conn_fini\<rparr>) \<and>
    holds read_buffer_count R [] (rd @ map reset_size rt) \<and> holds write_buffer_count W [] (wd @ wt)"
proof -
  obtain R W where RW: "pni_raw_release_buffers c = Some (c\<lparr>rbuffers := R, wbuffers := W\<rparr>)"
    "holds read_buffer_count R [] (rd @ map reset_size rt)" "holds write_buffer_count W [] (wd @ wt)"
    using release_pools [OF assms(1)] by blast
  have "state_transitions (rc_state c) int_disconnect = (if rc_state c = conn_rs_ws then conn_fini else conn_init)"
    using assms(2) by (auto simp: state_transitions_def)
  then have "pni_raw_new_state (c\<lparr>rbuffers := R, wbuffers := W, disconnectpending := True, disconnect_state := disc_init\<rparr>) int_disconnect =
    Some conn_fini"
    using assms(2) by (auto simp: pni_raw_new_state_def)
  then show ?thesis using RW by (auto simp: pni_raw_disconnect_def change_state_def)
qed

lemma disconnect_if_closed_closes:
  assumes "changes c c'" "pools c rt rd wt wd"
  shows "\<exists>c''. disconnect_if_closed c' = Some c'' \<and> closes c rt rd wt wd c''"
proof (cases "rc_state c' = conn_rs_ws")
  case True
  have p: "pools c' rt rd wt wd" using changes_pools [OF assms(1)] assms(2) by simp
  obtain R W where d: "pni_raw_disconnect c' =
      Some (c'\<lparr>rbuffers := R, wbuffers := W, disconnectpending := True, disconnect_state := disc_init, rc_state := conn_fini\<rparr>)"
    "holds read_buffer_count R [] (rd @ map reset_size rt)" "holds write_buffer_count W [] (wd @ wt)"
    using disconnect_pools [OF p] True by auto
  let ?c = "c'\<lparr>rbuffers := R, wbuffers := W, disconnectpending := True, disconnect_state := disc_init, rc_state := conn_fini\<rparr>"
  obtain s a b where c': "c' = c\<lparr>rc_state := s, rclosedpending := a, wclosedpending := b\<rparr>" "a \<longrightarrow> rclosedpending c \<or> \<not> pni_raw_rclosed c"
    using assms(1) by (auto simp: changes_def)
  have "?c = c\<lparr>rc_state := conn_fini, rclosedpending := a, wclosedpending := b, rbuffers := R, wbuffers := W,
      disconnectpending := True, disconnect_state := disc_init\<rparr>"
    using c'(1) by (simp add: pn_raw_connection.equality)
  then have "closes c rt rd wt wd ?c" using c'(2) d(2,3) unfolding closes_def by blast
  then show ?thesis using True d(1) by (simp add: disconnect_if_closed_def pni_raw_rwclosed_def)
next
  case False
  then show ?thesis using assms(1) changes_not_fini [OF assms(1)] by (simp add: disconnect_if_closed_def pni_raw_rwclosed_def closes_def)
qed

lemma close_ops_closes:
  assumes "rc_state c \<notin> {conn_wrong, conn_rs_ws, conn_fini}" "pools c rt rd wt wd"
  shows "\<exists>c'. pni_raw_read_close c = Some c' \<and> closes c rt rd wt wd c'"
    "\<exists>c'. pni_raw_write_close c = Some c' \<and> closes c rt rd wt wd c'"
    "\<exists>c'. pni_raw_close c = Some c' \<and> closes c rt rd wt wd c'"
proof -
  have live: "\<not> pni_raw_rwclosed c" "rc_state c \<notin> {conn_wrong, conn_fini}" using assms(1) by (auto simp: pni_raw_rwclosed_def)
  obtain c1 where c1: "close_read_side c = Some c1" "changes c c1" using close_read_side_changes [OF live(2)] by blast
  obtain c2 where c2: "close_write_side c = Some c2" "changes c c2" using close_write_side_changes [OF live(2)] by blast
  obtain c3 where c3: "close_write_side c1 = Some c3" "changes c1 c3"
    using close_write_side_changes [OF changes_not_fini [OF c1(2)]] by blast
  show "\<exists>c'. pni_raw_read_close c = Some c' \<and> closes c rt rd wt wd c'"
    using live(1) c1(1) disconnect_if_closed_closes [OF c1(2) assms(2)] by (auto simp: pni_raw_read_close_def)
  show "\<exists>c'. pni_raw_write_close c = Some c' \<and> closes c rt rd wt wd c'"
    using live(1) c2(1) disconnect_if_closed_closes [OF c2(2) assms(2)] by (auto simp: pni_raw_write_close_def)
  show "\<exists>c'. pni_raw_close c = Some c' \<and> closes c rt rd wt wd c'"
    using live(1) c1(1) c3(1) disconnect_if_closed_closes [OF changes_trans [OF c1(2) c3(2)] assms(2)] by (auto simp: pni_raw_close_def)
qed

text \<open>Asynchronous disconnection: the exact states in which it fails.\<close>

lemma async_disconnect_draining:
  assumes "pools c rt rd wt wd" "rc_state c \<in> {conn_init, conn_ro_wd, conn_rc_wd, conn_rs_wd}"
  shows "pni_raw_async_disconnect c = None"
proof -
  have release: "\<exists>R W. pni_raw_release_buffers c' = Some (c'\<lparr>rbuffers := R, wbuffers := W\<rparr>)" if "pools c' rt rd wt wd" for c'
    using release_pools [OF that] by blast
  have fail: "pni_raw_disconnect c' = None" if "pools c' rt rd wt wd" "rc_state c' \<in> {conn_rc_wd, conn_rs_wd}" for c'
    using release [OF that(1)] that(2)
    by (auto simp: pni_raw_disconnect_def change_state_def pni_raw_new_state_def state_transitions_def)
  show ?thesis
  proof (cases "rc_state c = conn_init")
    case True
    then show ?thesis by (simp add: pni_raw_async_disconnect_def state_defs)
  next
    case False
    show ?thesis
    proof (cases "rc_state c = conn_ro_wd")
      case True
      let ?c = "c\<lparr>rc_state := conn_rc_wd, rclosedpending := True\<rparr>"
      have "pni_raw_disconnect ?c = None" using assms(1) by (intro fail) (simp_all add: pools_def)
      then show ?thesis using True by (simp add: pni_raw_async_disconnect_def state_defs)
    next
      case False
      then have "rc_state c \<in> {conn_rc_wd, conn_rs_wd}" using assms(2) \<open>rc_state c \<noteq> conn_init\<close> by auto
      then show ?thesis using fail [OF assms(1)] by (auto simp: pni_raw_async_disconnect_def state_defs)
    qed
  qed
qed

lemma async_disconnect_closes:
  assumes "pools c rt rd wt wd" "rc_state c \<in> {conn_ro_wo, conn_ro_wc, conn_ro_ws, conn_rc_wo, conn_rs_wo}"
  shows "\<exists>c'. pni_raw_async_disconnect c = Some c' \<and> closes c rt rd wt wd c'"
proof -
  define c1 where "c1 = (if \<not> pni_raw_rclosed c then c\<lparr>rc_state := (case rc_state c of conn_ro_wo \<Rightarrow> conn_rc_wo | _ \<Rightarrow> conn_rs_ws),
    rclosedpending := True\<rparr> else c)"
  have 1: "(if \<not> pni_raw_rclosed c then map_option (\<lambda>c. c\<lparr>rclosedpending := True\<rparr>) (change_state conn_read_closed c) else Some c) = Some c1"
    using assms(2) by (auto simp: c1_def state_defs)
  have s1: "rc_state c1 \<in> {conn_rc_wo, conn_rs_wo, conn_rs_ws}" using assms(2) by (auto simp: c1_def pni_raw_rclosed_def)
  have p1: "pools c1 rt rd wt wd" using assms(1) by (simp add: c1_def pools_def)
  obtain R W where RW: "pni_raw_release_buffers c1 = Some (c1\<lparr>rbuffers := R, wbuffers := W\<rparr>)"
    "holds read_buffer_count R [] (rd @ map reset_size rt)" "holds write_buffer_count W [] (wd @ wt)"
    using release_pools [OF p1] by blast
  define c2 where "c2 = (if \<not> pni_raw_wclosed c1 then c1\<lparr>rbuffers := R, wbuffers := W, rc_state := conn_rs_ws, wclosedpending := True\<rparr> else c1)"
  have 2: "(if \<not> pni_raw_wclosed c1 then do { c \<leftarrow> pni_raw_release_buffers c1;
      map_option (\<lambda>c. c\<lparr>wclosedpending := True\<rparr>) (change_state conn_write_closed c) } else Some c1) = Some c2"
    using s1 RW(1) by (auto simp: c2_def state_defs)
  have s2: "rc_state c2 = conn_rs_ws" using s1 by (auto simp: c2_def pni_raw_wclosed_def)
  have "\<exists>R W. pni_raw_disconnect c2 =
      Some (c2\<lparr>rbuffers := R, wbuffers := W, disconnectpending := True, disconnect_state := disc_init, rc_state := conn_fini\<rparr>) \<and>
    holds read_buffer_count R [] (rd @ map reset_size rt) \<and> holds write_buffer_count W [] (wd @ wt)"
  proof (cases "pni_raw_wclosed c1")
    case True
    then show ?thesis using disconnect_pools [of c2 rt rd wt wd] p1 s2 by (simp add: c2_def)
  next
    case False
    then have "pools c2 [] (rd @ map reset_size rt) [] (wd @ wt)" using RW(2,3) by (simp add: c2_def pools_def)
    then show ?thesis using disconnect_pools [of c2 "[]" "rd @ map reset_size rt" "[]" "wd @ wt"] s2 by simp
  qed
  then obtain R' W' where 3: "pni_raw_disconnect c2 =
      Some (c2\<lparr>rbuffers := R', wbuffers := W', disconnectpending := True, disconnect_state := disc_init, rc_state := conn_fini\<rparr>)"
    "holds read_buffer_count R' [] (rd @ map reset_size rt)" "holds write_buffer_count W' [] (wd @ wt)" by blast
  let ?c = "c2\<lparr>rbuffers := R', wbuffers := W', disconnectpending := True, disconnect_state := disc_init, rc_state := conn_fini\<rparr>"
  have "?c = c\<lparr>rc_state := conn_fini, rclosedpending := rclosedpending c1, wclosedpending := wclosedpending c2, rbuffers := R', wbuffers := W',
      disconnectpending := True, disconnect_state := disc_init\<rparr>"
    by (simp add: c2_def c1_def pn_raw_connection.equality)
  moreover have "rclosedpending c1 \<longrightarrow> rclosedpending c \<or> \<not> pni_raw_rclosed c" by (simp add: c1_def)
  ultimately have "closes c rt rd wt wd ?c" using 3(2,3) unfolding closes_def by blast
  moreover have "\<not> pni_raw_rwclosed c" using assms(2) by (auto simp: pni_raw_rwclosed_def)
  ultimately show ?thesis using 1 2 3(1) by (simp add: pni_raw_async_disconnect_def)
qed

lemma connect_failed_closes:
  assumes "pools c rt rd wt wd"
  shows "\<exists>c'. pni_raw_connect_failed c = Some c' \<and> closes c rt rd wt wd c'"
proof -
  obtain R W where RW: "pni_raw_disconnect (c\<lparr>rc_state := conn_fini\<rparr>) =
      Some (c\<lparr>rc_state := conn_fini, rbuffers := R, wbuffers := W, disconnectpending := True, disconnect_state := disc_init, rc_state := conn_fini\<rparr>)"
    "holds read_buffer_count R [] (rd @ map reset_size rt)" "holds write_buffer_count W [] (wd @ wt)"
    using disconnect_pools [of "c\<lparr>rc_state := conn_fini\<rparr>" rt rd wt wd] assms by (auto simp: pools_def)
  let ?c = "c\<lparr>rc_state := conn_fini, rclosedpending := rclosedpending c, wclosedpending := wclosedpending c, rbuffers := R, wbuffers := W,
    disconnectpending := True, disconnect_state := disc_init\<rparr>"
  have "pni_raw_connect_failed c = Some ?c" using RW(1) by (simp add: pni_raw_connect_failed_def pn_raw_connection.equality)
  moreover have "closes c rt rd wt wd ?c" using RW(2,3) unfolding closes_def by blast
  ultimately show ?thesis by blast
qed

lemma shutdown_closes:
  assumes "rc_state c \<notin> {conn_wrong, conn_rs_ws, conn_fini}"
  shows "\<exists>c'. pni_raw_process_shutdown c = Some c' \<and> closes c rt rd wt wd c'"
proof -
  define s where "s = (case rc_state c of conn_rc_wo \<Rightarrow> conn_rs_wo | conn_rc_wd \<Rightarrow> conn_rs_wd | conn_ro_wc \<Rightarrow> conn_ro_ws | s \<Rightarrow> s)"
  have "pni_raw_process_shutdown c = Some (c\<lparr>rc_state := s\<rparr>)"
    using assms by (cases "rc_state c") (simp_all add: pni_raw_process_shutdown_def state_defs s_def)
  moreover have "changes c (c\<lparr>rc_state := s\<rparr>)"
  proof (rule changesI [where s = s and a = "rclosedpending c" and b = "wclosedpending c"])
    show "pni_raw_rclosed c \<longrightarrow> pni_raw_rclosed (c\<lparr>rc_state := s\<rparr>)" by (auto simp: pni_raw_rclosed_def s_def)
    show "s = conn_init \<longrightarrow> rc_state c = conn_init" "s \<notin> {conn_wrong, conn_fini}"
      using assms by (auto simp: s_def split: raw_conn_state.splits)
  qed simp_all
  moreover have "s \<noteq> conn_rs_ws" using assms by (auto simp: s_def split: raw_conn_state.splits)
  ultimately show ?thesis by (simp add: closes_def)
qed

text \<open>The events part of the invariant, while the connection is up and once it is being disconnected.\<close>

definition counts_ok :: "pn_raw_connection \<Rightarrow> pn_event_type list \<Rightarrow> bool" where
  "counts_ok c evs \<longleftrightarrow>
     count_list evs PN_RAW_CONNECTION_CONNECTED + of_bool (connectpending c) + of_bool (rc_state c = conn_init) \<le> (1::nat) \<and>
     count_list evs PN_RAW_CONNECTION_CLOSED_READ + of_bool (rclosedpending c) + of_bool (\<not> pni_raw_rclosed c) \<le> (1::nat)"

lemma ev_inv_counts: "ev_inv c evs \<Longrightarrow> counts_ok c evs"
  by (simp add: ev_inv_def counts_ok_def)

lemma ev_inv_live:
  "rc_state c \<notin> {conn_wrong, conn_rs_ws, conn_fini} \<Longrightarrow>
   ev_inv c evs \<longleftrightarrow> \<not> disconnectpending c \<and> disconnect_state c \<in> {disc_init, disc_drain_msg} \<and>
     PN_RAW_CONNECTION_DISCONNECTED \<notin> set evs \<and> counts_ok c evs"
  unfolding ev_inv_def counts_ok_def by (cases "disconnect_state c") simp_all

lemma ev_inv_leaving:
  "rc_state c = conn_fini \<Longrightarrow> disconnect_state c \<noteq> disc_fini \<Longrightarrow>
   ev_inv c evs \<longleftrightarrow> disconnectpending c \<and> disconnect_state c \<in> {disc_init, disc_drain_msg} \<and>
     PN_RAW_CONNECTION_DISCONNECTED \<notin> set evs \<and> counts_ok c evs"
  unfolding ev_inv_def counts_ok_def by (cases "disconnect_state c") simp_all

lemma raw_inv_state: "raw_inv c evs rt rd wt wd q \<Longrightarrow> rc_state c \<notin> {conn_wrong, conn_rs_ws}"
  by (simp add: raw_inv_def ev_inv_def)

lemma closes_inv:
  assumes "raw_inv c evs rt rd wt wd q" "rc_state c \<noteq> conn_fini" "closes c rt rd wt wd c'"
  shows "if rc_state c' = conn_fini then raw_inv c' evs [] (rd @ map reset_size rt) [] (wd @ wt) q
    else changes c c' \<and> raw_inv c' evs rt rd wt wd q"
proof -
  let ?evs = "evs @ event_types q"
  have live: "rc_state c \<notin> {conn_wrong, conn_rs_ws, conn_fini}" using raw_inv_state [OF assms(1)] assms(2) by auto
  have ev: "ev_inv c ?evs" using assms(1) unfolding raw_inv_def by (elim conjE)
  have e: "\<not> disconnectpending c" "disconnect_state c \<in> {disc_init, disc_drain_msg}"
    "PN_RAW_CONNECTION_DISCONNECTED \<notin> set ?evs" "counts_ok c ?evs"
    using iffD1 [OF ev_inv_live [OF live] ev] by blast+
  show ?thesis
  proof (cases "changes c c' \<and> rc_state c' \<noteq> conn_rs_ws")
    case True
    then obtain s a b where c': "c' = c\<lparr>rc_state := s, rclosedpending := a, wclosedpending := b\<rparr>"
      "s \<notin> {conn_wrong, conn_fini}" "s = conn_init \<longrightarrow> rc_state c = conn_init" "pni_raw_rclosed c \<longrightarrow> pni_raw_rclosed c'"
      "a \<longrightarrow> rclosedpending c \<or> \<not> pni_raw_rclosed c \<and> pni_raw_rclosed c'"
      unfolding changes_def by blast
    have st: "rc_state c' = s" "connectpending c' = connectpending c" "rclosedpending c' = a" using c'(1) by simp_all
    have sn: "s \<noteq> conn_rs_ws" using True st(1) by simp
    have "counts_ok c' ?evs"
      using e(4) c'(3,4,5) unfolding counts_ok_def st by (cases a; cases "pni_raw_rclosed c"; cases "pni_raw_rclosed c'"; cases "s = conn_init") auto
    then have "ev_inv c' ?evs" using e c'(1,2) sn by (subst ev_inv_live) auto
    then show ?thesis using assms(1) True c'(1,2) by (auto simp: raw_inv_def pools_def)
  next
    case False
    then obtain R W a b where c': "c' = c\<lparr>rc_state := conn_fini, rclosedpending := a, wclosedpending := b, rbuffers := R, wbuffers := W,
                         disconnectpending := True, disconnect_state := disc_init\<rparr>"
      "a \<longrightarrow> rclosedpending c \<or> \<not> pni_raw_rclosed c"
      "holds read_buffer_count R [] (rd @ map reset_size rt)" "holds write_buffer_count W [] (wd @ wt)"
      using assms(3) unfolding closes_def by blast
    have st: "rc_state c' = conn_fini" "connectpending c' = connectpending c" "rclosedpending c' = a" "pni_raw_rclosed c'"
      using c'(1) by (simp_all add: pni_raw_rclosed_def)
    have "counts_ok c' ?evs"
      using e(4) c'(2) st(4) unfolding counts_ok_def st(1-3) by (cases a; cases "pni_raw_rclosed c") auto
    then have "ev_inv c' ?evs" using e(3) c'(1) by (subst ev_inv_leaving) auto
    then show ?thesis using assms(1) c' by (auto simp: raw_inv_def pools_def)
  qed
qed

section \<open>Events\<close>

lemma peek_queue: "col_sim col q \<Longrightarrow> pn_collector_peek col = None \<longleftrightarrow> eq_queue q = []"
proof -
  assume "col_sim col q"
  then obtain qs where "rep col qs (opt_list (col_prev col))" "eq_queue q = map (view col) qs" by (auto simp: col_sim_def)
  then show ?thesis using repD(1) [of col qs] by (cases qs) (auto simp: pn_collector_peek_def)
qed

lemma put_queue:
  assumes "col_sim (collector c) q" "\<not> eq_freed q" "eq_queue q = []"
  shows "\<exists>col. pni_raw_put_event t c = Some (c\<lparr>collector := col\<rparr>) \<and>
    col_sim col (q\<lparr>eq_queue := [(Some CID_pn_raw_connection, Some (rc_self c), t)]\<rparr>)"
  using put_sim [OF assms(1), of CID_pn_raw_connection "rc_self c" t] assms(2,3)
  by (auto simp: exec_sim_def pni_raw_put_event_def repeated_def split: option.splits prod.splits)

lemma next_queue:
  assumes "col_sim col q" "eq_queue q = (a, b, t) # vs"
  shows "\<exists>i col'. pn_collector_next col = Some (Some i, col') \<and> pn_event_type' col' (Some i) = Some t \<and>
    col_sim col' (q\<lparr>eq_queue := vs, eq_prev := Some (a, b, t)\<rparr>)"
proof -
  from next_sim [OF assms(1)] assms(2) obtain i col' where n: "pn_collector_next col = Some (i, col')"
    "map_option (view col') i = Some (a, b, t)" "col_sim col' (q\<lparr>eq_queue := vs, eq_prev := Some (a, b, t)\<rparr>)"
    by (auto simp: exec_sim_def hd_opt_def split: option.splits)
  then obtain j where j: "i = Some j" "view col' j = (a, b, t)" by auto
  have "col_prev col' = i" using n(1) by (auto simp: pn_collector_next_def split: option.splits)
  then obtain qs where "rep col' qs [j]" using n(3) j(1) by (auto simp: col_sim_def)
  then obtain e where "col_events col' j = Some e" using repD(6) [of col' qs "[j]" j] by auto
  then show ?thesis using n j by (auto simp: pn_event_type'_def view_def event_view_def)
qed

lemmas raw_event_defs =
  PN_RAW_CONNECTION_CONNECTED_def PN_RAW_CONNECTION_CLOSED_READ_def PN_RAW_CONNECTION_CLOSED_WRITE_def
  PN_RAW_CONNECTION_DISCONNECTED_def PN_RAW_CONNECTION_NEED_READ_BUFFERS_def PN_RAW_CONNECTION_NEED_WRITE_BUFFERS_def
  PN_RAW_CONNECTION_READ_def PN_RAW_CONNECTION_WRITTEN_def PN_RAW_CONNECTION_WAKE_def PN_RAW_CONNECTION_DRAIN_BUFFERS_def

lemma ev_inv_upd [simp]:
  "ev_inv (c\<lparr>collector := col\<rparr>) evs = ev_inv c evs" "ev_inv (c\<lparr>rbuffers := R\<rparr>) evs = ev_inv c evs"
  "ev_inv (c\<lparr>wbuffers := W\<rparr>) evs = ev_inv c evs" "ev_inv (c\<lparr>condition := x\<rparr>) evs = ev_inv c evs"
  "ev_inv (c\<lparr>unwritten_offset := off\<rparr>) evs = ev_inv c evs" "ev_inv (c\<lparr>rrequestedbuffers := b\<rparr>) evs = ev_inv c evs"
  "ev_inv (c\<lparr>wrequestedbuffers := b\<rparr>) evs = ev_inv c evs"
  by (simp_all add: ev_inv_def no_flags_def pni_raw_rclosed_def)

text \<open>The event work that is left.\<close>

definition pending_work :: "pn_raw_connection \<Rightarrow> event_queue \<Rightarrow> nat" where
  "pending_work c q = length (eq_queue q) + of_bool (connectpending c) + of_bool (wakepending c) + of_bool (rpending c) +
     of_bool (wpending c) + of_bool (rclosedpending c) + of_bool (wclosedpending c) +
     (if disconnectpending c then if disconnect_state c = disc_init then 2 else 1 else 0)"

lemma ev_inv_snoc:
  assumes "ev_inv c evs" "disconnect_state c \<noteq> disc_fini" "t \<noteq> PN_RAW_CONNECTION_DISCONNECTED"
    "rc_state c' = rc_state c" "disconnectpending c' = disconnectpending c" "disconnect_state c' \<in> {disc_init, disc_drain_msg}"
    "counts_ok c' (evs @ [t])"
  shows "ev_inv c' (evs @ [t])"
  using assms unfolding ev_inv_def counts_ok_def by auto

text \<open>A round that puts an event of type \<open>t\<close>.\<close>

definition puts :: "pn_raw_connection \<Rightarrow> pn_event_type list \<Rightarrow> pn_raw_buffer list \<Rightarrow> pn_raw_buffer list \<Rightarrow> pn_raw_buffer list \<Rightarrow>
    pn_raw_buffer list \<Rightarrow> event_queue \<Rightarrow> pn_event_type \<Rightarrow> (bool option \<times> pn_raw_connection) option \<Rightarrow> bool" where
  "puts c evs rt rd wt wd q t res \<longleftrightarrow>
     (\<exists>c' q'. res = Some (None, c') \<and> raw_inv c' evs rt rd wt wd q' \<and> event_types q' = [t] \<and> rc_state c' = rc_state c \<and>
        (rc_state c = conn_fini \<longrightarrow> pending_work c' q' = pending_work c q))"

lemma putsI:
  assumes inv: "raw_inv c evs rt rd wt wd q" and q: "eq_queue q = []"
    and upd: "\<And>col. collector (upd (c\<lparr>collector := col\<rparr>)) = col" "\<And>col. rbuffers (upd (c\<lparr>collector := col\<rparr>)) = rbuffers c"
      "\<And>col. wbuffers (upd (c\<lparr>collector := col\<rparr>)) = wbuffers c" "\<And>col. rc_state (upd (c\<lparr>collector := col\<rparr>)) = rc_state c"
    and ev: "\<And>col. ev_inv (upd (c\<lparr>collector := col\<rparr>)) (evs @ [t])"
    and work: "\<And>col. rc_state c = conn_fini \<Longrightarrow> pending_work c q = Suc (pending_work (upd (c\<lparr>collector := col\<rparr>)) q)"
  shows "puts c evs rt rd wt wd q t (map_option (\<lambda>c. (None, upd c)) (pni_raw_put_event t c))"
proof -
  have c: "col_sim (collector c) q" "\<not> eq_freed q" using inv by (simp_all add: raw_inv_def)
  let ?q = "q\<lparr>eq_queue := [(Some CID_pn_raw_connection, Some (rc_self c), t)]\<rparr>"
  obtain col where col: "pni_raw_put_event t c = Some (c\<lparr>collector := col\<rparr>)" "col_sim col ?q"
    using put_queue [OF c q] by blast
  have types: "event_types ?q = [t]" by (simp add: event_types_def)
  have "raw_inv (upd (c\<lparr>collector := col\<rparr>)) evs rt rd wt wd ?q"
    using inv col(2) upd ev [of col] types by (simp add: raw_inv_def pools_def)
  moreover have "rc_state c = conn_fini \<longrightarrow> pending_work (upd (c\<lparr>collector := col\<rparr>)) ?q = pending_work c q"
    using work [of col] q by (simp add: pending_work_def)
  ultimately show ?thesis unfolding puts_def using col(1) types upd(4) [of col]
    by (intro exI [of _ "upd (c\<lparr>collector := col\<rparr>)"] exI [of _ ?q]) simp
qed

lemma ev_inv_flags: "ev_inv c evs \<Longrightarrow> disconnect_state c = disc_fini \<Longrightarrow> no_flags c \<and> rc_state c = conn_fini"
  by (simp add: ev_inv_def)

lemma put_flag:
  assumes inv: "raw_inv c evs rt rd wt wd q" and q: "eq_queue q = []"
    and t: "disconnect_state c \<noteq> disc_fini" "t \<noteq> PN_RAW_CONNECTION_DISCONNECTED"
    and upd: "\<And>col. collector (upd (c\<lparr>collector := col\<rparr>)) = col" "\<And>col. rbuffers (upd (c\<lparr>collector := col\<rparr>)) = rbuffers c"
      "\<And>col. wbuffers (upd (c\<lparr>collector := col\<rparr>)) = wbuffers c" "\<And>col. rc_state (upd (c\<lparr>collector := col\<rparr>)) = rc_state c"
      "\<And>col. disconnectpending (upd (c\<lparr>collector := col\<rparr>)) = disconnectpending c"
      "\<And>col. disconnect_state (upd (c\<lparr>collector := col\<rparr>)) \<in> {disconnect_state c, disc_drain_msg}"
    and counts: "\<And>col. counts_ok (upd (c\<lparr>collector := col\<rparr>)) (evs @ [t])"
    and work: "\<And>col. rc_state c = conn_fini \<Longrightarrow> pending_work c q = Suc (pending_work (upd (c\<lparr>collector := col\<rparr>)) q)"
  shows "puts c evs rt rd wt wd q t (map_option (\<lambda>c. (None, upd c)) (pni_raw_put_event t c))"
proof -
  have ev: "ev_inv c evs" using inv q by (simp add: raw_inv_def event_types_def)
  then have "disconnect_state c \<in> {disc_init, disc_drain_msg}" using t(1) by (auto simp: ev_inv_def)
  then have "disconnect_state (upd (c\<lparr>collector := col\<rparr>)) \<in> {disc_init, disc_drain_msg}" for col using upd(6) [of col] by auto
  then have "ev_inv (upd (c\<lparr>collector := col\<rparr>)) (evs @ [t])" for col
    using ev_inv_snoc [OF ev t(1) t(2), of "upd (c\<lparr>collector := col\<rparr>)"] upd(4,5) counts by blast
  then show ?thesis using putsI [of c evs rt rd wt wd q upd t] inv q upd(1-4) work by blast
qed

text \<open>One round on an empty queue.\<close>

lemma events_step_flag:
  assumes inv: "raw_inv c evs rt rd wt wd q" and q: "eq_queue q = []"
    and flag: "connectpending c \<or> wakepending c \<or> rpending c \<or> wpending c \<or> rclosedpending c \<or> wclosedpending c"
  shows "\<exists>t. puts c evs rt rd wt wd q t (events_step c)"
proof -
  have ev: "ev_inv c evs" using inv q by (simp add: raw_inv_def event_types_def)
  have peek: "pn_collector_peek (collector c) = None" using peek_queue [of "collector c" q] inv q by (simp add: raw_inv_def)
  note counts = ev_inv_counts [OF ev, unfolded counts_ok_def]
  have live: "disconnect_state c \<noteq> disc_fini" using ev_inv_flags [OF ev] flag by (auto simp: no_flags_def)
  note put = put_flag [OF inv q live]
  consider (connect) "connectpending c"
    | (wake) "\<not> connectpending c" "wakepending c"
    | (r) "\<not> connectpending c" "\<not> wakepending c" "rpending c"
    | (w) "\<not> connectpending c" "\<not> wakepending c" "\<not> rpending c" "wpending c"
    | (rc) "\<not> connectpending c" "\<not> wakepending c" "\<not> rpending c" "\<not> wpending c" "rclosedpending c"
    | (wc) "\<not> connectpending c" "\<not> wakepending c" "\<not> rpending c" "\<not> wpending c" "\<not> rclosedpending c" "wclosedpending c"
    using flag by blast
  then show ?thesis
  proof cases
    case connect
    have "puts c evs rt rd wt wd q PN_RAW_CONNECTION_CONNECTED (map_option (\<lambda>c. (None, c\<lparr>connectpending := False\<rparr>)) (pni_raw_put_event PN_RAW_CONNECTION_CONNECTED c))"
      using counts connect by (intro put) (simp_all add: counts_ok_def pni_raw_rclosed_def pending_work_def raw_event_defs)
    then show ?thesis using connect peek by (auto simp: events_step_def)
  next
    case wake
    have "puts c evs rt rd wt wd q PN_RAW_CONNECTION_WAKE (map_option (\<lambda>c. (None, c\<lparr>wakepending := False\<rparr>)) (pni_raw_put_event PN_RAW_CONNECTION_WAKE c))"
      using counts wake by (intro put) (simp_all add: counts_ok_def pni_raw_rclosed_def pending_work_def raw_event_defs)
    then show ?thesis using wake peek by (auto simp: events_step_def)
  next
    case r
    have "puts c evs rt rd wt wd q PN_RAW_CONNECTION_READ (map_option (\<lambda>c. (None, c\<lparr>rpending := False\<rparr>)) (pni_raw_put_event PN_RAW_CONNECTION_READ c))"
      using counts r by (intro put) (simp_all add: counts_ok_def pni_raw_rclosed_def pending_work_def raw_event_defs)
    then show ?thesis using r peek by (auto simp: events_step_def)
  next
    case w
    have "puts c evs rt rd wt wd q PN_RAW_CONNECTION_WRITTEN (map_option (\<lambda>c. (None, c\<lparr>wpending := False\<rparr>)) (pni_raw_put_event PN_RAW_CONNECTION_WRITTEN c))"
      using counts w by (intro put) (simp_all add: counts_ok_def pni_raw_rclosed_def pending_work_def raw_event_defs)
    then show ?thesis using w peek by (auto simp: events_step_def)
  next
    case rc
    have "puts c evs rt rd wt wd q PN_RAW_CONNECTION_CLOSED_READ (map_option (\<lambda>c. (None, c\<lparr>rclosedpending := False\<rparr>)) (pni_raw_put_event PN_RAW_CONNECTION_CLOSED_READ c))"
      using counts rc by (intro put) (simp_all add: counts_ok_def pni_raw_rclosed_def pending_work_def raw_event_defs)
    then show ?thesis using rc peek by (auto simp: events_step_def)
  next
    case wc
    have "puts c evs rt rd wt wd q PN_RAW_CONNECTION_CLOSED_WRITE (map_option (\<lambda>c. (None, c\<lparr>wclosedpending := False\<rparr>)) (pni_raw_put_event PN_RAW_CONNECTION_CLOSED_WRITE c))"
      using counts wc by (intro put) (simp_all add: counts_ok_def pni_raw_rclosed_def pending_work_def raw_event_defs)
    then show ?thesis using wc peek by (auto simp: events_step_def)
  qed
qed

lemma events_step_disconnect:
  assumes inv: "raw_inv c evs rt rd wt wd q" and q: "eq_queue q = []"
    and flags: "\<not> connectpending c" "\<not> wakepending c" "\<not> rpending c" "\<not> wpending c" "\<not> rclosedpending c" "\<not> wclosedpending c"
    and pending: "disconnectpending c"
  shows "(\<exists>t. puts c evs rt rd wt wd q t (events_step c)) \<or>
    (\<exists>c'. events_step c = Some (None, c') \<and> raw_inv c' evs rt rd wt wd q \<and> rc_state c' = rc_state c \<and>
      pending_work c q = Suc (pending_work c' q) \<and> disconnectpending c' \<and> disconnect_state c' = disc_drain_msg)"
proof -
  have ev: "ev_inv c evs" using inv q by (simp add: raw_inv_def event_types_def)
  have peek: "pn_collector_peek (collector c) = None" using peek_queue [of "collector c" q] inv q by (simp add: raw_inv_def)
  note counts = ev_inv_counts [OF ev, unfolded counts_ok_def]
  have live: "disconnect_state c \<noteq> disc_fini" using ev_inv_flags [OF ev] pending by (auto simp: no_flags_def)
  have fini: "rc_state c = conn_fini" and dis: "disconnect_state c = disc_init \<or> disconnect_state c = disc_drain_msg"
    using ev pending live by (auto simp: ev_inv_def)
  have step: "events_step c = (if disconnect_state c = disc_init
    then map_option (\<lambda>c. (None, c\<lparr>disconnect_state := disc_drain_msg\<rparr>))
      (if first_done (rbuffers c) \<noteq> 0 \<or> first_done (wbuffers c) \<noteq> 0 then pni_raw_put_event PN_RAW_CONNECTION_DRAIN_BUFFERS c else Some c)
    else map_option (\<lambda>c. (None, c\<lparr>disconnectpending := False, disconnect_state := disc_fini\<rparr>))
      (pni_raw_put_event PN_RAW_CONNECTION_DISCONNECTED c))"
    using peek flags pending dis by (auto simp: events_step_def)
  show ?thesis
  proof (cases "disconnect_state c = disc_init")
    case True
    show ?thesis
    proof (cases "first_done (rbuffers c) \<noteq> 0 \<or> first_done (wbuffers c) \<noteq> 0")
      case drain: True
      have "puts c evs rt rd wt wd q PN_RAW_CONNECTION_DRAIN_BUFFERS
        (map_option (\<lambda>c. (None, c\<lparr>disconnect_state := disc_drain_msg\<rparr>)) (pni_raw_put_event PN_RAW_CONNECTION_DRAIN_BUFFERS c))"
        using counts pending True
        by (intro put_flag [OF inv q live]) (simp_all add: counts_ok_def pni_raw_rclosed_def pending_work_def raw_event_defs)
      then show ?thesis using True drain step by auto
    next
      case False
      let ?c = "c\<lparr>disconnect_state := disc_drain_msg\<rparr>"
      have "ev_inv ?c evs" using ev True fini pending unfolding ev_inv_def by (simp add: pni_raw_rclosed_def)
      then have "raw_inv ?c evs rt rd wt wd q" using inv q by (simp add: raw_inv_def pools_def event_types_def)
      moreover have "pending_work c q = Suc (pending_work ?c q)" using True pending by (simp add: pending_work_def)
      ultimately show ?thesis using False True step pending by auto
    qed
  next
    case False
    let ?upd = "\<lambda>c. c\<lparr>disconnectpending := False, disconnect_state := disc_fini\<rparr>"
    have "ev_inv (?upd (c\<lparr>collector := col\<rparr>)) (evs @ [PN_RAW_CONNECTION_DISCONNECTED])" for col
      using ev fini flags live unfolding ev_inv_def by (simp add: no_flags_def pni_raw_rclosed_def raw_event_defs)
    then have "puts c evs rt rd wt wd q PN_RAW_CONNECTION_DISCONNECTED
        (map_option (\<lambda>c. (None, ?upd c)) (pni_raw_put_event PN_RAW_CONNECTION_DISCONNECTED c))"
      using pending False by (intro putsI [OF inv q]) (simp_all add: pending_work_def)
    then show ?thesis using False step by auto
  qed
qed

lemma events_step_none:
  assumes inv: "raw_inv c evs rt rd wt wd q" and q: "eq_queue q = []" and flags: "no_flags c"
  shows "events_step c = Some (Some False, c) \<and> pending_work c q = 0 \<or> (\<exists>t. puts c evs rt rd wt wd q t (events_step c))"
proof -
  have ev: "ev_inv c evs" using inv q by (simp add: raw_inv_def event_types_def)
  have peek: "pn_collector_peek (collector c) = None" using peek_queue [of "collector c" q] inv q by (simp add: raw_inv_def)
  note counts = ev_inv_counts [OF ev, unfolded counts_ok_def]
  let ?w = "\<not> pni_raw_wdrained c \<and> first_todo (wbuffers c) = 0 \<and> \<not> wrequestedbuffers c"
  let ?r = "\<not> pni_raw_rclosed c \<and> first_todo (rbuffers c) = 0 \<and> \<not> rrequestedbuffers c"
  have work: "pending_work c q = 0" using flags q by (simp add: pending_work_def no_flags_def)
  have step: "events_step c =
    (if ?w then map_option (\<lambda>c. (None, c\<lparr>wrequestedbuffers := True\<rparr>)) (pni_raw_put_event PN_RAW_CONNECTION_NEED_WRITE_BUFFERS c)
     else if ?r then map_option (\<lambda>c. (None, c\<lparr>rrequestedbuffers := True\<rparr>)) (pni_raw_put_event PN_RAW_CONNECTION_NEED_READ_BUFFERS c)
     else Some (Some False, c))"
    using peek flags by (simp add: events_step_def no_flags_def)
  have live: "disconnect_state c \<noteq> disc_fini \<and> rc_state c \<noteq> conn_fini" if "?w \<or> ?r"
    using that ev_inv_flags [OF ev] by (auto simp: pni_raw_wdrained_def pni_raw_rclosed_def)
  consider (w) ?w | (r) "\<not> ?w" ?r | (none) "\<not> ?w" "\<not> ?r" by blast
  then show ?thesis
  proof cases
    case w
    have "puts c evs rt rd wt wd q PN_RAW_CONNECTION_NEED_WRITE_BUFFERS
      (map_option (\<lambda>c. (None, c\<lparr>wrequestedbuffers := True\<rparr>)) (pni_raw_put_event PN_RAW_CONNECTION_NEED_WRITE_BUFFERS c))"
      using counts live w by (intro put_flag [OF inv q]) (simp_all add: counts_ok_def pni_raw_rclosed_def raw_event_defs)
    then show ?thesis using step w by auto
  next
    case r
    have "puts c evs rt rd wt wd q PN_RAW_CONNECTION_NEED_READ_BUFFERS
      (map_option (\<lambda>c. (None, c\<lparr>rrequestedbuffers := True\<rparr>)) (pni_raw_put_event PN_RAW_CONNECTION_NEED_READ_BUFFERS c))"
      using counts live r by (intro put_flag [OF inv q]) (simp_all add: counts_ok_def pni_raw_rclosed_def raw_event_defs)
    then show ?thesis using step r by auto
  next
    case none
    then have "events_step c = Some (Some False, c)" using step by auto
    then show ?thesis using work by blast
  qed
qed

lemma events_loop_ready:
  assumes "raw_inv c evs rt rd wt wd q" "eq_queue q \<noteq> []"
  shows "events_loop (Suc n) c = Some (True, c)"
proof -
  have "pn_collector_peek (collector c) \<noteq> None" using peek_queue [of "collector c" q] assms by (simp add: raw_inv_def)
  then show ?thesis by (simp add: events_step_def)
qed

lemma events_loop_puts:
  assumes "puts c evs rt rd wt wd q t (events_step c)"
  shows "\<exists>c' q'. events_loop (Suc (Suc n)) c = Some (True, c') \<and> raw_inv c' evs rt rd wt wd q' \<and> eq_queue q' \<noteq> [] \<and>
    rc_state c' = rc_state c \<and> (rc_state c = conn_fini \<longrightarrow> pending_work c' q' = pending_work c q)"
proof -
  obtain c' q' where p: "events_step c = Some (None, c')" "raw_inv c' evs rt rd wt wd q'" "event_types q' = [t]" "rc_state c' = rc_state c"
    "rc_state c = conn_fini \<longrightarrow> pending_work c' q' = pending_work c q" using assms unfolding puts_def by blast
  have "eq_queue q' \<noteq> []" using p(3) by (auto simp: event_types_def)
  then show ?thesis using p events_loop_ready [OF p(2), of n]
    by (intro exI [of _ c'] exI [of _ q']) (simp del: events_loop.simps add: events_loop.simps(2) [of "Suc n"])
qed

lemma batch_inv:
  assumes inv: "raw_inv c evs rt rd wt wd q"
  shows "\<exists>c' q'. pni_raw_batch_has_events c = Some (eq_queue q' \<noteq> [], c') \<and> raw_inv c' evs rt rd wt wd q' \<and> rc_state c' = rc_state c \<and>
    (rc_state c = conn_fini \<longrightarrow> pending_work c' q' \<le> pending_work c q \<and> (pending_work c q > 0 \<longrightarrow> eq_queue q' \<noteq> []))"
proof (cases "eq_queue q = []")
  case False
  then show ?thesis using events_loop_ready [OF inv False, of 2] inv
    by (intro exI [of _ c] exI [of _ q]) (simp add: pni_raw_batch_has_events_def numeral_3_eq_3)
next
  case True
  have three: "pni_raw_batch_has_events c = events_loop (Suc (Suc (Suc 0))) c" for c
    by (simp only: pni_raw_batch_has_events_def numeral_3_eq_3)
  consider (none) "events_step c = Some (Some False, c)" "pending_work c q = 0"
    | (put) t where "puts c evs rt rd wt wd q t (events_step c)"
    | (skip) c' where "events_step c = Some (None, c')" "raw_inv c' evs rt rd wt wd q" "rc_state c' = rc_state c"
      "pending_work c q = Suc (pending_work c' q)" "disconnectpending c'" "disconnect_state c' = disc_drain_msg"
  proof (cases "connectpending c \<or> wakepending c \<or> rpending c \<or> wpending c \<or> rclosedpending c \<or> wclosedpending c")
    case flag: True
    then show ?thesis using events_step_flag [OF inv True flag] that(2) by blast
  next
    case noflag: False
    show ?thesis
    proof (cases "disconnectpending c")
      case pending: True
      then show ?thesis using events_step_disconnect [OF inv True] noflag that(2,3) by blast
    next
      case False
      then have "no_flags c" using noflag by (simp add: no_flags_def)
      then show ?thesis using events_step_none [OF inv True] that(1,2) by blast
    qed
  qed
  then show ?thesis
  proof cases
    case none
    then show ?thesis using inv True by (intro exI [of _ c] exI [of _ q]) (simp add: three)
  next
    case put
    then show ?thesis using events_loop_puts [OF put, of "Suc 0"] unfolding three by fastforce
  next
    case skip
    obtain t where "puts c' evs rt rd wt wd q t (events_step c')"
    proof (cases "connectpending c' \<or> wakepending c' \<or> rpending c' \<or> wpending c' \<or> rclosedpending c' \<or> wclosedpending c'")
      case flag: True
      then show ?thesis using events_step_flag [OF skip(2) True flag] that by blast
    next
      case False
      then have "disconnect_state c' = disc_drain_msg \<Longrightarrow> pending_work c' q = 1" using skip(5) True by (simp add: pending_work_def)
      moreover have "pending_work c'' q = 0 \<Longrightarrow> \<not> disconnectpending c''" for c'' by (auto simp: pending_work_def split: if_splits)
      ultimately show ?thesis using events_step_disconnect [OF skip(2) True] skip(5,6) False that by fastforce
    qed
    from events_loop_puts [OF this, of 0] obtain c'' q'' where "events_loop (Suc (Suc 0)) c' = Some (True, c'')"
      "raw_inv c'' evs rt rd wt wd q''" "eq_queue q'' \<noteq> []" "rc_state c'' = rc_state c'"
      "rc_state c' = conn_fini \<longrightarrow> pending_work c'' q'' = pending_work c' q" by blast
    moreover have "events_loop (Suc (Suc (Suc 0))) c = events_loop (Suc (Suc 0)) c'" using skip(1) by simp
    ultimately show ?thesis using skip(3,4) unfolding three by (intro exI [of _ c''] exI [of _ q'']) simp
  qed
qed

lemma next_inv:
  assumes inv: "raw_inv c evs rt rd wt wd q"
  shows "\<exists>e c' q'. pni_raw_event_next c = Some (e, c') \<and> rc_state c' = rc_state c \<and>
    (case e of None \<Rightarrow> raw_inv c' evs rt rd wt wd q' \<and> eq_queue q' = [] \<and> (rc_state c = conn_fini \<longrightarrow> pending_work c q = 0 \<and> pending_work c' q' = 0)
     | Some i \<Rightarrow> \<exists>t. pn_event_type' (collector c') (Some i) = Some t \<and> raw_inv c' (evs @ [t]) rt rd wt wd q' \<and>
         (rc_state c = conn_fini \<longrightarrow> pending_work c' q' < pending_work c q))"
proof -
  obtain c1 q1 where 1: "pni_raw_batch_has_events c = Some (eq_queue q1 \<noteq> [], c1)" "raw_inv c1 evs rt rd wt wd q1" "rc_state c1 = rc_state c"
    "rc_state c = conn_fini \<longrightarrow> pending_work c1 q1 \<le> pending_work c q \<and> (pending_work c q > 0 \<longrightarrow> eq_queue q1 \<noteq> [])"
    using batch_inv [OF inv] by (elim exE conjE)
  show ?thesis
  proof (cases "eq_queue q1")
    case Nil
    then show ?thesis using 1 by (intro exI [of _ None] exI [of _ c1] exI [of _ q1]) (auto simp: pni_raw_event_next_def)
  next
    case (Cons v vs)
    obtain a b t where v: "v = (a, b, t)" by (cases v)
    have sim: "col_sim (collector c1) q1" using 1(2) by (simp add: raw_inv_def)
    obtain i col where n: "pn_collector_next (collector c1) = Some (Some i, col)" "pn_event_type' col (Some i) = Some t"
      "col_sim col (q1\<lparr>eq_queue := vs, eq_prev := Some (a, b, t)\<rparr>)"
      using next_queue [OF sim Cons [unfolded v]] by blast
    let ?c = "c1\<lparr>collector := col\<rparr>" and ?q = "q1\<lparr>eq_queue := vs, eq_prev := Some (a, b, t)\<rparr>"
    have "evs @ event_types q1 = (evs @ [t]) @ event_types ?q" using Cons v by (simp add: event_types_def)
    then have "raw_inv ?c (evs @ [t]) rt rd wt wd ?q"
      using 1(2) n(3) Cons by (auto simp: raw_inv_def pools_def)
    moreover have "Suc (pending_work ?c ?q) = pending_work c1 q1" using Cons by (simp add: pending_work_def)
    ultimately show ?thesis using 1 n Cons
      by (intro exI [of _ "Some i"] exI [of _ ?c] exI [of _ ?q]) (auto simp: pni_raw_event_next_def)
  qed
qed

section \<open>Bytes\<close>

text \<open>The bytes in use of a buffer.\<close>

definition raw_data :: "pn_raw_buffer \<Rightarrow> nat list" where
  "raw_data r = [raw_bytes r + raw_offset r..<raw_bytes r + raw_offset r + raw_size r]"

definition transferred :: "io_log \<Rightarrow> nat list" where
  "transferred log = concat (map (\<lambda>(a, s, r). case r of IO_bytes n \<Rightarrow> [a..<a + n] | IO_errno _ \<Rightarrow> []) log)"

definition socket_ok :: "socket_call list \<Rightarrow> bool" where
  "socket_ok calls \<longleftrightarrow> (\<forall>call\<in>set calls. \<forall>s n. call s = IO_bytes n \<longrightarrow> n \<le> s)"

lemma socket_ok_simps [simp]:
  "socket_ok []" "socket_ok (call # calls) \<longleftrightarrow> (\<forall>s n. call s = IO_bytes n \<longrightarrow> n \<le> s) \<and> socket_ok calls"
  by (auto simp: socket_ok_def)

lemma transferred_simps [simp]:
  "transferred [] = []" "transferred ((a, s, IO_bytes n) # log) = [a..<a + n] @ transferred log"
  "transferred ((a, s, IO_errno e) # log) = transferred log"
  by (simp_all add: transferred_def)

text \<open>A buffer waiting to be read into, and the bytes of one that was read into: its offset is behind them.\<close>

definition read_ready :: "pn_raw_buffer \<Rightarrow> bool" where
  "read_ready r \<longleftrightarrow> raw_size r = 0 \<and> raw_offset r \<le> raw_capacity r \<and> raw_capacity r < 2 ^ 32"

definition read_done :: "pn_raw_buffer \<Rightarrow> bool" where
  "read_done r \<longleftrightarrow> raw_size r \<le> raw_offset r \<and> raw_offset r < 2 ^ 32"

definition read_data :: "pn_raw_buffer \<Rightarrow> nat list" where
  "read_data r = [raw_bytes r + (raw_offset r - raw_size r)..<raw_bytes r + raw_offset r]"

lemma received_open:
  assumes "holds_open n B (t # ts) rd"
  shows "holds_open n (received k B) ts
    (rd @ [t\<lparr>raw_size := wrap32 (raw_size t + k), raw_offset := wrap32 (raw_offset t + k)\<rparr>])"
proof -
  obtain b where b: "raw_of b = t" "holds_open n (received k B) ts
    (rd @ [raw_of (b\<lparr>pb_size := wrap32 (pb_size b + k), pb_offset := wrap32 (pb_offset b + k)\<rparr>)])"
    using finish_open [OF assms, of "\<lambda>b. b\<lparr>pb_size := wrap32 (pb_size b + k), pb_offset := wrap32 (pb_offset b + k)\<rparr>"]
    by (auto simp: received_def)
  moreover have "raw_of (b\<lparr>pb_size := wrap32 (pb_size b + k), pb_offset := wrap32 (pb_offset b + k)\<rparr>) =
    t\<lparr>raw_size := wrap32 (raw_size t + k), raw_offset := wrap32 (raw_offset t + k)\<rparr>"
    using b(1) by (auto simp: raw_of_def)
  ultimately show ?thesis by simp
qed

lemma open_todo:
  assumes "holds_open n B (t # ts) rd"
  obtains b where "first_todo B \<noteq> 0" "todo_buffer B = Some b" "raw_of b = t"
  using finish_open [OF assms, of "\<lambda>b. b"] holds_open_first(1) [OF assms] by auto

lemma read_loop_holds:
  "holds_open n B rt rd \<Longrightarrow>
   \<exists>log exit B' rt' rd'. read_loop calls B = Some (log, exit, B') \<and> holds_open n B' rt' (rd @ rd') \<and> (\<forall>e. exit = Io_failed e \<longrightarrow> rt' \<noteq> []) \<and>
     (list_all read_ready rt \<and> socket_ok calls \<longrightarrow>
        transferred log = concat (map read_data rd') \<and> list_all read_done rd' \<and> list_all read_ready rt')"
proof (induction calls arbitrary: B rt rd)
  case Nil
  then show ?case by (intro exI [of _ "[]"] exI [of _ Io_finished] exI [of _ B] exI [of _ rt]) simp
next
  case (Cons recv calls)
  show ?case
  proof (cases rt)
    case Nil
    then show ?thesis using Cons.prems holds_open_first(1) [OF Cons.prems]
      by (intro exI [of _ "[]"] exI [of _ Io_finished] exI [of _ B] exI [of _ rt]) simp
  next
    case rt: (Cons t ts)
    obtain b where b: "first_todo B \<noteq> 0" "todo_buffer B = Some b" "raw_of b = t" using open_todo Cons.prems rt by blast
    have t: "pb_capacity b = raw_capacity t" "pb_offset b = raw_offset t" "pb_bytes b = raw_bytes t" using b(3) by (auto simp: raw_of_def)
    let ?s = "sub32 (raw_capacity t) (raw_offset t)"
    let ?call = "(raw_bytes t + raw_offset t, ?s, recv ?s)"
    show ?thesis
    proof (cases "recv ?s")
      case (IO_bytes k)
      let ?t = "t\<lparr>raw_size := wrap32 (raw_size t + k), raw_offset := wrap32 (raw_offset t + k)\<rparr>"
      have nxt: "holds_open n (received k B) ts (rd @ [?t])" using received_open Cons.prems rt by blast
      have done1: "read_done ?t \<and> [raw_bytes t + raw_offset t..<raw_bytes t + raw_offset t + k] = read_data ?t"
        if "read_ready t" "k \<le> ?s"
        using that by (auto simp: read_ready_def read_done_def read_data_def wrap_simps add.assoc)
      show ?thesis
      proof (cases "k = 0")
        case True
        then have "read_loop (recv # calls) B = Some ([?call], Io_closed, received k B)" using b t IO_bytes by (simp add: Let_def)
        moreover have "list_all read_ready rt \<and> socket_ok (recv # calls) \<longrightarrow> transferred [?call] = concat (map read_data [?t]) \<and>
          list_all read_done [?t] \<and> list_all read_ready ts"
          using done1 rt IO_bytes True by auto
        ultimately show ?thesis using nxt by blast
      next
        case False
        obtain log exit B' rt' rd' where IH: "read_loop calls (received k B) = Some (log, exit, B')" "holds_open n B' rt' ((rd @ [?t]) @ rd')"
          "\<forall>e. exit = Io_failed e \<longrightarrow> rt' \<noteq> []" "list_all read_ready ts \<and> socket_ok calls \<longrightarrow>
            transferred log = concat (map read_data rd') \<and> list_all read_done rd' \<and> list_all read_ready rt'"
          using Cons.IH [OF nxt] by blast
        have "read_loop (recv # calls) B = Some (?call # log, exit, B')" using b t IO_bytes False IH(1) by (simp add: Let_def)
        moreover have "holds_open n B' rt' (rd @ (?t # rd'))" using IH(2) by simp
        moreover have "list_all read_ready rt \<and> socket_ok (recv # calls) \<longrightarrow> transferred (?call # log) = concat (map read_data (?t # rd')) \<and>
          list_all read_done (?t # rd') \<and> list_all read_ready rt'"
          using done1 rt IO_bytes IH(4) by auto
        ultimately show ?thesis using IH(3) by blast
      qed
    next
      case (IO_errno e)
      obtain log exit B' rt' rd' where IH: "read_loop calls B = Some (log, exit, B')" "holds_open n B' rt' (rd @ rd')"
        "\<forall>e. exit = Io_failed e \<longrightarrow> rt' \<noteq> []" "list_all read_ready rt \<and> socket_ok calls \<longrightarrow>
          transferred log = concat (map read_data rd') \<and> list_all read_done rd' \<and> list_all read_ready rt'"
        using Cons.IH [OF Cons.prems] by blast
      let ?exit = "if e = EWOULDBLOCK then Io_finished else Io_failed e"
      have step: "read_loop (recv # calls) B = (if e = EINTR then Some (?call # log, exit, B') else Some ([?call], ?exit, B))"
        using b t IO_errno IH(1) by (simp add: Let_def)
      show ?thesis
      proof (cases "e = EINTR")
        case True
        have "transferred (?call # log) = transferred log" using IO_errno by simp
        then show ?thesis using step True IH(2,3,4)
          by (intro exI [of _ "?call # log"] exI [of _ exit] exI [of _ B'] exI [of _ rt'] exI [of _ rd']) simp
      next
        case False
        then show ?thesis using step Cons.prems IO_errno rt
          by (intro exI [of _ "[?call]"] exI [of _ ?exit] exI [of _ B] exI [of _ rt] exI [of _ "[]"]) simp
      qed
    qed
  qed
qed

text \<open>The part of a list of waiting writes that is not yet sent.\<close>

definition unsent :: "pn_raw_buffer list \<Rightarrow> nat \<Rightarrow> nat list" where
  "unsent wt off = drop off (concat (map raw_data wt))"

definition offset_ok :: "pn_raw_buffer list \<Rightarrow> nat \<Rightarrow> bool" where
  "offset_ok wt off \<longleftrightarrow> (case wt of [] \<Rightarrow> off = 0 | t # _ \<Rightarrow> off \<le> raw_size t) \<and> (\<forall>t\<in>set wt. raw_size t < 2 ^ 32)"

lemma unsent_Cons:
  "off \<le> raw_size t \<Longrightarrow> unsent (t # ts) off =
     [raw_bytes t + raw_offset t + off..<raw_bytes t + raw_offset t + raw_size t] @ unsent ts 0"
  by (simp add: unsent_def raw_data_def)

lemma offset_ok_zero: "(\<forall>t\<in>set ts. raw_size t < 2 ^ 32) \<Longrightarrow> offset_ok ts 0"
  by (cases ts) (simp_all add: offset_ok_def)

lemma upt_split: "i \<le> j \<Longrightarrow> j \<le> k \<Longrightarrow> [i..<k] = [i..<j] @ [j..<k]"
  using upt_add_eq_append [of i j "k - j"] by simp

lemma write_loop_holds:
  "holds_open n B wt wd \<Longrightarrow>
   \<exists>log exit B' off' k. write_loop calls B off = Some (log, exit, B', off') \<and> holds_open n B' (drop k wt) (wd @ take k wt) \<and>
     (\<forall>e. exit = Io_failed e \<longrightarrow> drop k wt \<noteq> []) \<and>
     (offset_ok wt off \<and> socket_ok calls \<longrightarrow> unsent wt off = transferred log @ unsent (drop k wt) off' \<and> offset_ok (drop k wt) off')"
proof (induction calls arbitrary: B wt wd off)
  case Nil
  then show ?case by (intro exI [of _ "[]"] exI [of _ Io_finished] exI [of _ B] exI [of _ off] exI [of _ 0]) simp
next
  case (Cons send calls)
  show ?case
  proof (cases wt)
    case Nil
    then show ?thesis using Cons.prems holds_open_first(1) [OF Cons.prems]
      by (intro exI [of _ "[]"] exI [of _ Io_finished] exI [of _ B] exI [of _ off] exI [of _ 0]) simp
  next
    case wt: (Cons t ts)
    obtain b where b: "first_todo B \<noteq> 0" "todo_buffer B = Some b" "raw_of b = t" using open_todo Cons.prems wt by blast
    have t: "pb_size b = raw_size t" "pb_offset b = raw_offset t" "pb_bytes b = raw_bytes t" using b(3) by (auto simp: raw_of_def)
    let ?s = "sub32 (raw_size t) off"
    let ?a = "raw_bytes t + raw_offset t + off"
    let ?call = "(?a, ?s, send ?s)"
    have ok: "off \<le> raw_size t \<and> ?s = raw_size t - off \<and> raw_size t < 2 ^ 32" if "offset_ok wt off"
      using that wt by (auto simp: offset_ok_def wrap_simps)
    show ?thesis
    proof (cases "send ?s")
      case (IO_bytes k)
      consider (closed) "k = 0" "?s > 0" | (partial) "\<not> (k = 0 \<and> ?s > 0)" "k \<noteq> ?s" | (all) "\<not> (k = 0 \<and> ?s > 0)" "k = ?s" by metis
      then show ?thesis
      proof cases
        case closed
        then have "write_loop (send # calls) B off = Some ([?call], Io_closed, B, off)" using b t IO_bytes by (simp add: Let_def)
        then show ?thesis using Cons.prems IO_bytes closed
          by (intro exI [of _ "[?call]"] exI [of _ Io_closed] exI [of _ B] exI [of _ off] exI [of _ 0]) simp
      next
        case partial
        then have "write_loop (send # calls) B off = Some ([?call], Io_finished, B, wrap32 (off + k))" using b t IO_bytes by (simp add: Let_def)
        moreover have "unsent wt off = transferred [?call] @ unsent wt (wrap32 (off + k)) \<and> offset_ok wt (wrap32 (off + k))"
          if h: "offset_ok wt off" "socket_ok (send # calls)"
        proof -
          have k: "k \<le> raw_size t - off" using h(2) IO_bytes ok [OF h(1)] by auto
          then have "off + k \<le> raw_size t" "wrap32 (off + k) = off + k" using ok [OF h(1)] by (auto simp: wrap_simps)
          then show ?thesis using ok [OF h(1)] h(1) IO_bytes wt upt_split [of ?a "?a + k" "raw_bytes t + raw_offset t + raw_size t"]
            by (simp add: unsent_Cons offset_ok_def add.assoc)
        qed
        ultimately show ?thesis using Cons.prems
          by (intro exI [of _ "[?call]"] exI [of _ Io_finished] exI [of _ B] exI [of _ "wrap32 (off + k)"] exI [of _ 0]) simp
      next
        case all
        have fin: "holds_open n (finish_buffer B) ts (wd @ [t])"
          using finish_open [of n B t ts wd "\<lambda>b. b"] Cons.prems wt by auto
        obtain log exit B' off' m where IH: "write_loop calls (finish_buffer B) 0 = Some (log, exit, B', off')"
          "holds_open n B' (drop m ts) ((wd @ [t]) @ take m ts)" "\<forall>e. exit = Io_failed e \<longrightarrow> drop m ts \<noteq> []"
          "offset_ok ts 0 \<and> socket_ok calls \<longrightarrow> unsent ts 0 = transferred log @ unsent (drop m ts) off' \<and> offset_ok (drop m ts) off'"
          using Cons.IH [OF fin, of 0] by blast
        have "write_loop (send # calls) B off = Some (?call # log, exit, B', off')" using b t IO_bytes all IH(1) by (auto simp: Let_def)
        moreover have "holds_open n B' (drop (Suc m) wt) (wd @ take (Suc m) wt)" using IH(2) wt by simp
        moreover have "unsent wt off = transferred (?call # log) @ unsent (drop (Suc m) wt) off' \<and> offset_ok (drop (Suc m) wt) off'"
          if h: "offset_ok wt off" "socket_ok (send # calls)"
        proof -
          have "offset_ok ts 0" using h(1) wt by (intro offset_ok_zero) (simp add: offset_ok_def)
          moreover have "?a + k = raw_bytes t + raw_offset t + raw_size t" using all ok [OF h(1)] by simp
          ultimately show ?thesis using IH(4) h ok [OF h(1)] wt IO_bytes by (simp add: unsent_Cons add.assoc)
        qed
        moreover have "\<forall>e. exit = Io_failed e \<longrightarrow> drop (Suc m) wt \<noteq> []" using IH(3) wt by simp
        ultimately show ?thesis by blast
      qed
    next
      case (IO_errno e)
      obtain log exit B' off' k where IH: "write_loop calls B off = Some (log, exit, B', off')" "holds_open n B' (drop k wt) (wd @ take k wt)"
        "\<forall>e. exit = Io_failed e \<longrightarrow> drop k wt \<noteq> []" "offset_ok wt off \<and> socket_ok calls \<longrightarrow> unsent wt off = transferred log @ unsent (drop k wt) off' \<and> offset_ok (drop k wt) off'"
        using Cons.IH [OF Cons.prems, of off] by blast
      let ?exit = "if e = EWOULDBLOCK then Io_finished else Io_failed e"
      have step: "write_loop (send # calls) B off = (if e = EINTR then Some (?call # log, exit, B', off') else Some ([?call], ?exit, B, off))"
        using b t IO_errno IH(1) by (simp add: Let_def)
      show ?thesis
      proof (cases "e = EINTR")
        case True
        have "transferred (?call # log) = transferred log" using IO_errno by simp
        then show ?thesis using step True IH(2,3,4)
          by (intro exI [of _ "?call # log"] exI [of _ exit] exI [of _ B'] exI [of _ off'] exI [of _ k]) simp
      next
        case False
        then show ?thesis using step Cons.prems IO_errno wt
          by (intro exI [of _ "[?call]"] exI [of _ ?exit] exI [of _ B] exI [of _ off] exI [of _ 0]) simp
      qed
    qed
  qed
qed

end
