(* ===== verification/Raw_Connection_Runs.thy ===== *)
theory Raw_Connection_Runs
  imports Raw_Connection_Correct "HOL-Library.Sublist"
begin

text \<open>
  Runs of a raw connection: sequences of the calls that its driver and the application make. In the
  discipline of the driver no sequence of calls fails an assertion, the pools stay well formed, the bytes of
  the socket are delivered and sent in order, the events follow the documented protocol and a closed
  connection reaches its last event. Disconnecting asynchronously while writes are draining is shown to
  fail an assertion.
\<close>

section \<open>Histories\<close>

datatype raw_op =
  RConnected | RConnectFailed | RWake | RGive "pn_raw_buffer list" | RTakeRead nat | RWrite "pn_raw_buffer list" |
  RTakeWritten nat | RRead "socket_call list" | RSend "socket_call list" | RShutdown | RReadClose | RWriteClose | RClose |
  RAsync | RNext

text \<open>
  What is observed of a run: the types of the events returned, and the addresses, byte by byte, of the data
  the application asked to write, the socket accepted, the socket delivered and the application took.
\<close>

record raw_history =
  h_events :: "pn_event_type list"
  h_submitted :: "nat list"
  h_sent :: "nat list"
  h_received :: "nat list"
  h_taken :: "nat list"

definition empty_history :: raw_history where
  "empty_history = \<lparr>h_events = [], h_submitted = [], h_sent = [], h_received = [], h_taken = []\<rparr>"

fun raw_exec :: "raw_op \<Rightarrow> pn_raw_connection \<Rightarrow> raw_history \<Rightarrow> (pn_raw_connection \<times> raw_history) option" where
  "raw_exec RConnected c h = map_option (\<lambda>c. (c, h)) (pni_raw_connected c)"
| "raw_exec RConnectFailed c h = map_option (\<lambda>c. (c, h)) (pni_raw_connect_failed c)"
| "raw_exec RWake c h = Some (pni_raw_wake c, h)"
| "raw_exec (RGive rs) c h = map_option (\<lambda>(n, c). (c, h)) (pn_raw_connection_give_read_buffers rs c)"
| "raw_exec (RTakeRead n) c h =
     map_option (\<lambda>(rs, c). (c, h\<lparr>h_taken := h_taken h @ concat (map raw_data rs)\<rparr>)) (pn_raw_connection_take_read_buffers n c)"
| "raw_exec (RWrite rs) c h =
     map_option (\<lambda>(n, c). (c, h\<lparr>h_submitted := h_submitted h @ concat (map raw_data (take n rs))\<rparr>))
       (pn_raw_connection_write_buffers rs c)"
| "raw_exec (RTakeWritten n) c h = map_option (\<lambda>(rs, c). (c, h)) (pn_raw_connection_take_written_buffers n c)"
| "raw_exec (RRead calls) c h =
     map_option (\<lambda>(log, c). (c, h\<lparr>h_received := h_received h @ transferred log\<rparr>)) (pni_raw_read calls c)"
| "raw_exec (RSend calls) c h =
     map_option (\<lambda>(log, c). (c, h\<lparr>h_sent := h_sent h @ transferred log\<rparr>)) (pni_raw_write calls c)"
| "raw_exec RShutdown c h = map_option (\<lambda>c. (c, h)) (pni_raw_process_shutdown c)"
| "raw_exec RReadClose c h = map_option (\<lambda>c. (c, h)) (pni_raw_read_close c)"
| "raw_exec RWriteClose c h = map_option (\<lambda>c. (c, h)) (pni_raw_write_close c)"
| "raw_exec RClose c h = map_option (\<lambda>c. (c, h)) (pni_raw_close c)"
| "raw_exec RAsync c h = map_option (\<lambda>c. (c, h)) (pni_raw_async_disconnect c)"
| "raw_exec RNext c h =
     do {
       (event, c) \<leftarrow> pni_raw_event_next c;
       (case event of
          None \<Rightarrow> Some (c, h)
        | Some i \<Rightarrow>
            do { t \<leftarrow> pn_event_type' (collector c) (Some i); Some (c, h\<lparr>h_events := h_events h @ [t]\<rparr>) })
     }"

text \<open>
  The calls the driver may make: a connection attempt completes or fails once, nothing is sent before that,
  and an asynchronous disconnection is reported on an established connection with no writes draining.
\<close>

fun allowed :: "raw_op \<Rightarrow> pn_raw_connection \<Rightarrow> bool" where
  "allowed RConnected c \<longleftrightarrow> rc_state c = conn_init"
| "allowed RConnectFailed c \<longleftrightarrow> rc_state c = conn_init"
| "allowed (RSend calls) c \<longleftrightarrow> rc_state c \<noteq> conn_init"
| "allowed RAsync c \<longleftrightarrow> rc_state c \<notin> {conn_init, conn_ro_wd, conn_rc_wd, conn_rs_wd}"
| "allowed _ c \<longleftrightarrow> True"

text \<open>Calls that are not allowed are not made.\<close>

fun raw_run :: "raw_op list \<Rightarrow> pn_raw_connection \<Rightarrow> raw_history \<Rightarrow> (pn_raw_connection \<times> raw_history) option" where
  "raw_run [] c h = Some (c, h)"
| "raw_run (oper # ops) c h =
     (if allowed oper c then do { (c, h) \<leftarrow> raw_exec oper c h; raw_run ops c h } else raw_run ops c h)"

section \<open>The invariant of runs\<close>

text \<open>Where the bytes are.\<close>

definition stream_inv :: "pn_raw_connection \<Rightarrow> raw_history \<Rightarrow> pn_raw_buffer list \<Rightarrow> pn_raw_buffer list \<Rightarrow> pn_raw_buffer list \<Rightarrow> bool" where
  "stream_inv c h rt rd wt \<longleftrightarrow>
     list_all read_ready rt \<and> list_all read_done rd \<and> h_received h = h_taken h @ concat (map read_data rd) \<and>
     (if rc_state c = conn_fini then prefix (h_sent h) (h_submitted h)
      else offset_ok wt (unwritten_offset c) \<and> h_submitted h = h_sent h @ unsent wt (unwritten_offset c))"

text \<open>\<open>good\<close> says whether the buffers given and the socket are as they should be.\<close>

definition run_inv :: "bool \<Rightarrow> pn_raw_connection \<Rightarrow> raw_history \<Rightarrow> bool" where
  "run_inv good c h \<longleftrightarrow>
     (\<exists>rt rd wt wd q. raw_inv c (h_events h) rt rd wt wd q \<and> (good \<longrightarrow> stream_inv c h rt rd wt))"

fun op_ok :: "raw_op \<Rightarrow> bool" where
  "op_ok (RGive rs) \<longleftrightarrow> (\<forall>r\<in>set rs. raw_offset r \<le> raw_capacity r \<and> raw_capacity r < 2 ^ 32)"
| "op_ok (RWrite rs) \<longleftrightarrow> (\<forall>r\<in>set rs. raw_size r < 2 ^ 32)"
| "op_ok (RRead calls) \<longleftrightarrow> socket_ok calls"
| "op_ok (RSend calls) \<longleftrightarrow> socket_ok calls"
| "op_ok _ \<longleftrightarrow> True"

lemma run_invI: "raw_inv c (h_events h) rt rd wt wd q \<Longrightarrow> (good \<Longrightarrow> stream_inv c h rt rd wt) \<Longrightarrow> run_inv good c h"
  unfolding run_inv_def by blast

lemma released_data:
  "list_all read_ready rt \<Longrightarrow> list_all read_done (map reset_size rt) \<and> concat (map read_data (map reset_size rt)) = []"
  by (induction rt) (auto simp: read_ready_def read_done_def read_data_def reset_size_def)

lemma closes_run:
  assumes inv: "raw_inv c (h_events h) rt rd wt wd q" "rc_state c \<noteq> conn_fini" and cl: "closes c rt rd wt wd c'"
    and str: "good \<Longrightarrow> stream_inv c h rt rd wt"
  shows "run_inv good c' h"
proof (cases "rc_state c' = conn_fini")
  case True
  have "raw_inv c' (h_events h) [] (rd @ map reset_size rt) [] (wd @ wt) q" using closes_inv [OF inv cl] True by simp
  moreover have "stream_inv c' h [] (rd @ map reset_size rt) []" if good
    using str [OF that] inv(2) True released_data [of rt] by (auto simp: stream_inv_def)
  ultimately show ?thesis by (rule run_invI)
next
  case False
  have c': "changes c c'" "raw_inv c' (h_events h) rt rd wt wd q" using closes_inv [OF inv cl] False by simp_all
  have "unwritten_offset c' = unwritten_offset c" using c'(1) by (auto simp: changes_def)
  then have "stream_inv c' h rt rd wt" if good using str [OF that] inv(2) False by (simp add: stream_inv_def)
  then show ?thesis using c'(2) by (intro run_invI)
qed

lemma live_frame:
  assumes inv: "raw_inv c evs rt rd wt wd q" "rc_state c \<noteq> conn_fini"
    and c': "rc_state c' = rc_state c" "connectpending c' = connectpending c" "rclosedpending c' = rclosedpending c"
      "disconnectpending c' = disconnectpending c" "disconnect_state c' = disconnect_state c" "collector c' = collector c"
    and p: "pools c' rt' rd' wt' wd'"
  shows "raw_inv c' evs rt' rd' wt' wd' q"
proof -
  have live: "rc_state c \<notin> {conn_wrong, conn_rs_ws, conn_fini}" "rc_state c' \<notin> {conn_wrong, conn_rs_ws, conn_fini}"
    using raw_inv_state [OF inv(1)] inv(2) c'(1) by auto
  have "ev_inv c (evs @ event_types q)" using inv(1) by (simp add: raw_inv_def)
  then have "ev_inv c' (evs @ event_types q)"
    unfolding ev_inv_live [OF live(1)] ev_inv_live [OF live(2)] by (simp add: c' counts_ok_def pni_raw_rclosed_def)
  then show ?thesis using inv p c' by (simp add: raw_inv_def)
qed

text \<open>\<open>if (conn->state != old_state) { if (pni_raw_rwclosed(conn)) ... }\<close>\<close>

lemma disconnect_if_changed:
  "\<lbrakk>changes c c'; rc_state c \<noteq> conn_rs_ws\<rbrakk> \<Longrightarrow>
   (if rc_state c' \<noteq> rc_state c then disconnect_if_closed c' else Some c') = disconnect_if_closed c'"
  using changes_not_fini [of c c'] by (auto simp: disconnect_if_closed_def pni_raw_rwclosed_def)

lemma read_closed_changes:
  assumes "rc_state c \<in> {conn_ro_wo, conn_ro_wd, conn_ro_wc, conn_ro_ws}"
  shows "\<exists>c'. map_option (\<lambda>c. c\<lparr>rclosedpending := True\<rparr>) (change_state conn_read_closed c) = Some c' \<and> changes c c'"
proof -
  obtain s where s: "pni_raw_new_state c conn_read_closed = Some s" "s \<in> {conn_rc_wo, conn_rc_wd, conn_rs_ws}"
    using new_state_read_closed [of c] assms by auto
  have "changes c (c\<lparr>rc_state := s, rclosedpending := True\<rparr>)"
    using s(2) assms by (intro changesI [where s = s and a = True and b = "wclosedpending c"]) (auto simp: pni_raw_rclosed_def)
  then show ?thesis using s(1) by (simp add: change_state_def)
qed

lemma read_run:
  assumes inv: "raw_inv c (h_events h) rt rd wt wd q" and str: "good \<Longrightarrow> stream_inv c h rt rd wt" and ok: "good \<Longrightarrow> socket_ok calls"
  shows "\<exists>log c'. pni_raw_read calls c = Some (log, c') \<and> run_inv good c' (h\<lparr>h_received := h_received h @ transferred log\<rparr>)"
proof (cases "pni_raw_ropen c")
  case False
  then have "pni_raw_read calls c = Some ([], c)" by (simp add: pni_raw_read_def)
  moreover have "h\<lparr>h_received := h_received h @ transferred []\<rparr> = h" by simp
  ultimately show ?thesis using run_invI [OF inv str] by auto
next
  case True
  then have st: "rc_state c \<in> {conn_ro_wo, conn_ro_wd, conn_ro_wc, conn_ro_ws}" by (simp add: pni_raw_ropen_def)
  have pools: "holds read_buffer_count (rbuffers c) rt rd" "holds write_buffer_count (wbuffers c) wt wd"
    using inv by (simp_all add: raw_inv_def pools_def)
  obtain log exit B rt' rd' where loop: "read_loop calls (rbuffers c) = Some (log, exit, B)"
    "holds_open read_buffer_count B rt' (rd @ rd')" "\<forall>e. exit = Io_failed e \<longrightarrow> rt' \<noteq> []"
    "list_all read_ready rt \<and> socket_ok calls \<longrightarrow>
       transferred log = concat (map read_data rd') \<and> list_all read_done rd' \<and> list_all read_ready rt'"
    using read_loop_holds [OF holds_openI [OF pools(1)], of calls] by blast
  let ?h = "h\<lparr>h_received := h_received h @ transferred log\<rparr>"
  let ?B = "if first_todo B = 0 then B\<lparr>last_todo := 0\<rparr> else B"
  have B: "holds read_buffer_count ?B rt' (rd @ rd')" using holds_open_close [OF loop(2)] .
  have run: "run_inv good c' ?h" if c1: "rc_state c1 = rc_state c" "connectpending c1 = connectpending c" "rclosedpending c1 = rclosedpending c"
      "disconnectpending c1 = disconnectpending c" "disconnect_state c1 = disconnect_state c" "collector c1 = collector c"
      "rbuffers c1 = ?B" "wbuffers c1 = wbuffers c" "unwritten_offset c1 = unwritten_offset c" and cl: "closes c1 rt' (rd @ rd') wt wd c'" for c1 c'
  proof -
    have "raw_inv c1 (h_events ?h) rt' (rd @ rd') wt wd q"
      using live_frame [OF inv, of c1 rt' "rd @ rd'" wt wd] st c1(1-6) B pools(2) c1(7,8) by (auto simp: pools_def)
    moreover have "stream_inv c1 ?h rt' (rd @ rd') wt" if good
      using str [OF that] ok [OF that] loop(4) c1(1,9) st by (auto simp: stream_inv_def)
    ultimately show ?thesis using closes_run [OF _ _ cl, of ?h q good] c1(1) st by auto
  qed
  show ?thesis
  proof (cases "\<exists>e. exit = Io_failed e")
    case True
    then obtain e where e: "exit = Io_failed e" by blast
    have nz: "first_todo B \<noteq> 0" using loop(3) e holds_open_first(1) [OF loop(2)] by auto
    let ?c = "set_error ''recv error'' e (c\<lparr>rbuffers := B\<rparr>)"
    have fields: "rc_state ?c = rc_state c" "connectpending ?c = connectpending c" "rclosedpending ?c = rclosedpending c"
      "disconnectpending ?c = disconnectpending c" "disconnect_state ?c = disconnect_state c" "collector ?c = collector c"
      "rbuffers ?c = ?B" "wbuffers ?c = wbuffers c" "unwritten_offset ?c = unwritten_offset c"
      using nz by (simp_all add: set_error_def)
    have "pools ?c rt' (rd @ rd') wt wd" using B pools(2) fields(7,8) by (simp add: pools_def)
    then obtain c' where c': "pni_raw_close ?c = Some c'" "closes ?c rt' (rd @ rd') wt wd c'"
      using close_ops_closes(3) [of ?c] fields(1) st by force
    have "pni_raw_read calls c = Some (log, c')" using True loop(1) e c'(1) \<open>pni_raw_ropen c\<close> by (simp add: pni_raw_read_def Let_def)
    then show ?thesis using run [OF fields c'(2)] by blast
  next
    case False
    define c1 where "c1 = (let c1 = (if first_todo B = 0 then c\<lparr>rbuffers := B\<lparr>last_todo := 0\<rparr>\<rparr> else c\<lparr>rbuffers := B\<rparr>)
      in if first_done B \<noteq> 0 \<and> \<not> rpending c1 then c1\<lparr>rpending := True\<rparr> else c1)"
    have fields: "rc_state c1 = rc_state c" "connectpending c1 = connectpending c" "rclosedpending c1 = rclosedpending c"
      "disconnectpending c1 = disconnectpending c" "disconnect_state c1 = disconnect_state c" "collector c1 = collector c"
      "rbuffers c1 = ?B" "wbuffers c1 = wbuffers c" "unwritten_offset c1 = unwritten_offset c"
      by (simp_all add: c1_def Let_def)
    have p1: "pools c1 rt' (rd @ rd') wt wd" using B pools(2) fields(7,8) by (simp add: pools_def)
    obtain c2 where c2: "(if exit = Io_closed then map_option (\<lambda>c. c\<lparr>rclosedpending := True\<rparr>) (change_state conn_read_closed c1) else Some c1) = Some c2"
      "changes c1 c2"
      using read_closed_changes [of c1] changes_refl [of c1] fields(1) st by (cases "exit = Io_closed") auto
    obtain c' where c': "disconnect_if_closed c2 = Some c'" "closes c1 rt' (rd @ rd') wt wd c'"
      using disconnect_if_closed_closes [OF c2(2) p1] by blast
    have "(if rc_state c2 \<noteq> rc_state c1 then disconnect_if_closed c2 else Some c2) = Some c'"
      using disconnect_if_changed [OF c2(2)] fields(1) st c'(1) by auto
    moreover have "pni_raw_read calls c =
      do { c \<leftarrow> (if exit = Io_closed then map_option (\<lambda>c. c\<lparr>rclosedpending := True\<rparr>) (change_state conn_read_closed c1) else Some c1);
           c \<leftarrow> (if rc_state c \<noteq> rc_state c1 then disconnect_if_closed c else Some c); Some (log, c) }"
      using True loop(1) False by (cases exit) (simp_all add: pni_raw_read_def c1_def Let_def)
    ultimately have "pni_raw_read calls c = Some (log, c')" using c2(1) by simp
    then show ?thesis using run [OF fields c'(2)] by blast
  qed
qed

lemma drained_changes:
  assumes "rc_state c \<in> {conn_ro_wo, conn_ro_wd, conn_rc_wo, conn_rc_wd, conn_rs_wo, conn_rs_wd}"
  shows "\<exists>c'. (if drained then change_state conn_write_drained c else Some c) = Some c' \<and> changes c c' \<and> rc_state c' \<noteq> conn_init"
proof (cases drained)
  case True
  obtain s where s: "pni_raw_new_state c conn_write_drained = Some s" "s \<notin> {conn_wrong, conn_fini, conn_init}"
    "pni_raw_rclosed c \<longrightarrow> pni_raw_rclosed (c\<lparr>rc_state := s\<rparr>)"
    using new_state_drained [of c] assms by (auto simp: pni_raw_rclosed_def)
  then show ?thesis using change_state_changes [OF s] True by simp
next
  case False
  then show ?thesis using changes_refl [of c] assms by auto
qed

lemma write_closed_changes:
  assumes "rc_state c \<notin> {conn_wrong, conn_init, conn_fini}"
  shows "\<exists>c'. map_option (\<lambda>c. c\<lparr>wclosedpending := True\<rparr>) (change_state conn_write_closed c) = Some c' \<and> changes c c'"
proof -
  obtain s where s: "pni_raw_new_state c conn_write_closed = Some s" using new_state_write_closed [OF assms] by blast
  have st: "s \<notin> {conn_wrong, conn_fini, conn_init}" "pni_raw_rclosed c \<longrightarrow> pni_raw_rclosed (c\<lparr>rc_state := s\<rparr>)"
    using s new_state_write_closed [OF assms] assms by (cases "rc_state c"; simp add: pni_raw_rclosed_def)+
  have "changes c (c\<lparr>rc_state := s, wclosedpending := True\<rparr>)"
    using st by (intro changesI [where s = s and a = "rclosedpending c" and b = True]) auto
  then show ?thesis using s by (simp add: change_state_def)
qed

text \<open>Closing both sides with nothing left to write disconnects.\<close>

lemma close_drained:
  assumes st: "rc_state c \<in> {conn_ro_wo, conn_ro_wd, conn_rc_wo, conn_rc_wd, conn_rs_wo, conn_rs_wd}"
    and p: "pools c rt rd wt wd" and none: "first_todo (wbuffers c) = 0" and c': "pni_raw_close c = Some c'"
  shows "rc_state c' = conn_fini"
proof -
  have live: "rc_state c \<notin> {conn_wrong, conn_fini}" using st by auto
  obtain c1 where c1: "close_read_side c = Some c1" "changes c c1" using close_read_side_changes [OF live] by blast
  have s1: "rc_state c1 \<in> {conn_rc_wo, conn_rc_wd, conn_rs_wo, conn_rs_wd}"
    using c1(1) st by (auto simp: close_read_side_def state_defs)
  have "wbuffers c1 = wbuffers c" using c1(2) by (auto simp: changes_def)
  then have w1: "first_todo (wbuffers c1) = 0" using none by simp
  obtain c2 where c2: "close_write_side c1 = Some c2" "changes c1 c2"
    using close_write_side_changes [OF changes_not_fini [OF c1(2)]] by blast
  have s2: "rc_state c2 = conn_rs_ws"
    using c2(1) s1 w1 by (auto simp: close_write_side_def state_defs)
  have "pools c2 rt rd wt wd" using changes_pools [OF c2(2)] changes_pools [OF c1(2)] p by simp
  from disconnect_pools [OF this] s2 obtain R W where "pni_raw_disconnect c2 =
      Some (c2\<lparr>rbuffers := R, wbuffers := W, disconnectpending := True, disconnect_state := disc_init, rc_state := conn_fini\<rparr>)" by auto
  then show ?thesis using c' c1(1) c2(1) s2 live st by (auto simp: pni_raw_close_def pni_raw_rwclosed_def disconnect_if_closed_def)
qed

lemma write_failed_run:
  assumes inv: "raw_inv c evs rt rd wt wd q"
    and st: "rc_state c \<in> {conn_ro_wo, conn_ro_wd, conn_rc_wo, conn_rc_wd, conn_rs_wo, conn_rs_wd}"
  shows "\<exists>c1 c'. pni_raw_release_buffers c = Some c1 \<and> pni_raw_close c1 = Some c' \<and> rc_state c' = conn_fini \<and>
    raw_inv c' evs [] (rd @ map reset_size rt) [] (wd @ wt) q"
proof -
  have pools: "pools c rt rd wt wd" using inv by (simp add: raw_inv_def)
  obtain R W where RW: "pni_raw_release_buffers c = Some (c\<lparr>rbuffers := R, wbuffers := W\<rparr>)"
    "holds read_buffer_count R [] (rd @ map reset_size rt)" "holds write_buffer_count W [] (wd @ wt)"
    using release_pools [OF pools] by blast
  let ?c = "c\<lparr>rbuffers := R, wbuffers := W\<rparr>"
  have p: "pools ?c [] (rd @ map reset_size rt) [] (wd @ wt)" using RW(2,3) by (simp add: pools_def)
  have st1: "rc_state ?c \<in> {conn_ro_wo, conn_ro_wd, conn_rc_wo, conn_rc_wd, conn_rs_wo, conn_rs_wd}" using st by simp
  have inv1: "raw_inv ?c evs [] (rd @ map reset_size rt) [] (wd @ wt) q"
    using live_frame [OF inv, of ?c "[]" "rd @ map reset_size rt" "[]" "wd @ wt"] st p by auto
  obtain c' where c': "pni_raw_close ?c = Some c'" "closes ?c [] (rd @ map reset_size rt) [] (wd @ wt) c'"
    using close_ops_closes(3) [OF _ p] st by force
  have fini: "rc_state c' = conn_fini" using close_drained [OF st1 p _ c'(1)] holds_first(1) [OF RW(3)] by simp
  have "raw_inv c' evs [] (rd @ map reset_size rt) [] (wd @ wt) q"
    using closes_inv [OF inv1 _ c'(2)] fini st by auto
  then show ?thesis using RW(1) c'(1) fini by blast
qed

lemma write_run:
  assumes inv: "raw_inv c (h_events h) rt rd wt wd q" and str: "good \<Longrightarrow> stream_inv c h rt rd wt" and ok: "good \<Longrightarrow> socket_ok calls"
    and init: "rc_state c \<noteq> conn_init"
  shows "\<exists>log c'. pni_raw_write calls c = Some (log, c') \<and> run_inv good c' (h\<lparr>h_sent := h_sent h @ transferred log\<rparr>)"
proof (cases "pni_raw_wdrained c")
  case True
  then have "pni_raw_write calls c = Some ([], c)" by (simp add: pni_raw_write_def)
  moreover have "h\<lparr>h_sent := h_sent h @ transferred []\<rparr> = h" by simp
  ultimately show ?thesis using run_invI [OF inv str] by auto
next
  case False
  then have st: "rc_state c \<in> {conn_ro_wo, conn_ro_wd, conn_rc_wo, conn_rc_wd, conn_rs_wo, conn_rs_wd}"
    using raw_inv_state [OF inv] init by (cases "rc_state c") (simp_all add: pni_raw_wdrained_def)
  have pools: "holds read_buffer_count (rbuffers c) rt rd" "holds write_buffer_count (wbuffers c) wt wd"
    using inv by (simp_all add: raw_inv_def pools_def)
  obtain log exit B off k where loop: "write_loop calls (wbuffers c) (unwritten_offset c) = Some (log, exit, B, off)"
    "holds_open write_buffer_count B (drop k wt) (wd @ take k wt)" "\<forall>e. exit = Io_failed e \<longrightarrow> drop k wt \<noteq> []"
    "offset_ok wt (unwritten_offset c) \<and> socket_ok calls \<longrightarrow>
       unsent wt (unwritten_offset c) = transferred log @ unsent (drop k wt) off \<and> offset_ok (drop k wt) off"
    using write_loop_holds [OF holds_openI [OF pools(2)], of calls "unwritten_offset c"] by blast
  let ?h = "h\<lparr>h_sent := h_sent h @ transferred log\<rparr>"
  let ?wt = "drop k wt" and ?wd = "wd @ take k wt"
  let ?B = "if first_todo B = 0 then B\<lparr>last_todo := 0\<rparr> else B"
  have B: "holds write_buffer_count ?B ?wt ?wd" using holds_open_close [OF loop(2)] .
  have inv1: "raw_inv c1 (h_events ?h) rt rd ?wt ?wd q"
    if c1: "rc_state c1 = rc_state c" "connectpending c1 = connectpending c" "rclosedpending c1 = rclosedpending c"
      "disconnectpending c1 = disconnectpending c" "disconnect_state c1 = disconnect_state c" "collector c1 = collector c"
      "wbuffers c1 = ?B" "rbuffers c1 = rbuffers c" "unwritten_offset c1 = off" for c1
    using live_frame [OF inv, of c1 rt rd ?wt ?wd] st c1(1-6) B pools(1) c1(7,8) by (auto simp: pools_def)
  have str1: "stream_inv c1 ?h rt rd ?wt" if good "rc_state c1 = rc_state c" "unwritten_offset c1 = off" for c1
    using str [OF that(1)] ok [OF that(1)] loop(4) that(2,3) st by (auto simp: stream_inv_def)
  show ?thesis
  proof (cases "\<exists>e. exit = Io_failed e")
    case True
    then obtain e where e: "exit = Io_failed e" by blast
    have nz: "first_todo B \<noteq> 0" using loop(3) e holds_open_first(1) [OF loop(2)] by auto
    let ?c = "set_error ''send error'' e (c\<lparr>wbuffers := B, unwritten_offset := off\<rparr>)"
    have fields: "rc_state ?c = rc_state c" "connectpending ?c = connectpending c" "rclosedpending ?c = rclosedpending c"
      "disconnectpending ?c = disconnectpending c" "disconnect_state ?c = disconnect_state c" "collector ?c = collector c"
      "wbuffers ?c = ?B" "rbuffers ?c = rbuffers c" "unwritten_offset ?c = off"
      using nz by (simp_all add: set_error_def)
    obtain c1 c' where c': "pni_raw_release_buffers ?c = Some c1" "pni_raw_close c1 = Some c'" "rc_state c' = conn_fini"
      "raw_inv c' (h_events ?h) [] (rd @ map reset_size rt) [] (?wd @ ?wt) q"
      using write_failed_run [OF inv1 [OF fields]] fields(1) st by auto
    have "stream_inv c' ?h [] (rd @ map reset_size rt) []" if good
      using str1 [OF that fields(1,9)] c'(3) fields(1) st released_data [of rt] by (auto simp: stream_inv_def)
    then have "run_inv good c' ?h" using c'(4) by (intro run_invI)
    moreover have "pni_raw_write calls c = Some (log, c')" using False loop(1) e c'(1,2) by (simp add: pni_raw_write_def Let_def)
    ultimately show ?thesis by blast
  next
    case noerr: False
    define c1 where "c1 = (let c1 = (if first_todo B = 0 then c\<lparr>wbuffers := B, unwritten_offset := off, wbuffers := B\<lparr>last_todo := 0\<rparr>\<rparr>
        else c\<lparr>wbuffers := B, unwritten_offset := off\<rparr>)
      in if first_done B \<noteq> 0 \<and> \<not> wpending c1 then c1\<lparr>wpending := True\<rparr> else c1)"
    have fields: "rc_state c1 = rc_state c" "connectpending c1 = connectpending c" "rclosedpending c1 = rclosedpending c"
      "disconnectpending c1 = disconnectpending c" "disconnect_state c1 = disconnect_state c" "collector c1 = collector c"
      "wbuffers c1 = ?B" "rbuffers c1 = rbuffers c" "unwritten_offset c1 = off"
      by (simp_all add: c1_def Let_def)
    have p1: "pools c1 rt rd ?wt ?wd" using B pools(1) fields(7,8) by (simp add: pools_def)
    obtain c2 where c2: "(if first_todo B = 0 then change_state conn_write_drained c1 else Some c1) = Some c2" "changes c1 c2" "rc_state c2 \<noteq> conn_init"
      using drained_changes [of c1 "first_todo B = 0"] fields(1) st by auto
    have s2: "rc_state c2 \<notin> {conn_wrong, conn_init, conn_fini}" using changes_not_fini [OF c2(2)] c2(3) by auto
    obtain c3 where c3: "(if exit = Io_closed then map_option (\<lambda>c. c\<lparr>wclosedpending := True\<rparr>) (change_state conn_write_closed c2) else Some c2) = Some c3"
      "changes c2 c3"
      using write_closed_changes [OF s2] changes_refl [of c2] s2 by (cases "exit = Io_closed") auto
    have c13: "changes c1 c3" using changes_trans [OF c2(2) c3(2)] .
    obtain c' where c': "disconnect_if_closed c3 = Some c'" "closes c1 rt rd ?wt ?wd c'"
      using disconnect_if_closed_closes [OF c13 p1] by blast
    have "(if rc_state c3 \<noteq> rc_state c1 then disconnect_if_closed c3 else Some c3) = Some c'"
      using disconnect_if_changed [OF c13] fields(1) st c'(1) by auto
    moreover have "exit = Io_finished \<or> exit = Io_closed" using noerr by (cases exit) auto
    then have "pni_raw_write calls c =
      do { c \<leftarrow> (if first_todo B = 0 then change_state conn_write_drained c1 else Some c1);
           c \<leftarrow> (if exit = Io_closed then map_option (\<lambda>c. c\<lparr>wclosedpending := True\<rparr>) (change_state conn_write_closed c) else Some c);
           c \<leftarrow> (if rc_state c \<noteq> rc_state c1 then disconnect_if_closed c else Some c); Some (log, c) }"
      unfolding pni_raw_write_def c1_def Let_def using False loop(1)
      by (elim disjE) (simp_all only: if_False bind.bind_lunit prod.case io_exit.case simp_thms)
    ultimately have "pni_raw_write calls c = Some (log, c')" using c2(1) c3(1) by simp
    moreover have "run_inv good c' ?h"
      using closes_run [OF inv1 [OF fields] _ c'(2) str1] fields(1,9) st by auto
    ultimately show ?thesis by blast
  qed
qed

section \<open>Every call preserves the invariant\<close>

lemma raw_inv_pools: "raw_inv c evs rt rd wt wd q \<Longrightarrow> holds read_buffer_count (rbuffers c) rt rd \<and> holds write_buffer_count (wbuffers c) wt wd"
  by (simp add: raw_inv_def pools_def)

lemma raw_inv_buffers:
  assumes "raw_inv c evs rt rd wt wd q" "holds read_buffer_count R rt' rd'" "holds write_buffer_count W wt' wd'"
    "rc_state c = conn_fini \<longrightarrow> rt' = [] \<and> wt' = []"
  shows "raw_inv (c\<lparr>rbuffers := R, wbuffers := W\<rparr>) evs rt' rd' wt' wd' q"
  using assms by (simp add: raw_inv_def pools_def)

lemma give_run:
  assumes inv: "raw_inv c (h_events h) rt rd wt wd q" and str: "good \<Longrightarrow> stream_inv c h rt rd wt"
    and ok: "good \<Longrightarrow> \<forall>r\<in>set rs. raw_offset r \<le> raw_capacity r \<and> raw_capacity r < 2 ^ 32"
  shows "\<exists>n c'. pn_raw_connection_give_read_buffers rs c = Some (n, c') \<and> run_inv good c' h"
proof -
  let ?n = "min (length rs) (pn_raw_connection_read_buffers_capacity c)"
  show ?thesis
  proof (cases "?n = 0")
    case True
    then have "pn_raw_connection_give_read_buffers rs c = Some (0, c)" by (simp only: pn_raw_connection_give_read_buffers_def Let_def if_True simp_thms)
    then show ?thesis using run_invI [OF inv str] by blast
  next
    case False
    have p: "holds read_buffer_count (rbuffers c) rt rd" "holds write_buffer_count (wbuffers c) wt wd" using raw_inv_pools [OF inv] by simp_all
    have live: "rc_state c \<noteq> conn_fini" using False by (auto simp: pn_raw_connection_read_buffers_capacity_def pni_raw_rclosed_def)
    have cap: "length rt + length rd + ?n \<le> read_buffer_count" "length rt + length rd < read_buffer_count"
      using False holds_count [OF p(1)] holds_bound [OF p(1)]
      by (auto simp: pn_raw_connection_read_buffers_capacity_def split: if_splits)
    have empty: "first_empty (rbuffers c) \<noteq> 0" using holds_first(3) [OF p(1)] cap(2) by simp
    have "take ?n rs \<noteq> []" "length rt + length rd + length (take ?n rs) \<le> read_buffer_count" using False cap(1) by auto
    from give_holds [OF p(1) this] obtain B where B: "give_buffers (take ?n rs) (rbuffers c) = Some B"
      "holds read_buffer_count B (map (\<lambda>r. r\<lparr>raw_size := 0\<rparr>) (take ?n rs) @ rt) rd" by blast
    let ?c = "c\<lparr>rbuffers := B, rrequestedbuffers := False\<rparr>"
    have "raw_inv ?c (h_events h) (map (\<lambda>r. r\<lparr>raw_size := 0\<rparr>) (take ?n rs) @ rt) rd wt wd q"
      using inv live B(2) p(2) by (intro live_frame [OF inv live]) (simp_all add: pools_def)
    moreover have "stream_inv ?c h (map (\<lambda>r. r\<lparr>raw_size := 0\<rparr>) (take ?n rs) @ rt) rd wt" if good
      using str [OF that] ok [OF that] by (auto simp: stream_inv_def list_all_iff read_ready_def dest: in_set_takeD)
    ultimately have "run_inv good ?c h" by (rule run_invI)
    moreover have "pn_raw_connection_give_read_buffers rs c = Some (?n, ?c)"
      unfolding pn_raw_connection_give_read_buffers_def Let_def if_not_P [OF False] if_not_P [OF empty] using B(1) by simp
    ultimately show ?thesis by blast
  qed
qed

lemma unsent_append: "offset_ok wt off \<Longrightarrow> unsent (wt @ rs) off = unsent wt off @ concat (map raw_data rs)"
  by (cases wt) (auto simp: unsent_def offset_ok_def raw_data_def)

lemma offset_ok_append: "offset_ok wt off \<Longrightarrow> \<forall>r\<in>set rs. raw_size r < 2 ^ 32 \<Longrightarrow> offset_ok (wt @ rs) off"
  by (cases wt) (auto simp: offset_ok_def split: list.splits)

lemma write_buffers_run:
  assumes inv: "raw_inv c (h_events h) rt rd wt wd q" and str: "good \<Longrightarrow> stream_inv c h rt rd wt"
    and ok: "good \<Longrightarrow> \<forall>r\<in>set rs. raw_size r < 2 ^ 32"
  shows "\<exists>n c'. pn_raw_connection_write_buffers rs c = Some (n, c') \<and>
    run_inv good c' (h\<lparr>h_submitted := h_submitted h @ concat (map raw_data (take n rs))\<rparr>)"
proof -
  let ?n = "min (length rs) (pn_raw_connection_write_buffers_capacity c)"
  show ?thesis
  proof (cases "?n = 0")
    case True
    then have "pn_raw_connection_write_buffers rs c = Some (0, c)" by (simp only: pn_raw_connection_write_buffers_def Let_def if_True simp_thms)
    then show ?thesis using run_invI [OF inv str] by auto
  next
    case False
    have p: "holds read_buffer_count (rbuffers c) rt rd" "holds write_buffer_count (wbuffers c) wt wd" using raw_inv_pools [OF inv] by simp_all
    have live: "rc_state c \<noteq> conn_fini" using False by (auto simp: pn_raw_connection_write_buffers_capacity_def pni_raw_wclosed_def)
    have cap: "length wt + length wd + ?n \<le> write_buffer_count" "length wt + length wd < write_buffer_count"
      using False holds_count [OF p(2)] holds_bound [OF p(2)]
      by (auto simp: pn_raw_connection_write_buffers_capacity_def split: if_splits)
    have empty: "first_empty (wbuffers c) \<noteq> 0" using holds_first(3) [OF p(2)] cap(2) by simp
    have "take ?n rs \<noteq> []" "length wt + length wd + length (take ?n rs) \<le> write_buffer_count" using False cap(1) by auto
    from append_holds [OF p(2) this] obtain B where B: "append_buffers (take ?n rs) (wbuffers c) = Some B"
      "holds write_buffer_count B (wt @ take ?n rs) wd" by blast
    let ?c = "c\<lparr>wbuffers := B, wrequestedbuffers := False\<rparr>"
    let ?h = "h\<lparr>h_submitted := h_submitted h @ concat (map raw_data (take ?n rs))\<rparr>"
    have "raw_inv ?c (h_events ?h) rt rd (wt @ take ?n rs) wd q"
      using live_frame [OF inv live, of ?c] B(2) p(1) by (simp add: pools_def)
    moreover have "stream_inv ?c ?h rt rd (wt @ take ?n rs)" if good
      using str [OF that] ok [OF that] live
      by (auto simp: stream_inv_def unsent_append intro!: offset_ok_append dest: in_set_takeD)
    ultimately have "run_inv good ?c ?h" by (rule run_invI)
    moreover have "pn_raw_connection_write_buffers rs c = Some (?n, ?c)"
      unfolding pn_raw_connection_write_buffers_def Let_def if_not_P [OF False] if_not_P [OF empty] using B(1) by simp
    ultimately show ?thesis by blast
  qed
qed

lemma taken_data: "read_done r \<Longrightarrow> raw_data (r\<lparr>raw_offset := sub32 (raw_offset r) (raw_size r)\<rparr>) = read_data r"
  by (simp add: read_done_def raw_data_def read_data_def sub32_diff add.assoc)

lemma take_read_run:
  assumes inv: "raw_inv c (h_events h) rt rd wt wd q" and str: "good \<Longrightarrow> stream_inv c h rt rd wt"
  shows "\<exists>rs c'. pn_raw_connection_take_read_buffers n c = Some (rs, c') \<and>
    run_inv good c' (h\<lparr>h_taken := h_taken h @ concat (map raw_data rs)\<rparr>)"
proof -
  have p: "holds read_buffer_count (rbuffers c) rt rd" "holds write_buffer_count (wbuffers c) wt wd" using raw_inv_pools [OF inv] by simp_all
  obtain B where B: "take_buffers n (rbuffers c) = Some (take n rd, B)" "holds read_buffer_count B rt (drop n rd)"
    using take_holds [OF p(1)] by blast
  let ?f = "\<lambda>r. r\<lparr>raw_offset := sub32 (raw_offset r) (raw_size r)\<rparr>"
  let ?h = "h\<lparr>h_taken := h_taken h @ concat (map raw_data (map ?f (take n rd)))\<rparr>"
  have "raw_inv (c\<lparr>rbuffers := B\<rparr>) (h_events ?h) rt (drop n rd) wt wd q"
    using inv B(2) p(2) by (simp add: raw_inv_def pools_def)
  moreover have "stream_inv (c\<lparr>rbuffers := B\<rparr>) ?h rt (drop n rd) wt" if good
  proof -
    have d: "list_all read_done rd" "h_received h = h_taken h @ concat (map read_data rd)" using str [OF that] by (simp_all add: stream_inv_def)
    have "map raw_data (map ?f (take n rd)) = map read_data (take n rd)"
      using d(1) by (auto simp: list_all_iff taken_data dest: in_set_takeD)
    then have "concat (map raw_data (map ?f (take n rd))) = concat (map read_data (take n rd))" by (rule arg_cong)
    moreover have "concat (map read_data rd) = concat (map read_data (take n rd)) @ concat (map read_data (drop n rd))"
      by (metis append_take_drop_id concat_append map_append)
    ultimately show ?thesis using str [OF that] d by (auto simp: stream_inv_def list_all_iff dest: in_set_dropD)
  qed
  ultimately have "run_inv good (c\<lparr>rbuffers := B\<rparr>) ?h" by (rule run_invI)
  moreover have "pn_raw_connection_take_read_buffers n c = Some (map ?f (take n rd), c\<lparr>rbuffers := B\<rparr>)"
    using B(1) by (simp add: pn_raw_connection_take_read_buffers_def)
  ultimately show ?thesis by blast
qed

lemma take_written_run:
  assumes inv: "raw_inv c (h_events h) rt rd wt wd q" and str: "good \<Longrightarrow> stream_inv c h rt rd wt"
  shows "\<exists>rs c'. pn_raw_connection_take_written_buffers n c = Some (rs, c') \<and> run_inv good c' h"
proof -
  have p: "holds read_buffer_count (rbuffers c) rt rd" "holds write_buffer_count (wbuffers c) wt wd" using raw_inv_pools [OF inv] by simp_all
  obtain B where B: "take_buffers n (wbuffers c) = Some (take n wd, B)" "holds write_buffer_count B wt (drop n wd)"
    using take_holds [OF p(2)] by blast
  have "raw_inv (c\<lparr>wbuffers := B\<rparr>) (h_events h) rt rd wt (drop n wd) q" using inv B(2) p(1) by (simp add: raw_inv_def pools_def)
  moreover have "stream_inv (c\<lparr>wbuffers := B\<rparr>) h rt rd wt" if good using str [OF that] by (simp add: stream_inv_def)
  ultimately have "run_inv good (c\<lparr>wbuffers := B\<rparr>) h" by (rule run_invI)
  then show ?thesis using B(1) by (simp add: pn_raw_connection_take_written_buffers_def)
qed

lemma connected_run:
  assumes inv: "raw_inv c (h_events h) rt rd wt wd q" and str: "good \<Longrightarrow> stream_inv c h rt rd wt" and st: "rc_state c = conn_init"
  shows "\<exists>c'. pni_raw_connected c = Some c' \<and> run_inv good c' h"
proof -
  let ?c = "c\<lparr>condition := None, connectpending := True, rc_state := conn_ro_wo\<rparr>"
  have "ev_inv c (h_events h @ event_types q)" using inv by (simp add: raw_inv_def)
  then have "ev_inv ?c (h_events h @ event_types q)"
    using ev_inv_live [of c] ev_inv_live [of ?c] st by (simp add: counts_ok_def pni_raw_rclosed_def)
  then have "raw_inv ?c (h_events h) rt rd wt wd q" using inv by (simp add: raw_inv_def pools_def)
  moreover have "stream_inv ?c h rt rd wt" if good using str [OF that] st by (simp add: stream_inv_def)
  ultimately have "run_inv good ?c h" by (rule run_invI)
  moreover have "pni_raw_connected c = Some ?c" using st by (simp add: pni_raw_connected_def state_defs)
  ultimately show ?thesis by blast
qed

lemma wake_run:
  assumes inv: "raw_inv c (h_events h) rt rd wt wd q" and str: "good \<Longrightarrow> stream_inv c h rt rd wt"
  shows "run_inv good (pni_raw_wake c) h"
proof (cases "disconnect_state c = disc_fini")
  case True
  then show ?thesis using run_invI [OF inv str] by (simp add: pni_raw_wake_def)
next
  case False
  let ?c = "c\<lparr>wakepending := True\<rparr>"
  have "ev_inv c (h_events h @ event_types q)" using inv by (simp add: raw_inv_def)
  then have "ev_inv ?c (h_events h @ event_types q)" using False by (auto simp: ev_inv_def pni_raw_rclosed_def)
  then have "raw_inv ?c (h_events h) rt rd wt wd q" using inv by (simp add: raw_inv_def pools_def)
  moreover have "stream_inv ?c h rt rd wt" if good using str [OF that] by (simp add: stream_inv_def)
  ultimately show ?thesis using False by (simp add: pni_raw_wake_def run_invI)
qed

lemma events_step_offset: "events_step c = Some (a, c') \<Longrightarrow> unwritten_offset c' = unwritten_offset c"
  by (auto simp: events_step_def pni_raw_put_event_def split: if_splits option.splits prod.splits raw_disconnect_state.splits)

lemma events_loop_offset: "events_loop n c = Some (a, c') \<Longrightarrow> unwritten_offset c' = unwritten_offset c"
  by (induction n arbitrary: c) (auto dest: events_step_offset split: bind_splits option.splits)

lemma event_next_offset: "pni_raw_event_next c = Some (e, c') \<Longrightarrow> unwritten_offset c' = unwritten_offset c"
  by (auto simp: pni_raw_event_next_def pni_raw_batch_has_events_def simp del: events_loop.simps split: bind_splits if_splits)
    (drule events_loop_offset, simp)+

lemma next_run:
  assumes inv: "raw_inv c (h_events h) rt rd wt wd q" and str: "good \<Longrightarrow> stream_inv c h rt rd wt"
  shows "\<exists>c' h'. raw_exec RNext c h = Some (c', h') \<and> run_inv good c' h'"
proof -
  obtain e c' q' where n: "pni_raw_event_next c = Some (e, c')" "rc_state c' = rc_state c"
    "case e of None \<Rightarrow> raw_inv c' (h_events h) rt rd wt wd q' | Some i \<Rightarrow> \<exists>t. pn_event_type' (collector c') (Some i) = Some t \<and>
       raw_inv c' (h_events h @ [t]) rt rd wt wd q'"
    using next_inv [OF inv] by (fastforce split: option.splits)
  have s: "stream_inv c' (h\<lparr>h_events := evs\<rparr>) rt rd wt" if good for evs
    using str [OF that] n(2) event_next_offset [OF n(1)] by (simp add: stream_inv_def)
  show ?thesis
  proof (cases e)
    case None
    then show ?thesis using n run_invI [of c' h rt rd wt wd q' good] s [of "h_events h"] by simp
  next
    case (Some i)
    then obtain t where t: "pn_event_type' (collector c') (Some i) = Some t" "raw_inv c' (h_events h @ [t]) rt rd wt wd q'" using n(3) by auto
    let ?h = "h\<lparr>h_events := h_events h @ [t]\<rparr>"
    have "run_inv good c' ?h" using t(2) s by (intro run_invI [where h = ?h]) simp_all
    then show ?thesis using n(1) Some t(1) by simp
  qed
qed

lemma closing_run:
  assumes inv: "raw_inv c (h_events h) rt rd wt wd q" and str: "good \<Longrightarrow> stream_inv c h rt rd wt"
    and stay: "rc_state c = conn_fini \<Longrightarrow> f c = Some c"
    and live: "rc_state c \<notin> {conn_wrong, conn_rs_ws, conn_fini} \<Longrightarrow> \<exists>c'. f c = Some c' \<and> closes c rt rd wt wd c'"
  shows "\<exists>c'. f c = Some c' \<and> run_inv good c' h"
proof (cases "rc_state c = conn_fini")
  case True
  then show ?thesis using stay run_invI [OF inv str] by blast
next
  case False
  then show ?thesis using live raw_inv_state [OF inv] closes_run [OF inv False _ str] by fastforce
qed

lemma raw_exec_inv:
  assumes "run_inv good c h" "allowed oper c" "good \<Longrightarrow> op_ok oper"
  shows "\<exists>c' h'. raw_exec oper c h = Some (c', h') \<and> run_inv good c' h'"
proof -
  obtain rt rd wt wd q where inv: "raw_inv c (h_events h) rt rd wt wd q" and str: "good \<Longrightarrow> stream_inv c h rt rd wt"
    using assms(1) unfolding run_inv_def by blast
  note p = conjunct1 [OF inv [unfolded raw_inv_def]]
  note closing = closing_run [where good = good, OF inv str]
  have fini: "pni_raw_rwclosed c" if "rc_state c = conn_fini" using that by (simp add: pni_raw_rwclosed_def)
  show ?thesis
  proof (cases oper)
    case RConnected
    then show ?thesis using connected_run [where good = good, OF inv str] assms(2) by auto
  next
    case RConnectFailed
    obtain c' where "pni_raw_connect_failed c = Some c'" "run_inv good c' h"
      using connect_failed_closes [OF p] closes_run [OF inv _ _ str] assms(2) RConnectFailed by auto
    then show ?thesis using RConnectFailed by simp
  next
    case RWake
    then show ?thesis using wake_run [OF inv str] by simp
  next
    case (RGive rs)
    then show ?thesis using give_run [where good = good and rs = rs, OF inv str] assms(3) by fastforce
  next
    case (RTakeRead n)
    then show ?thesis using take_read_run [where good = good and n = n, OF inv str] by fastforce
  next
    case (RWrite rs)
    then show ?thesis using write_buffers_run [where good = good and rs = rs, OF inv str] assms(3) by fastforce
  next
    case (RTakeWritten n)
    then show ?thesis using take_written_run [where good = good and n = n, OF inv str] by fastforce
  next
    case (RRead calls)
    then show ?thesis using read_run [where good = good and calls = calls, OF inv str] assms(3) by fastforce
  next
    case (RSend calls)
    then show ?thesis using write_run [where good = good and calls = calls, OF inv str] assms(2,3) by fastforce
  next
    case RShutdown
    have "rc_state c = conn_fini \<Longrightarrow> pni_raw_process_shutdown c = Some c"
      by (simp add: pni_raw_process_shutdown_def pni_raw_rclosing_def pni_raw_wclosing_def)
    then show ?thesis using closing [where f = pni_raw_process_shutdown] shutdown_closes [of c] RShutdown by fastforce
  next
    case RReadClose
    then show ?thesis using closing [where f = pni_raw_read_close] close_ops_closes(1) [OF _ p] fini by (fastforce simp: pni_raw_read_close_def)
  next
    case RWriteClose
    then show ?thesis using closing [where f = pni_raw_write_close] close_ops_closes(2) [OF _ p] fini by (fastforce simp: pni_raw_write_close_def)
  next
    case RClose
    then show ?thesis using closing [where f = pni_raw_close] close_ops_closes(3) [OF _ p] fini by (fastforce simp: pni_raw_close_def)
  next
    case RAsync
    have "rc_state c = conn_fini \<Longrightarrow> pni_raw_async_disconnect c = Some c" using fini by (simp add: pni_raw_async_disconnect_def)
    moreover have "\<exists>c'. pni_raw_async_disconnect c = Some c' \<and> closes c rt rd wt wd c'"
      if "rc_state c \<notin> {conn_wrong, conn_rs_ws, conn_fini}"
      using async_disconnect_closes [OF p] that assms(2) RAsync by (cases "rc_state c") simp_all
    ultimately show ?thesis using closing [where f = pni_raw_async_disconnect] RAsync by fastforce
  next
    case RNext
    then show ?thesis using next_run [OF inv str] by simp
  qed
qed

lemma raw_run_inv:
  "\<lbrakk>run_inv good c h; good \<Longrightarrow> \<forall>oper\<in>set ops. op_ok oper\<rbrakk> \<Longrightarrow> \<exists>c' h'. raw_run ops c h = Some (c', h') \<and> run_inv good c' h'"
proof (induction ops arbitrary: c h)
  case (Cons oper ops)
  show ?case
  proof (cases "allowed oper c")
    case True
    obtain c1 h1 where "raw_exec oper c h = Some (c1, h1)" "run_inv good c1 h1"
      using raw_exec_inv [OF Cons.prems(1) True] Cons.prems(2) by auto
    then show ?thesis using True Cons.IH [of c1 h1] Cons.prems(2) by auto
  next
    case False
    then show ?thesis using Cons by simp
  qed
qed simp

lemma run_inv_initial: "run_inv good (pni_raw_initialize self) empty_history"
proof -
  let ?c = "pni_raw_initialize self" and ?q = "\<lparr>eq_queue = [], eq_prev = None, eq_freed = False\<rparr>"
  have "holds read_buffer_count (rbuffers ?c) [] []" "holds write_buffer_count (wbuffers ?c) [] []"
    using init_holds [of read_buffer_count] init_holds [of write_buffer_count]
    by (simp_all add: pni_raw_initialize_def read_buffer_count_def write_buffer_count_def)
  moreover have "ev_inv ?c []" by (simp add: ev_inv_def pni_raw_initialize_def pni_raw_rclosed_def)
  ultimately have "raw_inv ?c (h_events empty_history) [] [] [] [] ?q"
    using col_sim_initialize by (simp add: raw_inv_def pools_def empty_history_def event_types_def pni_raw_initialize_def)
  moreover have "stream_inv ?c empty_history [] [] []"
    by (simp add: stream_inv_def empty_history_def offset_ok_def unsent_def pni_raw_initialize_def)
  ultimately show ?thesis by (auto intro: run_invI)
qed

lemma initial_run:
  assumes "good \<Longrightarrow> \<forall>oper\<in>set ops. op_ok oper"
  shows "\<exists>c h. raw_run ops (pni_raw_initialize self) empty_history = Some (c, h) \<and> run_inv good c h"
  using raw_run_inv [OF run_inv_initial assms] .

section \<open>Properties\<close>


text \<open>
  C32: the byte streams are kept. If the buffers the application gives are well formed and the socket never
  reports more bytes than it was asked for, then what the application takes from the read buffers is a prefix
  of what the socket delivered, and all of it once no read buffer is waiting to be taken; and what the
  socket accepted is a prefix of what the application wrote, and all of it when nothing is waiting to be written
  and the connection is up.
\<close>

theorem raw_connection_streams:
  assumes "\<forall>oper\<in>set ops. op_ok oper"
  shows "\<exists>c h. raw_run ops (pni_raw_initialize self) empty_history = Some (c, h) \<and>
    prefix (h_taken h) (h_received h) \<and> prefix (h_sent h) (h_submitted h) \<and>
    (first_done (rbuffers c) = 0 \<longrightarrow> h_taken h = h_received h) \<and>
    (first_todo (wbuffers c) = 0 \<and> rc_state c \<noteq> conn_fini \<longrightarrow> h_sent h = h_submitted h)"
proof -
  obtain c h where r: "raw_run ops (pni_raw_initialize self) empty_history = Some (c, h)" "run_inv True c h"
    using initial_run [of True ops self] assms by auto
  then obtain rt rd wt wd q where inv: "raw_inv c (h_events h) rt rd wt wd q" and str: "stream_inv c h rt rd wt"
    unfolding run_inv_def by blast
  have first: "first_done (rbuffers c) = 0 \<Longrightarrow> rd = []" "first_todo (wbuffers c) = 0 \<Longrightarrow> wt = []"
    using raw_inv_pools [OF inv] holds_first by blast+
  have "prefix (h_taken h) (h_received h)" "first_done (rbuffers c) = 0 \<longrightarrow> h_taken h = h_received h"
    using str first(1) by (auto simp: stream_inv_def)
  moreover have "prefix (h_sent h) (h_submitted h)" "first_todo (wbuffers c) = 0 \<and> rc_state c \<noteq> conn_fini \<longrightarrow> h_sent h = h_submitted h"
    using str first(2) by (auto simp: stream_inv_def unsent_def split: if_splits)
  ultimately show ?thesis using r(1) by (intro exI [of _ c] exI [of _ h] conjI)
qed


text \<open>The last events are generated one by one.\<close>

lemma disconnect_progress:
  "\<lbrakk>raw_inv c (h_events h) rt rd wt wd q; rc_state c = conn_fini; pending_work c q \<le> n\<rbrakk> \<Longrightarrow>
   \<exists>k c' h'. k \<le> n \<and> raw_run (replicate k RNext) c h = Some (c', h') \<and> pni_raw_finished c' \<and>
     last (h_events h') = PN_RAW_CONNECTION_DISCONNECTED \<and> h_events h' \<noteq> []"
proof (induction n arbitrary: c h q)
  case 0
  then have z: "pending_work c q = 0" by simp
  then have none: "eq_queue q = []" "\<not> disconnectpending c" by (auto simp: pending_work_def split: if_splits)
  have ev: "ev_inv c (h_events h)" using "0.prems"(1) none(1) by (simp add: raw_inv_def event_types_def)
  then have f: "disconnect_state c = disc_fini" using "0.prems"(2) none(2) by (simp add: ev_inv_def)
  then obtain xs where "h_events h = xs @ [PN_RAW_CONNECTION_DISCONNECTED]" using ev by (auto simp: ev_inv_def)
  moreover have "pn_collector_peek (collector c) = None" using peek_queue [of "collector c" q] "0.prems"(1) none(1) by (simp add: raw_inv_def)
  ultimately show ?case using f by (intro exI [of _ 0] exI [of _ c] exI [of _ h]) (simp add: pni_raw_finished_def)
next
  case (Suc n)
  obtain e c1 q1 where 1: "pni_raw_event_next c = Some (e, c1)" "rc_state c1 = rc_state c"
    "case e of None \<Rightarrow> raw_inv c1 (h_events h) rt rd wt wd q1 \<and> eq_queue q1 = [] \<and> (rc_state c = conn_fini \<longrightarrow> pending_work c q = 0 \<and> pending_work c1 q1 = 0)
     | Some i \<Rightarrow> \<exists>t. pn_event_type' (collector c1) (Some i) = Some t \<and> raw_inv c1 (h_events h @ [t]) rt rd wt wd q1 \<and>
         (rc_state c = conn_fini \<longrightarrow> pending_work c1 q1 < pending_work c q)"
    using next_inv [OF Suc.prems(1)] by (elim exE conjE)
  define h1 where "h1 = (case e of None \<Rightarrow> h | Some i \<Rightarrow> h\<lparr>h_events := h_events h @ [the (pn_event_type' (collector c1) (Some i))]\<rparr>)"
  have exec: "raw_exec RNext c h = Some (c1, h1)" using 1(1,3) by (auto simp: h1_def split: option.splits)
  have inv1: "raw_inv c1 (h_events h1) rt rd wt wd q1" "pending_work c1 q1 \<le> n"
    using 1(3) Suc.prems(2,3) by (auto simp: h1_def split: option.splits)
  obtain k c' h' where "k \<le> n" "raw_run (replicate k RNext) c1 h1 = Some (c', h')" "pni_raw_finished c'"
    "last (h_events h') = PN_RAW_CONNECTION_DISCONNECTED" "h_events h' \<noteq> []"
    using Suc.IH [OF inv1(1) _ inv1(2)] 1(2) Suc.prems(2) by auto
  then show ?case using exec by (intro exI [of _ "Suc k"] exI [of _ c'] exI [of _ h']) (simp del: raw_exec.simps)
qed

text \<open>
  C34: a connection that is closed on both sides is seen to end. From every reachable state in \<open>conn_fini\<close>,
  whatever events are still pending, at most nine calls of \<open>pni_raw_event_next\<close> bring the
  \<open>DISCONNECTED\<close> event as the last one and leave the connection finished.
\<close>

theorem raw_connection_disconnects:
  assumes "raw_run ops (pni_raw_initialize self) empty_history = Some (c, h)" "rc_state c = conn_fini"
  shows "\<exists>k c' h'. k \<le> 9 \<and> raw_run (replicate k RNext) c h = Some (c', h') \<and> pni_raw_finished c' \<and>
    last (h_events h') = PN_RAW_CONNECTION_DISCONNECTED \<and> h_events h' \<noteq> []"
proof -
  have "run_inv False c h" using initial_run [of False ops self] assms(1) by auto
  then obtain rt rd wt wd q where inv: "raw_inv c (h_events h) rt rd wt wd q" unfolding run_inv_def by blast
  then have "length (eq_queue q) \<le> 1" by (simp add: raw_inv_def)
  moreover have "of_bool b \<le> (1 :: nat)" for b by simp
  ultimately have "pending_work c q \<le> 9"
    unfolding pending_work_def
    by (cases "connectpending c"; cases "wakepending c"; cases "rpending c"; cases "wpending c"; cases "rclosedpending c"; cases "wclosedpending c") simp_all
  then show ?thesis using disconnect_progress [OF inv assms(2)] by blast
qed

lemma closed_run: "map_option (\<lambda>(c, h). rc_state c) (raw_run [RConnected, RClose] (pni_raw_initialize 1) empty_history) = Some conn_fini"
  by code_simp

theorem raw_connection_disconnects_witness:
  "\<exists>c h. raw_run [RConnected, RClose] (pni_raw_initialize 1) empty_history = Some (c, h) \<and>
    (\<exists>k c' h'. k \<le> 9 \<and> raw_run (replicate k RNext) c h = Some (c', h') \<and> pni_raw_finished c' \<and>
      last (h_events h') = PN_RAW_CONNECTION_DISCONNECTED \<and> h_events h' \<noteq> [])"
proof -
  from closed_run obtain c h where "raw_run [RConnected, RClose] (pni_raw_initialize 1) empty_history = Some (c, h)" "rc_state c = conn_fini"
    by (auto simp del: raw_run.simps)
  then show ?thesis using raw_connection_disconnects by blast
qed

text \<open>
  C35: an asynchronous disconnection fails an assertion exactly when it is reported before the connection is
  established or while writes are draining. In every other reachable state it succeeds and disconnects.
\<close>

theorem raw_async_disconnect_fails:
  assumes "raw_run ops (pni_raw_initialize self) empty_history = Some (c, h)"
  shows "pni_raw_async_disconnect c = None \<longleftrightarrow> rc_state c \<in> {conn_init, conn_ro_wd, conn_rc_wd, conn_rs_wd}"
proof -
  have "run_inv False c h" using initial_run [of False ops self] assms by auto
  then obtain rt rd wt wd q where inv: "raw_inv c (h_events h) rt rd wt wd q" unfolding run_inv_def by blast
  then have p: "pools c rt rd wt wd" by (simp add: raw_inv_def)
  have "pni_raw_async_disconnect c \<noteq> None" if "rc_state c \<notin> {conn_init, conn_ro_wd, conn_rc_wd, conn_rs_wd}"
  proof (cases "rc_state c = conn_fini")
    case True
    then show ?thesis by (simp add: pni_raw_async_disconnect_def pni_raw_rwclosed_def)
  next
    case False
    then have "rc_state c \<in> {conn_ro_wo, conn_ro_wc, conn_ro_ws, conn_rc_wo, conn_rs_wo}"
      using that raw_inv_state [OF inv] by (cases "rc_state c") simp_all
    then show ?thesis using async_disconnect_closes [OF p] by auto
  qed
  then show ?thesis using async_disconnect_draining [OF p] by blast
qed

definition example_buffer :: pn_raw_buffer where
  "example_buffer = \<lparr>raw_context = 0, raw_bytes = 100, raw_capacity = 10, raw_size = 4, raw_offset = 2\<rparr>"

lemma draining_run:
  "map_option (\<lambda>(c, h). rc_state c) (raw_run [RConnected, RWrite [example_buffer], RWriteClose] (pni_raw_initialize 1) empty_history) =
   Some conn_ro_wd"
  by code_simp

theorem raw_async_disconnect_fails_witness:
  "\<exists>c h. raw_run [RConnected, RWrite [example_buffer], RWriteClose] (pni_raw_initialize 1) empty_history = Some (c, h) \<and>
    pni_raw_async_disconnect c = None"
proof -
  from draining_run obtain c h
    where r: "raw_run [RConnected, RWrite [example_buffer], RWriteClose] (pni_raw_initialize 1) empty_history = Some (c, h)" "rc_state c = conn_ro_wd"
    by (auto simp del: raw_run.simps)
  then show ?thesis using raw_async_disconnect_fails [OF r(1)] by auto
qed

theorem raw_connection_streams_witness:
  "\<exists>c h. raw_run [RConnected, RWrite [example_buffer], RSend [\<lambda>s. IO_bytes (s - 1)]] (pni_raw_initialize 1) empty_history = Some (c, h) \<and>
    prefix (h_sent h) (h_submitted h)"
proof -
  have "\<forall>oper\<in>set [RConnected, RWrite [example_buffer], RSend [\<lambda>s. IO_bytes (s - 1)]]. op_ok oper"
    by (simp add: example_buffer_def)
  from raw_connection_streams [OF this, of 1] show ?thesis by blast
qed

end
