(* ===== verification/Data_Tree.thy ===== *)
theory Data_Tree
  imports Buffer Encodings "HOL-Library.Monad_Syntax"
begin

text \<open>
  The data objects of \<open>core/codec.c\<close> and \<open>core/data.h\<close>: a tree of AMQP values kept as an array of
  nodes that refer to each other by 16-bit ids (0 is no node), with a cursor (a parent and a current
  node) and a buffer that holds the bytes of strings. A function of this theory returns \<open>None\<close> when
  the code would touch memory outside the node array or the string buffer; reading and writing a node
  go through \<open>rd\<close> and \<open>wr\<close>. Texts of error messages are left out, the error code is kept.
\<close>

section \<open>Nodes\<close>

text \<open>
  The values of \<open>pn_type_t\<close> and the two internal types; \<open>T_UNSET\<close> is the 0 that the decoder gives
  an array before it has read its element type, \<open>T_INVALID\<close> is \<open>PN_INVALID\<close>.
\<close>

datatype pn_type =
    T_UNSET | T_NULL | T_BOOL | T_UBYTE | T_BYTE | T_USHORT | T_SHORT | T_UINT | T_INT | T_CHAR
  | T_ULONG | T_LONG | T_TIMESTAMP | T_FLOAT | T_DOUBLE | T_DECIMAL32 | T_DECIMAL64 | T_DECIMAL128
  | T_UUID | T_BINARY | T_STRING | T_SYMBOL | T_DESCRIBED | T_ARRAY | T_LIST | T_MAP
  | T_ARRAY_DESCRIBED | T_DEFER | T_INVALID

text \<open>
  The payload union of a node, as the member last written: every write follows a \<open>memset\<close> to zero,
  which determines the other bytes. Members of one width share a constructor, signed values are kept
  as their bits. A read of another member sees the bytes (of a little-endian machine).
\<close>

datatype pni_node_payload =
    Zero
  | As_bool bool
  | As_8 byte
  | As_16 u16
  | As_32 u32
  | As_64 u64
  | As_bytes nat nat
  | As_compound nat nat u32

fun payload_bits :: "pni_node_payload \<Rightarrow> u64" where
  "payload_bits Zero = 0"
| "payload_bits (As_bool b) = of_bool b"
| "payload_bits (As_8 x) = ucast x"
| "payload_bits (As_16 x) = ucast x"
| "payload_bits (As_32 x) = ucast x"
| "payload_bits (As_64 x) = x"
| "payload_bits (As_bytes off sz) = word_of_nat (off + sz * 2 ^ 32)"
| "payload_bits (As_compound down children scratch) =
     word_of_nat (down + children * 2 ^ 16 + unat scratch * 2 ^ 32)"

fun as_bool :: "pni_node_payload \<Rightarrow> bool" where
  "as_bool (As_bool b) = b"
| "as_bool u = (ucast (payload_bits u) \<noteq> (0 :: byte))"

fun as_8 :: "pni_node_payload \<Rightarrow> byte" where
  "as_8 (As_8 x) = x"
| "as_8 u = ucast (payload_bits u)"

fun as_16 :: "pni_node_payload \<Rightarrow> u16" where
  "as_16 (As_16 x) = x"
| "as_16 u = ucast (payload_bits u)"

fun as_32 :: "pni_node_payload \<Rightarrow> u32" where
  "as_32 (As_32 x) = x"
| "as_32 u = ucast (payload_bits u)"

fun as_64 :: "pni_node_payload \<Rightarrow> u64" where
  "as_64 (As_64 x) = x"
| "as_64 u = payload_bits u"

fun as_bytes :: "pni_node_payload \<Rightarrow> nat \<times> nat" where
  "as_bytes (As_bytes off sz) = (off, sz)"
| "as_bytes u = (let n = unat (payload_bits u) in (n mod 2 ^ 32, n div 2 ^ 32))"

fun as_compound :: "pni_node_payload \<Rightarrow> nat \<times> nat \<times> u32" where
  "as_compound (As_compound down children scratch) = (down, children, scratch)"
| "as_compound u =
     (let n = unat (payload_bits u)
      in (n mod 2 ^ 16, n div 2 ^ 16 mod 2 ^ 16, word_of_nat (n div 2 ^ 32)))"

record pni_node =
  nd_type :: pn_type
  nd_array_type :: pn_type
  nd_next :: nat
  nd_prev :: nat
  nd_parent :: nat
  nd_u :: pni_node_payload

fun compound_type :: "pn_type \<Rightarrow> bool" where
  "compound_type T_ARRAY = True"
| "compound_type T_ARRAY_DESCRIBED = True"
| "compound_type T_LIST = True"
| "compound_type T_MAP = True"
| "compound_type T_DESCRIBED = True"
| "compound_type T_DEFER = True"
| "compound_type _ = False"

definition pni_node_get_down :: "pni_node \<Rightarrow> nat" where
  "pni_node_get_down nd = (if compound_type (nd_type nd) then fst (as_compound (nd_u nd)) else 0)"

definition pni_node_set_down :: "nat \<Rightarrow> pni_node \<Rightarrow> pni_node" where
  "pni_node_set_down down nd =
     (if compound_type (nd_type nd)
      then let (_, children, scratch) = as_compound (nd_u nd) in nd\<lparr>nd_u := As_compound down children scratch\<rparr>
      else nd)"

definition pni_node_get_children :: "pni_node \<Rightarrow> nat" where
  "pni_node_get_children nd = (if compound_type (nd_type nd) then fst (snd (as_compound (nd_u nd))) else 0)"

definition pni_node_set_children :: "nat \<Rightarrow> pni_node \<Rightarrow> pni_node" where
  "pni_node_set_children count nd =
     (if compound_type (nd_type nd)
      then let (down, _, scratch) = as_compound (nd_u nd) in nd\<lparr>nd_u := As_compound down count scratch\<rparr>
      else nd)"

definition pni_node_inc_children :: "pni_node \<Rightarrow> pni_node" where
  "pni_node_inc_children nd =
     (if compound_type (nd_type nd)
      then let (down, children, scratch) = as_compound (nd_u nd)
           in nd\<lparr>nd_u := As_compound down ((children + 1) mod 2 ^ 16) scratch\<rparr>
      else nd)"

definition pni_type_external :: "pn_type \<Rightarrow> pn_type" where
  "pni_type_external t = (if t = T_ARRAY_DESCRIBED then T_ARRAY else t)"

section \<open>The data object\<close>

record pn_data =
  d_nodes :: "pni_node list"
  d_buf :: "pn_buffer option"
  d_error :: int
  d_max_buf_size :: nat
  d_max_nid :: nat
  d_capacity :: nat
  d_size :: nat
  d_parent :: nat
  d_current :: nat
  d_base_parent :: nat
  d_base_current :: nat

text \<open>
  Memory: \<open>mem_nodes n\<close> answers a request for an array of \<open>n\<close> nodes, \<open>mem_new\<close> the creation of the
  string buffer, \<open>mem_grow\<close> its growth; \<open>None\<close> is a failed request, otherwise the contents of fresh
  memory.
\<close>

record data_mem =
  mem_nodes :: "nat \<Rightarrow> (nat \<Rightarrow> pni_node) option"
  mem_new :: allocator
  mem_grow :: allocator

definition PNI_NID_MAX :: nat where [simp]: "PNI_NID_MAX = 65535"
definition PNI_INTERN_MINSIZE :: nat where [simp]: "PNI_INTERN_MINSIZE = 64"

text \<open>\<open>nodes[id - 1]\<close>, read and updated.\<close>

definition rd :: "pn_data \<Rightarrow> nat \<Rightarrow> pni_node option" where
  "rd d i = (if 0 < i \<and> i \<le> length (d_nodes d) then Some (d_nodes d ! (i - 1)) else None)"

definition wr :: "pn_data \<Rightarrow> nat \<Rightarrow> (pni_node \<Rightarrow> pni_node) \<Rightarrow> pn_data option" where
  "wr d i f = map_option (\<lambda>nd. d\<lparr>d_nodes := (d_nodes d)[i - 1 := f nd]\<rparr>) (rd d i)"

definition pni_data_max_nid :: "pn_data \<Rightarrow> nat" where
  "pni_data_max_nid d = (if d_max_nid d \<noteq> 0 then d_max_nid d else PNI_NID_MAX)"

definition pn_data_new :: "data_mem \<Rightarrow> nat \<Rightarrow> pn_data" where
  "pn_data_new mem capacity =
     \<lparr>d_nodes = (if capacity = 0 then []
        else case mem_nodes mem capacity of None \<Rightarrow> [] | Some f \<Rightarrow> map f [0..<capacity]),
      d_buf = None, d_error = 0, d_max_buf_size = 0, d_max_nid = 0, d_capacity = capacity mod 2 ^ 16,
      d_size = 0, d_parent = 0, d_current = 0, d_base_parent = 0, d_base_current = 0\<rparr>"

definition node_realloc :: "data_mem \<Rightarrow> pni_node list \<Rightarrow> nat \<Rightarrow> pni_node list option" where
  "node_realloc mem old n = map_option (\<lambda>f. take n old @ map f [length old..<n]) (mem_nodes mem n)"

definition pn_data_set_decode_limits :: "data_mem \<Rightarrow> pn_data \<Rightarrow> nat \<Rightarrow> nat \<Rightarrow> pn_data" where
  "pn_data_set_decode_limits mem d max_nodes max_buf =
     (let d = d\<lparr>d_max_nid := min max_nodes PNI_NID_MAX, d_max_buf_size := max_buf\<rparr>
      in if d_max_nid d > 0 \<and> d_nodes d \<noteq> [] then
           let new_cap = max (d_size d) (d_max_nid d)
           in if new_cap < d_capacity d then
                case node_realloc mem (d_nodes d) new_cap of
                  None \<Rightarrow> d
                | Some trimmed \<Rightarrow> d\<lparr>d_nodes := trimmed, d_capacity := new_cap\<rparr>
              else d
         else d)"

definition pn_data_errno :: "pn_data \<Rightarrow> int" where
  "pn_data_errno d = d_error d"

definition pn_data_size :: "pn_data \<Rightarrow> nat" where
  "pn_data_size d = d_size d"

definition pn_data_clear :: "pn_data \<Rightarrow> pn_data" where
  "pn_data_clear d =
     d\<lparr>d_size := 0, d_parent := 0, d_current := 0, d_base_parent := 0, d_base_current := 0, d_error := 0,
       d_buf := map_option pn_buffer_clear (d_buf d)\<rparr>"

definition pni_data_grow :: "data_mem \<Rightarrow> pn_data \<Rightarrow> int \<times> pn_data" where
  "pni_data_grow mem d =
     (let effective_max = pni_data_max_nid d
      in if d_size d \<ge> effective_max then (PN_OUT_OF_MEMORY, d)
      else
        let capacity = min (if d_capacity d \<noteq> 0 then d_capacity d * 2 else 2) effective_max
        in case node_realloc mem (d_nodes d) capacity of
             None \<Rightarrow> (PN_OUT_OF_MEMORY, d)
           | Some new_nodes \<Rightarrow> (0, d\<lparr>d_capacity := capacity, d_nodes := new_nodes\<rparr>))"

text \<open>Storing bytes and a terminating zero in the string buffer gives their offset, or a negative error.\<close>

definition pni_data_intern :: "data_mem \<Rightarrow> pn_data \<Rightarrow> byte list \<Rightarrow> (int \<times> pn_data) option" where
  "pni_data_intern mem d bs = do {
     buf \<leftarrow> d_buf d;
     let offset = pn_buffer_size buf;
     if d_max_buf_size d > 0 \<and> wrap64 (offset + length bs) > d_max_buf_size d
     then Some (PN_OUT_OF_MEMORY, d)
     else do {
       let (err, buf) = pn_buffer_append (mem_grow mem) buf (Outside bs);
       let d = d\<lparr>d_buf := Some buf\<rparr>;
       if err \<noteq> 0 then Some (err, d)
       else do {
         let (err, buf) = pn_buffer_append (mem_grow mem) buf (Outside [0]);
         let d = d\<lparr>d_buf := Some buf\<rparr>;
         if err \<noteq> 0 then Some (err, d) else Some (int offset, d)
       }
     }
   }"

definition pni_data_intern_node :: "data_mem \<Rightarrow> pn_data \<Rightarrow> nat \<Rightarrow> byte list \<Rightarrow> (int \<times> pn_data) option" where
  "pni_data_intern_node mem d node bs = do {
     let d = (if d_buf d = None
              then d\<lparr>d_buf := pn_buffer_new (mem_new mem) (max (length bs + 1) PNI_INTERN_MINSIZE)\<rparr> else d);
     (offset, d) \<leftarrow> pni_data_intern mem d bs;
     if offset < 0 then Some (offset, d\<lparr>d_error := PN_OUT_OF_MEMORY\<rparr>)
     else do {
       d \<leftarrow> wr d node (nd_u_update (\<lambda>_. As_bytes (wrap32 (nat offset)) (wrap32 (length bs))));
       Some (0, d)
     }
   }"

text \<open>A new node; id 0 is the \<open>NULL\<close> of a refused request.\<close>

definition pni_data_new :: "data_mem \<Rightarrow> pn_data \<Rightarrow> (nat \<times> pn_data) option" where
  "pni_data_new mem d =
     (if d_size d \<ge> pni_data_max_nid d then Some (0, d\<lparr>d_error := PN_OUT_OF_MEMORY\<rparr>)
      else do {
        let (err, d) = (if d_capacity d \<le> d_size d then pni_data_grow mem d else (0, d));
        if err \<noteq> 0 then Some (0, d\<lparr>d_error := PN_OUT_OF_MEMORY\<rparr>)
        else do {
          let d = d\<lparr>d_size := d_size d + 1\<rparr>;
          d \<leftarrow> wr d (d_size d) (\<lambda>nd. nd\<lparr>nd_type := T_NULL, nd_next := 0, nd_array_type := T_UNSET\<rparr>);
          Some (d_size d, d)
        }
      })"

section \<open>The cursor\<close>

definition pn_data_rewind :: "pn_data \<Rightarrow> pn_data" where
  "pn_data_rewind d = d\<lparr>d_parent := d_base_parent d, d_current := d_base_current d\<rparr>"

definition pn_data_narrow :: "pn_data \<Rightarrow> pn_data" where
  "pn_data_narrow d = d\<lparr>d_base_parent := d_parent d, d_base_current := d_current d\<rparr>"

definition pn_data_widen :: "pn_data \<Rightarrow> pn_data" where
  "pn_data_widen d = d\<lparr>d_base_parent := 0, d_base_current := 0\<rparr>"

definition pn_data_point :: "pn_data \<Rightarrow> int" where
  "pn_data_point d = (if d_current d \<noteq> 0 then int (d_current d) else - int (d_parent d))"

definition pn_data_restore :: "pn_data \<Rightarrow> int \<Rightarrow> (bool \<times> pn_data) option" where
  "pn_data_restore d point =
     (if point \<le> 0 \<and> - point \<le> int (d_size d) then
        Some (True, d\<lparr>d_parent := nat (- point), d_current := 0\<rparr>)
      else if point \<noteq> 0 \<and> point \<le> int (d_size d) then do {
        let d = d\<lparr>d_current := nat (point mod 2 ^ 16)\<rparr>;
        current \<leftarrow> rd d (d_current d);
        Some (True, d\<lparr>d_parent := nd_parent current\<rparr>)
      }
      else Some (False, d))"

definition pni_data_peek :: "pn_data \<Rightarrow> nat option" where
  "pni_data_peek d =
     (if d_current d \<noteq> 0 then map_option nd_next (rd d (d_current d))
      else if d_parent d \<noteq> 0 then map_option pni_node_get_down (rd d (d_parent d))
      else Some 0)"

definition pn_data_next :: "pn_data \<Rightarrow> (bool \<times> pn_data) option" where
  "pn_data_next d = do {
     next \<leftarrow> (if d_current d \<noteq> 0 then map_option nd_next (rd d (d_current d))
             else if d_parent d \<noteq> 0 then map_option pni_node_get_down (rd d (d_parent d))
             else Some (if d_size d \<noteq> 0 then 1 else 0));
     Some (if next \<noteq> 0 then (True, d\<lparr>d_current := next\<rparr>) else (False, d))
   }"

definition pn_data_prev :: "pn_data \<Rightarrow> (bool \<times> pn_data) option" where
  "pn_data_prev d =
     (if d_current d = 0 then Some (False, d)
      else do {
        node \<leftarrow> rd d (d_current d);
        Some (if nd_prev node \<noteq> 0 then (True, d\<lparr>d_current := nd_prev node\<rparr>) else (False, d))
      })"

definition pn_data_type :: "pn_data \<Rightarrow> pn_type option" where
  "pn_data_type d =
     (if d_current d = 0 then Some T_INVALID
      else map_option (\<lambda>nd. pni_type_external (nd_type nd)) (rd d (d_current d)))"

definition pn_data_siblings :: "pn_data \<Rightarrow> nat option" where
  "pn_data_siblings d =
     (if d_parent d = 0 then Some 0 else map_option pni_node_get_children (rd d (d_parent d)))"

definition pn_data_enter :: "pn_data \<Rightarrow> bool \<times> pn_data" where
  "pn_data_enter d =
     (if d_current d \<noteq> 0 then (True, d\<lparr>d_parent := d_current d, d_current := 0\<rparr>) else (False, d))"

definition pn_data_exit :: "pn_data \<Rightarrow> (bool \<times> pn_data) option" where
  "pn_data_exit d =
     (if d_parent d = 0 then Some (False, d)
      else do {
        parent \<leftarrow> rd d (d_parent d);
        Some (True, d\<lparr>d_current := d_parent d, d_parent := nd_parent parent\<rparr>)
      })"

section \<open>Adding nodes\<close>

text \<open>
  The node after the cursor, reused if there is one and linked in otherwise. The last step clears its
  payload and moves the cursor to it.
\<close>

definition pni_data_add :: "data_mem \<Rightarrow> pn_data \<Rightarrow> (nat \<times> pn_data) option" where
  "pni_data_add mem d = do {
     (node, d) \<leftarrow>
       (if d_current d \<noteq> 0 then do {
          current \<leftarrow> rd d (d_current d);
          if nd_next current \<noteq> 0 then Some (nd_next current, d)
          else do {
            (node, d) \<leftarrow> pni_data_new mem d;
            if node = 0 then Some (0, d)
            else do {
              d \<leftarrow> wr d node (nd_prev_update (\<lambda>_. d_current d));
              d \<leftarrow> wr d (d_current d) (nd_next_update (\<lambda>_. node));
              d \<leftarrow> wr d node (nd_parent_update (\<lambda>_. d_parent d));
              if d_parent d \<noteq> 0 then do {
                parent \<leftarrow> rd d (d_parent d);
                d \<leftarrow> (if pni_node_get_down parent = 0 then wr d (d_parent d) (pni_node_set_down node) else Some d);
                d \<leftarrow> wr d (d_parent d) pni_node_inc_children;
                Some (node, d)
              }
              else Some (node, d)
            }
          }
        }
        else if d_parent d \<noteq> 0 then do {
          parent \<leftarrow> rd d (d_parent d);
          if pni_node_get_down parent \<noteq> 0 then Some (pni_node_get_down parent, d)
          else do {
            (node, d) \<leftarrow> pni_data_new mem d;
            if node = 0 then Some (0, d)
            else do {
              d \<leftarrow> wr d node (\<lambda>nd. nd\<lparr>nd_prev := 0, nd_parent := d_parent d\<rparr>);
              d \<leftarrow> wr d (d_parent d) (pni_node_set_down node);
              d \<leftarrow> wr d (d_parent d) pni_node_inc_children;
              Some (node, d)
            }
          }
        }
        else if d_size d \<noteq> 0 then Some (1, d)
        else do {
          (node, d) \<leftarrow> pni_data_new mem d;
          if node = 0 then Some (0, d)
          else do {
            d \<leftarrow> wr d node (\<lambda>nd. nd\<lparr>nd_prev := 0, nd_parent := 0\<rparr>);
            Some (node, d)
          }
        });
     if node = 0 then Some (0, d)
     else do {
       d \<leftarrow> wr d node (nd_u_update (\<lambda>_. Zero));
       Some (node, d\<lparr>d_current := node\<rparr>)
     }
   }"

text \<open>All the put functions: add a node and fill it in.\<close>

definition put_node :: "data_mem \<Rightarrow> pn_data \<Rightarrow> (pni_node \<Rightarrow> pni_node) \<Rightarrow> (int \<times> pn_data) option" where
  "put_node mem d fill = do {
     (node, d) \<leftarrow> pni_data_add mem d;
     if node = 0 then Some (PN_OUT_OF_MEMORY, d)
     else do {
       d \<leftarrow> wr d node fill;
       Some (0, d)
     }
   }"

definition put_bytes :: "data_mem \<Rightarrow> pn_data \<Rightarrow> pn_type \<Rightarrow> byte list \<Rightarrow> (int \<times> pn_data) option" where
  "put_bytes mem d ty bs = do {
     (node, d) \<leftarrow> pni_data_add mem d;
     if node = 0 then Some (PN_OUT_OF_MEMORY, d)
     else do {
       d \<leftarrow> wr d node (nd_type_update (\<lambda>_. ty));
       pni_data_intern_node mem d node bs
     }
   }"

definition pn_data_put_list :: "data_mem \<Rightarrow> pn_data \<Rightarrow> (int \<times> pn_data) option" where
  "pn_data_put_list mem d = put_node mem d (\<lambda>nd. nd\<lparr>nd_type := T_LIST, nd_u := As_compound 0 0 0\<rparr>)"

definition pn_data_put_map :: "data_mem \<Rightarrow> pn_data \<Rightarrow> (int \<times> pn_data) option" where
  "pn_data_put_map mem d = put_node mem d (\<lambda>nd. nd\<lparr>nd_type := T_MAP, nd_u := As_compound 0 0 0\<rparr>)"

definition pn_data_put_array :: "data_mem \<Rightarrow> pn_data \<Rightarrow> bool \<Rightarrow> pn_type \<Rightarrow> (int \<times> pn_data) option" where
  "pn_data_put_array mem d described ty = put_node mem d
     (\<lambda>nd. nd\<lparr>nd_type := if described then T_ARRAY_DESCRIBED else T_ARRAY, nd_array_type := ty,
              nd_u := As_compound 0 0 0\<rparr>)"

definition pni_data_set_parent_array_type :: "pn_data \<Rightarrow> pn_type \<Rightarrow> pn_data option" where
  "pni_data_set_parent_array_type d ty =
     (if d_parent d = 0 then Some d else wr d (d_parent d) (nd_array_type_update (\<lambda>_. ty)))"

definition pn_data_put_described :: "data_mem \<Rightarrow> pn_data \<Rightarrow> (int \<times> pn_data) option" where
  "pn_data_put_described mem d = put_node mem d (\<lambda>nd. nd\<lparr>nd_type := T_DESCRIBED, nd_u := As_compound 0 0 0\<rparr>)"

definition pn_data_put_null :: "data_mem \<Rightarrow> pn_data \<Rightarrow> (int \<times> pn_data) option" where
  "pn_data_put_null mem d = put_node mem d (\<lambda>nd. nd\<lparr>nd_type := T_NULL\<rparr>)"

definition pn_data_put_bool :: "data_mem \<Rightarrow> pn_data \<Rightarrow> bool \<Rightarrow> (int \<times> pn_data) option" where
  "pn_data_put_bool mem d b = put_node mem d (\<lambda>nd. nd\<lparr>nd_type := T_BOOL, nd_u := As_bool b\<rparr>)"

definition pn_data_put_ubyte :: "data_mem \<Rightarrow> pn_data \<Rightarrow> byte \<Rightarrow> (int \<times> pn_data) option" where
  "pn_data_put_ubyte mem d ub = put_node mem d (\<lambda>nd. nd\<lparr>nd_type := T_UBYTE, nd_u := As_8 ub\<rparr>)"

definition pn_data_put_byte :: "data_mem \<Rightarrow> pn_data \<Rightarrow> byte \<Rightarrow> (int \<times> pn_data) option" where
  "pn_data_put_byte mem d b = put_node mem d (\<lambda>nd. nd\<lparr>nd_type := T_BYTE, nd_u := As_8 b\<rparr>)"

definition pn_data_put_ushort :: "data_mem \<Rightarrow> pn_data \<Rightarrow> u16 \<Rightarrow> (int \<times> pn_data) option" where
  "pn_data_put_ushort mem d us = put_node mem d (\<lambda>nd. nd\<lparr>nd_type := T_USHORT, nd_u := As_16 us\<rparr>)"

definition pn_data_put_short :: "data_mem \<Rightarrow> pn_data \<Rightarrow> u16 \<Rightarrow> (int \<times> pn_data) option" where
  "pn_data_put_short mem d s = put_node mem d (\<lambda>nd. nd\<lparr>nd_type := T_SHORT, nd_u := As_16 s\<rparr>)"

definition pn_data_put_uint :: "data_mem \<Rightarrow> pn_data \<Rightarrow> u32 \<Rightarrow> (int \<times> pn_data) option" where
  "pn_data_put_uint mem d ui = put_node mem d (\<lambda>nd. nd\<lparr>nd_type := T_UINT, nd_u := As_32 ui\<rparr>)"

definition pn_data_put_int :: "data_mem \<Rightarrow> pn_data \<Rightarrow> u32 \<Rightarrow> (int \<times> pn_data) option" where
  "pn_data_put_int mem d i = put_node mem d (\<lambda>nd. nd\<lparr>nd_type := T_INT, nd_u := As_32 i\<rparr>)"

definition pn_data_put_char :: "data_mem \<Rightarrow> pn_data \<Rightarrow> u32 \<Rightarrow> (int \<times> pn_data) option" where
  "pn_data_put_char mem d c = put_node mem d (\<lambda>nd. nd\<lparr>nd_type := T_CHAR, nd_u := As_32 c\<rparr>)"

definition pn_data_put_ulong :: "data_mem \<Rightarrow> pn_data \<Rightarrow> u64 \<Rightarrow> (int \<times> pn_data) option" where
  "pn_data_put_ulong mem d ul = put_node mem d (\<lambda>nd. nd\<lparr>nd_type := T_ULONG, nd_u := As_64 ul\<rparr>)"

definition pn_data_put_long :: "data_mem \<Rightarrow> pn_data \<Rightarrow> u64 \<Rightarrow> (int \<times> pn_data) option" where
  "pn_data_put_long mem d l = put_node mem d (\<lambda>nd. nd\<lparr>nd_type := T_LONG, nd_u := As_64 l\<rparr>)"

definition pn_data_put_timestamp :: "data_mem \<Rightarrow> pn_data \<Rightarrow> u64 \<Rightarrow> (int \<times> pn_data) option" where
  "pn_data_put_timestamp mem d t = put_node mem d (\<lambda>nd. nd\<lparr>nd_type := T_TIMESTAMP, nd_u := As_64 t\<rparr>)"

definition pn_data_put_float :: "data_mem \<Rightarrow> pn_data \<Rightarrow> u32 \<Rightarrow> (int \<times> pn_data) option" where
  "pn_data_put_float mem d f = put_node mem d (\<lambda>nd. nd\<lparr>nd_type := T_FLOAT, nd_u := As_32 f\<rparr>)"

definition pn_data_put_double :: "data_mem \<Rightarrow> pn_data \<Rightarrow> u64 \<Rightarrow> (int \<times> pn_data) option" where
  "pn_data_put_double mem d f = put_node mem d (\<lambda>nd. nd\<lparr>nd_type := T_DOUBLE, nd_u := As_64 f\<rparr>)"

definition pn_data_put_decimal32 :: "data_mem \<Rightarrow> pn_data \<Rightarrow> u32 \<Rightarrow> (int \<times> pn_data) option" where
  "pn_data_put_decimal32 mem d f = put_node mem d (\<lambda>nd. nd\<lparr>nd_type := T_DECIMAL32, nd_u := As_32 f\<rparr>)"

definition pn_data_put_decimal64 :: "data_mem \<Rightarrow> pn_data \<Rightarrow> u64 \<Rightarrow> (int \<times> pn_data) option" where
  "pn_data_put_decimal64 mem d f = put_node mem d (\<lambda>nd. nd\<lparr>nd_type := T_DECIMAL64, nd_u := As_64 f\<rparr>)"

text \<open>A \<open>pn_decimal128_t\<close> or \<open>pn_uuid_t\<close> is a list of 16 bytes.\<close>

definition pn_data_put_decimal128 :: "data_mem \<Rightarrow> pn_data \<Rightarrow> byte list \<Rightarrow> (int \<times> pn_data) option" where
  "pn_data_put_decimal128 mem d bs = put_bytes mem d T_DECIMAL128 bs"

definition pn_data_put_uuid :: "data_mem \<Rightarrow> pn_data \<Rightarrow> byte list \<Rightarrow> (int \<times> pn_data) option" where
  "pn_data_put_uuid mem d bs = put_bytes mem d T_UUID bs"

definition pn_data_put_binary :: "data_mem \<Rightarrow> pn_data \<Rightarrow> pn_bytes \<Rightarrow> (int \<times> pn_data) option" where
  "pn_data_put_binary mem d bs = put_bytes mem d T_BINARY (bytes_data bs)"

definition pn_data_put_string :: "data_mem \<Rightarrow> pn_data \<Rightarrow> pn_bytes \<Rightarrow> (int \<times> pn_data) option" where
  "pn_data_put_string mem d bs = put_bytes mem d T_STRING (bytes_data bs)"

definition pn_data_put_symbol :: "data_mem \<Rightarrow> pn_data \<Rightarrow> pn_bytes \<Rightarrow> (int \<times> pn_data) option" where
  "pn_data_put_symbol mem d bs = put_bytes mem d T_SYMBOL (bytes_data bs)"

text \<open>
  The type and the payload of a scalar atom. \<open>pn_data_put_atom\<close> copies the 8 bytes of the payload
  of every atom that is not kept in the string buffer.
\<close>

fun atom_type :: "pn_atom \<Rightarrow> pn_type" where
  "atom_type PN_NULL = T_NULL"
| "atom_type (PN_BOOL _) = T_BOOL"
| "atom_type (PN_UBYTE _) = T_UBYTE"
| "atom_type (PN_BYTE _) = T_BYTE"
| "atom_type (PN_USHORT _) = T_USHORT"
| "atom_type (PN_SHORT _) = T_SHORT"
| "atom_type (PN_UINT _) = T_UINT"
| "atom_type (PN_INT _) = T_INT"
| "atom_type (PN_CHAR _) = T_CHAR"
| "atom_type (PN_ULONG _) = T_ULONG"
| "atom_type (PN_LONG _) = T_LONG"
| "atom_type (PN_TIMESTAMP _) = T_TIMESTAMP"
| "atom_type (PN_FLOAT _) = T_FLOAT"
| "atom_type (PN_DOUBLE _) = T_DOUBLE"
| "atom_type (PN_DECIMAL32 _) = T_DECIMAL32"
| "atom_type (PN_DECIMAL64 _) = T_DECIMAL64"
| "atom_type (PN_DECIMAL128 _) = T_DECIMAL128"
| "atom_type (PN_UUID _) = T_UUID"
| "atom_type (PN_BINARY _) = T_BINARY"
| "atom_type (PN_STRING _) = T_STRING"
| "atom_type (PN_SYMBOL _) = T_SYMBOL"

fun atom_payload :: "pn_atom \<Rightarrow> pni_node_payload" where
  "atom_payload (PN_BOOL b) = As_bool b"
| "atom_payload (PN_UBYTE x) = As_8 x"
| "atom_payload (PN_BYTE x) = As_8 x"
| "atom_payload (PN_USHORT x) = As_16 x"
| "atom_payload (PN_SHORT x) = As_16 x"
| "atom_payload (PN_UINT x) = As_32 x"
| "atom_payload (PN_INT x) = As_32 x"
| "atom_payload (PN_CHAR x) = As_32 x"
| "atom_payload (PN_ULONG x) = As_64 x"
| "atom_payload (PN_LONG x) = As_64 x"
| "atom_payload (PN_TIMESTAMP x) = As_64 x"
| "atom_payload (PN_FLOAT x) = As_32 x"
| "atom_payload (PN_DOUBLE x) = As_64 x"
| "atom_payload (PN_DECIMAL32 x) = As_32 x"
| "atom_payload (PN_DECIMAL64 x) = As_64 x"
| "atom_payload _ = Zero"

definition pn_data_put_atom :: "data_mem \<Rightarrow> pn_data \<Rightarrow> pn_atom \<Rightarrow> (int \<times> pn_data) option" where
  "pn_data_put_atom mem d atom =
     (case atom of
        PN_BINARY bs \<Rightarrow> pn_data_put_binary mem d bs
      | PN_STRING bs \<Rightarrow> pn_data_put_string mem d bs
      | PN_SYMBOL bs \<Rightarrow> pn_data_put_symbol mem d bs
      | PN_DECIMAL128 bs \<Rightarrow> pn_data_put_decimal128 mem d bs
      | PN_UUID bs \<Rightarrow> pn_data_put_uuid mem d bs
      | _ \<Rightarrow> put_node mem d (\<lambda>nd. nd\<lparr>nd_type := atom_type atom, nd_u := atom_payload atom\<rparr>))"

section \<open>Reading the current node\<close>

text \<open>The bytes of a node in the string buffer; the buffer is put in order first.\<close>

definition pni_node_bytes :: "pn_data \<Rightarrow> nat \<Rightarrow> nat \<Rightarrow> (pn_bytes \<times> pn_data) option" where
  "pni_node_bytes d off sz = do {
     (_, buf) \<leftarrow> pn_buffer_bytes (d_buf d);
     case buf of
       None \<Rightarrow> if sz = 0 then Some (None, d\<lparr>d_buf := buf\<rparr>) else None
     | Some b \<Rightarrow>
         if off + sz \<le> length (buf_bytes b)
         then Some (Some (take sz (drop off (buf_bytes b))), d\<lparr>d_buf := buf\<rparr>) else None
   }"

definition get_current :: "pn_data \<Rightarrow> 'a \<Rightarrow> (pni_node \<Rightarrow> 'a) \<Rightarrow> 'a option" where
  "get_current d dflt f = (if d_current d = 0 then Some dflt else map_option f (rd d (d_current d)))"

definition get_typed :: "pn_type \<Rightarrow> (pni_node_payload \<Rightarrow> 'a) \<Rightarrow> 'a \<Rightarrow> pn_data \<Rightarrow> 'a option" where
  "get_typed ty f dflt d = get_current d dflt (\<lambda>nd. if nd_type nd = ty then f (nd_u nd) else dflt)"

definition pn_data_get_list :: "pn_data \<Rightarrow> nat option" where
  "pn_data_get_list = get_typed T_LIST (\<lambda>u. fst (snd (as_compound u))) 0"

definition pn_data_get_map :: "pn_data \<Rightarrow> nat option" where
  "pn_data_get_map = get_typed T_MAP (\<lambda>u. fst (snd (as_compound u))) 0"

definition pn_data_get_array :: "pn_data \<Rightarrow> nat option" where
  "pn_data_get_array d = get_current d 0 (\<lambda>nd.
     let children = fst (snd (as_compound (nd_u nd)))
     in if nd_type nd = T_ARRAY_DESCRIBED then sub64 children 1
        else if nd_type nd = T_ARRAY then children else 0)"

definition pn_data_is_array_described :: "pn_data \<Rightarrow> bool option" where
  "pn_data_is_array_described d = get_current d False (\<lambda>nd. nd_type nd = T_ARRAY_DESCRIBED)"

definition pn_data_get_array_type :: "pn_data \<Rightarrow> pn_type option" where
  "pn_data_get_array_type d = get_current d T_INVALID
     (\<lambda>nd. if nd_type nd = T_ARRAY \<or> nd_type nd = T_ARRAY_DESCRIBED then nd_array_type nd else T_INVALID)"

definition pn_data_is_described :: "pn_data \<Rightarrow> bool option" where
  "pn_data_is_described d = get_current d False (\<lambda>nd. nd_type nd = T_DESCRIBED)"

definition pn_data_is_null :: "pn_data \<Rightarrow> bool option" where
  "pn_data_is_null d = get_current d False (\<lambda>nd. nd_type nd = T_NULL)"

definition pn_data_get_bool :: "pn_data \<Rightarrow> bool option" where
  "pn_data_get_bool = get_typed T_BOOL as_bool False"

definition pn_data_get_ubyte :: "pn_data \<Rightarrow> byte option" where
  "pn_data_get_ubyte = get_typed T_UBYTE as_8 0"

definition pn_data_get_byte :: "pn_data \<Rightarrow> byte option" where
  "pn_data_get_byte = get_typed T_BYTE as_8 0"

definition pn_data_get_ushort :: "pn_data \<Rightarrow> u16 option" where
  "pn_data_get_ushort = get_typed T_USHORT as_16 0"

definition pn_data_get_short :: "pn_data \<Rightarrow> u16 option" where
  "pn_data_get_short = get_typed T_SHORT as_16 0"

definition pn_data_get_uint :: "pn_data \<Rightarrow> u32 option" where
  "pn_data_get_uint = get_typed T_UINT as_32 0"

definition pn_data_get_int :: "pn_data \<Rightarrow> u32 option" where
  "pn_data_get_int = get_typed T_INT as_32 0"

definition pn_data_get_char :: "pn_data \<Rightarrow> u32 option" where
  "pn_data_get_char = get_typed T_CHAR as_32 0"

definition pn_data_get_ulong :: "pn_data \<Rightarrow> u64 option" where
  "pn_data_get_ulong = get_typed T_ULONG as_64 0"

definition pn_data_get_long :: "pn_data \<Rightarrow> u64 option" where
  "pn_data_get_long = get_typed T_LONG as_64 0"

definition pn_data_get_timestamp :: "pn_data \<Rightarrow> u64 option" where
  "pn_data_get_timestamp = get_typed T_TIMESTAMP as_64 0"

definition pn_data_get_float :: "pn_data \<Rightarrow> u32 option" where
  "pn_data_get_float = get_typed T_FLOAT as_32 0"

definition pn_data_get_double :: "pn_data \<Rightarrow> u64 option" where
  "pn_data_get_double = get_typed T_DOUBLE as_64 0"

definition pn_data_get_decimal32 :: "pn_data \<Rightarrow> u32 option" where
  "pn_data_get_decimal32 = get_typed T_DECIMAL32 as_32 0"

definition pn_data_get_decimal64 :: "pn_data \<Rightarrow> u64 option" where
  "pn_data_get_decimal64 = get_typed T_DECIMAL64 as_64 0"

text \<open>The 16 bytes at the offset of a decimal or a uuid, whatever size the node records.\<close>

definition get_sixteen :: "pn_type \<Rightarrow> pn_data \<Rightarrow> (byte list \<times> pn_data) option" where
  "get_sixteen ty d = do {
     node \<leftarrow> get_current d None Some;
     case node of
       None \<Rightarrow> Some (replicate 16 0, d)
     | Some nd \<Rightarrow>
         if nd_type nd = ty then do {
           (bs, d) \<leftarrow> pni_node_bytes d (fst (as_bytes (nd_u nd))) 16;
           Some (bytes_data bs, d)
         }
         else Some (replicate 16 0, d)
   }"

definition pn_data_get_decimal128 :: "pn_data \<Rightarrow> (byte list \<times> pn_data) option" where
  "pn_data_get_decimal128 = get_sixteen T_DECIMAL128"

definition pn_data_get_uuid :: "pn_data \<Rightarrow> (byte list \<times> pn_data) option" where
  "pn_data_get_uuid = get_sixteen T_UUID"

definition get_string_bytes :: "(pn_type \<Rightarrow> bool) \<Rightarrow> pn_data \<Rightarrow> (pn_bytes \<times> pn_data) option" where
  "get_string_bytes tys d = do {
     node \<leftarrow> get_current d None Some;
     case node of
       None \<Rightarrow> Some (None, d)
     | Some nd \<Rightarrow>
         if tys (nd_type nd) then (let (off, sz) = as_bytes (nd_u nd) in pni_node_bytes d off sz)
         else Some (None, d)
   }"

definition pn_data_get_binary :: "pn_data \<Rightarrow> (pn_bytes \<times> pn_data) option" where
  "pn_data_get_binary = get_string_bytes (\<lambda>ty. ty = T_BINARY)"

definition pn_data_get_string :: "pn_data \<Rightarrow> (pn_bytes \<times> pn_data) option" where
  "pn_data_get_string = get_string_bytes (\<lambda>ty. ty = T_STRING)"

definition pn_data_get_symbol :: "pn_data \<Rightarrow> (pn_bytes \<times> pn_data) option" where
  "pn_data_get_symbol = get_string_bytes (\<lambda>ty. ty = T_SYMBOL)"

definition pn_data_get_bytes :: "pn_data \<Rightarrow> (pn_bytes \<times> pn_data) option" where
  "pn_data_get_bytes = get_string_bytes (\<lambda>ty. ty = T_BINARY \<or> ty = T_STRING \<or> ty = T_SYMBOL)"

text \<open>
  An atom read back. Outside the string types \<open>pn_data_get_atom\<close> copies the 16 bytes of the atom's
  union from the 8 bytes of the node's, so it also reads the first half of the following node: for the
  last node of the array that is outside the allocation. A compound node gives an atom that carries
  its type only.
\<close>

datatype data_atom = Scalar pn_atom | Compound pn_type

fun payload_atom :: "pn_type \<Rightarrow> pni_node_payload \<Rightarrow> data_atom" where
  "payload_atom T_NULL u = Scalar PN_NULL"
| "payload_atom T_BOOL u = Scalar (PN_BOOL (as_bool u))"
| "payload_atom T_UBYTE u = Scalar (PN_UBYTE (as_8 u))"
| "payload_atom T_BYTE u = Scalar (PN_BYTE (as_8 u))"
| "payload_atom T_USHORT u = Scalar (PN_USHORT (as_16 u))"
| "payload_atom T_SHORT u = Scalar (PN_SHORT (as_16 u))"
| "payload_atom T_UINT u = Scalar (PN_UINT (as_32 u))"
| "payload_atom T_INT u = Scalar (PN_INT (as_32 u))"
| "payload_atom T_CHAR u = Scalar (PN_CHAR (as_32 u))"
| "payload_atom T_ULONG u = Scalar (PN_ULONG (as_64 u))"
| "payload_atom T_LONG u = Scalar (PN_LONG (as_64 u))"
| "payload_atom T_TIMESTAMP u = Scalar (PN_TIMESTAMP (as_64 u))"
| "payload_atom T_FLOAT u = Scalar (PN_FLOAT (as_32 u))"
| "payload_atom T_DOUBLE u = Scalar (PN_DOUBLE (as_64 u))"
| "payload_atom T_DECIMAL32 u = Scalar (PN_DECIMAL32 (as_32 u))"
| "payload_atom T_DECIMAL64 u = Scalar (PN_DECIMAL64 (as_64 u))"
| "payload_atom ty u = Compound (pni_type_external ty)"

definition pn_data_get_atom :: "pn_data \<Rightarrow> (data_atom \<times> pn_data) option" where
  "pn_data_get_atom d =
     (if d_current d = 0 then Some (Scalar PN_NULL, d)
      else do {
        node \<leftarrow> rd d (d_current d);
        let (off, sz) = as_bytes (nd_u node);
        case nd_type node of
          T_BINARY \<Rightarrow> do { (bs, d) \<leftarrow> pni_node_bytes d off sz; Some (Scalar (PN_BINARY bs), d) }
        | T_STRING \<Rightarrow> do { (bs, d) \<leftarrow> pni_node_bytes d off sz; Some (Scalar (PN_STRING bs), d) }
        | T_SYMBOL \<Rightarrow> do { (bs, d) \<leftarrow> pni_node_bytes d off sz; Some (Scalar (PN_SYMBOL bs), d) }
        | T_DECIMAL128 \<Rightarrow> do { (bs, d) \<leftarrow> pni_node_bytes d off 16; Some (Scalar (PN_DECIMAL128 (bytes_data bs)), d) }
        | T_UUID \<Rightarrow> do { (bs, d) \<leftarrow> pni_node_bytes d off 16; Some (Scalar (PN_UUID (bytes_data bs)), d) }
        | ty \<Rightarrow> do { _ \<leftarrow> rd d (d_current d + 1); Some (payload_atom ty (nd_u node), d) }
      })"

text \<open>
  Looking up a key among the pairs after the cursor. Every round moves the cursor forward, so that
  one round per node and one more are enough.
\<close>

fun lookup_loop :: "nat \<Rightarrow> pn_data \<Rightarrow> byte list \<Rightarrow> (bool \<times> pn_data) option" where
  "lookup_loop 0 d name = None"
| "lookup_loop (Suc fuel) d name = do {
     (found, d) \<leftarrow> pn_data_next d;
     if \<not> found then Some (False, d)
     else do {
       ty \<leftarrow> pn_data_type d;
       (hit, d) \<leftarrow>
         (if ty = T_STRING \<or> ty = T_SYMBOL then do {
            (bs, d) \<leftarrow> pn_data_get_bytes d;
            Some (pn_bytes_equal bs (Some name), d)
          }
          else Some (False, d));
       if hit then pn_data_next d
       else do {
         (_, d) \<leftarrow> pn_data_next d;
         lookup_loop fuel d name
       }
     }
   }"

definition pn_data_lookup :: "pn_data \<Rightarrow> byte list \<Rightarrow> (bool \<times> pn_data) option" where
  "pn_data_lookup d name = lookup_loop (d_size d + 1) d name"

section \<open>Copying\<close>

text \<open>
  One value of \<open>src\<close> is put into \<open>data\<close>; a compound is entered on both sides. The flags tell whether
  the type was a value type (it is counted then) and whether a compound was entered.
\<close>

definition put_got :: "'a option \<Rightarrow> ('a \<Rightarrow> (int \<times> pn_data) option) \<Rightarrow> pn_data \<Rightarrow>
    (int \<times> pn_data \<times> pn_data \<times> bool \<times> bool) option" where
  "put_got got put src = do {
     x \<leftarrow> got;
     (err, data) \<leftarrow> put x;
     Some (err, data, src, True, False)
   }"

definition put_got_bytes :: "('a \<times> pn_data) option \<Rightarrow> ('a \<Rightarrow> (int \<times> pn_data) option) \<Rightarrow>
    (int \<times> pn_data \<times> pn_data \<times> bool \<times> bool) option" where
  "put_got_bytes got put = do {
     (x, src) \<leftarrow> got;
     (err, data) \<leftarrow> put x;
     Some (err, data, src, True, False)
   }"

definition put_and_enter :: "(int \<times> pn_data) option \<Rightarrow> pn_data \<Rightarrow>
    (int \<times> pn_data \<times> pn_data \<times> bool \<times> bool) option" where
  "put_and_enter put src = do {
     (err, data) \<leftarrow> put;
     if err \<noteq> 0 then Some (err, data, src, True, False)
     else Some (0, snd (pn_data_enter data), snd (pn_data_enter src), True, True)
   }"

definition append_value :: "data_mem \<Rightarrow> pn_data \<Rightarrow> pn_data \<Rightarrow>
    (int \<times> pn_data \<times> pn_data \<times> bool \<times> bool) option" where
  "append_value mem data src = do {
     ty \<leftarrow> pn_data_type src;
     case ty of
       T_NULL \<Rightarrow> put_got (Some ()) (\<lambda>_. pn_data_put_null mem data) src
     | T_BOOL \<Rightarrow> put_got (pn_data_get_bool src) (pn_data_put_bool mem data) src
     | T_UBYTE \<Rightarrow> put_got (pn_data_get_ubyte src) (pn_data_put_ubyte mem data) src
     | T_BYTE \<Rightarrow> put_got (pn_data_get_byte src) (pn_data_put_byte mem data) src
     | T_USHORT \<Rightarrow> put_got (pn_data_get_ushort src) (pn_data_put_ushort mem data) src
     | T_SHORT \<Rightarrow> put_got (pn_data_get_short src) (pn_data_put_short mem data) src
     | T_UINT \<Rightarrow> put_got (pn_data_get_uint src) (pn_data_put_uint mem data) src
     | T_INT \<Rightarrow> put_got (pn_data_get_int src) (pn_data_put_int mem data) src
     | T_CHAR \<Rightarrow> put_got (pn_data_get_char src) (pn_data_put_char mem data) src
     | T_ULONG \<Rightarrow> put_got (pn_data_get_ulong src) (pn_data_put_ulong mem data) src
     | T_LONG \<Rightarrow> put_got (pn_data_get_long src) (pn_data_put_long mem data) src
     | T_TIMESTAMP \<Rightarrow> put_got (pn_data_get_timestamp src) (pn_data_put_timestamp mem data) src
     | T_FLOAT \<Rightarrow> put_got (pn_data_get_float src) (pn_data_put_float mem data) src
     | T_DOUBLE \<Rightarrow> put_got (pn_data_get_double src) (pn_data_put_double mem data) src
     | T_DECIMAL32 \<Rightarrow> put_got (pn_data_get_decimal32 src) (pn_data_put_decimal32 mem data) src
     | T_DECIMAL64 \<Rightarrow> put_got (pn_data_get_decimal64 src) (pn_data_put_decimal64 mem data) src
     | T_DECIMAL128 \<Rightarrow> put_got_bytes (pn_data_get_decimal128 src) (pn_data_put_decimal128 mem data)
     | T_UUID \<Rightarrow> put_got_bytes (pn_data_get_uuid src) (pn_data_put_uuid mem data)
     | T_BINARY \<Rightarrow> put_got_bytes (pn_data_get_binary src) (pn_data_put_binary mem data)
     | T_STRING \<Rightarrow> put_got_bytes (pn_data_get_string src) (pn_data_put_string mem data)
     | T_SYMBOL \<Rightarrow> put_got_bytes (pn_data_get_symbol src) (pn_data_put_symbol mem data)
     | T_DESCRIBED \<Rightarrow> put_and_enter (pn_data_put_described mem data) src
     | T_ARRAY \<Rightarrow> do {
         described \<leftarrow> pn_data_is_array_described src;
         ety \<leftarrow> pn_data_get_array_type src;
         put_and_enter (pn_data_put_array mem data described ety) src
       }
     | T_LIST \<Rightarrow> put_and_enter (pn_data_put_list mem data) src
     | T_MAP \<Rightarrow> put_and_enter (pn_data_put_map mem data) src
     | _ \<Rightarrow> Some (0, data, src, False, False)
   }"

text \<open>The inner loop: leave finished compounds until there is a next value; \<open>level\<close> counts the open ones.\<close>

fun append_up :: "pn_data \<Rightarrow> pn_data \<Rightarrow> nat \<Rightarrow> (bool \<times> pn_data \<times> pn_data \<times> nat) option" where
  "append_up data src 0 = do {
     (more, src) \<leftarrow> pn_data_next src;
     if more then Some (True, data, src, 0)
     else do {
       (more, src) \<leftarrow> pn_data_next src;
       Some (more, data, src, 0)
     }
   }"
| "append_up data src (Suc level) = do {
     (more, src) \<leftarrow> pn_data_next src;
     if more then Some (True, data, src, Suc level)
     else do {
       (_, data) \<leftarrow> pn_data_exit data;
       (_, src) \<leftarrow> pn_data_exit src;
       append_up data src level
     }
   }"

fun append_loop :: "nat \<Rightarrow> data_mem \<Rightarrow> int \<Rightarrow> pn_data \<Rightarrow> pn_data \<Rightarrow> nat \<Rightarrow> int \<Rightarrow>
    (int \<times> pn_data \<times> pn_data) option" where
  "append_loop 0 mem limit data src level count = None"
| "append_loop (Suc fuel) mem limit data src level count = do {
     (more, data, src, level) \<leftarrow> append_up data src level;
     if \<not> more then Some (0, data, src)
     else if level = 0 \<and> count = limit then Some (0, data, src)
     else do {
       (err, data, src, counted, entered) \<leftarrow> append_value mem data src;
       let count = (if level = 0 \<and> counted then count + 1 else count);
       if err \<noteq> 0 then Some (err, data, src)
       else append_loop fuel mem limit data src (if entered then level + 1 else level) count
     }
   }"

text \<open>
  Every round of the loop visits another node of \<open>src\<close>, so one round per node and one more are
  enough. The two objects are distinct.
\<close>

definition pn_data_appendn :: "data_mem \<Rightarrow> pn_data \<Rightarrow> pn_data \<Rightarrow> int \<Rightarrow> (int \<times> pn_data \<times> pn_data) option" where
  "pn_data_appendn mem data src limit = do {
     let point = pn_data_point src;
     (err, data, src) \<leftarrow> append_loop (d_size src + 1) mem limit data (pn_data_rewind src) 0 0;
     (_, src) \<leftarrow> pn_data_restore src point;
     Some (err, data, src)
   }"

definition pn_data_append :: "data_mem \<Rightarrow> pn_data \<Rightarrow> pn_data \<Rightarrow> (int \<times> pn_data \<times> pn_data) option" where
  "pn_data_append mem data src = pn_data_appendn mem data src (- 1)"

definition pn_data_copy :: "data_mem \<Rightarrow> pn_data \<Rightarrow> pn_data \<Rightarrow> (int \<times> pn_data \<times> pn_data) option" where
  "pn_data_copy mem data src = do {
     (err, data, src) \<leftarrow> pn_data_append mem (pn_data_clear data) src;
     Some (err, pn_data_rewind data, src)
   }"

definition pni_normalize_multiple :: "data_mem \<Rightarrow> pn_data \<Rightarrow> pn_data \<Rightarrow> (int \<times> pn_data \<times> pn_data) option" where
  "pni_normalize_multiple mem data src = do {
     let point = pn_data_point src;
     (_, src) \<leftarrow> pn_data_next (pn_data_rewind src);
     ty \<leftarrow> pn_data_type src;
     (err, data, src) \<leftarrow>
       (if ty = T_ARRAY then do {
          n \<leftarrow> pn_data_get_array src;
          if n = 0 then do { (err, data) \<leftarrow> pn_data_put_null mem data; Some (err, data, src) }
          else if n = 1 then do {
            let src = pn_data_narrow (snd (pn_data_enter src));
            (err, data, src) \<leftarrow> pn_data_appendn mem data src 1;
            Some (err, data, pn_data_widen src)
          }
          else pn_data_appendn mem data src 1
        }
        else pn_data_appendn mem data src 1);
     (_, src) \<leftarrow> pn_data_restore src point;
     Some (err, data, src)
   }"

end
