(* ===== verification/Data_Inv.thy ===== *)
theory Data_Inv
  imports Data_Tree
begin

text \<open>
  The invariant of data objects: node ids stay inside the array and form a tree along the parent links
  (a parent has a smaller id, siblings share the parent), the cursor points into it, and every node has
  the payload of its type, with bytes that lie inside the string buffer. Every operation keeps it.
\<close>

section \<open>Reading and writing nodes\<close>

named_theorems node_simps \<open>reads after writes of nodes\<close>

definition nd :: "pn_data \<Rightarrow> nat \<Rightarrow> pni_node" where
  "nd d i = d_nodes d ! (i - 1)"

definition in_nodes :: "pn_data \<Rightarrow> nat \<Rightarrow> bool" where
  "in_nodes d i \<longleftrightarrow> 0 < i \<and> i \<le> length (d_nodes d)"

definition set_nd :: "nat \<Rightarrow> pni_node \<Rightarrow> pn_data \<Rightarrow> pn_data" where
  "set_nd i x d = d\<lparr>d_nodes := (d_nodes d)[i - 1 := x]\<rparr>"

lemma rd_in [node_simps]: "in_nodes d i \<Longrightarrow> rd d i = Some (nd d i)"
  by (simp add: rd_def in_nodes_def nd_def)

lemma rd_Some: "rd d i = Some x \<longleftrightarrow> in_nodes d i \<and> x = nd d i"
  by (auto simp: rd_def in_nodes_def nd_def)

lemma wr_in [node_simps]: "in_nodes d i \<Longrightarrow> wr d i f = Some (set_nd i (f (nd d i)) d)"
  by (simp add: wr_def rd_in set_nd_def)

lemma wr_Some: "wr d i f = Some d' \<longleftrightarrow> in_nodes d i \<and> d' = set_nd i (f (nd d i)) d"
  by (auto simp: wr_def rd_Some set_nd_def)

lemma nd_set_nd [node_simps]: "in_nodes d i \<Longrightarrow> 0 < j \<Longrightarrow> nd (set_nd i x d) j = (if j = i then x else nd d j)"
  by (auto simp: set_nd_def in_nodes_def nd_def nth_list_update)

lemma set_nd_fields [simp]:
  "length (d_nodes (set_nd i x d)) = length (d_nodes d)" "d_buf (set_nd i x d) = d_buf d"
  "d_error (set_nd i x d) = d_error d" "d_max_buf_size (set_nd i x d) = d_max_buf_size d"
  "d_max_nid (set_nd i x d) = d_max_nid d" "d_capacity (set_nd i x d) = d_capacity d"
  "d_size (set_nd i x d) = d_size d" "d_parent (set_nd i x d) = d_parent d"
  "d_current (set_nd i x d) = d_current d" "d_base_parent (set_nd i x d) = d_base_parent d"
  "d_base_current (set_nd i x d) = d_base_current d"
  by (simp_all add: set_nd_def)

lemma in_nodes_set_nd [simp]: "in_nodes (set_nd i x d) j = in_nodes d j"
  by (simp add: in_nodes_def)

lemma in_nodes_fields [simp]:
  "in_nodes (d\<lparr>d_current := c\<rparr>) i = in_nodes d i" "in_nodes (d\<lparr>d_parent := c\<rparr>) i = in_nodes d i"
  "in_nodes (d\<lparr>d_error := e\<rparr>) i = in_nodes d i" "in_nodes (d\<lparr>d_buf := b\<rparr>) i = in_nodes d i"
  "in_nodes (d\<lparr>d_size := c\<rparr>) i = in_nodes d i"
  by (simp_all add: in_nodes_def)

lemma nd_fields [simp]:
  "nd (d\<lparr>d_current := c\<rparr>) i = nd d i" "nd (d\<lparr>d_parent := c\<rparr>) i = nd d i" "nd (d\<lparr>d_error := e\<rparr>) i = nd d i"
  "nd (d\<lparr>d_buf := b\<rparr>) i = nd d i" "nd (d\<lparr>d_size := c\<rparr>) i = nd d i"
  by (simp_all add: nd_def)

lemma as_compound_Zero [simp]: "as_compound Zero = (0, 0, 0)"
  by simp

lemma get_down_simps [simp]:
  "pni_node_get_down (n\<lparr>nd_next := a\<rparr>) = pni_node_get_down n"
  "pni_node_get_down (n\<lparr>nd_prev := a\<rparr>) = pni_node_get_down n"
  "pni_node_get_down (n\<lparr>nd_parent := a\<rparr>) = pni_node_get_down n"
  "pni_node_get_down (n\<lparr>nd_array_type := ty\<rparr>) = pni_node_get_down n"
  "pni_node_get_down (n\<lparr>nd_u := Zero\<rparr>) = 0"
  by (simp_all add: pni_node_get_down_def)

lemma set_down_simps [simp]:
  "nd_next (pni_node_set_down a n) = nd_next n" "nd_prev (pni_node_set_down a n) = nd_prev n"
  "nd_parent (pni_node_set_down a n) = nd_parent n" "nd_type (pni_node_set_down a n) = nd_type n"
  "nd_array_type (pni_node_set_down a n) = nd_array_type n"
  "pni_node_get_down (pni_node_set_down a n) = (if compound_type (nd_type n) then a else 0)"
  "pni_node_get_children (pni_node_set_down a n) = pni_node_get_children n"
  by (auto simp: pni_node_set_down_def pni_node_get_down_def pni_node_get_children_def split: prod.splits)

lemma inc_children_simps [simp]:
  "nd_next (pni_node_inc_children n) = nd_next n" "nd_prev (pni_node_inc_children n) = nd_prev n"
  "nd_parent (pni_node_inc_children n) = nd_parent n" "nd_type (pni_node_inc_children n) = nd_type n"
  "nd_array_type (pni_node_inc_children n) = nd_array_type n"
  "pni_node_get_down (pni_node_inc_children n) = pni_node_get_down n"
  "pni_node_get_children (pni_node_inc_children n) =
     (if compound_type (nd_type n) then (pni_node_get_children n + 1) mod 2 ^ 16 else 0)"
  by (auto simp: pni_node_inc_children_def pni_node_get_down_def pni_node_get_children_def split: prod.splits)

section \<open>The invariant\<close>

text \<open>
  The payload that belongs to a type, given the number of nodes, the number of bytes in the string
  buffer and whether there is one. A string whose bytes could not be stored is left empty.
\<close>

definition payload_ok :: "nat \<Rightarrow> nat \<Rightarrow> bool \<Rightarrow> pn_type \<Rightarrow> pni_node_payload \<Rightarrow> bool" where
  "payload_ok n m b ty u =
     (case ty of
        T_NULL \<Rightarrow> u = Zero
      | T_BOOL \<Rightarrow> (case u of As_bool _ \<Rightarrow> True | _ \<Rightarrow> False)
      | T_UBYTE \<Rightarrow> (case u of As_8 _ \<Rightarrow> True | _ \<Rightarrow> False)
      | T_BYTE \<Rightarrow> (case u of As_8 _ \<Rightarrow> True | _ \<Rightarrow> False)
      | T_USHORT \<Rightarrow> (case u of As_16 _ \<Rightarrow> True | _ \<Rightarrow> False)
      | T_SHORT \<Rightarrow> (case u of As_16 _ \<Rightarrow> True | _ \<Rightarrow> False)
      | T_UINT \<Rightarrow> (case u of As_32 _ \<Rightarrow> True | _ \<Rightarrow> False)
      | T_INT \<Rightarrow> (case u of As_32 _ \<Rightarrow> True | _ \<Rightarrow> False)
      | T_CHAR \<Rightarrow> (case u of As_32 _ \<Rightarrow> True | _ \<Rightarrow> False)
      | T_ULONG \<Rightarrow> (case u of As_64 _ \<Rightarrow> True | _ \<Rightarrow> False)
      | T_LONG \<Rightarrow> (case u of As_64 _ \<Rightarrow> True | _ \<Rightarrow> False)
      | T_TIMESTAMP \<Rightarrow> (case u of As_64 _ \<Rightarrow> True | _ \<Rightarrow> False)
      | T_FLOAT \<Rightarrow> (case u of As_32 _ \<Rightarrow> True | _ \<Rightarrow> False)
      | T_DOUBLE \<Rightarrow> (case u of As_64 _ \<Rightarrow> True | _ \<Rightarrow> False)
      | T_DECIMAL32 \<Rightarrow> (case u of As_32 _ \<Rightarrow> True | _ \<Rightarrow> False)
      | T_DECIMAL64 \<Rightarrow> (case u of As_64 _ \<Rightarrow> True | _ \<Rightarrow> False)
      | T_DECIMAL128 \<Rightarrow> (case u of Zero \<Rightarrow> b | As_bytes off sz \<Rightarrow> b \<and> sz = 16 \<and> off + sz \<le> m | _ \<Rightarrow> False)
      | T_UUID \<Rightarrow> (case u of Zero \<Rightarrow> b | As_bytes off sz \<Rightarrow> b \<and> sz = 16 \<and> off + sz \<le> m | _ \<Rightarrow> False)
      | T_BINARY \<Rightarrow> (case u of Zero \<Rightarrow> b | As_bytes off sz \<Rightarrow> b \<and> off + sz \<le> m | _ \<Rightarrow> False)
      | T_STRING \<Rightarrow> (case u of Zero \<Rightarrow> b | As_bytes off sz \<Rightarrow> b \<and> off + sz \<le> m | _ \<Rightarrow> False)
      | T_SYMBOL \<Rightarrow> (case u of Zero \<Rightarrow> b | As_bytes off sz \<Rightarrow> b \<and> off + sz \<le> m | _ \<Rightarrow> False)
      | _ \<Rightarrow> compound_type ty \<and> (case u of As_compound _ children _ \<Rightarrow> children \<le> n | _ \<Rightarrow> False))"

definition links_ok :: "pn_data \<Rightarrow> nat \<Rightarrow> bool" where
  "links_ok d i \<longleftrightarrow>
     (let x = nd d i; down = pni_node_get_down x
      in nd_parent x < i \<and> nd_prev x < i \<and>
         (nd_prev x \<noteq> 0 \<longrightarrow> nd_parent (nd d (nd_prev x)) = nd_parent x) \<and>
         (nd_next x \<noteq> 0 \<longrightarrow> i < nd_next x \<and> nd_next x \<le> d_size d \<and> nd_parent (nd d (nd_next x)) = nd_parent x) \<and>
         (down \<noteq> 0 \<longrightarrow> i < down \<and> down \<le> d_size d \<and> nd_parent (nd d down) = i))"

definition cursor_ok :: "pn_data \<Rightarrow> nat \<Rightarrow> nat \<Rightarrow> bool" where
  "cursor_ok d p c \<longleftrightarrow> p \<le> d_size d \<and> c \<le> d_size d \<and> (c \<noteq> 0 \<longrightarrow> nd_parent (nd d c) = p)"

definition buf_len :: "pn_data \<Rightarrow> nat" where
  "buf_len d = (case d_buf d of None \<Rightarrow> 0 | Some b \<Rightarrow> buf_size b)"

definition buf_ok :: "pn_data \<Rightarrow> bool" where
  "buf_ok d \<longleftrightarrow> (case d_buf d of None \<Rightarrow> True | Some b \<Rightarrow> buf_inv b \<and> 64 \<le> buf_capacity b)"

definition typed_nd :: "pn_data \<Rightarrow> nat \<Rightarrow> bool" where
  "typed_nd d i \<longleftrightarrow> payload_ok (d_size d) (buf_len d) (d_buf d \<noteq> None) (nd_type (nd d i)) (nd_u (nd d i))"

definition shape_ok :: "pn_data \<Rightarrow> bool" where
  "shape_ok d \<longleftrightarrow> length (d_nodes d) = d_capacity d \<and> d_capacity d \<le> 65535 \<and> d_size d \<le> d_capacity d \<and>
     d_max_nid d \<le> 65535 \<and> cursor_ok d (d_parent d) (d_current d) \<and>
     cursor_ok d (d_base_parent d) (d_base_current d) \<and> buf_ok d \<and> (\<forall>i. 0 < i \<and> i \<le> d_size d \<longrightarrow> links_ok d i)"

definition data_inv :: "pn_data \<Rightarrow> bool" where
  "data_inv d \<longleftrightarrow> shape_ok d \<and> (\<forall>i. 0 < i \<and> i \<le> d_size d \<longrightarrow> typed_nd d i)"

lemma shape_okD:
  assumes "shape_ok d"
  shows "length (d_nodes d) = d_capacity d" "d_capacity d \<le> 65535" "d_size d \<le> d_capacity d"
    "d_max_nid d \<le> 65535" "cursor_ok d (d_parent d) (d_current d)"
    "cursor_ok d (d_base_parent d) (d_base_current d)" "buf_ok d"
    "0 < i \<Longrightarrow> i \<le> d_size d \<Longrightarrow> links_ok d i" "0 < i \<Longrightarrow> i \<le> d_size d \<Longrightarrow> in_nodes d i"
    "d_parent d \<le> d_size d" "d_current d \<le> d_size d"
  using assms unfolding shape_ok_def in_nodes_def cursor_ok_def by auto

lemma data_invD:
  assumes "data_inv d"
  shows "shape_ok d" "0 < i \<Longrightarrow> i \<le> d_size d \<Longrightarrow> typed_nd d i"
  using assms unfolding data_inv_def by auto

lemma links_okD:
  assumes "links_ok d i"
  shows "nd_parent (nd d i) < i" "nd_prev (nd d i) < i"
    "nd_prev (nd d i) \<noteq> 0 \<Longrightarrow> nd_parent (nd d (nd_prev (nd d i))) = nd_parent (nd d i)"
    "nd_next (nd d i) \<noteq> 0 \<Longrightarrow> i < nd_next (nd d i)"
    "nd_next (nd d i) \<noteq> 0 \<Longrightarrow> nd_next (nd d i) \<le> d_size d"
    "nd_next (nd d i) \<noteq> 0 \<Longrightarrow> nd_parent (nd d (nd_next (nd d i))) = nd_parent (nd d i)"
    "pni_node_get_down (nd d i) \<noteq> 0 \<Longrightarrow> i < pni_node_get_down (nd d i)"
    "pni_node_get_down (nd d i) \<noteq> 0 \<Longrightarrow> pni_node_get_down (nd d i) \<le> d_size d"
    "pni_node_get_down (nd d i) \<noteq> 0 \<Longrightarrow> nd_parent (nd d (pni_node_get_down (nd d i))) = i"
  using assms unfolding links_ok_def Let_def by auto

text \<open>Objects that differ in the cursor and the error only.\<close>

definition moved :: "pn_data \<Rightarrow> pn_data \<Rightarrow> bool" where
  "moved d d' \<longleftrightarrow> d_nodes d' = d_nodes d \<and> d_buf d' = d_buf d \<and> d_max_buf_size d' = d_max_buf_size d \<and>
     d_max_nid d' = d_max_nid d \<and> d_capacity d' = d_capacity d \<and> d_size d' = d_size d"

lemma moved_inv:
  assumes "moved d d'"
  shows "links_ok d' i = links_ok d i" "typed_nd d' i = typed_nd d i" "cursor_ok d' p c = cursor_ok d p c"
    "buf_ok d' = buf_ok d" "in_nodes d' i = in_nodes d i" "buf_len d' = buf_len d"
  using assms by (simp_all add: moved_def links_ok_def typed_nd_def cursor_ok_def buf_ok_def in_nodes_def
      buf_len_def nd_def Let_def)

lemma moved_data_inv:
  assumes "data_inv d" "moved d d'" "cursor_ok d (d_parent d') (d_current d')"
    "cursor_ok d (d_base_parent d') (d_base_current d')"
  shows "data_inv d'"
  using assms unfolding data_inv_def shape_ok_def
  by (simp add: moved_inv [OF assms(2)]) (simp add: moved_def)

lemma cursor_ok_0 [simp]: "p \<le> d_size d \<Longrightarrow> cursor_ok d p 0"
  by (simp add: cursor_ok_def)

section \<open>Moving the cursor\<close>

lemma moved_simps [simp]:
  "moved d (d\<lparr>d_current := c\<rparr>)" "moved d (d\<lparr>d_parent := p, d_current := c\<rparr>)"
  "moved d (d\<lparr>d_current := c, d_parent := p\<rparr>)" "moved d (d\<lparr>d_base_parent := p, d_base_current := c\<rparr>)"
  "moved d (d\<lparr>d_error := e\<rparr>)" "moved d d"
  by (simp_all add: moved_def)

lemma rewind_inv: "data_inv d \<Longrightarrow> data_inv (pn_data_rewind d)"
  unfolding pn_data_rewind_def
  by (rule moved_data_inv) (auto dest!: data_invD(1) dest: shape_okD(6))

lemma narrow_inv: "data_inv d \<Longrightarrow> data_inv (pn_data_narrow d)"
  unfolding pn_data_narrow_def
  by (rule moved_data_inv) (auto dest!: data_invD(1) dest: shape_okD(5))

lemma widen_inv: "data_inv d \<Longrightarrow> data_inv (pn_data_widen d)"
  unfolding pn_data_widen_def
  by (rule moved_data_inv) (auto dest!: data_invD(1) dest: shape_okD(5))

lemma enter_inv: "data_inv d \<Longrightarrow> data_inv (snd (pn_data_enter d))"
proof (cases "d_current d = 0")
  case False
  assume inv: "data_inv d"
  have sh: "shape_ok d" using inv by (rule data_invD)
  have "data_inv (d\<lparr>d_parent := d_current d, d_current := 0\<rparr>)"
    using shape_okD(6,11) [OF sh] by (intro moved_data_inv [OF inv]) simp_all
  with False show ?thesis by (simp add: pn_data_enter_def)
qed (simp add: pn_data_enter_def)

lemma cursor_okI: "0 < c \<Longrightarrow> c \<le> d_size d \<Longrightarrow> shape_ok d \<Longrightarrow> cursor_ok d (nd_parent (nd d c)) c"
  using links_okD(1) [of d c] by (auto simp: cursor_ok_def dest: shape_okD(8))

lemma current_links:
  assumes "shape_ok d" "d_current d \<noteq> 0"
  shows "in_nodes d (d_current d)" "links_ok d (d_current d)" "nd_parent (nd d (d_current d)) = d_parent d"
  using shape_okD [OF assms(1)] assms(2) by (auto simp: cursor_ok_def)

lemma parent_links:
  assumes "shape_ok d" "d_parent d \<noteq> 0"
  shows "in_nodes d (d_parent d)" "links_ok d (d_parent d)"
  using shape_okD [OF assms(1)] assms(2) by auto

text \<open>The next node, as an id.\<close>

definition next_id :: "pn_data \<Rightarrow> nat" where
  "next_id d = (if d_current d \<noteq> 0 then nd_next (nd d (d_current d))
                else if d_parent d \<noteq> 0 then pni_node_get_down (nd d (d_parent d))
                else if d_size d \<noteq> 0 then 1 else 0)"

lemma pn_data_next_eq:
  assumes "shape_ok d"
  shows "pn_data_next d = Some (if next_id d \<noteq> 0 then (True, d\<lparr>d_current := next_id d\<rparr>) else (False, d))"
  using current_links(1) [OF assms] parent_links(1) [OF assms]
  by (auto simp: pn_data_next_def next_id_def rd_in)

lemma next_id_ok:
  assumes "shape_ok d" "next_id d \<noteq> 0"
  shows "next_id d \<le> d_size d \<and> nd_parent (nd d (next_id d)) = d_parent d"
proof (cases "d_current d = 0")
  case True
  show ?thesis
  proof (cases "d_parent d = 0")
    case p: True
    have "links_ok d 1" if "d_size d \<noteq> 0" using shape_okD(8) [OF assms(1), of 1] that by simp
    from links_okD(1) [OF this] assms True p show ?thesis by (auto simp: next_id_def)
  next
    case p: False
    then show ?thesis using links_okD(8,9) [OF parent_links(2) [OF assms(1) p]] assms(2) True
      by (simp add: next_id_def)
  qed
next
  case False
  then show ?thesis
    using links_okD(5,6) [OF current_links(2) [OF assms(1) False]] current_links(3) [OF assms(1) False] assms(2)
    by (simp add: next_id_def)
qed

text \<open>An operation that touches no memory outside the object, and what holds of its result and the object after it.\<close>

definition fine :: "('r \<Rightarrow> 's \<Rightarrow> bool) \<Rightarrow> ('r \<times> 's) option \<Rightarrow> bool" where
  "fine Q x = (case x of None \<Rightarrow> False | Some (r, d) \<Rightarrow> Q r d)"

lemma fine_simps [simp]: "fine Q (Some (r, d)) = Q r d" "\<not> fine Q None"
  by (simp_all add: fine_def)

lemma fineE:
  assumes "fine Q x"
  obtains r d where "x = Some (r, d)" "Q r d"
  using assms by (cases x) (auto simp: fine_def)

lemma fine_bind:
  assumes "fine Q x" "\<And>r d. Q r d \<Longrightarrow> fine R (f r d)"
  shows "fine R (x \<bind> (\<lambda>(r, d). f r d))"
  using assms by (auto elim!: fineE)

lemma fine_mono: "fine Q x \<Longrightarrow> (\<And>r d. Q r d \<Longrightarrow> R r d) \<Longrightarrow> fine R x"
  by (auto simp: fine_def split: option.splits)

lemma data_next_inv:
  assumes "data_inv d"
  shows "fine (\<lambda>_ d'. data_inv d' \<and> moved d d' \<and> d_parent d' = d_parent d) (pn_data_next d)"
proof -
  have sh: "shape_ok d" using assms by (rule data_invD)
  have "data_inv (d\<lparr>d_current := next_id d\<rparr>)" if "next_id d \<noteq> 0"
    using next_id_ok [OF sh that] that assms shape_okD [OF sh]
    by (intro moved_data_inv [OF assms]) (auto simp: cursor_ok_def)
  with assms show ?thesis by (simp add: pn_data_next_eq [OF sh])
qed

lemma prev_inv:
  assumes "data_inv d"
  shows "fine (\<lambda>_. data_inv) (pn_data_prev d)"
proof (cases "d_current d = 0")
  case c: False
  have sh: "shape_ok d" using assms by (rule data_invD)
  note l = current_links [OF sh c]
  have "data_inv (d\<lparr>d_current := nd_prev (nd d (d_current d))\<rparr>)" if "nd_prev (nd d (d_current d)) \<noteq> 0"
    using links_okD(2,3) [OF l(2)] that l(3) shape_okD [OF sh]
    by (intro moved_data_inv [OF assms]) (auto simp: cursor_ok_def)
  with assms c l(1) show ?thesis by (simp add: pn_data_prev_def rd_in)
qed (use assms in \<open>simp add: pn_data_prev_def\<close>)

lemma exit_inv:
  assumes "data_inv d"
  shows "fine (\<lambda>_ d'. data_inv d' \<and> moved d d') (pn_data_exit d)"
proof (cases "d_parent d = 0")
  case p: False
  have sh: "shape_ok d" using assms by (rule data_invD)
  note l = parent_links [OF sh p]
  have "data_inv (d\<lparr>d_current := d_parent d, d_parent := nd_parent (nd d (d_parent d))\<rparr>)"
    using cursor_okI [OF _ shape_okD(10) [OF sh] sh] p shape_okD(6) [OF sh]
    by (intro moved_data_inv [OF assms]) auto
  with p l(1) show ?thesis by (simp add: pn_data_exit_def rd_in)
qed (use assms in \<open>simp add: pn_data_exit_def\<close>)

lemma restore_inv:
  assumes "data_inv d" "- int (d_size d) \<le> point"
  shows "fine (\<lambda>_. data_inv) (pn_data_restore d point)"
proof -
  have sh: "shape_ok d" using assms(1) by (rule data_invD)
  consider "point \<le> 0" | "0 < point" "point \<le> int (d_size d)" | "int (d_size d) < point" by linarith
  then show ?thesis
  proof cases
    case 1
    then have "data_inv (d\<lparr>d_parent := nat (- point), d_current := 0\<rparr>)"
      using assms(2) shape_okD(6) [OF sh] by (intro moved_data_inv [OF assms(1)]) auto
    with 1 assms(2) show ?thesis by (simp add: pn_data_restore_def)
  next
    case 2
    define c where "c = nat point"
    have "point < 2 ^ 16" using 2 shape_okD(2,3) [OF sh] by simp
    then have "point mod 2 ^ 16 = point" using 2 by (intro mod_pos_pos_trivial) simp_all
    then have c: "0 < c" "c \<le> d_size d" "nat (point mod 2 ^ 16) = c"
      using 2 unfolding c_def by (linarith, linarith, simp only:)
    have "data_inv (d\<lparr>d_current := c, d_parent := nd_parent (nd d c)\<rparr>)"
      using cursor_okI [OF c(1,2) sh] shape_okD(6) [OF sh] by (intro moved_data_inv [OF assms(1)]) auto
    moreover have "pn_data_restore d point = Some (True, d\<lparr>d_current := c, d_parent := nd_parent (nd d c)\<rparr>)"
      using 2 c(3) shape_okD(9) [OF sh c(1,2)] unfolding pn_data_restore_def c(3) by (simp add: rd_in)
    ultimately show ?thesis by simp
  qed (use assms in \<open>simp add: pn_data_restore_def\<close>)
qed

section \<open>Adding a node\<close>

text \<open>The object after a new node has been allocated, and after it has been linked in at the cursor.\<close>

definition same_rest :: "pn_data \<Rightarrow> pn_data \<Rightarrow> bool" where
  "same_rest d d' \<longleftrightarrow> d_buf d' = d_buf d \<and> d_error d' = d_error d \<and> d_max_buf_size d' = d_max_buf_size d \<and>
     d_max_nid d' = d_max_nid d \<and> d_parent d' = d_parent d \<and> d_base_parent d' = d_base_parent d \<and>
     d_base_current d' = d_base_current d"

definition room_ok :: "pn_data \<Rightarrow> bool" where
  "room_ok d \<longleftrightarrow> length (d_nodes d) = d_capacity d \<and> d_size d \<le> d_capacity d \<and> d_capacity d \<le> 65535"

definition grew :: "pn_data \<Rightarrow> pn_data \<Rightarrow> bool" where
  "grew d d' \<longleftrightarrow> same_rest d d' \<and> d_current d' = d_current d \<and> room_ok d' \<and> d_size d' = d_size d + 1 \<and>
     (\<forall>i. 0 < i \<and> i \<le> d_size d \<longrightarrow> nd d' i = nd d i) \<and>
     nd_type (nd d' (d_size d')) = T_NULL \<and> nd_next (nd d' (d_size d')) = 0 \<and>
     nd_array_type (nd d' (d_size d')) = T_UNSET"

definition new_parent :: "nat \<Rightarrow> pni_node \<Rightarrow> pni_node" where
  "new_parent n x = pni_node_inc_children (if pni_node_get_down x = 0 then pni_node_set_down n x else x)"

definition added :: "pn_data \<Rightarrow> pn_data \<Rightarrow> bool" where
  "added d d' \<longleftrightarrow> same_rest d d' \<and> room_ok d' \<and> d_size d' = d_size d + 1 \<and> d_current d' = d_size d' \<and>
     nd d' (d_size d') = \<lparr>nd_type = T_NULL, nd_array_type = T_UNSET, nd_next = 0, nd_prev = d_current d,
       nd_parent = d_parent d, nd_u = Zero\<rparr> \<and>
     (\<forall>i. 0 < i \<and> i \<le> d_size d \<longrightarrow>
        nd d' i = (if i = d_current d then (nd d i)\<lparr>nd_next := d_size d'\<rparr>
                   else if i = d_parent d then new_parent (d_size d') (nd d i) else nd d i))"

lemma nth_node_realloc:
  "node_realloc mem old n = Some xs \<Longrightarrow> i < length old \<Longrightarrow> i < n \<Longrightarrow> xs ! i = old ! i"
  by (auto simp: node_realloc_def nth_append)

lemma length_node_realloc: "node_realloc mem old n = Some xs \<Longrightarrow> length xs = n"
  by (auto simp: node_realloc_def)

lemma pni_data_grow_spec:
  assumes "shape_ok d" "d_size d < pni_data_max_nid d" "d_capacity d \<le> d_size d"
  shows "pni_data_grow mem d = (PN_OUT_OF_MEMORY, d) \<and> (\<exists>n. mem_nodes mem n = None) \<or>
    (\<exists>d1. pni_data_grow mem d = (0, d1) \<and> same_rest d d1 \<and> d_current d1 = d_current d \<and> d_size d1 = d_size d \<and>
       room_ok d1 \<and> d_size d < d_capacity d1 \<and> (\<forall>i. 0 < i \<and> i \<le> d_size d \<longrightarrow> nd d1 i = nd d i))"
proof -
  note inv = shape_okD [OF assms(1)]
  define c where "c = min (if d_capacity d \<noteq> 0 then d_capacity d * 2 else 2) (pni_data_max_nid d)"
  have c: "d_size d < c" "c \<le> 65535"
    using assms(2,3) inv(3,4) by (auto simp: c_def pni_data_max_nid_def)
  have g: "pni_data_grow mem d =
      (case node_realloc mem (d_nodes d) c of None \<Rightarrow> (PN_OUT_OF_MEMORY, d)
       | Some xs \<Rightarrow> (0, d\<lparr>d_capacity := c, d_nodes := xs\<rparr>))"
    using assms(2) unfolding pni_data_grow_def c_def Let_def by (simp only: not_le [symmetric] if_False)
  show ?thesis
  proof (cases "node_realloc mem (d_nodes d) c")
    case None
    then show ?thesis using g by (auto simp: node_realloc_def)
  next
    case (Some xs)
    have "nd (d\<lparr>d_capacity := c, d_nodes := xs\<rparr>) i = nd d i" if "0 < i" "i \<le> d_size d" for i
      using that inv(1,3) c nth_node_realloc [OF Some, of "i - 1"] by (simp add: nd_def)
    then show ?thesis
      using g Some c length_node_realloc [OF Some] by (intro disjI2 exI) (auto simp: same_rest_def room_ok_def)
  qed
qed

lemma pni_data_new_spec:
  assumes "shape_ok d"
  shows "pni_data_new mem d = Some (0, d\<lparr>d_error := PN_OUT_OF_MEMORY\<rparr>) \<and>
      (pni_data_max_nid d \<le> d_size d \<or> (\<exists>n. mem_nodes mem n = None)) \<or>
    (\<exists>d'. pni_data_new mem d = Some (d_size d', d') \<and> grew d d' \<and> d_size d < pni_data_max_nid d)"
proof (cases "d_size d < pni_data_max_nid d")
  case False
  then show ?thesis by (simp add: pni_data_new_def)
next
  case True
  define gr where "gr = (if d_capacity d \<le> d_size d then pni_data_grow mem d else (0, d))"
  have new: "pni_data_new mem d = (case gr of (err, d1) \<Rightarrow>
      if err \<noteq> 0 then Some (0, d1\<lparr>d_error := PN_OUT_OF_MEMORY\<rparr>)
      else wr (d1\<lparr>d_size := d_size d1 + 1\<rparr>) (d_size d1 + 1)
             (\<lambda>nd. nd\<lparr>nd_type := T_NULL, nd_next := 0, nd_array_type := T_UNSET\<rparr>) \<bind>
           (\<lambda>d'. Some (d_size d', d')))"
    using True by (auto simp: pni_data_new_def gr_def Let_def split: prod.splits)
  note inv = shape_okD [OF assms]
  have "gr = (PN_OUT_OF_MEMORY, d) \<and> (\<exists>n. mem_nodes mem n = None) \<or>
    (\<exists>d1. gr = (0, d1) \<and> same_rest d d1 \<and> d_current d1 = d_current d \<and> d_size d1 = d_size d \<and>
       room_ok d1 \<and> d_size d < d_capacity d1 \<and> (\<forall>i. 0 < i \<and> i \<le> d_size d \<longrightarrow> nd d1 i = nd d i))"
  proof (cases "d_capacity d \<le> d_size d")
    case c: True
    then show ?thesis unfolding gr_def using pni_data_grow_spec [OF assms True c, of mem] by simp
  next
    case False
    with inv show ?thesis by (simp add: gr_def same_rest_def room_ok_def)
  qed
  then consider "gr = (PN_OUT_OF_MEMORY, d)" "\<exists>n. mem_nodes mem n = None" |
    d1 where "gr = (0, d1)" "same_rest d d1" "d_current d1 = d_current d" "d_size d1 = d_size d"
       "room_ok d1" "d_size d < d_capacity d1" "\<And>i. 0 < i \<Longrightarrow> i \<le> d_size d \<Longrightarrow> nd d1 i = nd d i"
    by blast
  then show ?thesis
  proof cases
    case 1
    then show ?thesis by (simp add: new)
  next
    case (2 d1)
    have i: "in_nodes (d1\<lparr>d_size := d_size d1 + 1\<rparr>) (d_size d1 + 1)"
      using 2(4,5,6) by (simp add: in_nodes_def room_ok_def)
    define d' where "d' = set_nd (d_size d1 + 1) ((nd d1 (d_size d1 + 1))\<lparr>nd_type := T_NULL, nd_next := 0,
      nd_array_type := T_UNSET\<rparr>) (d1\<lparr>d_size := d_size d1 + 1\<rparr>)"
    have "pni_data_new mem d = Some (d_size d', d')"
      using 2(1) i by (simp add: new d'_def wr_in)
    moreover have "grew d d'"
      using 2 i by (auto simp: grew_def d'_def node_simps same_rest_def room_ok_def)
    ultimately show ?thesis using True by blast
  qed
qed

text \<open>Adding reuses the node after the cursor if there is one, and links in a new one otherwise.\<close>

lemma pni_data_add_reuse:
  assumes "shape_ok d" "next_id d \<noteq> 0"
  shows "pni_data_add mem d =
    Some (next_id d, (set_nd (next_id d) ((nd d (next_id d))\<lparr>nd_u := Zero\<rparr>) d)\<lparr>d_current := next_id d\<rparr>)"
proof -
  have "in_nodes d (next_id d)" using next_id_ok [OF assms] assms by (intro shape_okD(9)) auto
  then show ?thesis
    using assms(2) current_links(1) [OF assms(1)] parent_links(1) [OF assms(1)]
    by (auto simp: pni_data_add_def next_id_def node_simps split: if_splits)
qed

lemma grew_in_nodes: "grew d d' \<Longrightarrow> 0 < i \<Longrightarrow> i \<le> d_size d' \<Longrightarrow> in_nodes d' i"
  by (auto simp: grew_def room_ok_def in_nodes_def)

lemma grew_facts:
  assumes "grew d d1" "shape_ok d"
  shows "d_size d1 = d_size d + 1" "d_parent d1 = d_parent d" "d_current d1 = d_current d"
    "0 < i \<Longrightarrow> i \<le> d_size d \<Longrightarrow> nd d1 i = nd d i" "0 < i \<Longrightarrow> i \<le> d_size d \<Longrightarrow> in_nodes d1 i"
    "in_nodes d1 (Suc (d_size d))" "d_parent d \<noteq> Suc (d_size d)" "d_current d \<noteq> Suc (d_size d)"
    "nd_type (nd d1 (Suc (d_size d))) = T_NULL" "nd_next (nd d1 (Suc (d_size d))) = 0"
    "nd_array_type (nd d1 (Suc (d_size d))) = T_UNSET"
  using assms(1) shape_okD [OF assms(2)] by (auto simp: grew_def same_rest_def room_ok_def in_nodes_def)

lemma same_rest_set_nd [simp]:
  "same_rest d (set_nd i x d1) = same_rest d d1" "same_rest d (d1\<lparr>d_current := c\<rparr>) = same_rest d d1"
  by (simp_all add: same_rest_def)

lemma room_ok_set_nd [simp]: "room_ok (set_nd i x d) = room_ok d" "room_ok (d\<lparr>d_current := c\<rparr>) = room_ok d"
  by (simp_all add: room_ok_def)

lemma pni_data_add_grew:
  assumes sh: "shape_ok d" and fresh: "next_id d = 0"
    and new: "pni_data_new mem d = Some (d_size d1, d1)" and g: "grew d d1"
  shows "fine (\<lambda>n d'. n = d_size d' \<and> added d d') (pni_data_add mem d)"
proof -
  note gf = grew_facts [OF g sh]
  have rest: "same_rest d d1" "room_ok d1" using g by (simp_all add: grew_def)
  note facts = gf(1-3,6-11) rest
  consider (cur) "d_current d \<noteq> 0" | (par) "d_current d = 0" "d_parent d \<noteq> 0" | (top) "d_current d = 0" "d_parent d = 0"
    by blast
  then show ?thesis
  proof cases
    case cur
    note l = current_links [OF sh cur]
    have ne: "d_parent d \<noteq> d_current d" using links_okD(1) [OF l(2)] l(3) by simp
    have next0: "nd_next (nd d (d_current d)) = 0" using fresh cur by (simp add: next_id_def)
    have c: "in_nodes d1 (d_current d)" "nd d1 (d_current d) = nd d (d_current d)"
      using gf(4,5) cur shape_okD(11) [OF sh] by auto
    show ?thesis
    proof (cases "d_parent d = 0")
      case True
      show ?thesis
        using cur l next0 True c facts
        by (simp add: pni_data_add_def node_simps new) (auto simp: added_def node_simps gf(4) intro!: pni_node.equality)
    next
      case False
      have p: "in_nodes d1 (d_parent d)" "nd d1 (d_parent d) = nd d (d_parent d)"
        using gf(4,5) False shape_okD(10) [OF sh] by auto
      show ?thesis
        using cur l next0 False c p ne facts
        by (simp add: pni_data_add_def node_simps new)
          (auto simp: added_def node_simps gf(4) new_parent_def intro!: pni_node.equality)
    qed
  next
    case par
    note l = parent_links [OF sh par(2)]
    have down0: "pni_node_get_down (nd d (d_parent d)) = 0" using fresh par by (simp add: next_id_def)
    have p: "in_nodes d1 (d_parent d)" "nd d1 (d_parent d) = nd d (d_parent d)"
      using gf(4,5) par shape_okD(10) [OF sh] by auto
    show ?thesis
      using par l down0 p facts
      by (simp add: pni_data_add_def node_simps new)
        (auto simp: added_def node_simps gf(4) new_parent_def intro!: pni_node.equality)
  next
    case top
    have "d_size d = 0" using fresh top by (simp add: next_id_def split: if_splits)
    with top facts show ?thesis
      by (simp add: pni_data_add_def node_simps new) (auto simp: added_def node_simps intro!: pni_node.equality)
  qed
qed

lemma pni_data_add_fresh:
  assumes sh: "shape_ok d" and fresh: "next_id d = 0"
  shows "pni_data_add mem d = Some (0, d\<lparr>d_error := PN_OUT_OF_MEMORY\<rparr>) \<and>
      (pni_data_max_nid d \<le> d_size d \<or> (\<exists>n. mem_nodes mem n = None)) \<or>
    (\<exists>d'. pni_data_add mem d = Some (d_size d', d') \<and> added d d' \<and> d_size d < pni_data_max_nid d)"
  using pni_data_new_spec [OF sh, of mem]
proof (elim disjE exE conjE)
  fix d1 assume n: "pni_data_new mem d = Some (d_size d1, d1)" "grew d d1" and lim: "d_size d < pni_data_max_nid d"
  from pni_data_add_grew [OF sh fresh n] lim show ?thesis by (auto elim!: fineE)
qed (use fresh current_links(1) [OF sh] parent_links(1) [OF sh] in
    \<open>auto simp: pni_data_add_def next_id_def node_simps split: if_splits\<close>)

section \<open>The invariant after an addition\<close>

definition typed_except :: "pn_data \<Rightarrow> nat \<Rightarrow> bool" where
  "typed_except d n \<longleftrightarrow> (\<forall>i. 0 < i \<and> i \<le> d_size d \<and> i \<noteq> n \<longrightarrow> typed_nd d i)"

lemma payload_ok_mono:
  "payload_ok n m b ty u \<Longrightarrow> n \<le> n' \<Longrightarrow> m \<le> m' \<Longrightarrow> (b \<longrightarrow> b') \<Longrightarrow> payload_ok n' m' b' ty u"
  unfolding payload_ok_def by (cases ty; cases u) auto

lemma new_parent_simps [simp]:
  "nd_next (new_parent n x) = nd_next x" "nd_prev (new_parent n x) = nd_prev x"
  "nd_parent (new_parent n x) = nd_parent x" "nd_type (new_parent n x) = nd_type x"
  "nd_array_type (new_parent n x) = nd_array_type x"
  by (simp_all add: new_parent_def)

lemma new_parent_down:
  "pni_node_get_down (new_parent n x) =
     (if \<not> compound_type (nd_type x) then 0 else if pni_node_get_down x = 0 then n else pni_node_get_down x)"
proof (cases "compound_type (nd_type x)")
  case False
  then show ?thesis by (simp add: pni_node_get_down_def)
qed (simp add: new_parent_def)

lemma payload_ok_compound:
  "payload_ok n m b ty u \<Longrightarrow> compound_type ty \<Longrightarrow> \<exists>down children scratch. u = As_compound down children scratch \<and> children \<le> n"
  unfolding payload_ok_def by (cases ty; cases u) auto

lemma payload_ok_compoundI:
  "compound_type ty \<Longrightarrow> children \<le> n \<Longrightarrow> payload_ok n m b ty (As_compound down children scratch)"
  unfolding payload_ok_def by (cases ty) auto

lemma new_parent_payload:
  assumes "payload_ok n m b (nd_type x) (nd_u x)" "n < 65535"
  shows "payload_ok (Suc n) m b (nd_type x) (nd_u (new_parent i x))"
proof (cases "compound_type (nd_type x)")
  case True
  from payload_ok_compound [OF assms(1) this] obtain down children scratch
    where u: "nd_u x = As_compound down children scratch" "children \<le> n" by blast
  then have "children + 1 < 2 ^ 16" using assms(2) by simp
  with u True show ?thesis
    by (auto simp: new_parent_def pni_node_inc_children_def pni_node_set_down_def pni_node_get_down_def
        intro!: payload_ok_compoundI)
next
  case False
  then show ?thesis using payload_ok_mono [OF assms(1)]
    by (simp add: new_parent_def pni_node_inc_children_def pni_node_set_down_def)
qed

lemma addedD:
  assumes "added d d'"
  shows "same_rest d d'" "room_ok d'" "d_size d' = Suc (d_size d)" "d_current d' = Suc (d_size d)"
    "nd d' (Suc (d_size d)) = \<lparr>nd_type = T_NULL, nd_array_type = T_UNSET, nd_next = 0, nd_prev = d_current d,
       nd_parent = d_parent d, nd_u = Zero\<rparr>"
    "0 < i \<Longrightarrow> i \<le> d_size d \<Longrightarrow>
       nd d' i = (if i = d_current d then (nd d i)\<lparr>nd_next := Suc (d_size d)\<rparr>
                   else if i = d_parent d then new_parent (Suc (d_size d)) (nd d i) else nd d i)"
  using assms unfolding added_def by auto

lemma added_parents:
  assumes "added d d'" "0 < i" "i \<le> d_size d"
  shows "nd_parent (nd d' i) = nd_parent (nd d i)" "nd_prev (nd d' i) = nd_prev (nd d i)"
  using addedD(6) [OF assms] by simp_all

lemma added_links_new:
  assumes sh: "shape_ok d" and a: "added d d'"
  shows "links_ok d' (Suc (d_size d))"
proof -
  have "nd_parent (nd d' (d_current d)) = d_parent d" if "d_current d \<noteq> 0"
    using that added_parents(1) [OF a, of "d_current d"] shape_okD(11) [OF sh] current_links(3) [OF sh that] by simp
  then show ?thesis
    unfolding links_ok_def Let_def addedD(5) [OF a]
    using shape_okD(10,11) [OF sh] by (auto simp: pni_node_get_down_def)
qed

lemma added_links_old:
  assumes sh: "shape_ok d" and a: "added d d'" and i: "0 < i" "i \<le> d_size d"
  shows "links_ok d' i"
proof -
  note l = links_okD [OF shape_okD(8) [OF sh i]]
  have ne: "d_current d \<noteq> 0 \<Longrightarrow> d_parent d \<noteq> d_current d"
    using current_links [OF sh] links_okD(1) [OF current_links(2) [OF sh]] by simp
  have par: "nd_parent (nd d' (nd_prev (nd d i))) = nd_parent (nd d i)" if "nd_prev (nd d i) \<noteq> 0"
    using added_parents(1) [OF a, of "nd_prev (nd d i)"] l(2,3) i that by simp
  have nxt: "nd_parent (nd d' (nd_next (nd d i))) = nd_parent (nd d i)" if "nd_next (nd d i) \<noteq> 0"
    using added_parents(1) [OF a, of "nd_next (nd d i)"] l(5,6) that by simp
  have dwn: "nd_parent (nd d' (pni_node_get_down (nd d i))) = i" if "pni_node_get_down (nd d i) \<noteq> 0"
    using added_parents(1) [OF a, of "pni_node_get_down (nd d i)"] l(8,9) that by simp
  consider "i = d_current d" | "i \<noteq> d_current d" "i = d_parent d" | "i \<noteq> d_current d" "i \<noteq> d_parent d" by blast
  then show ?thesis
  proof cases
    case 1
    then have "nd d' i = (nd d i)\<lparr>nd_next := Suc (d_size d)\<rparr>" using addedD(6) [OF a i] by simp
    moreover have "nd_parent (nd d i) = d_parent d" using current_links(3) [OF sh] 1 i by simp
    ultimately show ?thesis
      using l par dwn i by (auto simp: links_ok_def Let_def addedD(3) [OF a] addedD(5) [OF a] le_Suc_eq)
  next
    case 2
    then have "nd d' i = new_parent (Suc (d_size d)) (nd d i)" using addedD(6) [OF a i] by simp
    then show ?thesis
      using l par nxt dwn i 2
      by (auto simp: links_ok_def Let_def addedD(3) [OF a] addedD(5) [OF a] new_parent_down le_Suc_eq)
  next
    case 3
    then have "nd d' i = nd d i" using addedD(6) [OF a i] by simp
    then show ?thesis
      using l par nxt dwn i by (auto simp: links_ok_def Let_def addedD(3) [OF a] le_Suc_eq)
  qed
qed

lemma added_shape:
  assumes sh: "shape_ok d" and a: "added d d'"
  shows "shape_ok d'"
proof -
  note inv = shape_okD [OF sh] and r = addedD(1-4) [OF a]
  have "cursor_ok d' (d_base_parent d) (d_base_current d)"
    using inv(6) added_parents(1) [OF a, of "d_base_current d"] r(3) by (auto simp: cursor_ok_def)
  moreover have "cursor_ok d' (d_parent d) (d_current d')"
    using inv(10) r(3,4) addedD(5) [OF a] by (simp add: cursor_ok_def)
  moreover have "links_ok d' i" if "0 < i" "i \<le> d_size d'" for i
    using that r(3) added_links_old [OF sh a] added_links_new [OF sh a] by (cases "i = Suc (d_size d)") auto
  ultimately show ?thesis
    using inv r(1,2,3) by (auto simp: shape_ok_def same_rest_def room_ok_def buf_ok_def)
qed

lemma added_typed:
  assumes inv: "data_inv d" and a: "added d d'"
  shows "typed_except d' (Suc (d_size d))"
proof (unfold typed_except_def, intro allI impI)
  fix i assume "0 < i \<and> i \<le> d_size d' \<and> i \<noteq> Suc (d_size d)"
  then have i: "0 < i" "i \<le> d_size d" using addedD(3) [OF a] by auto
  have sh: "shape_ok d" using inv by (rule data_invD)
  have t: "payload_ok (d_size d) (buf_len d) (d_buf d \<noteq> None) (nd_type (nd d i)) (nd_u (nd d i))"
    using data_invD(2) [OF inv i] by (simp add: typed_nd_def)
  have buf: "d_buf d' = d_buf d" "buf_len d' = buf_len d"
    using addedD(1) [OF a] by (simp_all add: same_rest_def buf_len_def)
  have lt: "d_size d < 65535" using addedD(2,3) [OF a] by (simp add: room_ok_def)
  show "typed_nd d' i"
    unfolding typed_nd_def buf addedD(3) [OF a]
    using addedD(6) [OF a i] new_parent_payload [OF t lt] payload_ok_mono [OF t, of "Suc (d_size d)"] by auto
qed

text \<open>Writing a node without children that keeps its links; filling in the node just added restores the invariant.\<close>

lemma set_shape:
  assumes sh: "shape_ok d" and n: "0 < n" "n \<le> d_size d"
    and same: "nd_next x = nd_next (nd d n)" "nd_prev x = nd_prev (nd d n)" "nd_parent x = nd_parent (nd d n)"
    and down: "pni_node_get_down x = 0"
  shows "shape_ok (set_nd n x d)" "cursor_ok (set_nd n x d) p c = cursor_ok d p c"
proof -
  note inv = shape_okD [OF sh]
  have nn: "in_nodes d n" using inv(9) n by blast
  have par: "nd_parent (nd (set_nd n x d) j) = nd_parent (nd d j)" if "j \<noteq> 0" for j
    using that nn same by (simp add: node_simps)
  then show cur: "cursor_ok (set_nd n x d) p c = cursor_ok d p c" for p c
    by (auto simp: cursor_ok_def)
  have "links_ok (set_nd n x d) i" if i: "0 < i" "i \<le> d_size d" for i
    unfolding links_ok_def Let_def
    using links_okD [OF inv(8) [OF i]] i nn same down by (auto simp: node_simps par)
  with cur show "shape_ok (set_nd n x d)"
    using inv(1-7) by (auto simp: shape_ok_def buf_ok_def)
qed

lemma fill_inv:
  assumes sh: "shape_ok d" and ty: "typed_except d n" and n: "0 < n" "n \<le> d_size d"
    and same: "nd_next x = nd_next (nd d n)" "nd_prev x = nd_prev (nd d n)" "nd_parent x = nd_parent (nd d n)"
    and down: "pni_node_get_down x = 0"
    and ok: "payload_ok (d_size d) (buf_len d) (d_buf d \<noteq> None) (nd_type x) (nd_u x)"
  shows "data_inv (set_nd n x d)"
proof -
  have nn: "in_nodes d n" using shape_okD(9) [OF sh] n by blast
  have "typed_nd (set_nd n x d) i" if i: "0 < i" "i \<le> d_size d" for i
    using ty ok i nn by (auto simp: typed_nd_def typed_except_def node_simps buf_len_def)
  with set_shape(1) [OF sh n same down] show ?thesis by (simp add: data_inv_def)
qed

text \<open>What \<open>pni_data_add\<close> promises to the functions that fill the node in.\<close>

definition ready :: "pn_data \<Rightarrow> nat \<Rightarrow> bool" where
  "ready d n \<longleftrightarrow> shape_ok d \<and> typed_except d n \<and> 0 < n \<and> n = d_current d \<and> nd_u (nd d n) = Zero"

lemma readyD:
  assumes "ready d n"
  shows "shape_ok d" "typed_except d n" "0 < n" "n = d_current d" "n \<le> d_size d" "nd_u (nd d n) = Zero"
    "in_nodes d n"
  using assms shape_okD(9,11) [of d] by (auto simp: ready_def)

lemma moved_shape:
  assumes "shape_ok d" "moved d d'" "cursor_ok d (d_parent d') (d_current d')"
    "cursor_ok d (d_base_parent d') (d_base_current d')"
  shows "shape_ok d'"
  using assms unfolding shape_ok_def
  by (simp add: moved_inv [OF assms(2)]) (simp add: moved_def)

lemma moved_typed_except:
  assumes "moved d d'"
  shows "typed_except d' n = typed_except d n"
proof -
  have "d_size d' = d_size d" using assms by (simp add: moved_def)
  then show ?thesis unfolding typed_except_def moved_inv(2) [OF assms] by simp
qed

lemma add_inv:
  assumes inv: "data_inv d"
  shows "fine (\<lambda>n d'. if n = 0 then data_inv d' else ready d' n \<and> d_buf d' = d_buf d) (pni_data_add mem d)"
proof (cases "next_id d = 0")
  case fresh: True
  have sh: "shape_ok d" using inv by (rule data_invD)
  from pni_data_add_fresh [OF sh fresh, of mem]
  consider (err) "pni_data_add mem d = Some (0, d\<lparr>d_error := PN_OUT_OF_MEMORY\<rparr>)"
    | (ok) d' where "pni_data_add mem d = Some (d_size d', d')" "added d d'" by blast
  then show ?thesis
  proof cases
    case err
    moreover have "data_inv (d\<lparr>d_error := PN_OUT_OF_MEMORY\<rparr>)"
      using shape_okD(5,6) [OF sh] by (intro moved_data_inv [OF inv]) simp_all
    ultimately show ?thesis by simp
  next
    case (ok d')
    note add = ok(1) and a = ok(2)
    have "ready d' (d_size d')"
      using added_shape [OF sh a] added_typed [OF inv a] addedD(3-5) [OF a] by (simp add: ready_def)
    with add addedD(1,3) [OF a] show ?thesis by (simp add: same_rest_def)
  qed
next
  case reuse: False
  have sh: "shape_ok d" using inv by (rule data_invD)
  define n where "n = next_id d"
  have n: "0 < n" "n \<le> d_size d" "nd_parent (nd d n) = d_parent d"
    using next_id_ok [OF sh reuse] reuse by (simp_all add: n_def)
  have nn: "in_nodes d n" using shape_okD(9) [OF sh n(1,2)] .
  let ?x = "(nd d n)\<lparr>nd_u := Zero\<rparr>"
  have ss: "shape_ok (set_nd n ?x d)" "\<And>p c. cursor_ok (set_nd n ?x d) p c = cursor_ok d p c"
    by (rule set_shape [OF sh n(1,2)]; simp)+
  let ?d = "(set_nd n ?x d)\<lparr>d_current := n\<rparr>"
  have "cursor_ok d (d_parent d) n" using n shape_okD(10) [OF sh] by (simp add: cursor_ok_def)
  then have "shape_ok ?d"
    using shape_okD(6) [OF sh] by (intro moved_shape [OF ss(1)]) (simp_all add: ss(2))
  moreover have "typed_except (set_nd n ?x d) n"
    using data_invD(2) [OF inv] nn by (auto simp: typed_except_def typed_nd_def node_simps buf_len_def)
  then have "typed_except ?d n" by (simp only: moved_typed_except [OF moved_simps(1)])
  ultimately have "ready ?d n" using n nn by (simp add: ready_def node_simps)
  then show ?thesis
    using pni_data_add_reuse [OF sh reuse, of mem] n(1) by (simp add: n_def)
qed

lemma put_node_inv:
  assumes inv: "data_inv d"
    and links: "\<And>x. nd_next (fill x) = nd_next x \<and> nd_prev (fill x) = nd_prev x \<and> nd_parent (fill x) = nd_parent x"
    and ok: "\<And>x n m b. nd_u x = Zero \<Longrightarrow>
      pni_node_get_down (fill x) = 0 \<and> payload_ok n m b (nd_type (fill x)) (nd_u (fill x))"
  shows "fine (\<lambda>r d'. (r = 0 \<or> r = PN_OUT_OF_MEMORY) \<and> data_inv d') (put_node mem d fill)"
  unfolding put_node_def
proof (rule fine_bind [OF add_inv [OF inv]])
  fix n d' assume a: "if n = 0 then data_inv d' else ready d' n \<and> d_buf d' = d_buf d"
  have "data_inv (set_nd n (fill (nd d' n)) d')" if "n \<noteq> 0"
    using a that readyD [of d' n] links ok by (intro fill_inv) simp_all
  with a show "fine (\<lambda>r d'. (r = 0 \<or> r = PN_OUT_OF_MEMORY) \<and> data_inv d')
      (if n = 0 then Some (PN_OUT_OF_MEMORY, d') else wr d' n fill \<bind> (\<lambda>d. Some (0, d)))"
    by (auto simp: wr_in readyD(7))
qed

section \<open>The string buffer\<close>

lemma append_capacity:
  assumes inv: "buf_inv b" and run: "pn_buffer_append alloc b (Outside bs) = (err, b')"
  shows "buf_capacity b \<le> buf_capacity b'"
proof (cases "bs = [] \<or> err \<noteq> 0")
  case True
  then show ?thesis
    using append_spec [OF inv run] run by (auto simp: pn_buffer_append_def)
next
  case False
  obtain e b1 where en: "pn_buffer_ensure alloc b (length bs) = (e, b1)" by force
  have e: "e = 0" using run False en by (cases "e = 0") (simp_all add: pn_buffer_append_def Let_def)
  have b': "b' = stored b1 bs" using append_stored [OF inv, of alloc bs b1] en e False run by simp
  have "buf_capacity b \<le> buf_capacity b1"
  proof (cases "length bs \<le> buf_capacity b - buf_size b")
    case True
    then show ?thesis using en by (simp add: pn_buffer_ensure_def available_inv [OF inv])
  next
    case small: False
    have "length bs \<le> buf_capacity b1 - buf_size b1" "buf_size b1 = buf_size b"
      using ensure_spec [OF inv en] e by (auto simp flip: length_buf_content)
    with small show ?thesis by linarith
  qed
  then show ?thesis by (simp add: b' stored_def Let_def)
qed

text \<open>Storing bytes: the offset and the new content, or a reason for the failure.\<close>

definition intern_refused :: "data_mem \<Rightarrow> pn_data \<Rightarrow> byte list \<Rightarrow> bool" where
  "intern_refused mem d bs \<longleftrightarrow> 0 < d_max_buf_size d \<and> d_max_buf_size d < buf_len d + length bs \<or>
     2 ^ 31 < buf_len d + length bs + 1 \<or> (\<exists>k. mem_grow mem k = None)"

lemma append_refused:
  assumes inv: "buf_inv b" and run: "pn_buffer_append alloc b (Outside bs) = (err, b')" and "err \<noteq> 0"
  shows "2 ^ 31 < buf_size b + length bs \<or> (\<exists>k. alloc k = None)"
  using append_ok [OF inv, of bs alloc] run assms(3) by (metis fst_conv not_le)

lemma intern_spec:
  assumes d: "d_buf d = Some b" and inv: "buf_inv b" and len: "length bs < 2 ^ 31"
  shows "\<exists>r b'. pni_data_intern mem d bs = Some (r, d\<lparr>d_buf := Some b'\<rparr>) \<and> buf_inv b' \<and>
    buf_capacity b \<le> buf_capacity b' \<and>
    (r = int (buf_size b) \<and> buf_content b' = buf_content b @ bs @ [0] \<or>
     r = PN_OUT_OF_MEMORY \<and> (\<exists>x. buf_content b' = buf_content b @ x) \<and> intern_refused mem d bs)"
proof -
  have "buf_size b < 2 ^ 32" using buf_invD(2,3) [OF inv] by simp
  then have nowrap: "wrap64 (buf_size b + length bs) = buf_size b + length bs" using len by (simp add: wrap64_id)
  have bl: "buf_len d = buf_size b" using d by (simp add: buf_len_def)
  show ?thesis
  proof (cases "0 < d_max_buf_size d \<and> d_max_buf_size d < buf_size b + length bs")
    case True
    then have "pni_data_intern mem d bs = Some (PN_OUT_OF_MEMORY, d\<lparr>d_buf := Some b\<rparr>)"
      using d by (simp add: pni_data_intern_def pn_buffer_size_def nowrap)
    with True inv show ?thesis by (intro exI [of _ PN_OUT_OF_MEMORY] exI [of _ b]) (simp add: intern_refused_def bl)
  next
    case False
    obtain e1 b1 where r1: "pn_buffer_append (mem_grow mem) b (Outside bs) = (e1, b1)" by force
    obtain e2 b2 where r2: "pn_buffer_append (mem_grow mem) b1 (Outside [0]) = (e2, b2)" by force
    note s1 = append_spec [OF inv r1] append_capacity [OF inv r1]
    have inv1: "buf_inv b1" using s1 by blast
    note s2 = append_spec [OF inv1 r2] append_capacity [OF inv1 r2]
    have eq: "pni_data_intern mem d bs =
      (if e1 \<noteq> 0 then Some (e1, d\<lparr>d_buf := Some b1\<rparr>)
       else if e2 \<noteq> 0 then Some (e2, d\<lparr>d_buf := Some b2\<rparr>) else Some (int (buf_size b), d\<lparr>d_buf := Some b2\<rparr>))"
      using d False by (auto simp: pni_data_intern_def pn_buffer_size_def nowrap r1 r2 Let_def)
    show ?thesis
    proof (cases "e1 = 0")
      case e1: False
      then have "intern_refused mem d bs"
        using append_refused [OF inv r1] by (auto simp: intern_refused_def bl)
      with e1 s1 eq show ?thesis by (intro exI [of _ e1] exI [of _ b1]) auto
    next
      case e1: True
      then have c1: "buf_content b1 = buf_content b @ bs" using s1 by auto
      have z1: "buf_size b1 = buf_size b + length bs" using arg_cong [OF c1, of length] by simp
      show ?thesis
      proof (cases "e2 = 0")
        case True
        with e1 s1 s2 eq c1 show ?thesis by (intro exI [of _ "int (buf_size b)"] exI [of _ b2]) auto
      next
        case e2: False
        then have "intern_refused mem d bs"
          using append_refused [OF inv1 r2] z1 by (auto simp: intern_refused_def bl)
        with e1 e2 s1 s2 eq c1 show ?thesis by (intro exI [of _ e2] exI [of _ b2]) auto
      qed
    qed
  qed
qed

fun string_type :: "pn_type \<Rightarrow> bool" where
  "string_type T_BINARY = True"
| "string_type T_STRING = True"
| "string_type T_SYMBOL = True"
| "string_type T_DECIMAL128 = True"
| "string_type T_UUID = True"
| "string_type _ = False"

lemma payload_ok_string:
  assumes "string_type ty"
  shows "payload_ok n m b ty Zero = b"
    "ty \<in> {T_DECIMAL128, T_UUID} \<longrightarrow> sz = 16 \<Longrightarrow> off + sz \<le> m \<Longrightarrow> payload_ok n m True ty (As_bytes off sz)"
  using assms by (cases ty; simp add: payload_ok_def)+

lemma string_not_compound: "string_type ty \<Longrightarrow> \<not> compound_type ty"
  by (cases ty) simp_all

text \<open>A larger buffer keeps the rest of the object as it was.\<close>

lemma buffer_ready:
  assumes r: "ready d n" and b: "buf_inv b" "64 \<le> buf_capacity b" "buf_len d \<le> buf_size b"
  shows "ready (d\<lparr>d_buf := Some b\<rparr>) n"
proof -
  have "links_ok (d\<lparr>d_buf := Some b\<rparr>) i = links_ok d i" "cursor_ok (d\<lparr>d_buf := Some b\<rparr>) p c = cursor_ok d p c" for i p c
    by (simp_all add: links_ok_def cursor_ok_def Let_def)
  moreover have "typed_nd (d\<lparr>d_buf := Some b\<rparr>) i" if "typed_nd d i" for i
    using that b(3) unfolding typed_nd_def by (auto elim!: payload_ok_mono simp: buf_len_def)
  ultimately show ?thesis
    using r b unfolding ready_def shape_ok_def typed_except_def by (auto simp: buf_ok_def)
qed

lemma intern_node_inv:
  assumes r: "ready d n" and ty: "string_type (nd_type (nd d n))"
    and len: "length bs < 2 ^ 31" "nd_type (nd d n) \<in> {T_DECIMAL128, T_UUID} \<longrightarrow> length bs = 16"
    and new: "d_buf d = None \<Longrightarrow> mem_new mem (max (length bs + 1) 64) \<noteq> None"
  shows "fine (\<lambda>e d'. (e = 0 \<or> e = PN_OUT_OF_MEMORY) \<and> data_inv d') (pni_data_intern_node mem d n bs)"
proof -
  define d1 where "d1 = (if d_buf d = None
    then d\<lparr>d_buf := pn_buffer_new (mem_new mem) (max (length bs + 1) 64)\<rparr> else d)"
  have "\<exists>b. d_buf d1 = Some b \<and> buf_inv b \<and> 64 \<le> buf_capacity b \<and> ready d1 n"
  proof (cases "d_buf d")
    case None
    have "0 < max (length bs + 1) 64" by simp
    then obtain b where b: "pn_buffer_new (mem_new mem) (max (length bs + 1) 64) = Some b"
      using new [OF None] unfolding pn_buffer_new_def mem_alloc_def by auto
    have "buf_inv b \<and> buf_capacity b = max (length bs + 1) 64" using new_spec [OF b] len(1) by simp
    moreover from this have "ready (d\<lparr>d_buf := Some b\<rparr>) n" using None by (intro buffer_ready [OF r]) (auto simp: buf_len_def)
    ultimately show ?thesis using None b by (simp add: d1_def)
  next
    case (Some b)
    then show ?thesis using r shape_okD(7) [OF readyD(1) [OF r]] by (simp add: d1_def buf_ok_def)
  qed
  then obtain b where b: "d_buf d1 = Some b" "buf_inv b" "64 \<le> buf_capacity b" and r1: "ready d1 n" by blast
  have nd1: "nd d1 i = nd d i" for i by (simp add: d1_def)
  from intern_spec [OF b(1,2) len(1), of mem] obtain e b' where
    i: "pni_data_intern mem d1 bs = Some (e, d1\<lparr>d_buf := Some b'\<rparr>)" "buf_inv b'" "buf_capacity b \<le> buf_capacity b'"
    and res: "e = int (buf_size b) \<and> buf_content b' = buf_content b @ bs @ [0] \<or>
      e = PN_OUT_OF_MEMORY \<and> (\<exists>x. buf_content b' = buf_content b @ x)" by blast
  have le: "buf_size b \<le> buf_size b'" using res by (auto dest!: arg_cong [where f = length])
  let ?d2 = "d1\<lparr>d_buf := Some b'\<rparr>"
  have r2: "ready ?d2 n" using i b(3) le b(1) by (intro buffer_ready [OF r1]) (auto simp: buf_len_def)
  have eq: "pni_data_intern_node mem d n bs =
      (if e < 0 then Some (e, ?d2\<lparr>d_error := PN_OUT_OF_MEMORY\<rparr>)
       else Some (0, set_nd n ((nd d n)\<lparr>nd_u := As_bytes (wrap32 (nat e)) (wrap32 (length bs))\<rparr>) ?d2))"
    unfolding pni_data_intern_node_def Let_def PNI_INTERN_MINSIZE_def d1_def [symmetric]
    using readyD(7) [OF r2] by (simp add: i(1) wr_in nd1)
  show ?thesis
  proof (cases "e < 0")
    case True
    then have e: "e = PN_OUT_OF_MEMORY" using res by auto
    have "data_inv (set_nd n (nd d n) ?d2)"
      using ty readyD [OF r2] readyD(6) [OF r] string_not_compound [OF ty]
      by (intro fill_inv) (simp_all add: nd1 payload_ok_string pni_node_get_down_def)
    moreover have "set_nd n (nd d n) ?d2 = ?d2"
      using readyD(7) [OF r2] by (simp add: set_nd_def nd_def d1_def)
    ultimately have inv2: "data_inv ?d2" by simp
    then have "data_inv (?d2\<lparr>d_error := PN_OUT_OF_MEMORY\<rparr>)"
      using shape_okD(5,6) [OF data_invD(1) [OF inv2]] by (intro moved_data_inv [OF inv2]) simp_all
    with True e eq show ?thesis by simp
  next
    case False
    then have e: "e = int (buf_size b)" "buf_content b' = buf_content b @ bs @ [0]" using res by auto
    have sz: "buf_size b' = buf_size b + length bs + 1" using arg_cong [OF e(2), of length] by simp
    have w: "wrap32 (buf_size b) = buf_size b" "wrap32 (length bs) = length bs"
      using buf_invD(2,3) [OF b(2)] len(1) by (simp_all add: wrap32_id)
    have "payload_ok (d_size ?d2) (buf_len ?d2) (d_buf ?d2 \<noteq> None) (nd_type (nd d n)) (As_bytes (buf_size b) (length bs))"
      using len(2) sz payload_ok_string(2) [OF ty] by (simp add: buf_len_def)
    then have "data_inv (set_nd n ((nd d n)\<lparr>nd_u := As_bytes (buf_size b) (length bs)\<rparr>) ?d2)"
      using readyD [OF r2] string_not_compound [OF ty]
      by (intro fill_inv) (simp_all add: nd1 pni_node_get_down_def)
    with eq e w show ?thesis by simp
  qed
qed

lemma put_bytes_inv:
  assumes inv: "data_inv d" and ty: "string_type ty" and len: "length bs < 2 ^ 31"
    "ty \<in> {T_DECIMAL128, T_UUID} \<longrightarrow> length bs = 16"
    and new: "d_buf d = None \<Longrightarrow> mem_new mem (max (length bs + 1) 64) \<noteq> None"
  shows "fine (\<lambda>e d'. (e = 0 \<or> e = PN_OUT_OF_MEMORY) \<and> data_inv d') (put_bytes mem d ty bs)"
  unfolding put_bytes_def
proof (rule fine_bind [OF add_inv [OF inv]])
  fix n d' assume a: "if n = 0 then data_inv d' else ready d' n \<and> d_buf d' = d_buf d"
  let ?d1 = "set_nd n ((nd d' n)\<lparr>nd_type := ty\<rparr>) d'"
  have "ready ?d1 n" if "n \<noteq> 0"
  proof -
    have r: "ready d' n" using a that by simp
    have sh: "shape_ok ?d1"
      using readyD [OF r] string_not_compound [OF ty] by (intro set_shape) (simp_all add: pni_node_get_down_def)
    have "typed_except ?d1 n"
      using readyD(2,7) [OF r] by (auto simp: typed_except_def typed_nd_def node_simps buf_len_def)
    then show ?thesis using sh readyD [OF r] by (simp add: ready_def node_simps)
  qed
  then show "fine (\<lambda>e d'. (e = 0 \<or> e = PN_OUT_OF_MEMORY) \<and> data_inv d')
      (if n = 0 then Some (PN_OUT_OF_MEMORY, d')
       else wr d' n (nd_type_update (\<lambda>_. ty)) \<bind> (\<lambda>d. pni_data_intern_node mem d n bs))"
    using a ty len new intern_node_inv [of ?d1 n bs mem] by (cases "n = 0") (simp_all add: wr_in readyD(7) node_simps)
qed

end
