(* ===== verification/Data_Runs.thy ===== *)
theory Data_Runs
  imports Data_Inv
begin

text \<open>
  Sequences of calls on a data object. Every operation of the interface keeps the invariant of
  \<open>Data_Inv\<close> and stays inside the memory of the object, whatever the memory allocator does; the one
  allocation that the code does not check, the creation of the string buffer, is assumed to succeed.
\<close>

section \<open>Resetting\<close>

lemma new_inv:
  assumes "capacity < 2 ^ 16" "capacity = 0 \<or> mem_nodes mem capacity \<noteq> None"
  shows "data_inv (pn_data_new mem capacity)"
  using assms by (auto simp: data_inv_def shape_ok_def pn_data_new_def cursor_ok_def buf_ok_def)

lemma clear_inv:
  assumes "data_inv d"
  shows "data_inv (pn_data_clear d)"
proof -
  have "buf_ok (pn_data_clear d)"
    using shape_okD(7) [OF data_invD(1) [OF assms]] clear_spec
    by (auto simp: buf_ok_def pn_data_clear_def split: option.splits) (simp add: pn_buffer_clear_def)
  then show ?thesis
    using shape_okD(1-4) [OF data_invD(1) [OF assms]]
    by (simp add: data_inv_def shape_ok_def pn_data_clear_def cursor_ok_def)
qed

text \<open>Objects with the same nodes up to the size.\<close>

lemma nodes_inv:
  assumes inv: "data_inv d" and nd: "\<And>i. 0 < i \<Longrightarrow> i \<le> d_size d \<Longrightarrow> nd d' i = nd d i"
    and rest: "d_size d' = d_size d" "d_parent d' = d_parent d" "d_current d' = d_current d"
      "d_base_parent d' = d_base_parent d" "d_base_current d' = d_base_current d" "d_max_nid d' \<le> 65535" "room_ok d'"
    and buf: "buf_ok d'" "buf_len d \<le> buf_len d'" "d_buf d \<noteq> None \<longrightarrow> d_buf d' \<noteq> None"
  shows "data_inv d'"
proof -
  note sh = shape_okD [OF data_invD(1) [OF inv]]
  have links: "links_ok d' i" if i: "0 < i" "i \<le> d_size d" for i
    using links_okD [OF sh(8) [OF i]] i by (auto simp: links_ok_def Let_def nd rest)
  have cur: "cursor_ok d' p c = cursor_ok d p c" for p c by (auto simp: cursor_ok_def nd rest)
  have "typed_nd d' i" if "0 < i" "i \<le> d_size d" for i
    using payload_ok_mono [OF data_invD(2) [OF inv that, unfolded typed_nd_def] order.refl buf(2)] buf(3)
    unfolding typed_nd_def nd [OF that] rest by simp
  with links cur rest buf sh(5,6) show ?thesis by (simp add: data_inv_def shape_ok_def room_ok_def)
qed

lemma limits_inv:
  assumes inv: "data_inv d"
  shows "data_inv (pn_data_set_decode_limits mem d n m)"
proof -
  note sh = shape_okD [OF data_invD(1) [OF inv]]
  let ?d = "d\<lparr>d_max_nid := min n PNI_NID_MAX, d_max_buf_size := m\<rparr>"
  have base: "data_inv ?d"
    using sh by (intro nodes_inv [OF inv]) (auto simp: nd_def room_ok_def buf_ok_def buf_len_def)
  define c where "c = max (d_size d) (min n PNI_NID_MAX)"
  have "data_inv (?d\<lparr>d_nodes := xs, d_capacity := c\<rparr>)"
    if c: "c < d_capacity d" and r: "node_realloc mem (d_nodes d) c = Some xs" for xs
  proof (rule nodes_inv [OF base])
    fix i assume "0 < i" "i \<le> d_size ?d"
    then have "i - 1 < d_size d" by simp
    then have "i - 1 < length (d_nodes d)" "i - 1 < c" using sh(1,3) by (simp_all add: c_def)
    from nth_node_realloc [OF r this] show "nd (?d\<lparr>d_nodes := xs, d_capacity := c\<rparr>) i = nd ?d i"
      by (simp add: nd_def)
  qed (use c sh(2,7) length_node_realloc [OF r] in \<open>auto simp: room_ok_def c_def buf_ok_def buf_len_def\<close>)
  with base show ?thesis
    unfolding pn_data_set_decode_limits_def Let_def by (auto simp: c_def split: option.splits)
qed

section \<open>Reading\<close>

lemma get_current_fine:
  assumes "data_inv d"
  shows "\<exists>x. get_current d dflt f = Some x"
  using current_links(1) [OF data_invD(1) [OF assms]] by (auto simp: get_current_def rd_in)

lemma pni_node_bytes_eq:
  assumes ok: "buf_ok d" and b: "d_buf d = Some b" and off: "off + sz \<le> buf_size b \<or> off + sz \<le> 64"
  shows "\<exists>b' bs. pni_node_bytes d off sz = Some (Some bs, d\<lparr>d_buf := Some b'\<rparr>) \<and> buf_inv b' \<and>
    buf_capacity b' = buf_capacity b \<and> buf_content b' = buf_content b \<and> length bs = sz \<and>
    (off + sz \<le> buf_size b \<longrightarrow> bs = take sz (drop off (buf_content b)))"
proof -
  have inv: "buf_inv b" "64 \<le> buf_capacity b" using ok b by (simp_all add: buf_ok_def)
  obtain b' where b': "pn_buffer_defrag b = Some b'" "buf_inv b'" "buf_content b' = buf_content b"
    "buf_content b' = take (buf_size b') (buf_bytes b')" "buf_capacity b' = buf_capacity b"
    using defrag_spec [OF inv(1)] by metis
  have sz: "buf_size b' = buf_size b" using arg_cong [OF b'(3), of length] by simp
  have len: "off + sz \<le> length (buf_bytes b')"
    using off inv(2) buf_invD(1,3) [OF b'(2)] b'(5) sz by auto
  have "take sz (drop off (buf_bytes b')) = take sz (drop off (buf_content b))" if "off + sz \<le> buf_size b"
    using that sz unfolding b'(3) [symmetric] b'(4) by (simp add: drop_take min_absorb1)
  with len show ?thesis
    using b b'(1,2,3,5)
    by (intro exI [of _ b'] exI [of _ "take sz (drop off (buf_bytes b'))"])
      (simp add: pni_node_bytes_def pn_buffer_bytes_def)
qed

lemma buffer_inv:
  assumes inv: "data_inv d" and b: "buf_inv b" "64 \<le> buf_capacity b" "buf_len d \<le> buf_size b"
  shows "data_inv (d\<lparr>d_buf := Some b\<rparr>)"
  using shape_okD [OF data_invD(1) [OF inv]] b
  by (intro nodes_inv [OF inv]) (simp_all add: room_ok_def buf_ok_def buf_len_def)

lemma node_bytes_inv:
  assumes inv: "data_inv d" and b: "d_buf d \<noteq> None" and off: "off + sz \<le> buf_len d \<or> off + sz \<le> 64"
  shows "fine (\<lambda>_. data_inv) (pni_node_bytes d off sz)"
proof -
  obtain b where b: "d_buf d = Some b" using b by blast
  have ok: "buf_ok d" using shape_okD(7) [OF data_invD(1) [OF inv]] .
  obtain b' bs where *: "pni_node_bytes d off sz = Some (Some bs, d\<lparr>d_buf := Some b'\<rparr>)" "buf_inv b'"
    "buf_capacity b' = buf_capacity b" "buf_content b' = buf_content b"
    using pni_node_bytes_eq [OF ok b, of off sz] off b by (auto simp: buf_len_def)
  have "buf_size b' = buf_size b" using arg_cong [OF *(4), of length] by simp
  then have "data_inv (d\<lparr>d_buf := Some b'\<rparr>)"
    using * ok b by (intro buffer_inv [OF inv]) (auto simp: buf_ok_def buf_len_def)
  with * show ?thesis by simp
qed

lemma current_typed:
  assumes "data_inv d" "d_current d \<noteq> 0"
  shows "typed_nd d (d_current d)" "in_nodes d (d_current d)"
  using data_invD [OF assms(1)] shape_okD(9,11) [of d] assms(2) by auto

lemma string_node_bytes:
  assumes inv: "data_inv d" and c: "d_current d \<noteq> 0" and ty: "string_type (nd_type (nd d (d_current d)))"
  shows "d_buf d \<noteq> None" "fst (as_bytes (nd_u (nd d (d_current d)))) + snd (as_bytes (nd_u (nd d (d_current d)))) \<le> buf_len d"
    "nd_type (nd d (d_current d)) \<in> {T_DECIMAL128, T_UUID} \<Longrightarrow>
       fst (as_bytes (nd_u (nd d (d_current d)))) + 16 \<le> buf_len d \<or> fst (as_bytes (nd_u (nd d (d_current d)))) + 16 \<le> 64"
  using current_typed(1) [OF inv c] ty
  by (cases "nd_type (nd d (d_current d))"; cases "nd_u (nd d (d_current d))"; simp add: typed_nd_def payload_ok_def)+

lemma get_sixteen_inv:
  assumes inv: "data_inv d" and ty: "ty \<in> {T_DECIMAL128, T_UUID}"
  shows "fine (\<lambda>_. data_inv) (get_sixteen ty d)"
proof (cases "d_current d = 0")
  case False
  note c = current_typed(2) [OF inv False]
  show ?thesis
  proof (cases "nd_type (nd d (d_current d)) = ty")
    case True
    then have "fine (\<lambda>_. data_inv) (pni_node_bytes d (fst (as_bytes (nd_u (nd d (d_current d))))) 16)"
      using ty string_node_bytes [OF inv False] by (intro node_bytes_inv [OF inv]) auto
    then show ?thesis
      using False True c by (auto simp: get_sixteen_def get_current_def rd_in elim!: fineE)
  qed (use inv False c in \<open>auto simp: get_sixteen_def get_current_def rd_in\<close>)
qed (use inv in \<open>simp add: get_sixteen_def get_current_def\<close>)

lemma get_string_bytes_inv:
  assumes inv: "data_inv d" and ty: "\<And>t. tys t \<Longrightarrow> string_type t"
  shows "fine (\<lambda>_. data_inv) (get_string_bytes tys d)"
proof (cases "d_current d = 0")
  case False
  note c = current_typed(2) [OF inv False]
  show ?thesis
  proof (cases "tys (nd_type (nd d (d_current d)))")
    case True
    obtain off sz where o: "as_bytes (nd_u (nd d (d_current d))) = (off, sz)" by force
    then have "fine (\<lambda>_. data_inv) (pni_node_bytes d off sz)"
      using ty [OF True] string_node_bytes(1,2) [OF inv False] by (intro node_bytes_inv [OF inv]) auto
    then show ?thesis
      using False True c o by (simp add: get_string_bytes_def get_current_def rd_in)
  qed (use inv False c in \<open>simp add: get_string_bytes_def get_current_def rd_in\<close>)
qed (use inv in \<open>simp add: get_string_bytes_def get_current_def\<close>)

text \<open>The cursor moves forward, so the search of a key ends.\<close>

lemma next_forward:
  assumes inv: "data_inv d" and "pn_data_next d = Some (r, d')"
  shows "data_inv d' \<and> d_size d' = d_size d \<and> (if r then d_current d < d_current d' \<and> d_current d' \<le> d_size d else d' = d)"
proof -
  have sh: "shape_ok d" using inv by (rule data_invD)
  have "d_current d < next_id d" if "next_id d \<noteq> 0"
    using links_okD(4) [OF current_links(2) [OF sh]] that by (cases "d_current d = 0") (auto simp: next_id_def)
  then show ?thesis
    using assms(2) data_next_inv [OF inv] next_id_ok [OF sh] by (auto simp: pn_data_next_eq [OF sh] split: if_splits)
qed

lemma pni_node_bytes_cursor:
  assumes "pni_node_bytes d off sz = Some (bs, d')"
  shows "d_current d' = d_current d" "d_size d' = d_size d"
  using assms by (auto simp: pni_node_bytes_def bind_eq_Some_conv split: option.splits if_splits)

lemma get_bytes_cursor:
  assumes "pn_data_get_bytes d = Some (bs, d')"
  shows "d_current d' = d_current d" "d_size d' = d_size d"
  using assms
  by (auto simp: pn_data_get_bytes_def get_string_bytes_def bind_eq_Some_conv Let_def split_def
      dest: pni_node_bytes_cursor split: option.splits if_splits)

lemma pn_data_get_bytes_inv: "data_inv d \<Longrightarrow> fine (\<lambda>_. data_inv) (pn_data_get_bytes d)"
  unfolding pn_data_get_bytes_def by (rule get_string_bytes_inv) auto

lemma pn_data_type_fine:
  assumes "data_inv d"
  shows "\<exists>ty. pn_data_type d = Some ty"
  using current_links(1) [OF data_invD(1) [OF assms]] by (cases "d_current d = 0") (simp_all add: pn_data_type_def rd_in)

lemma lookup_loop_inv:
  assumes "data_inv d" "d_size d < d_current d + fuel"
  shows "fine (\<lambda>_. data_inv) (lookup_loop fuel d name)"
  using assms
proof (induction fuel arbitrary: d)
  case 0
  then show ?case using shape_okD(11) [OF data_invD(1) [OF 0(1)]] by simp
next
  case (Suc fuel)
  obtain r d1 where n1: "pn_data_next d = Some (r, d1)" using data_next_inv [OF Suc(2)] by (elim fineE)
  note f1 = next_forward [OF Suc(2) n1]
  show ?case
  proof (cases r)
    case False
    then show ?thesis using n1 f1 by auto
  next
    case r: True
    then have d1: "data_inv d1" "d_size d1 < d_current d1 + fuel" using f1 Suc(3) by auto
    obtain ty where ty: "pn_data_type d1 = Some ty" using pn_data_type_fine [OF d1(1)] by blast
    define got where "got = (if ty = T_STRING \<or> ty = T_SYMBOL
      then pn_data_get_bytes d1 \<bind> (\<lambda>(bs, d). Some (pn_bytes_equal bs (Some name), d)) else Some (False, d1))"
    have "fine (\<lambda>_ d'. data_inv d' \<and> d_size d' < d_current d' + fuel) got"
      using pn_data_get_bytes_inv [OF d1(1)] d1 by (auto simp: got_def get_bytes_cursor elim!: fineE)
    then obtain hit d2 where got': "got = Some (hit, d2)" and d2: "data_inv d2" "d_size d2 < d_current d2 + fuel"
      by (elim fineE) simp
    obtain r3 d3 where n3: "pn_data_next d2 = Some (r3, d3)" using data_next_inv [OF d2(1)] by (elim fineE)
    note f3 = next_forward [OF d2(1) n3]
    have "data_inv d3" "d_size d3 < d_current d3 + fuel" using f3 d2 by (auto split: if_splits)
    then show ?thesis
      using n1 r ty got' n3 Suc.IH [of d3] by (simp flip: got_def)
  qed
qed

section \<open>Calls\<close>

datatype data_op =
    D_put pn_atom | D_put_list | D_put_map | D_put_described | D_put_array bool pn_type
  | D_next | D_prev | D_enter | D_exit | D_rewind | D_narrow | D_widen | D_restore int
  | D_clear | D_limits nat nat | D_bytes | D_uuid | D_decimal128 | D_lookup "byte list"

text \<open>The put functions for the scalar types.\<close>

definition put_scalar :: "data_mem \<Rightarrow> pn_data \<Rightarrow> pn_atom \<Rightarrow> (int \<times> pn_data) option" where
  "put_scalar mem d a =
     (case a of
        PN_NULL \<Rightarrow> pn_data_put_null mem d
      | PN_BOOL b \<Rightarrow> pn_data_put_bool mem d b
      | PN_UBYTE x \<Rightarrow> pn_data_put_ubyte mem d x
      | PN_BYTE x \<Rightarrow> pn_data_put_byte mem d x
      | PN_USHORT x \<Rightarrow> pn_data_put_ushort mem d x
      | PN_SHORT x \<Rightarrow> pn_data_put_short mem d x
      | PN_UINT x \<Rightarrow> pn_data_put_uint mem d x
      | PN_INT x \<Rightarrow> pn_data_put_int mem d x
      | PN_CHAR x \<Rightarrow> pn_data_put_char mem d x
      | PN_ULONG x \<Rightarrow> pn_data_put_ulong mem d x
      | PN_LONG x \<Rightarrow> pn_data_put_long mem d x
      | PN_TIMESTAMP x \<Rightarrow> pn_data_put_timestamp mem d x
      | PN_FLOAT x \<Rightarrow> pn_data_put_float mem d x
      | PN_DOUBLE x \<Rightarrow> pn_data_put_double mem d x
      | PN_DECIMAL32 x \<Rightarrow> pn_data_put_decimal32 mem d x
      | PN_DECIMAL64 x \<Rightarrow> pn_data_put_decimal64 mem d x
      | PN_DECIMAL128 bs \<Rightarrow> pn_data_put_decimal128 mem d bs
      | PN_UUID bs \<Rightarrow> pn_data_put_uuid mem d bs
      | PN_BINARY bs \<Rightarrow> pn_data_put_binary mem d bs
      | PN_STRING bs \<Rightarrow> pn_data_put_string mem d bs
      | PN_SYMBOL bs \<Rightarrow> pn_data_put_symbol mem d bs)"

fun atom_bytes :: "pn_atom \<Rightarrow> byte list option" where
  "atom_bytes (PN_DECIMAL128 bs) = Some bs"
| "atom_bytes (PN_UUID bs) = Some bs"
| "atom_bytes (PN_BINARY bs) = Some (bytes_data bs)"
| "atom_bytes (PN_STRING bs) = Some (bytes_data bs)"
| "atom_bytes (PN_SYMBOL bs) = Some (bytes_data bs)"
| "atom_bytes _ = None"

lemma put_scalar_eq:
  "put_scalar mem d a =
     (case atom_bytes a of
        None \<Rightarrow> put_node mem d (\<lambda>x. if a = PN_NULL then x\<lparr>nd_type := T_NULL\<rparr>
                                   else x\<lparr>nd_type := atom_type a, nd_u := atom_payload a\<rparr>)
      | Some bs \<Rightarrow> put_bytes mem d (atom_type a) bs)"
  by (cases a)
    (simp_all add: put_scalar_def pn_data_put_null_def pn_data_put_bool_def pn_data_put_ubyte_def
      pn_data_put_byte_def pn_data_put_ushort_def pn_data_put_short_def pn_data_put_uint_def pn_data_put_int_def
      pn_data_put_char_def pn_data_put_ulong_def pn_data_put_long_def pn_data_put_timestamp_def
      pn_data_put_float_def pn_data_put_double_def pn_data_put_decimal32_def pn_data_put_decimal64_def
      pn_data_put_decimal128_def pn_data_put_uuid_def pn_data_put_binary_def pn_data_put_string_def
      pn_data_put_symbol_def)

text \<open>Storing any atom with \<open>pn_data_put_atom\<close> is the same as the put function of its type.\<close>

lemma pn_data_put_atom_eq: "a \<noteq> PN_NULL \<Longrightarrow> pn_data_put_atom mem d a = put_scalar mem d a"
  by (cases a)
    (simp_all add: put_scalar_eq pn_data_put_atom_def pn_data_put_decimal128_def pn_data_put_uuid_def
      pn_data_put_binary_def pn_data_put_string_def pn_data_put_symbol_def)

definition bool_code :: "(bool \<times> pn_data) option \<Rightarrow> (int \<times> pn_data) option" where
  "bool_code = map_option (\<lambda>(r, d). (of_bool r, d))"

fun data_exec :: "data_mem \<Rightarrow> data_op \<Rightarrow> pn_data \<Rightarrow> (int \<times> pn_data) option" where
  "data_exec mem (D_put a) d = put_scalar mem d a"
| "data_exec mem D_put_list d = pn_data_put_list mem d"
| "data_exec mem D_put_map d = pn_data_put_map mem d"
| "data_exec mem D_put_described d = pn_data_put_described mem d"
| "data_exec mem (D_put_array described ty) d = pn_data_put_array mem d described ty"
| "data_exec mem D_next d = bool_code (pn_data_next d)"
| "data_exec mem D_prev d = bool_code (pn_data_prev d)"
| "data_exec mem D_enter d = bool_code (Some (pn_data_enter d))"
| "data_exec mem D_exit d = bool_code (pn_data_exit d)"
| "data_exec mem D_rewind d = Some (0, pn_data_rewind d)"
| "data_exec mem D_narrow d = Some (0, pn_data_narrow d)"
| "data_exec mem D_widen d = Some (0, pn_data_widen d)"
| "data_exec mem (D_restore point) d = bool_code (pn_data_restore d point)"
| "data_exec mem D_clear d = Some (0, pn_data_clear d)"
| "data_exec mem (D_limits n m) d = Some (0, pn_data_set_decode_limits mem d n m)"
| "data_exec mem D_bytes d = map_option (\<lambda>(_, d). (0, d)) (pn_data_get_bytes d)"
| "data_exec mem D_uuid d = map_option (\<lambda>(_, d). (0, d)) (pn_data_get_uuid d)"
| "data_exec mem D_decimal128 d = map_option (\<lambda>(_, d). (0, d)) (pn_data_get_decimal128 d)"
| "data_exec mem (D_lookup name) d = bool_code (pn_data_lookup d name)"

text \<open>
  The calls a client may make: decimals and uuids have 16 bytes and strings are shorter than 2 GiB, a
  handle for a position inside a compound is restored only while that compound exists, and the first
  allocation of the string buffer succeeds.
\<close>

fun data_allowed :: "data_mem \<Rightarrow> data_op \<Rightarrow> pn_data \<Rightarrow> bool" where
  "data_allowed mem (D_put a) d =
     (case atom_bytes a of
        None \<Rightarrow> True
      | Some bs \<Rightarrow> length bs < 2 ^ 31 \<and> (atom_type a \<in> {T_DECIMAL128, T_UUID} \<longrightarrow> length bs = 16) \<and>
          (d_buf d = None \<longrightarrow> mem_new mem (max (length bs + 1) 64) \<noteq> None))"
| "data_allowed mem (D_restore point) d = (- int (d_size d) \<le> point)"
| "data_allowed mem _ d = True"

text \<open>A run: each call comes with the memory it finds; calls that are not allowed are not made.\<close>

fun data_run :: "(data_mem \<times> data_op) list \<Rightarrow> pn_data \<Rightarrow> (int list \<times> pn_data) option" where
  "data_run [] d = Some ([], d)"
| "data_run ((mem, op) # ops) d =
     (if data_allowed mem op d then do {
        (r, d) \<leftarrow> data_exec mem op d;
        (rs, d) \<leftarrow> data_run ops d;
        Some (r # rs, d)
      }
      else data_run ops d)"

lemma atom_payload_ok:
  "atom_bytes a = None \<Longrightarrow> payload_ok n m b (atom_type a) (atom_payload a) \<and> \<not> compound_type (atom_type a)"
  by (cases a) (simp_all add: payload_ok_def)

lemma atom_string_type: "atom_bytes a = Some bs \<Longrightarrow> string_type (atom_type a)"
  by (cases a) simp_all

lemma put_scalar_inv:
  assumes inv: "data_inv d" and ok: "data_allowed mem (D_put a) d"
  shows "fine (\<lambda>e d'. (e = 0 \<or> e = PN_OUT_OF_MEMORY) \<and> data_inv d') (put_scalar mem d a)"
proof (cases "atom_bytes a")
  case None
  have "fine (\<lambda>r d'. (r = 0 \<or> r = PN_OUT_OF_MEMORY) \<and> data_inv d')
      (put_node mem d (\<lambda>x. if a = PN_NULL then x\<lparr>nd_type := T_NULL\<rparr>
                           else x\<lparr>nd_type := atom_type a, nd_u := atom_payload a\<rparr>))"
  proof (rule put_node_inv [OF inv], goal_cases)
    case (2 x n m b)
    moreover have "payload_ok n m b T_NULL Zero" by (simp add: payload_ok_def)
    ultimately show ?case using atom_payload_ok [OF None] by (simp add: pni_node_get_down_def)
  qed simp
  with None show ?thesis by (simp add: put_scalar_eq)
next
  case (Some bs)
  then show ?thesis
    using ok put_bytes_inv [OF inv atom_string_type [OF Some], of bs mem] by (auto simp: put_scalar_eq)
qed

lemma put_compound_inv:
  assumes inv: "data_inv d" and ty: "compound_type ty"
    and fill: "\<And>x. nd_next (fill x) = nd_next x \<and> nd_prev (fill x) = nd_prev x \<and> nd_parent (fill x) = nd_parent x \<and>
      nd_type (fill x) = ty \<and> nd_u (fill x) = As_compound 0 0 0"
  shows "fine (\<lambda>e d'. (e = 0 \<or> e = PN_OUT_OF_MEMORY) \<and> data_inv d') (put_node mem d fill)"
  using fill ty by (intro put_node_inv [OF inv]) (auto simp: pni_node_get_down_def intro: payload_ok_compoundI)

lemma bool_code_fine: "fine (\<lambda>_. Q) x \<Longrightarrow> fine (\<lambda>r d. (r = 0 \<or> r = 1) \<and> Q d) (bool_code x)"
  by (auto simp: bool_code_def elim!: fineE)

text \<open>Each call: it succeeds or reports a lack of memory (a navigation: true or false), and keeps the invariant.\<close>

definition good_code :: "int \<Rightarrow> bool" where
  "good_code r \<longleftrightarrow> r \<in> {0, 1, PN_OUT_OF_MEMORY}"

lemma data_exec_inv:
  assumes inv: "data_inv d" and ok: "data_allowed mem op d"
  shows "fine (\<lambda>r d'. good_code r \<and> data_inv d') (data_exec mem op d)"
proof -
  have b: "fine (\<lambda>r d'. good_code r \<and> data_inv d') (bool_code x)" if "fine (\<lambda>_. data_inv) x" for x
    using bool_code_fine [OF that] by (rule fine_mono) (auto simp: good_code_def)
  have m: "fine (\<lambda>r d'. good_code r \<and> data_inv d') x" if "fine (\<lambda>r d'. (r = 0 \<or> r = PN_OUT_OF_MEMORY) \<and> data_inv d') x" for x
    using that by (rule fine_mono) (auto simp: good_code_def)
  have z: "fine (\<lambda>r d'. good_code r \<and> data_inv d') (map_option (\<lambda>(_, d). (0, d)) x)"
    if "fine (\<lambda>_. data_inv) x" for x :: "('a \<times> pn_data) option"
    using that by (auto simp: good_code_def elim!: fineE)
  show ?thesis
  proof (cases op)
    case (D_put a)
    then show ?thesis using m [OF put_scalar_inv [OF inv]] ok by simp
  next
    case D_put_list
    show ?thesis unfolding D_put_list data_exec.simps pn_data_put_list_def
      by (intro m put_compound_inv [OF inv, where ty = T_LIST]) simp_all
  next
    case D_put_map
    show ?thesis unfolding D_put_map data_exec.simps pn_data_put_map_def
      by (intro m put_compound_inv [OF inv, where ty = T_MAP]) simp_all
  next
    case D_put_described
    show ?thesis unfolding D_put_described data_exec.simps pn_data_put_described_def
      by (intro m put_compound_inv [OF inv, where ty = T_DESCRIBED]) simp_all
  next
    case (D_put_array described ty)
    show ?thesis unfolding D_put_array data_exec.simps pn_data_put_array_def
      by (intro m put_compound_inv [OF inv, where ty = "if described then T_ARRAY_DESCRIBED else T_ARRAY"]) simp_all
  next
    case D_next
    show ?thesis unfolding D_next data_exec.simps by (intro b fine_mono [OF data_next_inv [OF inv]]) simp
  next
    case D_prev
    then show ?thesis using b [OF prev_inv [OF inv]] by simp
  next
    case D_bytes
    then show ?thesis using z [OF pn_data_get_bytes_inv [OF inv]] by simp
  next
    case D_exit
    show ?thesis unfolding D_exit data_exec.simps by (intro b fine_mono [OF exit_inv [OF inv]]) simp
  next
    case D_enter
    then show ?thesis using enter_inv [OF inv]
      by (cases "pn_data_enter d") (simp add: bool_code_def good_code_def)
  next
    case (D_restore point)
    then show ?thesis using b [OF restore_inv [OF inv]] ok by simp
  next
    case (D_lookup name)
    show ?thesis unfolding D_lookup data_exec.simps pn_data_lookup_def
      by (intro b lookup_loop_inv [OF inv]) simp
  next
    case D_uuid
    then show ?thesis using z [OF get_sixteen_inv [OF inv]] by (simp add: pn_data_get_uuid_def)
  next
    case D_decimal128
    then show ?thesis using z [OF get_sixteen_inv [OF inv]] by (simp add: pn_data_get_decimal128_def)
  qed (simp_all add: good_code_def rewind_inv [OF inv] narrow_inv [OF inv] widen_inv [OF inv] clear_inv [OF inv] limits_inv [OF inv])
qed

lemma data_run_inv:
  assumes "data_inv d"
  shows "fine (\<lambda>rs d'. (\<forall>r \<in> set rs. good_code r) \<and> data_inv d') (data_run ops d)"
  using assms
proof (induction ops arbitrary: d)
  case (Cons x ops)
  obtain mem op where x: "x = (mem, op)" by force
  show ?case
  proof (cases "data_allowed mem op d")
    case True
    obtain r d1 where e: "data_exec mem op d = Some (r, d1)" "good_code r" "data_inv d1"
      using data_exec_inv [OF Cons(2) True] by (auto elim!: fineE)
    from Cons.IH [OF e(3)] show ?thesis using x True e by (auto elim!: fineE)
  qed (use Cons x in simp)
qed simp


text \<open>A list with a string is built and read back, with room for one node at first.\<close>

definition plain_mem :: data_mem where
  "plain_mem = \<lparr>mem_nodes = (\<lambda>n. Some (\<lambda>_. \<lparr>nd_type = T_NULL, nd_array_type = T_UNSET, nd_next = 0, nd_prev = 0,
     nd_parent = 0, nd_u = Zero\<rparr>)), mem_new = (\<lambda>n. Some (\<lambda>_. 0)), mem_grow = (\<lambda>n. Some (\<lambda>_. 0))\<rparr>"


section \<open>Outside the contract\<close>

text \<open>
  A handle taken inside a compound is negative. After the object has been cleared,
  \<open>pn_data_restore\<close> should refuse it, but takes it for the id of a node far outside the array.
\<close>

lemma pn_data_restore_stale:
  assumes "- int PNI_NID_MAX < point" "point < - int (d_size d)" "length (d_nodes d) < 2 ^ 16 - nat (- point)"
  shows "pn_data_restore d point = None"
proof -
  define k where "k = nat (- point)"
  have k: "point = - int k" "0 < k" "k < 2 ^ 16" using assms(1,2) by (simp_all add: k_def)
  have "point mod 2 ^ 16 = (point + 2 ^ 16) mod 2 ^ 16" by (simp only: mod_add_self2)
  also have "\<dots> = point + 2 ^ 16" using k by (intro mod_pos_pos_trivial) simp_all
  also have "\<dots> = int (2 ^ 16 - k)" using k by simp
  finally have "nat (point mod 2 ^ 16) = 2 ^ 16 - k" by simp
  then show ?thesis using assms k by (simp add: pn_data_restore_def rd_def)
qed

text \<open>Reading a scalar at the end of the node array as an atom reads beyond the array.\<close>

lemma pn_data_get_atom_overread:
  assumes "d_current d = length (d_nodes d)" "d_current d \<noteq> 0"
    "\<not> string_type (nd_type (nd d (d_current d)))"
  shows "pn_data_get_atom d = None"
proof -
  have "in_nodes d (d_current d)" "rd d (d_current d + 1) = None"
    using assms(1,2) by (simp_all add: in_nodes_def rd_def)
  then show ?thesis
    using assms(2,3) by (cases "nd_type (nd d (d_current d))") (simp_all add: pn_data_get_atom_def rd_in Let_def)
qed

end
