(* ===== verification/Data_Forest.thy ===== *)
theory Data_Forest
  imports Data_Runs
begin

text \<open>
  What a data object stands for: a sequence of AMQP values. \<open>rep d hi i v\<close> says that the nodes from
  \<open>i\<close> to \<open>hi\<close> hold the value \<open>v\<close> with root \<open>i\<close>, \<open>reps\<close> that a chain of siblings holds a list of values.
  \<open>placed d d' vs\<close> says that the values \<open>vs\<close> have been added at the cursor, which stands at the end of
  its siblings, and that nothing else has changed but the bookkeeping fields of compound nodes. The
  put functions place a value, and placements compose along the structure of the values.
\<close>

section \<open>Values\<close>

text \<open>A compound value has the type of its node, the element type of an array and the children.\<close>

datatype amqp_value = Atom pn_atom | Comp pn_type pn_type "amqp_value list"

fun atom_wf :: "pn_atom \<Rightarrow> bool" where
  "atom_wf (PN_DECIMAL128 bs) = (length bs = 16)"
| "atom_wf (PN_UUID bs) = (length bs = 16)"
| "atom_wf (PN_BINARY bs) = (bs \<noteq> None \<and> bytes_size bs < 2 ^ 31)"
| "atom_wf (PN_STRING bs) = (bs \<noteq> None \<and> bytes_size bs < 2 ^ 31)"
| "atom_wf (PN_SYMBOL bs) = (bs \<noteq> None \<and> bytes_size bs < 2 ^ 31)"
| "atom_wf _ = True"

definition array_type :: "pn_type \<Rightarrow> bool" where
  "array_type ty \<longleftrightarrow> ty = T_ARRAY \<or> ty = T_ARRAY_DESCRIBED"

fun value_wf :: "amqp_value \<Rightarrow> bool" where
  "value_wf (Atom a) = atom_wf a"
| "value_wf (Comp ty aty vs) =
     (compound_type ty \<and> ty \<noteq> T_DEFER \<and> (array_type ty \<or> aty = T_UNSET) \<and> (\<forall>v \<in> set vs. value_wf v))"

text \<open>The nodes a value takes, and the bytes it takes in the string buffer.\<close>

fun node_count :: "amqp_value \<Rightarrow> nat" where
  "node_count (Atom a) = 1"
| "node_count (Comp ty aty vs) = 1 + sum_list (map node_count vs)"

fun string_room :: "amqp_value \<Rightarrow> nat" where
  "string_room (Atom a) = (case atom_bytes a of None \<Rightarrow> 0 | Some bs \<Rightarrow> length bs + 1)"
| "string_room (Comp ty aty vs) = sum_list (map string_room vs)"

abbreviation nodes_of :: "amqp_value list \<Rightarrow> nat" where
  "nodes_of vs \<equiv> sum_list (map node_count vs)"

abbreviation strings_of :: "amqp_value list \<Rightarrow> nat" where
  "strings_of vs \<equiv> sum_list (map string_room vs)"

lemma node_count_pos [simp]: "0 < node_count v"
  by (cases v) simp_all

section \<open>Representation\<close>

definition content :: "pn_data \<Rightarrow> byte list" where
  "content d = (case d_buf d of None \<Rightarrow> [] | Some b \<Rightarrow> buf_content b)"

lemma length_content [simp]: "length (content d) = buf_len d"
  by (simp add: content_def buf_len_def split: option.split)

definition atom_node :: "pn_data \<Rightarrow> pni_node \<Rightarrow> pn_atom \<Rightarrow> bool" where
  "atom_node d x a \<longleftrightarrow> nd_type x = atom_type a \<and>
     (case atom_bytes a of
        None \<Rightarrow> nd_u x = atom_payload a
      | Some bs \<Rightarrow> \<exists>off. nd_u x = As_bytes off (length bs) \<and> off + length bs \<le> buf_len d \<and>
          take (length bs) (drop off (content d)) = bs)"

fun rep :: "pn_data \<Rightarrow> nat \<Rightarrow> nat \<Rightarrow> amqp_value \<Rightarrow> bool"
  and reps :: "pn_data \<Rightarrow> nat \<Rightarrow> nat \<Rightarrow> nat \<Rightarrow> nat \<Rightarrow> amqp_value list \<Rightarrow> bool" where
  "rep d hi i (Atom a) = (0 < i \<and> i \<le> hi \<and> atom_node d (nd d i) a)"
| "rep d hi i (Comp ty aty vs) =
     (0 < i \<and> i \<le> hi \<and> nd_type (nd d i) = ty \<and> compound_type ty \<and> (if array_type ty then nd_array_type (nd d i) = aty else aty = T_UNSET) \<and>
      (\<exists>down scratch. nd_u (nd d i) = As_compound down (length vs) scratch \<and> reps d hi i 0 down vs))"
| "reps d hi p c i [] = (i = 0)"
| "reps d hi p c i (v # vs) =
     (p < i \<and> nd_parent (nd d i) = p \<and> nd_prev (nd d i) = c \<and> rep d hi i v \<and> reps d hi p i (nd_next (nd d i)) vs)"

text \<open>Nodes up to the bookkeeping field of compounds, which encoder and decoder use for themselves.\<close>

definition strip :: "pni_node \<Rightarrow> pni_node" where
  "strip x = (case nd_u x of As_compound down children _ \<Rightarrow> x\<lparr>nd_u := As_compound down children 0\<rparr> | _ \<Rightarrow> x)"

lemma strip_simps [simp]:
  "nd_type (strip x) = nd_type x" "nd_array_type (strip x) = nd_array_type x" "nd_next (strip x) = nd_next x"
  "nd_prev (strip x) = nd_prev x" "nd_parent (strip x) = nd_parent x" "strip (strip x) = strip x"
  "strip (x\<lparr>nd_next := a\<rparr>) = (strip x)\<lparr>nd_next := a\<rparr>"
  by (simp_all add: strip_def split: pni_node_payload.split)

definition like :: "pni_node \<Rightarrow> pni_node \<Rightarrow> bool" where
  "like x y \<longleftrightarrow> strip x = strip y"

lemma likeD:
  assumes "like x y"
  shows "nd_type x = nd_type y" "nd_array_type x = nd_array_type y" "nd_next x = nd_next y" "nd_prev x = nd_prev y"
    "nd_parent x = nd_parent y"
  using assms unfolding like_def by (metis strip_simps)+

lemma like_payload:
  assumes "like x y"
  shows "nd_u y = As_compound down children s \<Longrightarrow> \<exists>s'. nd_u x = As_compound down children s'"
    "(\<And>down children s. nd_u y \<noteq> As_compound down children s) \<Longrightarrow> nd_u x = nd_u y"
proof -
  have u: "nd_u (strip x) = nd_u (strip y)" using assms by (simp add: like_def)
  then show "nd_u y = As_compound down children s \<Longrightarrow> \<exists>s'. nd_u x = As_compound down children s'"
    by (cases "nd_u x") (auto simp: strip_def)
  show "nd_u x = nd_u y" if "\<And>down children s. nd_u y \<noteq> As_compound down children s"
    using u that by (cases "nd_u x"; cases "nd_u y") (auto simp: strip_def)
qed

lemma like_refl [simp]: "like x x"
  by (simp add: like_def)

lemma like_trans: "like x y \<Longrightarrow> like y z \<Longrightarrow> like x z"
  by (simp add: like_def)

lemma like_next: "like x y \<Longrightarrow> like (x\<lparr>nd_next := a\<rparr>) (y\<lparr>nd_next := a\<rparr>)"
  by (simp add: like_def)

lemma like_down: "like x y \<Longrightarrow> pni_node_get_down x = pni_node_get_down y"
  using likeD(1) [of x y] like_payload [of x y]
  by (cases "nd_u y") (auto simp: pni_node_get_down_def)

lemma like_new_parent: "like x y \<Longrightarrow> like (new_parent n x) (new_parent n y)"
proof (cases "\<exists>down children s. nd_u y = As_compound down children s")
  case True
  assume l: "like x y"
  from True obtain down children s where y: "nd_u y = As_compound down children s" by blast
  then obtain s' where x: "nd_u x = As_compound down children s'" using like_payload(1) [OF l] by blast
  have "strip x = strip y" using l by (simp add: like_def)
  then have xy: "x\<lparr>nd_u := As_compound down children 0\<rparr> = y\<lparr>nd_u := As_compound down children 0\<rparr>"
    using x y by (simp add: strip_def)
  have upd: "x\<lparr>nd_u := u\<rparr> = y\<lparr>nd_u := u\<rparr>" for u
    using arg_cong [OF xy, of "\<lambda>z. z\<lparr>nd_u := u\<rparr>"] by simp
  show ?thesis
    using likeD(1) [OF l] x y
    by (simp add: like_def new_parent_def pni_node_inc_children_def pni_node_set_down_def pni_node_get_down_def
        strip_def upd split: if_splits)
next
  case False
  assume l: "like x y"
  then have "nd_u x = nd_u y" using like_payload(2) [OF l] False by blast
  then have "x = y" using l False by (cases "nd_u y") (auto simp: like_def strip_def)
  then show ?thesis by simp
qed

text \<open>A value stays represented when nodes elsewhere change and the string buffer grows.\<close>

definition extends :: "pn_data \<Rightarrow> pn_data \<Rightarrow> bool" where
  "extends d d' \<longleftrightarrow> (\<exists>x. content d' = content d @ x)"

lemma extends_refl [simp]: "extends d d"
  by (simp add: extends_def)

lemma extends_trans: "extends d d1 \<Longrightarrow> extends d1 d2 \<Longrightarrow> extends d d2"
  by (auto simp: extends_def)

lemma extendsD:
  assumes "extends d d'" "off + n \<le> buf_len d"
  shows "off + n \<le> buf_len d'" "take n (drop off (content d')) = take n (drop off (content d))"
proof -
  obtain x where x: "content d' = content d @ x" using assms(1) by (auto simp: extends_def)
  show "off + n \<le> buf_len d'" using arg_cong [OF x, of length] assms(2) by simp
  show "take n (drop off (content d')) = take n (drop off (content d))" using assms(2) by (simp add: x)
qed

lemma atom_payload_not_compound: "atom_payload a \<noteq> As_compound down children s"
  by (cases a) simp_all

lemma atom_node_frame:
  assumes "atom_node d x a" "like (x'\<lparr>nd_next := 0\<rparr>) (x\<lparr>nd_next := 0\<rparr>)" "extends d d'"
  shows "atom_node d' x' a"
proof -
  have "nd_u x \<noteq> As_compound down children s" for down children s
    using assms(1) atom_payload_not_compound by (auto simp: atom_node_def split: option.splits)
  then have "nd_u x' = nd_u x" using like_payload(2) [OF assms(2)] by simp
  moreover have "nd_type x' = nd_type x" using likeD(1) [OF assms(2)] by simp
  ultimately show ?thesis
    using assms(1) extendsD [OF assms(3)] by (auto simp: atom_node_def split: option.splits)
qed

lemma rep_frame:
  "rep d hi i v \<Longrightarrow> like ((nd d' i)\<lparr>nd_next := 0\<rparr>) ((nd d i)\<lparr>nd_next := 0\<rparr>) \<Longrightarrow>
     (\<And>j. i < j \<Longrightarrow> j \<le> hi \<Longrightarrow> like (nd d' j) (nd d j)) \<Longrightarrow> extends d d' \<Longrightarrow> hi \<le> hi' \<Longrightarrow> rep d' hi' i v"
  "reps d hi p c i vs \<Longrightarrow> (\<And>j. p < j \<Longrightarrow> j \<le> hi \<Longrightarrow> like (nd d' j) (nd d j)) \<Longrightarrow> extends d d' \<Longrightarrow>
     hi \<le> hi' \<Longrightarrow> reps d' hi' p c i vs"
proof (induction d hi i v and d hi p c i vs arbitrary: hi' and hi' rule: rep_reps.induct)
  case (1 d hi i a)
  then show ?case using atom_node_frame [of d "nd d i" a "nd d' i" d'] by auto
next
  case (2 d hi i ty aty vs)
  from 2(2) obtain down scratch where u: "nd_u (nd d i) = As_compound down (length vs) scratch" "reps d hi i 0 down vs"
    by auto
  have "\<exists>s'. nd_u (nd d' i) = As_compound down (length vs) s'"
    using like_payload(1) [OF 2(3), of down "length vs" scratch] u(1) by simp
  moreover have "reps d' hi' i 0 down vs" by (rule 2(1) [OF u(2) 2(4,5,6)])
  moreover have "nd_type (nd d' i) = nd_type (nd d i)" "nd_array_type (nd d' i) = nd_array_type (nd d i)"
    using likeD(1,2) [OF 2(3)] by simp_all
  ultimately show ?case using 2(2,6) by auto
next
  case (4 d hi p c i v vs)
  have i: "p < i" "nd_parent (nd d i) = p" "nd_prev (nd d i) = c" "rep d hi i v" "reps d hi p i (nd_next (nd d i)) vs"
    using 4(3) by auto
  have hi: "i \<le> hi" using i(4) by (cases v) auto
  have l: "like (nd d' i) (nd d i)" using 4(4) [OF i(1) hi] .
  have "rep d' hi' i v" using 4(1) [OF i(4) like_next [OF l] _ 4(5,6)] 4(4) i(1) by auto
  moreover have "reps d' hi' p i (nd_next (nd d i)) vs" using 4(2) [OF i(5) 4(4,5,6)] .
  ultimately show ?case using i likeD [OF l] by auto
qed simp

section \<open>Placing values\<close>

definition same_limits :: "pn_data \<Rightarrow> pn_data \<Rightarrow> bool" where
  "same_limits d d' \<longleftrightarrow> d_error d' = d_error d \<and> d_max_buf_size d' = d_max_buf_size d \<and> d_max_nid d' = d_max_nid d \<and>
     d_parent d' = d_parent d \<and> d_base_parent d' = d_base_parent d \<and> d_base_current d' = d_base_current d"

definition placed :: "pn_data \<Rightarrow> pn_data \<Rightarrow> amqp_value list \<Rightarrow> bool" where
  "placed d d' vs \<longleftrightarrow> same_limits d d' \<and> data_inv d' \<and> d_size d' = d_size d + nodes_of vs \<and> next_id d' = 0 \<and>
     d_current d' = (if vs = [] then d_current d else d_size d + 1 + nodes_of (butlast vs)) \<and>
     reps d' (d_size d') (d_parent d) (d_current d) (if vs = [] then 0 else d_size d + 1) vs \<and> extends d d' \<and>
     buf_len d' = buf_len d + strings_of vs \<and>
     (\<forall>i. 0 < i \<and> i \<le> d_size d \<longrightarrow> like (nd d' i)
        (if vs = [] then nd d i
         else if i = d_current d then (nd d i)\<lparr>nd_next := d_size d + 1\<rparr>
         else if i = d_parent d then (new_parent (d_size d + 1) ^^ length vs) (nd d i) else nd d i))"

lemma placedD:
  assumes "placed d d' vs"
  shows "same_limits d d'" "data_inv d'" "d_size d' = d_size d + nodes_of vs" "next_id d' = 0"
    "d_current d' = (if vs = [] then d_current d else d_size d + 1 + nodes_of (butlast vs))"
    "reps d' (d_size d') (d_parent d) (d_current d) (if vs = [] then 0 else d_size d + 1) vs" "extends d d'"
    "buf_len d' = buf_len d + strings_of vs"
    "0 < i \<Longrightarrow> i \<le> d_size d \<Longrightarrow> like (nd d' i)
        (if vs = [] then nd d i
         else if i = d_current d then (nd d i)\<lparr>nd_next := d_size d + 1\<rparr>
         else if i = d_parent d then (new_parent (d_size d + 1) ^^ length vs) (nd d i) else nd d i)"
  using assms unfolding placed_def by blast+

lemma placed_Nil: "data_inv d \<Longrightarrow> next_id d = 0 \<Longrightarrow> placed d d []"
  by (simp add: placed_def same_limits_def)

lemma new_parent_other:
  "pni_node_get_down x \<noteq> 0 \<or> \<not> compound_type (nd_type x) \<Longrightarrow> new_parent n x = new_parent m x"
  by (auto simp: new_parent_def pni_node_set_down_def)

lemma new_parent_linked: "0 < n \<Longrightarrow> pni_node_get_down (new_parent n x) \<noteq> 0 \<or> \<not> compound_type (nd_type (new_parent n x))"
  by (simp add: new_parent_down)

lemma new_parent_pow_other:
  assumes "0 < n"
  shows "(new_parent m ^^ k) (new_parent n x) = (new_parent n ^^ Suc k) x"
proof (induction k)
  case (Suc k)
  have "(new_parent m ^^ Suc k) (new_parent n x) = new_parent m ((new_parent n ^^ Suc k) x)"
    by (simp only: funpow.simps comp_apply Suc)
  also have "\<dots> = new_parent n ((new_parent n ^^ Suc k) x)"
    using new_parent_linked [OF assms] by (intro new_parent_other) simp
  finally show ?case by simp
qed simp

lemma like_new_parent_pow: "like x y \<Longrightarrow> like ((new_parent n ^^ k) x) ((new_parent n ^^ k) y)"
  by (induction k) (simp_all add: like_new_parent)

lemma current_not_parent: "shape_ok d \<Longrightarrow> d_current d \<noteq> 0 \<Longrightarrow> d_parent d \<noteq> d_current d"
  using links_okD(1) [OF current_links(2)] current_links(3) by fastforce

lemma placed_Cons:
  assumes inv: "data_inv d" and p1: "placed d d1 [v]" and p2: "placed d1 d2 vs"
  shows "placed d d2 (v # vs)"
proof -
  note q = placedD [OF p1] and r = placedD [OF p2]
  have sh: "shape_ok d" using inv by (rule data_invD)
  define n where "n = d_size d + 1"
  have par: "d_parent d1 = d_parent d" using q(1) by (simp add: same_limits_def)
  have pn: "d_parent d < n" using shape_okD(10) [OF sh] by (simp add: n_def)
  have cur1: "d_current d1 = n" using q(5) by (simp add: n_def)
  have sz1: "d_size d1 = d_size d + node_count v" using q(3) by simp
  have n1: "n \<le> d_size d1" "0 < n" using sz1 node_count_pos [of v] unfolding n_def by linarith+
  have r1: "nd_parent (nd d1 n) = d_parent d" "nd_prev (nd d1 n) = d_current d" "rep d1 (d_size d1) n v"
    using q(6) by (simp_all add: n_def)
  have next1: "nd_next (nd d1 n) = 0" using q(4) cur1 n1 by (simp add: next_id_def)
  have root: "like (nd d2 n) ((nd d1 n)\<lparr>nd_next := if vs = [] then 0 else d_size d1 + 1\<rparr>)"
  proof (cases "vs = []")
    case True
    then show ?thesis using r(9) [OF n1(2,1)] next1 by (simp add: like_def)
  next
    case False
    then show ?thesis using r(9) [OF n1(2,1)] cur1 by simp
  qed
  have inner: "like (nd d2 j) (nd d1 j)" if "n < j" "j \<le> d_size d1" for j
    using r(9) [of j] that par pn cur1 by (simp split: if_splits)
  have "rep d2 (d_size d2) n v"
    using r(3) root inner by (intro rep_frame(1) [OF r1(3) _ _ r(7)]) (auto simp: like_def)
  then have rp: "reps d2 (d_size d2) (d_parent d) (d_current d) n (v # vs)"
    using r(6) likeD [OF root] r1 par cur1 pn by (auto split: if_splits)
  have old: "like (nd d2 i) (if i = d_current d then (nd d i)\<lparr>nd_next := n\<rparr>
         else if i = d_parent d then (new_parent n ^^ length (v # vs)) (nd d i) else nd d i)"
    if i: "0 < i" "i \<le> d_size d" for i
  proof -
    have i1: "i \<le> d_size d1" "i \<noteq> n" using i sz1 by (auto simp: n_def)
    have a: "like (nd d1 i) (if i = d_current d then (nd d i)\<lparr>nd_next := n\<rparr>
         else if i = d_parent d then new_parent n (nd d i) else nd d i)"
      using q(9) [OF i] by (simp add: n_def cong: if_cong)
    have b: "like (nd d2 i) (if i = d_parent d then (new_parent (d_size d1 + 1) ^^ length vs) (nd d1 i) else nd d1 i)"
      using r(9) [OF i(1) i1(1)] i1 cur1 par by (auto split: if_splits)
    show ?thesis
    proof (cases "i = d_parent d")
      case True
      then have "i \<noteq> d_current d" using current_not_parent [OF sh] i by auto
      then show ?thesis
        using True a like_trans [OF b] like_new_parent_pow [of "nd d1 i" "new_parent n (nd d i)"]
        by (simp add: new_parent_pow_other [OF n1(2)] del: funpow.simps)
    next
      case False
      then have "like (nd d2 i) (nd d1 i)" using b by simp
      from like_trans [OF this a] False show ?thesis by (simp cong: if_cong)
    qed
  qed
  have "same_limits d d2" using q(1) r(1) by (simp add: same_limits_def)
  moreover have "d_current d2 = d_size d + 1 + nodes_of (butlast (v # vs))"
    using r(5) cur1 sz1 by (simp add: n_def)
  moreover have "d_size d2 = d_size d + nodes_of (v # vs)" "buf_len d2 = buf_len d + strings_of (v # vs)"
    using q(3,8) r(3,8) by simp_all
  ultimately show ?thesis
    unfolding placed_def using r(2,4) rp old extends_trans [OF q(7) r(7)] by (simp only: n_def if_False list.distinct) blast
qed

text \<open>Memory that is granted, and limits that leave room for nodes and strings.\<close>

definition granted :: "data_mem \<Rightarrow> bool" where
  "granted mem \<longleftrightarrow> (\<forall>n. mem_nodes mem n \<noteq> None) \<and> (\<forall>n. mem_new mem n \<noteq> None) \<and> (\<forall>n. mem_grow mem n \<noteq> None)"

definition room_for :: "pn_data \<Rightarrow> nat \<Rightarrow> nat \<Rightarrow> bool" where
  "room_for d nodes strings \<longleftrightarrow> d_size d + nodes \<le> pni_data_max_nid d \<and> buf_len d + strings \<le> 2 ^ 31 \<and>
     (d_max_buf_size d = 0 \<or> buf_len d + strings \<le> d_max_buf_size d)"

lemma added_next_id: "added d d' \<Longrightarrow> next_id d' = 0"
  using addedD(4,5) [of d d'] by (simp add: next_id_def)

text \<open>A node without children that has just been filled in.\<close>

lemma placed_leaf:
  assumes inv: "data_inv d" and a: "added d d1" and inv': "data_inv d'"
    and x: "nd_next x = 0" "nd_prev x = d_current d" "nd_parent x = d_parent d"
    and nd: "\<And>i. 0 < i \<Longrightarrow> nd d' i = nd (set_nd (d_size d + 1) x d1) i"
    and rest: "same_limits d d'" "d_size d' = d_size d1" "d_current d' = d_current d1"
    and v: "node_count v = 1" "rep d' (d_size d + 1) (d_size d + 1) v" "extends d d'" "buf_len d' = buf_len d + string_room v"
  shows "placed d d' [v]"
proof -
  have sh: "shape_ok d" using inv by (rule data_invD)
  define n where "n = d_size d + 1"
  have n: "in_nodes d1 n" "0 < n" using addedD(2,3) [OF a] by (simp_all add: n_def in_nodes_def room_ok_def)
  have ndn: "nd d' n = x" and ndo: "\<And>i. 0 < i \<Longrightarrow> i \<noteq> n \<Longrightarrow> nd d' i = nd d1 i"
    using nd [folded n_def] n by (simp_all add: node_simps)
  have "d_parent d < n" using shape_okD(10) [OF sh] by (simp add: n_def)
  then have rp: "reps d' n (d_parent d) (d_current d) n [v]"
    using v(2) ndn x by (simp add: n_def)
  have "next_id d' = 0" using rest(3) addedD(4) [OF a] ndn x(1) by (simp add: next_id_def n_def)
  moreover have "like (nd d' i) (if i = d_current d then (nd d i)\<lparr>nd_next := n\<rparr>
      else if i = d_parent d then new_parent n (nd d i) else nd d i)" if i: "0 < i" "i \<le> d_size d" for i
    using addedD(6) [OF a i] ndo [of i] i by (simp add: n_def)
  ultimately show ?thesis
    unfolding placed_def
    using inv' rest addedD(3,4) [OF a] v rp by (simp add: n_def cong: if_cong)
qed

lemma pni_data_add_ok:
  assumes inv: "data_inv d" and fresh: "next_id d = 0" and g: "granted mem" and lim: "d_size d < pni_data_max_nid d"
  shows "\<exists>d1. added d d1 \<and> in_nodes d1 (d_size d + 1) \<and> pni_data_add mem d = Some (d_size d + 1, d1)"
proof -
  have sh: "shape_ok d" using inv by (rule data_invD)
  have "\<not> pni_data_max_nid d \<le> d_size d" "\<nexists>n. mem_nodes mem n = None"
    using g lim by (auto simp: granted_def)
  with pni_data_add_fresh [OF sh fresh, of mem] obtain d1 where
    d1: "pni_data_add mem d = Some (d_size d1, d1)" "added d d1" by blast
  have "in_nodes d1 (Suc (d_size d))" using addedD(2,3) [OF d1(2)] by (simp add: in_nodes_def room_ok_def)
  then show ?thesis using d1 addedD(3) [OF d1(2)] by auto
qed

lemma put_node_ok:
  assumes inv: "data_inv d" and fresh: "next_id d = 0" and g: "granted mem" and lim: "d_size d < pni_data_max_nid d"
  shows "\<exists>d1. added d d1 \<and> put_node mem d fill = Some (0, set_nd (d_size d + 1) (fill (nd d1 (d_size d + 1))) d1)"
  using pni_data_add_ok [OF assms] by (auto simp: put_node_def wr_in)

lemma added_same_limits: "added d d1 \<Longrightarrow> same_limits d d1"
  using addedD(1) [of d d1] by (simp add: same_rest_def same_limits_def)

lemma same_limits_set_nd [simp]: "same_limits d (set_nd i x d1) = same_limits d d1"
  by (simp add: same_limits_def)

lemma content_set_nd [simp]: "content (set_nd i x d) = content d" "buf_len (set_nd i x d) = buf_len d"
  by (simp_all add: content_def buf_len_def)

lemma added_content: "added d d1 \<Longrightarrow> content d1 = content d" "added d d1 \<Longrightarrow> buf_len d1 = buf_len d"
  using addedD(1) [of d d1] by (simp_all add: same_rest_def content_def buf_len_def)

lemma put_node_placed:
  assumes inv: "data_inv d" and fresh: "next_id d = 0" and g: "granted mem" and lim: "d_size d < pni_data_max_nid d"
    and links: "\<And>x. nd_next (fill x) = nd_next x \<and> nd_prev (fill x) = nd_prev x \<and> nd_parent (fill x) = nd_parent x"
    and ok: "\<And>x n m b. nd_u x = Zero \<Longrightarrow>
      pni_node_get_down (fill x) = 0 \<and> payload_ok n m b (nd_type (fill x)) (nd_u (fill x))"
    and v: "node_count v = 1" "string_room v = 0"
    and rep: "\<And>d' n x. nd d' n = fill x \<Longrightarrow> 0 < n \<Longrightarrow> nd_u x = Zero \<Longrightarrow> nd_array_type x = T_UNSET \<Longrightarrow> rep d' n n v"
  shows "\<exists>d'. put_node mem d fill = Some (0, d') \<and> placed d d' [v]"
proof -
  obtain d1 where a: "added d d1" and p: "put_node mem d fill = Some (0, set_nd (d_size d + 1) (fill (nd d1 (d_size d + 1))) d1)"
    using put_node_ok [OF inv fresh g lim] by blast
  let ?d = "set_nd (d_size d + 1) (fill (nd d1 (d_size d + 1))) d1"
  have inv': "data_inv ?d" using put_node_inv [OF inv, of fill mem, OF links ok] p by simp
  have n: "in_nodes d1 (d_size d + 1)" using addedD(2,3) [OF a] by (simp add: in_nodes_def room_ok_def)
  have "placed d ?d [v]"
  proof (rule placed_leaf [OF inv a inv'])
    show "rep ?d (d_size d + 1) (d_size d + 1) v"
      using n addedD(5) [OF a] by (intro rep [where x = "nd d1 (d_size d + 1)"]) (simp_all add: node_simps)
  qed (use links addedD(5) [OF a] v added_same_limits [OF a] added_content [OF a] in \<open>simp_all add: extends_def\<close>)
  with p show ?thesis by blast
qed

lemma intern_node_ok:
  assumes ok: "buf_ok d" "in_nodes d n" and g: "granted mem" and len: "length bs < 2 ^ 31"
    and room: "buf_len d + length bs + 1 \<le> 2 ^ 31" "d_max_buf_size d = 0 \<or> buf_len d + length bs \<le> d_max_buf_size d"
  shows "\<exists>b'. pni_data_intern_node mem d n bs =
      Some (0, set_nd n ((nd d n)\<lparr>nd_u := As_bytes (buf_len d) (length bs)\<rparr>) (d\<lparr>d_buf := Some b'\<rparr>)) \<and>
    buf_content b' = content d @ bs @ [0]"
proof -
  define d1 where "d1 = (if d_buf d = None
    then d\<lparr>d_buf := pn_buffer_new (mem_new mem) (max (length bs + 1) 64)\<rparr> else d)"
  have "\<exists>b. d_buf d1 = Some b \<and> buf_inv b \<and> buf_content b = content d"
  proof (cases "d_buf d")
    case None
    have "0 < max (length bs + 1) 64" "mem_new mem (max (length bs + 1) 64) \<noteq> None"
      using g by (simp_all add: granted_def)
    then obtain b where b: "pn_buffer_new (mem_new mem) (max (length bs + 1) 64) = Some b"
      unfolding pn_buffer_new_def mem_alloc_def by auto
    have "buf_inv b \<and> buf_content b = []" using new_spec [OF b] len by simp
    with None b show ?thesis by (simp add: d1_def content_def)
  next
    case (Some b)
    then show ?thesis using ok(1) by (simp add: d1_def buf_ok_def content_def)
  qed
  then obtain b where b: "d_buf d1 = Some b" "buf_inv b" "buf_content b = content d" by blast
  have sz: "buf_size b = buf_len d" using arg_cong [OF b(3), of length] by simp
  have d1: "nd d1 i = nd d i" "d1\<lparr>d_buf := x\<rparr> = d\<lparr>d_buf := x\<rparr>" "in_nodes d1 n" "d_max_buf_size d1 = d_max_buf_size d" for i x
    using ok(2) by (simp_all add: d1_def)
  have bl: "buf_len d1 = buf_len d" using b(1) sz by (simp add: buf_len_def)
  have "\<not> intern_refused mem d1 bs"
    using room g by (auto simp: intern_refused_def d1(4) bl granted_def)
  with intern_spec [OF b(1,2) len, of mem] obtain b' where
    i: "pni_data_intern mem d1 bs = Some (int (buf_size b), d1\<lparr>d_buf := Some b'\<rparr>)" "buf_content b' = buf_content b @ bs @ [0]"
    by blast
  have w: "wrap32 (buf_len d) = buf_len d" "wrap32 (length bs) = length bs"
    using room(1) len by (simp_all add: wrap32_id)
  have "pni_data_intern_node mem d n bs =
      Some (0, set_nd n ((nd d n)\<lparr>nd_u := As_bytes (buf_len d) (length bs)\<rparr>) (d\<lparr>d_buf := Some b'\<rparr>))"
    unfolding pni_data_intern_node_def Let_def PNI_INTERN_MINSIZE_def d1_def [symmetric]
    using ok(2) by (simp add: i(1) wr_in d1(1,2) sz w)
  with i(2) b(3) show ?thesis by (intro exI [of _ b']) simp
qed

lemma put_bytes_placed:
  assumes inv: "data_inv d" and fresh: "next_id d = 0" and g: "granted mem" and room: "room_for d 1 (length bs + 1)"
    and a: "atom_bytes a = Some bs" "atom_wf a"
  shows "\<exists>d'. put_bytes mem d (atom_type a) bs = Some (0, d') \<and> placed d d' [Atom a]"
proof -
  have len: "length bs < 2 ^ 31" using a by (cases a) auto
  have lim: "d_size d < pni_data_max_nid d" using room by (simp add: room_for_def)
  let ?n = "d_size d + 1"
  obtain d1 where ad: "added d d1" and n: "in_nodes d1 ?n" and p: "pni_data_add mem d = Some (?n, d1)"
    using pni_data_add_ok [OF inv fresh g lim] by blast
  define d2 where "d2 = set_nd ?n ((nd d1 ?n)\<lparr>nd_type := atom_type a\<rparr>) d1"
  have "buf_ok d2" using addedD(1) [OF ad] shape_okD(7) [OF data_invD(1) [OF inv]]
    by (simp add: d2_def same_rest_def buf_ok_def)
  moreover have "buf_len d2 = buf_len d" "content d2 = content d" "d_max_buf_size d2 = d_max_buf_size d"
    using added_content [OF ad] added_same_limits [OF ad] by (simp_all add: d2_def same_limits_def)
  ultimately obtain b' where i: "pni_data_intern_node mem d2 ?n bs =
      Some (0, set_nd ?n ((nd d2 ?n)\<lparr>nd_u := As_bytes (buf_len d) (length bs)\<rparr>) (d2\<lparr>d_buf := Some b'\<rparr>))"
    "buf_content b' = content d @ bs @ [0]"
    using intern_node_ok [of d2 ?n mem bs] n g len room by (auto simp: d2_def room_for_def)
  define x where "x = (nd d1 ?n)\<lparr>nd_type := atom_type a, nd_u := As_bytes (buf_len d) (length bs)\<rparr>"
  define d' where "d' = (set_nd ?n x d1)\<lparr>d_buf := Some b'\<rparr>"
  have "set_nd ?n ((nd d2 ?n)\<lparr>nd_u := As_bytes (buf_len d) (length bs)\<rparr>) (d2\<lparr>d_buf := Some b'\<rparr>) = d'"
    using n by (simp add: d'_def d2_def x_def node_simps) (simp add: set_nd_def)
  then have put: "put_bytes mem d (atom_type a) bs = Some (0, d')"
    using p i(1) n by (simp add: put_bytes_def wr_in d2_def)
  have "data_allowed mem (D_put a) d"
    using a g len by (cases a) (auto simp: granted_def)
  from put_scalar_inv [OF inv this] put a(1) have inv': "data_inv d'" by (simp add: put_scalar_eq)
  have c': "content d' = content d @ bs @ [0]" using i(2) by (simp add: d'_def content_def)
  have bl: "buf_len d' = buf_len d + length bs + 1" using arg_cong [OF c', of length] by simp
  have "placed d d' [Atom a]"
  proof (rule placed_leaf [OF inv ad inv', of x])
    show "rep d' ?n ?n (Atom a)"
      using n bl a(1) c' by (simp add: atom_node_def d'_def node_simps) (simp add: x_def)
    show "extends d d'" using c' by (simp add: extends_def)
    show "buf_len d' = buf_len d + string_room (Atom a)" using a(1) bl by simp
  qed (use addedD(5) [OF ad] added_same_limits [OF ad] in \<open>simp_all add: x_def d'_def same_limits_def\<close>)
  with put show ?thesis by blast
qed

text \<open>Every scalar put function places its value.\<close>

lemma put_scalar_placed:
  assumes inv: "data_inv d" and fresh: "next_id d = 0" and g: "granted mem" and wf: "atom_wf a"
    and room: "room_for d 1 (string_room (Atom a))"
  shows "\<exists>d'. put_scalar mem d a = Some (0, d') \<and> placed d d' [Atom a]"
proof (cases "atom_bytes a")
  case (Some bs)
  then show ?thesis using put_bytes_placed [OF inv fresh g _ Some wf] room by (simp add: put_scalar_eq)
next
  case None
  have lim: "d_size d < pni_data_max_nid d" using room by (simp add: room_for_def)
  let ?fill = "\<lambda>x. if a = PN_NULL then x\<lparr>nd_type := T_NULL\<rparr> else x\<lparr>nd_type := atom_type a, nd_u := atom_payload a\<rparr>"
  have "\<exists>d'. put_node mem d ?fill = Some (0, d') \<and> placed d d' [Atom a]"
  proof (rule put_node_placed [OF inv fresh g lim], goal_cases)
    case (2 x n m b)
    moreover have "payload_ok n m b T_NULL Zero" by (simp add: payload_ok_def)
    ultimately show ?case using atom_payload_ok [OF None] by (simp add: pni_node_get_down_def)
  qed (use None in \<open>simp_all add: atom_node_def\<close>)
  with None show ?thesis by (simp add: put_scalar_eq)
qed

lemma put_compound_placed:
  assumes inv: "data_inv d" and fresh: "next_id d = 0" and g: "granted mem" and lim: "d_size d < pni_data_max_nid d"
    and ty: "compound_type ty"
    and fill: "\<And>x. nd_next (fill x) = nd_next x \<and> nd_prev (fill x) = nd_prev x \<and> nd_parent (fill x) = nd_parent x \<and>
      nd_type (fill x) = ty \<and> nd_u (fill x) = As_compound 0 0 0 \<and>
      nd_array_type (fill x) = (if array_type ty then aty else nd_array_type x)"
    and aty: "array_type ty \<or> aty = T_UNSET"
  shows "\<exists>d'. put_node mem d fill = Some (0, d') \<and> placed d d' [Comp ty aty []]"
  using fill ty aty
  by (intro put_node_placed [OF inv fresh g lim])
    (auto simp: pni_node_get_down_def intro: payload_ok_compoundI)

text \<open>Leaving a compound whose children have been placed.\<close>

lemma placed_compound:
  assumes inv: "data_inv d" and p1: "placed d d1 [Comp ty aty0 []]"
    and inv3: "data_inv d3" and par3: "d_parent d3 = d_size d + 1"
    and lim: "d_error d3 = d_error d1" "d_max_buf_size d3 = d_max_buf_size d1" "d_max_nid d3 = d_max_nid d1"
      "d_base_parent d3 = d_base_parent d1" "d_base_current d3 = d_base_current d1"
    and sz3: "d_size d3 = d_size d + 1 + nodes_of vs" and ext: "extends d1 d3" "buf_len d3 = buf_len d1 + strings_of vs"
    and nodes: "\<And>i. 0 < i \<Longrightarrow> i \<le> d_size d \<Longrightarrow> like (nd d3 i) (nd d1 i)"
    and root: "nd_type (nd d3 (d_size d + 1)) = ty" "nd_next (nd d3 (d_size d + 1)) = 0"
      "nd_prev (nd d3 (d_size d + 1)) = d_current d" "nd_parent (nd d3 (d_size d + 1)) = d_parent d"
      "if array_type ty then nd_array_type (nd d3 (d_size d + 1)) = aty else aty = T_UNSET"
    and kids: "nd_u (nd d3 (d_size d + 1)) = As_compound down (length vs) s" "reps d3 (d_size d3) (d_size d + 1) 0 down vs"
  shows "\<exists>d4. pn_data_exit d3 = Some (True, d4) \<and> placed d d4 [Comp ty aty vs] \<and> moved d3 d4"
proof -
  note q = placedD [OF p1]
  define n where "n = d_size d + 1"
  have sh: "shape_ok d" and sh3: "shape_ok d3" using inv inv3 by (auto dest: data_invD)
  have n: "0 < n" "n \<le> d_size d3" "in_nodes d3 n" "d_parent d < n"
    using sz3 shape_okD(9) [OF sh3, of n] shape_okD(10) [OF sh] by (simp_all add: n_def)
  define d4 where "d4 = d3\<lparr>d_current := n, d_parent := d_parent d\<rparr>"
  have ex: "pn_data_exit d3 = Some (True, d4)"
    using par3 n root(4) by (simp add: pn_data_exit_def rd_in n_def d4_def)
  have nd4: "nd d4 i = nd d3 i" for i by (simp add: d4_def)
  have mv: "moved d3 d4" by (simp add: d4_def moved_def)
  have inv4: "data_inv d4" using exit_inv [OF inv3] ex by simp
  have c4: "content d4 = content d3" "buf_len d4 = buf_len d3" by (simp_all add: d4_def content_def buf_len_def)
  have "extends d3 d4" using c4 by (simp add: extends_def)
  from rep_frame(2) [OF kids(2) _ this, of "d_size d4"] have "reps d4 (d_size d4) n 0 down vs"
    by (simp add: nd4 n_def d4_def)
  then have "rep d4 (d_size d4) n (Comp ty aty vs)"
    using n root kids(1) q(6) by (simp add: nd4 n_def d4_def split: if_splits)
  then have rp: "reps d4 (d_size d4) (d_parent d) (d_current d) n [Comp ty aty vs]"
    using n(4) root(2-4) by (simp add: nd4 n_def del: rep.simps)
  have "same_limits d d4" using q(1) lim by (simp add: same_limits_def d4_def)
  moreover have "next_id d4 = 0" using n root(2) by (simp add: next_id_def d4_def n_def)
  moreover have "like (nd d4 i) (if i = d_current d then (nd d i)\<lparr>nd_next := n\<rparr>
      else if i = d_parent d then new_parent n (nd d i) else nd d i)" if i: "0 < i" "i \<le> d_size d" for i
    using like_trans [OF nodes [OF i] q(9) [OF i]] by (simp add: nd4 n_def cong: if_cong)
  moreover have "extends d d4" using extends_trans [OF q(7) ext(1)] c4 by (simp add: extends_def)
  ultimately have "placed d d4 [Comp ty aty vs]"
    unfolding placed_def using inv4 rp sz3 ext(2) q(8) c4 by (simp add: d4_def n_def cong: if_cong)
  with ex mv show ?thesis by blast
qed

lemma new_parent_pow_payload:
  assumes "compound_type (nd_type x)" "nd_u x = As_compound 0 0 s" "k < 2 ^ 16" "0 < m"
  shows "nd_u ((new_parent m ^^ k) x) = As_compound (if k = 0 then 0 else m) k s \<and>
    nd_type ((new_parent m ^^ k) x) = nd_type x"
  using assms(3)
proof (induction k)
  case (Suc k)
  define y where "y = (new_parent m ^^ k) x"
  have y: "nd_u y = As_compound (if k = 0 then 0 else m) k s" "nd_type y = nd_type x" "Suc k < 2 ^ 16"
    using Suc by (simp_all add: y_def)
  have "nd_u (new_parent m y) = As_compound m (Suc k) s"
    using y assms(1,4) by (simp add: new_parent_def pni_node_inc_children_def pni_node_set_down_def pni_node_get_down_def)
  with y(2) show ?case by (simp add: y_def)
qed (use assms in simp)

lemma new_parent_pow_simps [simp]:
  "nd_next ((new_parent m ^^ k) x) = nd_next x" "nd_prev ((new_parent m ^^ k) x) = nd_prev x"
  "nd_parent ((new_parent m ^^ k) x) = nd_parent x" "nd_array_type ((new_parent m ^^ k) x) = nd_array_type x"
  by (induction k) simp_all

lemma placed_entered:
  assumes inv: "data_inv d" and p1: "placed d d1 [Comp ty aty []]"
  shows "snd (pn_data_enter d1) = d1\<lparr>d_parent := d_size d + 1, d_current := 0\<rparr>" "data_inv (snd (pn_data_enter d1))"
    "next_id (snd (pn_data_enter d1)) = 0" "d_size d1 = d_size d + 1"
proof -
  note q = placedD [OF p1]
  show e: "snd (pn_data_enter d1) = d1\<lparr>d_parent := d_size d + 1, d_current := 0\<rparr>"
    using q(5) by (simp add: pn_data_enter_def)
  show "data_inv (snd (pn_data_enter d1))" using enter_inv [OF q(2)] .
  show "next_id (snd (pn_data_enter d1)) = 0"
    using q(6) unfolding e by (auto simp: next_id_def pni_node_get_down_def)
  show "d_size d1 = d_size d + 1" using q(3) by simp
qed

lemma length_nodes_of: "length vs \<le> nodes_of vs"
proof (induction vs)
  case (Cons v vs)
  have "1 \<le> node_count v" using node_count_pos [of v] by linarith
  with Cons show ?case by simp
qed simp

text \<open>A compound with its children, put between entering and leaving it.\<close>

lemma placed_children:
  assumes inv: "data_inv d" and p1: "placed d d1 [Comp ty aty []]" and p2: "placed (snd (pn_data_enter d1)) d3 ks"
  shows "\<exists>d4. pn_data_exit d3 = Some (True, d4) \<and> placed d d4 [Comp ty aty ks]"
proof -
  note q = placedD [OF p1] and e = placed_entered [OF inv p1] and r = placedD [OF p2]
  define n where "n = d_size d + 1"
  let ?d2 = "snd (pn_data_enter d1)"
  have n: "n \<le> d_size ?d2" "0 < n" using e(1,4) by (simp_all add: n_def)
  obtain s0 where x: "nd_type (nd d1 n) = ty" "compound_type ty" "nd_u (nd d1 n) = As_compound 0 0 s0"
    "if array_type ty then nd_array_type (nd d1 n) = aty else aty = T_UNSET" "nd_prev (nd d1 n) = d_current d"
    "nd_parent (nd d1 n) = d_parent d" "nd_next (nd d1 n) = 0"
    using q(6) by (auto simp: n_def split: if_splits)
  have nd2: "nd ?d2 i = nd d1 i" for i using e(1) by simp
  have sz: "d_size d3 = n + nodes_of ks" "d_size ?d2 = n" using r(3) e(1,4) by (simp_all add: n_def)
  have "nodes_of ks < 2 ^ 16" using shape_okD(2,3) [OF data_invD(1) [OF r(2)]] sz by simp
  then have k: "length ks < 2 ^ 16" using length_nodes_of [of ks] by linarith
  have root: "like (nd d3 n) ((new_parent (n + 1) ^^ length ks) (nd d1 n))"
    using r(9) [OF n(2,1)] e(1,4) n by (cases "ks = []") (simp_all add: n_def)
  have u: "nd_u ((new_parent (n + 1) ^^ length ks) (nd d1 n)) = As_compound (if ks = [] then 0 else n + 1) (length ks) s0"
    "nd_type ((new_parent (n + 1) ^^ length ks) (nd d1 n)) = ty"
    using new_parent_pow_payload [of "nd d1 n" s0 "length ks" "n + 1"] x k by auto
  obtain s where s: "nd_u (nd d3 n) = As_compound (if ks = [] then 0 else n + 1) (length ks) s"
    using like_payload(1) [OF root u(1)] by blast
  note l = likeD [OF root]
  have lim: "d_parent d3 = n" "d_error d3 = d_error d1" "d_max_buf_size d3 = d_max_buf_size d1" "d_max_nid d3 = d_max_nid d1"
    "d_base_parent d3 = d_base_parent d1" "d_base_current d3 = d_base_current d1"
    using r(1) e(1) by (simp_all add: same_limits_def n_def)
  have ext: "extends d1 d3" "buf_len d3 = buf_len d1 + strings_of ks"
    using r(7,8) e(1) by (simp_all add: extends_def content_def buf_len_def)
  have old: "like (nd d3 i) (nd d1 i)" if "0 < i" "i \<le> d_size d" for i
    using r(9) [OF that(1)] that e(1,4) sz(2) by (cases "ks = []") (simp_all add: n_def)
  have kids: "reps d3 (d_size d3) n 0 (if ks = [] then 0 else n + 1) ks"
    using r(6) e(1,4) by (simp add: n_def cong: if_cong)
  have "\<exists>d4. pn_data_exit d3 = Some (True, d4) \<and> placed d d4 [Comp ty aty ks] \<and> moved d3 d4"
    using lim x l u sz n_def
    by (intro placed_compound [OF inv p1 r(2) _ _ _ _ _ _ _ ext old _ _ _ _ _ s [unfolded n_def] kids [unfolded n_def]])
      (simp_all split: if_splits)
  then show ?thesis by blast
qed

end
