(* ===== verification/Data_Copy.thy ===== *)
theory Data_Copy
  imports Data_Forest
begin

text \<open>
  Reading a data object back: the nodes of a represented value are as many as the value has, so that
  the loops over an object end within one round per node, and copying an object gives the values that
  it stands for.
\<close>

section \<open>The number of nodes\<close>

fun ids :: "pn_data \<Rightarrow> nat \<Rightarrow> amqp_value \<Rightarrow> nat set"
  and ids_list :: "pn_data \<Rightarrow> nat \<Rightarrow> amqp_value list \<Rightarrow> nat set" where
  "ids d i (Atom a) = {i}"
| "ids d i (Comp ty aty vs) = insert i (ids_list d (pni_node_get_down (nd d i)) vs)"
| "ids_list d i [] = {}"
| "ids_list d i (v # vs) = ids d i v \<union> ids_list d (nd_next (nd d i)) vs"

text \<open>The ancestor (or self) of a node that is a child of \<open>p\<close>.\<close>

function climb :: "pn_data \<Rightarrow> nat \<Rightarrow> nat \<Rightarrow> nat" where
  "climb d p j = (if nd_parent (nd d j) < j
     then if nd_parent (nd d j) = p then j else climb d p (nd_parent (nd d j)) else 0)"
  by pat_completeness auto
termination by (relation "measure (\<lambda>(d, p, j). j)") auto

declare climb.simps [simp del]

lemma climb_below: "j \<le> p \<Longrightarrow> climb d p j = 0"
proof (induction d p j rule: climb.induct)
  case (1 d p j)
  then show ?case by (subst climb.simps) auto
qed

lemma climb_up:
  assumes "p < i" "nd_parent (nd d i) = p"
  shows "climb d i j \<noteq> 0 \<Longrightarrow> climb d p j = i"
  using assms
proof (induction d i j rule: climb.induct)
  case (1 d i j)
  have q: "nd_parent (nd d j) < j" using 1(2) by (subst (asm) climb.simps) (simp split: if_splits)
  show ?case
  proof (cases "nd_parent (nd d j) = i")
    case True
    moreover have "climb d p i = i" using 1(3,4) by (subst climb.simps) simp
    ultimately show ?thesis using q 1(3) by (subst climb.simps) simp
  next
    case False
    have up: "climb d i (nd_parent (nd d j)) \<noteq> 0" using 1(2) q False by (subst (asm) climb.simps) simp
    then have "i < nd_parent (nd d j)" using climb_below [of "nd_parent (nd d j)" i d] by (meson not_le)
    then show ?thesis using 1(1) [OF q False up 1(3,4)] q 1(3) by (subst climb.simps) simp
  qed
qed

lemma rep_compound_down: "rep d hi i (Comp ty aty vs) \<Longrightarrow> reps d hi i 0 (pni_node_get_down (nd d i)) vs"
  by (auto simp: pni_node_get_down_def)

lemma rep_root: "rep d hi i v \<Longrightarrow> 0 < i \<and> i \<le> hi"
  by (cases v) auto

text \<open>Siblings have different sets of nodes, and none of them is the parent.\<close>

lemma ids_climb:
  "rep d hi i v \<Longrightarrow> hi \<le> d_size d \<Longrightarrow> shape_ok d \<Longrightarrow> nd_parent (nd d i) < i \<Longrightarrow>
     \<forall>j \<in> ids d i v. climb d (nd_parent (nd d i)) j = i \<and> i \<le> j \<and> j \<le> hi"
  "reps d hi p c i vs \<Longrightarrow> hi \<le> d_size d \<Longrightarrow> shape_ok d \<Longrightarrow>
     \<forall>j \<in> ids_list d i vs. climb d p j \<noteq> 0 \<and> i \<le> climb d p j \<and> p < j \<and> j \<le> hi"
proof (induction d hi i v and d hi p c i vs rule: rep_reps.induct)
  case (1 d hi i a)
  then show ?case by (simp add: climb.simps [of d _ i])
next
  case (2 d hi i ty aty vs)
  note r = rep_compound_down [OF 2(2)]
  obtain down s where u: "nd_u (nd d i) = As_compound down (length vs) s" "reps d hi i 0 down vs" using 2(2) by auto
  have down: "pni_node_get_down (nd d i) = down" using 2(2) u(1) by (simp add: pni_node_get_down_def)
  have k: "\<forall>j \<in> ids_list d down vs. climb d i j \<noteq> 0 \<and> i < j \<and> j \<le> hi" using 2(1) [OF u(2) 2(3,4)] by blast
  show ?case
    using k climb_up [OF 2(5) refl] rep_root [OF 2(2)] 2(5) down by (auto simp: climb.simps [of d _ i])
next
  case (4 d hi p c i v vs)
  have r: "p < i" "nd_parent (nd d i) = p" "rep d hi i v" "reps d hi p i (nd_next (nd d i)) vs" using 4(3) by auto
  have hi: "0 < i" "i \<le> hi" using rep_root [OF r(3)] by auto
  have l: "links_ok d i" using shape_okD(8) [OF 4(5)] hi 4(4) by simp
  have nx: "i < nd_next (nd d i) \<or> vs = []" using links_okD(4) [OF l] r(4) by (cases vs) auto
  have "\<forall>j \<in> ids d i v. climb d p j = i \<and> i \<le> j \<and> j \<le> hi" using 4(1) [OF r(3) 4(4,5)] r(1,2) by simp
  moreover have "\<forall>j \<in> ids_list d (nd_next (nd d i)) vs. climb d p j \<noteq> 0 \<and> nd_next (nd d i) \<le> climb d p j \<and> p < j \<and> j \<le> hi"
    using 4(2) [OF r(4) 4(4,5)] .
  ultimately show ?case using r(1) hi nx by (cases "vs = []") auto
qed simp

lemma ids_card:
  "rep d hi i v \<Longrightarrow> hi \<le> d_size d \<Longrightarrow> shape_ok d \<Longrightarrow> nd_parent (nd d i) < i \<Longrightarrow>
     finite (ids d i v) \<and> card (ids d i v) = node_count v"
  "reps d hi p c i vs \<Longrightarrow> hi \<le> d_size d \<Longrightarrow> shape_ok d \<Longrightarrow>
     finite (ids_list d i vs) \<and> card (ids_list d i vs) = nodes_of vs"
proof (induction d hi i v and d hi p c i vs rule: rep_reps.induct)
  case (2 d hi i ty aty vs)
  obtain down s where u: "nd_u (nd d i) = As_compound down (length vs) s" "reps d hi i 0 down vs" using 2(2) by auto
  have down: "pni_node_get_down (nd d i) = down" using 2(2) u(1) by (simp add: pni_node_get_down_def)
  have "i \<notin> ids_list d down vs" using ids_climb(2) [OF u(2) 2(3,4)] by auto
  then show ?case using 2(1) [OF u(2) 2(3,4)] down by simp
next
  case (4 d hi p c i v vs)
  have r: "p < i" "nd_parent (nd d i) = p" "rep d hi i v" "reps d hi p i (nd_next (nd d i)) vs" using 4(3) by auto
  have hi: "0 < i" "i \<le> hi" using rep_root [OF r(3)] by auto
  have l: "links_ok d i" using shape_okD(8) [OF 4(5)] hi 4(4) by simp
  have nx: "i < nd_next (nd d i) \<or> vs = []" using links_okD(4) [OF l] r(4) by (cases vs) auto
  have "ids d i v \<inter> ids_list d (nd_next (nd d i)) vs = {}"
    using ids_climb(1) [OF r(3) 4(4,5)] ids_climb(2) [OF r(4) 4(4,5)] r(1,2) nx by (cases "vs = []") fastforce+
  then show ?case
    using 4(1) [OF r(3) 4(4,5)] 4(2) [OF r(4) 4(4,5)] r(1,2) by (simp add: card_Un_disjoint)
qed simp_all

lemma nodes_bound:
  assumes "reps d hi p c i vs" "hi \<le> d_size d" "shape_ok d"
  shows "nodes_of vs \<le> hi"
proof -
  have "ids_list d i vs \<subseteq> {1..hi}" using ids_climb(2) [OF assms] by fastforce
  from card_mono [OF _ this] ids_card(2) [OF assms] show ?thesis by simp
qed

section \<open>Reading values\<close>

text \<open>Reading may reorder the string buffer; what the object stands for stays the same.\<close>

definition alike :: "pn_data \<Rightarrow> pn_data \<Rightarrow> bool" where
  "alike d d' \<longleftrightarrow> d_nodes d' = d_nodes d \<and> d_size d' = d_size d \<and> content d' = content d \<and> data_inv d'"

lemma alike_trans: "alike d d1 \<Longrightarrow> alike d1 d2 \<Longrightarrow> alike d d2"
  by (simp add: alike_def)

lemma alike_nd: "alike d d' \<Longrightarrow> nd d' i = nd d i"
  by (simp add: alike_def nd_def)

lemma alike_rep:
  assumes "alike d d'"
  shows "rep d hi i v \<Longrightarrow> rep d' hi i v" "reps d hi p c i vs \<Longrightarrow> reps d' hi p c i vs"
  using rep_frame(1) [of d hi i v d' hi] rep_frame(2) [of d hi p c i vs d' hi] alike_nd [OF assms] assms
  by (auto simp: alike_def extends_def)

lemma alike_moved: "data_inv d \<Longrightarrow> data_inv d' \<Longrightarrow> moved d d' \<Longrightarrow> alike d d'"
  by (simp add: alike_def moved_def content_def)

lemma string_read:
  assumes inv: "data_inv d" and off: "off + length bs \<le> buf_len d" "take (length bs) (drop off (content d)) = bs"
    and b: "d_buf d \<noteq> None"
  shows "\<exists>b'. pni_node_bytes d off (length bs) = Some (Some bs, d\<lparr>d_buf := Some b'\<rparr>) \<and> alike d (d\<lparr>d_buf := Some b'\<rparr>)"
proof -
  obtain b where b: "d_buf d = Some b" using b by blast
  have ok: "buf_ok d" using shape_okD(7) [OF data_invD(1) [OF inv]] .
  obtain b' bs' where r: "pni_node_bytes d off (length bs) = Some (Some bs', d\<lparr>d_buf := Some b'\<rparr>)" "buf_inv b'"
    "buf_capacity b' = buf_capacity b" "buf_content b' = buf_content b" "bs' = take (length bs) (drop off (buf_content b))"
    using pni_node_bytes_eq [OF ok b, of off "length bs"] off(1) b by (auto simp: buf_len_def)
  have "fine (\<lambda>_. data_inv) (pni_node_bytes d off (length bs))"
    using b off(1) by (intro node_bytes_inv [OF inv]) simp_all
  then have "data_inv (d\<lparr>d_buf := Some b'\<rparr>)" using r(1) by simp
  then have "alike d (d\<lparr>d_buf := Some b'\<rparr>)" using b r(4) by (simp add: alike_def content_def)
  with r off(2) b show ?thesis by (intro exI [of _ b']) (simp add: content_def)
qed

lemma atom_node_string:
  assumes inv: "data_inv d" and c: "d_current d \<noteq> 0" and a: "atom_node d (nd d (d_current d)) a" "atom_bytes a = Some bs"
  obtains off b' where "nd_u (nd d (d_current d)) = As_bytes off (length bs)"
    "pni_node_bytes d off (length bs) = Some (Some bs, d\<lparr>d_buf := Some b'\<rparr>)" "alike d (d\<lparr>d_buf := Some b'\<rparr>)"
proof -
  obtain off where off: "nd_u (nd d (d_current d)) = As_bytes off (length bs)" "off + length bs \<le> buf_len d"
    "take (length bs) (drop off (content d)) = bs" using a by (auto simp: atom_node_def)
  have "string_type (nd_type (nd d (d_current d)))" using a atom_string_type by (auto simp: atom_node_def)
  from string_read [OF inv off(2,3) string_node_bytes(1) [OF inv c this]] off(1) that show ?thesis by blast
qed

text \<open>Copying one scalar is the put function of its type, on the value of the current node.\<close>

lemma append_value_atom:
  assumes inv: "data_inv src" and c: "d_current src \<noteq> 0" and a: "atom_node src (nd src (d_current src)) a" and wf: "atom_wf a"
  shows "\<exists>src'. append_value mem data src = put_scalar mem data a \<bind> (\<lambda>(e, d). Some (e, d, src', True, False)) \<and>
    alike src src' \<and> d_current src' = d_current src \<and> d_parent src' = d_parent src"
proof (cases "atom_bytes a")
  case None
  have cur: "in_nodes src (d_current src)" using current_typed(2) [OF inv c] .
  have n: "nd_type (nd src (d_current src)) = atom_type a" "nd_u (nd src (d_current src)) = atom_payload a"
    using a None by (simp_all add: atom_node_def)
  have "append_value mem data src = put_scalar mem data a \<bind> (\<lambda>(e, d). Some (e, d, src, True, False))"
    using None n c cur
    by (cases a) (simp_all add: append_value_def pn_data_type_def rd_in pni_type_external_def put_got_def put_scalar_def
        get_typed_def get_current_def pn_data_get_bool_def pn_data_get_ubyte_def pn_data_get_byte_def
        pn_data_get_ushort_def pn_data_get_short_def pn_data_get_uint_def pn_data_get_int_def pn_data_get_char_def
        pn_data_get_ulong_def pn_data_get_long_def pn_data_get_timestamp_def pn_data_get_float_def
        pn_data_get_double_def pn_data_get_decimal32_def pn_data_get_decimal64_def)
  then show ?thesis using inv by (intro exI [of _ src]) (simp add: alike_def)
next
  case (Some bs)
  have cur: "in_nodes src (d_current src)" using current_typed(2) [OF inv c] .
  have n: "nd_type (nd src (d_current src)) = atom_type a" using a by (simp add: atom_node_def)
  obtain off b' where r: "nd_u (nd src (d_current src)) = As_bytes off (length bs)"
    "pni_node_bytes src off (length bs) = Some (Some bs, src\<lparr>d_buf := Some b'\<rparr>)" "alike src (src\<lparr>d_buf := Some b'\<rparr>)"
    using atom_node_string [OF inv c a Some] .
  have "append_value mem data src =
      put_scalar mem data a \<bind> (\<lambda>(e, d). Some (e, d, src\<lparr>d_buf := Some b'\<rparr>, True, False))"
    using Some n c cur r(1,2) wf
    by (cases a) (auto simp: append_value_def pn_data_type_def rd_in pni_type_external_def put_got_bytes_def put_scalar_def
        get_string_bytes_def get_sixteen_def get_current_def pn_data_get_decimal128_def pn_data_get_uuid_def
        pn_data_get_binary_def pn_data_get_string_def pn_data_get_symbol_def)
  with r(3) show ?thesis by (intro exI [of _ "src\<lparr>d_buf := Some b'\<rparr>"]) simp
qed

text \<open>Copying the node of a compound puts a compound of the same type and enters both.\<close>

lemma append_value_compound:
  assumes inv: "data_inv src" and c: "d_current src \<noteq> 0"
    and ty: "nd_type (nd src (d_current src)) = ty" "compound_type ty" "ty \<noteq> T_DEFER"
      "if array_type ty then nd_array_type (nd src (d_current src)) = aty else aty = T_UNSET"
    and dst: "data_inv data" "next_id data = 0" "granted mem" "d_size data < pni_data_max_nid data"
  shows "\<exists>d1. placed data d1 [Comp ty aty []] \<and>
    append_value mem data src = Some (0, snd (pn_data_enter d1), snd (pn_data_enter src), True, True)"
proof -
  have cur: "in_nodes src (d_current src)" using current_typed(2) [OF inv c] .
  have put: "\<exists>d'. put_node mem data fill = Some (0, d') \<and> placed data d' [Comp ty aty []]"
    if "\<And>x. nd_next (fill x) = nd_next x \<and> nd_prev (fill x) = nd_prev x \<and> nd_parent (fill x) = nd_parent x \<and>
      nd_type (fill x) = ty \<and> nd_u (fill x) = As_compound 0 0 0 \<and>
      nd_array_type (fill x) = (if array_type ty then aty else nd_array_type x)" for fill
    using that ty by (intro put_compound_placed [OF dst ty(2)]) (auto split: if_splits)
  note unf = append_value_def pn_data_type_def rd_in pni_type_external_def put_and_enter_def pn_data_put_list_def
    pn_data_put_map_def pn_data_put_described_def pn_data_put_array_def pn_data_is_array_described_def
    pn_data_get_array_type_def get_current_def
  have "ty \<in> {T_LIST, T_MAP, T_DESCRIBED, T_ARRAY, T_ARRAY_DESCRIBED}" using ty(2,3) by (cases ty) auto
  then consider "ty = T_LIST" | "ty = T_MAP" | "ty = T_DESCRIBED" | "ty = T_ARRAY" | "ty = T_ARRAY_DESCRIBED" by blast
  then show ?thesis
  proof cases
    case 1
    with put [of "\<lambda>x. x\<lparr>nd_type := T_LIST, nd_u := As_compound 0 0 0\<rparr>"] cur c ty show ?thesis
      by (auto simp: unf array_type_def)
  next
    case 2
    with put [of "\<lambda>x. x\<lparr>nd_type := T_MAP, nd_u := As_compound 0 0 0\<rparr>"] cur c ty show ?thesis
      by (auto simp: unf array_type_def)
  next
    case 3
    with put [of "\<lambda>x. x\<lparr>nd_type := T_DESCRIBED, nd_u := As_compound 0 0 0\<rparr>"] cur c ty show ?thesis
      by (auto simp: unf array_type_def)
  next
    case 4
    with put [of "\<lambda>x. x\<lparr>nd_type := T_ARRAY, nd_array_type := aty, nd_u := As_compound 0 0 0\<rparr>"] cur c ty show ?thesis
      by (auto simp: unf array_type_def)
  next
    case 5
    with put [of "\<lambda>x. x\<lparr>nd_type := T_ARRAY_DESCRIBED, nd_array_type := aty, nd_u := As_compound 0 0 0\<rparr>"] cur c ty show ?thesis
      by (auto simp: unf array_type_def)
  qed
qed

section \<open>Copying\<close>

lemma append_up_more:
  assumes "shape_ok src" "next_id src \<noteq> 0"
  shows "append_up data src level = Some (True, data, src\<lparr>d_current := next_id src\<rparr>, level)"
  using assms(2) by (cases level) (simp_all add: pn_data_next_eq [OF assms(1)])

lemma append_loop_exit:
  assumes "shape_ok src" "next_id src = 0" "pn_data_exit data = Some (r, data')" "pn_data_exit src = Some (r', src')"
  shows "append_loop F mem limit data src (Suc level) count = append_loop F mem limit data' src' level count"
proof -
  have "append_up data src (Suc level) = append_up data' src' level"
    using assms(2-4) by (simp add: pn_data_next_eq [OF assms(1)])
  then show ?thesis by (cases F) (simp_all only: append_loop.simps)
qed

lemma append_loop_step:
  assumes "shape_ok src" "next_id src \<noteq> 0" "limit < 0" "0 \<le> count"
    and v: "append_value mem data (src\<lparr>d_current := next_id src\<rparr>) = Some (0, data', src', True, entered)"
  shows "\<exists>count'. 0 \<le> count' \<and> append_loop (Suc F) mem limit data src level count =
    append_loop F mem limit data' src' (if entered then level + 1 else level) count'"
proof -
  have "\<not> (level = 0 \<and> count = limit)" using assms(3,4) by auto
  then show ?thesis
    using assms(4) append_up_more [OF assms(1,2), of data level] v
    by (intro exI [of _ "if level = 0 then count + 1 else count"]) auto
qed

lemma room_for_split:
  assumes "room_for d (a + b) (s + t)" "same_limits d d'" "d_size d' = d_size d + a" "buf_len d' = buf_len d + s"
  shows "room_for d a s" "room_for d' b t"
  using assms by (auto simp: room_for_def same_limits_def pni_data_max_nid_def)

lemma cursor_alike:
  assumes "data_inv src" "next_id src \<noteq> 0"
  shows "data_inv (src\<lparr>d_current := next_id src\<rparr>)" "alike src (src\<lparr>d_current := next_id src\<rparr>)"
proof -
  have sh: "shape_ok src" using assms(1) by (rule data_invD)
  show i: "data_inv (src\<lparr>d_current := next_id src\<rparr>)"
    using data_next_inv [OF assms(1)] assms(2) by (simp add: pn_data_next_eq [OF sh])
  show "alike src (src\<lparr>d_current := next_id src\<rparr>)" by (rule alike_moved [OF assms(1) i]) simp
qed

lemma copy_values:
  assumes "reps src hi p c (next_id src) vs" "\<forall>v \<in> set vs. value_wf v" "hi \<le> d_size src" "data_inv src" "d_parent src = p"
    and "data_inv data" "next_id data = 0" "granted mem" "room_for data (nodes_of vs) (strings_of vs)"
    and "limit < 0" "0 \<le> count"
  shows "\<exists>data' src' count'. append_loop (nodes_of vs + F) mem limit data src level count =
      append_loop F mem limit data' src' level count' \<and> 0 \<le> count' \<and> placed data data' vs \<and> alike src src' \<and>
      d_parent src' = p \<and> next_id src' = 0"
  using assms(1-7,9,11)
proof (induction "nodes_of vs" arbitrary: vs src p c data count level F rule: less_induct)
  case less
  note prems = less.prems
  show ?case
  proof (cases vs)
    case Nil
    then show ?thesis using prems placed_Nil [of data]
      by (intro exI [of _ data] exI [of _ src] exI [of _ count]) (auto simp: alike_def)
  next
    case (Cons v ws)
    have sh: "shape_ok src" using prems(4) by (rule data_invD)
    define i where "i = next_id src"
    define s1 where "s1 = src\<lparr>d_current := i\<rparr>"
    have r: "p < i" "nd_parent (nd src i) = p" "rep src hi i v" "reps src hi p i (nd_next (nd src i)) ws"
      using prems(1) Cons by (auto simp: i_def)
    have i0: "i \<noteq> 0" using r(1) by simp
    have s1: "data_inv s1" "alike src s1" using cursor_alike [OF prems(4)] i0 by (simp_all add: s1_def i_def)
    have cur1: "d_current s1 = i" "d_parent s1 = p" using prems(5) by (simp_all add: s1_def)
    have wf: "value_wf v" "\<forall>v \<in> set ws. value_wf v" using prems(2) Cons by auto
    have room: "room_for data (node_count v + nodes_of ws) (string_room v + strings_of ws)"
      using prems(8) Cons by simp
    have smaller: "nodes_of ws < nodes_of vs" using Cons by simp
    text \<open>After the first value has been placed the rest follows.\<close>
    have rest: ?thesis if one: "append_loop (nodes_of vs + F) mem limit data src level count =
        append_loop (nodes_of ws + F) mem limit d1 s2 level count1" "0 \<le> count1" "placed data d1 [v]"
        "alike src s2" "d_parent s2 = p" "d_current s2 = i" for d1 s2 count1
    proof -
      note q = placedD [OF one(3)]
      have nx: "next_id s2 = nd_next (nd src i)" using one(4,6) i0 by (simp add: next_id_def alike_nd)
      have "room_for d1 (nodes_of ws) (strings_of ws)" using room_for_split(2) [OF room q(1)] q(3,8) by simp
      moreover have "reps s2 hi p i (next_id s2) ws" using alike_rep(2) [OF one(4) r(4)] nx by simp
      moreover have "data_inv s2" "hi \<le> d_size s2" using one(4) prems(3) by (simp_all add: alike_def)
      ultimately obtain d2 s3 count2 where
        "append_loop (nodes_of ws + F) mem limit d1 s2 level count1 = append_loop F mem limit d2 s3 level count2"
        "0 \<le> count2" "placed d1 d2 ws" "alike s2 s3" "d_parent s3 = p" "next_id s3 = 0"
        using less.hyps [OF smaller, of s2 p i d1 count1 F level] wf(2) one(2,5) q(2,4) by blast
      then show ?thesis
        using one(1) placed_Cons [OF prems(6) one(3)] alike_trans [OF one(4)] Cons
        by (intro exI [of _ d2] exI [of _ s3] exI [of _ count2]) simp
    qed
    show ?thesis
    proof (cases v)
      case (Atom a)
      have an: "atom_node s1 (nd s1 (d_current s1)) a"
        using alike_rep(1) [OF s1(2) r(3)] Atom cur1 by simp
      have wfa: "atom_wf a" using wf(1) Atom by simp
      obtain d1 where d1: "put_scalar mem data a = Some (0, d1)" "placed data d1 [Atom a]"
        using put_scalar_placed [OF prems(6,7) assms(8) wfa] room_for_split(1) [OF room, of d1] Atom
        using room by (auto simp: room_for_def)
      obtain s2 where s2: "append_value mem data s1 = Some (0, d1, s2, True, False)" "alike s1 s2"
        "d_current s2 = i" "d_parent s2 = p"
        using append_value_atom [OF s1(1) _ an wfa, of mem data] d1(1) cur1 i0 by auto
      obtain count' where "0 \<le> count'" "append_loop (Suc (nodes_of ws + F)) mem limit data src level count =
          append_loop (nodes_of ws + F) mem limit d1 s2 level count'"
        using append_loop_step [OF sh _ assms(10) prems(9), of mem data d1 s2 False "nodes_of ws + F" level] s2(1) i0
        by (auto simp: s1_def i_def)
      then show ?thesis
        using Atom Cons d1(2) s2 alike_trans [OF s1(2) s2(2)] by (intro rest [of d1 s2 count']) simp_all
    next
      case (Comp ty aty ks)
      have nd1: "nd s1 i = nd src i" by (simp add: s1_def)
      have rc: "nd_type (nd s1 i) = ty" "compound_type ty" "ty \<noteq> T_DEFER"
        "if array_type ty then nd_array_type (nd s1 i) = aty else aty = T_UNSET"
        using r(3) wf(1) Comp by (simp_all add: nd1)
      have kids: "reps src hi i 0 (pni_node_get_down (nd src i)) ks"
        by (rule rep_compound_down [OF r(3) [unfolded Comp]])
      have lim: "d_size data < pni_data_max_nid data" using room Comp by (simp add: room_for_def)
      obtain d1 where d1: "placed data d1 [Comp ty aty []]"
        "append_value mem data s1 = Some (0, snd (pn_data_enter d1), snd (pn_data_enter s1), True, True)"
        using append_value_compound [OF s1(1) _ _ rc(2,3) _ prems(6,7) assms(8) lim, of aty] rc cur1 i0 by auto
      obtain count' where c': "0 \<le> count'" "append_loop (Suc (nodes_of ks + (nodes_of ws + F))) mem limit data src level count =
          append_loop (nodes_of ks + (nodes_of ws + F)) mem limit (snd (pn_data_enter d1)) (snd (pn_data_enter s1)) (level + 1) count'"
        using append_loop_step [OF sh _ assms(10) prems(9), of mem data _ _ True "nodes_of ks + (nodes_of ws + F)" level] d1(2) i0
        by (fastforce simp: s1_def i_def)
      let ?d2 = "snd (pn_data_enter d1)" and ?s2 = "snd (pn_data_enter s1)"
      note e = placed_entered [OF prems(6) d1(1)] and q = placedD [OF d1(1)]
      have s2: "?s2 = s1\<lparr>d_parent := i, d_current := 0\<rparr>" "data_inv ?s2"
        using cur1 i0 enter_inv [OF s1(1)] by (simp_all add: pn_data_enter_def)
      have al2: "alike src ?s2"
        using s2(2) s1(2) unfolding s2(1) by (simp add: alike_def content_def)
      have nx2: "next_id ?s2 = pni_node_get_down (nd src i)" using i0 unfolding s2(1) by (simp add: next_id_def s1_def)
      have rk: "reps ?s2 hi i 0 (next_id ?s2) ks" using alike_rep(2) [OF al2 kids] nx2 by simp
      have roomk: "room_for ?d2 (nodes_of ks) (strings_of ks)"
        using room e(1,4) q(1,8) Comp by (auto simp: room_for_def same_limits_def pni_data_max_nid_def buf_len_def)
      have smk: "nodes_of ks < nodes_of vs" using Cons Comp by simp
      obtain d3 s3 count3 where l3: "append_loop (nodes_of ks + (nodes_of ws + F)) mem limit ?d2 ?s2 (level + 1) count' =
          append_loop (nodes_of ws + F) mem limit d3 s3 (level + 1) count3" "0 \<le> count3" "placed ?d2 d3 ks"
        "alike ?s2 s3" "d_parent s3 = i" "next_id s3 = 0"
        using less.hyps [OF smk rk _ _ s2(2) _ e(2,3) roomk c'(1), of "nodes_of ws + F" "level + 1"]
          wf(1) Comp al2 prems(3) s2(1) by (auto simp: alike_def)
      obtain d4 where d4: "pn_data_exit d3 = Some (True, d4)" "placed data d4 [v]"
        using placed_children [OF prems(6) d1(1) l3(3)] Comp by auto
      have s3: "data_inv s3" "shape_ok s3" "alike src s3"
        using l3(4) alike_trans [OF al2 l3(4)] by (auto simp: alike_def dest: data_invD)
      have "in_nodes s3 i" using parent_links(1) [OF s3(2)] l3(5) i0 by simp
      then have x3: "pn_data_exit s3 = Some (True, s3\<lparr>d_current := i, d_parent := p\<rparr>)"
        using l3(5) i0 r(2) s3(3) by (simp add: pn_data_exit_def rd_in alike_nd)
      have i4: "data_inv (s3\<lparr>d_current := i, d_parent := p\<rparr>)" using exit_inv [OF s3(1)] x3 by simp
      have a4: "alike src (s3\<lparr>d_current := i, d_parent := p\<rparr>)"
        using s3(3) i4 by (simp add: alike_def content_def)
      show ?thesis
      proof (rule rest [of d4 "s3\<lparr>d_current := i, d_parent := p\<rparr>" count3])
        show "append_loop (nodes_of vs + F) mem limit data src level count =
            append_loop (nodes_of ws + F) mem limit d4 (s3\<lparr>d_current := i, d_parent := p\<rparr>) level count3"
          using c'(2) l3(1) append_loop_exit [OF s3(2) l3(6) d4(1) x3] Cons Comp by (simp add: ac_simps)
      qed (use l3(2) d4(2) a4 in simp_all)
    qed
  qed
qed

text \<open>An object that stands for a sequence of values, with nothing narrowed.\<close>

definition stands_for :: "pn_data \<Rightarrow> amqp_value list \<Rightarrow> bool" where
  "stands_for d vs \<longleftrightarrow> data_inv d \<and> d_base_parent d = 0 \<and> d_base_current d = 0 \<and>
     reps d (d_size d) 0 0 (if d_size d = 0 then 0 else 1) vs"

lemma clear_facts:
  "d_size (pn_data_clear d) = 0" "next_id (pn_data_clear d) = 0" "buf_len (pn_data_clear d) = 0"
  "d_parent (pn_data_clear d) = 0" "d_current (pn_data_clear d) = 0" "d_base_parent (pn_data_clear d) = 0"
  "d_base_current (pn_data_clear d) = 0" "pni_data_max_nid (pn_data_clear d) = pni_data_max_nid d"
  "d_max_buf_size (pn_data_clear d) = d_max_buf_size d"
  by (simp_all add: pn_data_clear_def next_id_def buf_len_def pni_data_max_nid_def pn_buffer_clear_def split: option.split)

text \<open>Values placed in an empty object are what it then stands for.\<close>

lemma placed_stands_for:
  assumes p: "placed d d' vs" and empty: "d_size d = 0" "d_parent d = 0" "d_current d = 0" "d_base_parent d = 0" "d_base_current d = 0"
  shows "stands_for (pn_data_rewind d') vs"
proof -
  note q = placedD [OF p]
  have "(if vs = [] then 0 else d_size d + 1) = (if d_size d' = 0 then 0 else 1)"
    using q(3) empty(1) by (cases vs) simp_all
  then have "reps d' (d_size d') 0 0 (if d_size d' = 0 then 0 else 1) vs" using q(6) empty by simp
  moreover have a: "alike d' (pn_data_rewind d')"
    using alike_moved [OF q(2) rewind_inv [OF q(2)]] by (simp add: pn_data_rewind_def)
  ultimately show ?thesis
    using alike_rep(2) [OF a] q(1) empty rewind_inv [OF q(2)]
    by (simp add: stands_for_def same_limits_def pn_data_rewind_def)
qed

lemma restore_point:
  assumes "data_inv src" "alike src src'"
  shows "\<exists>s. pn_data_restore src' (pn_data_point src) = Some (True, s) \<and> alike src s \<and>
    d_parent s = d_parent src \<and> d_current s = d_current src"
proof -
  have sh: "shape_ok src" using assms(1) by (rule data_invD)
  have inv': "data_inv src'" and sz: "d_size src' = d_size src" using assms(2) by (simp_all add: alike_def)
  have "- int (d_size src') \<le> pn_data_point src" using shape_okD(10) [OF sh] sz by (simp add: pn_data_point_def)
  from restore_inv [OF inv' this] obtain r s where s: "pn_data_restore src' (pn_data_point src) = Some (r, s)" "data_inv s"
    by (auto elim!: fineE)
  have "r \<and> d_parent s = d_parent src \<and> d_current s = d_current src \<and> moved src' s"
  proof (cases "d_current src = 0")
    case True
    then show ?thesis using s(1) shape_okD(10) [OF sh] sz by (auto simp: pn_data_restore_def pn_data_point_def moved_def)
  next
    case False
    note c = current_links [OF sh False]
    have "int (d_current src) mod 2 ^ 16 = int (d_current src)"
      using shape_okD(2,3,11) [OF sh] by (intro mod_pos_pos_trivial) simp_all
    moreover have "in_nodes src' (d_current src)" using shape_okD(9) [OF data_invD(1) [OF inv']] False shape_okD(11) [OF sh] sz by simp
    ultimately show ?thesis
      using s(1) False shape_okD(11) [OF sh] sz c(3) alike_nd [OF assms(2)]
      by (auto simp: pn_data_restore_def pn_data_point_def moved_def rd_in)
  qed
  then show ?thesis using s alike_trans [OF assms(2) alike_moved [OF inv' s(2)]] by (intro exI [of _ s]) auto
qed

lemma rewind_stands:
  assumes "stands_for src vs"
  shows "alike src (pn_data_rewind src)" "d_parent (pn_data_rewind src) = 0"
    "reps (pn_data_rewind src) (d_size src) 0 0 (next_id (pn_data_rewind src)) vs"
proof -
  have inv: "data_inv src" using assms by (simp add: stands_for_def)
  show a: "alike src (pn_data_rewind src)"
    using alike_moved [OF inv rewind_inv [OF inv]] by (simp add: pn_data_rewind_def)
  show "d_parent (pn_data_rewind src) = 0" using assms by (simp add: stands_for_def pn_data_rewind_def)
  have "next_id (pn_data_rewind src) = (if d_size src = 0 then 0 else 1)"
    using assms by (simp add: stands_for_def pn_data_rewind_def next_id_def)
  then show "reps (pn_data_rewind src) (d_size src) 0 0 (next_id (pn_data_rewind src)) vs"
    using alike_rep(2) [OF a] assms by (simp add: stands_for_def)
qed

lemma append_placed:
  assumes src: "stands_for src vs" and wf: "\<forall>v \<in> set vs. value_wf v"
    and dst: "data_inv data" "next_id data = 0" "granted mem" "room_for data (nodes_of vs) (strings_of vs)"
  shows "\<exists>data' src'. pn_data_append mem data src = Some (0, data', src') \<and> placed data data' vs \<and> alike src src' \<and>
    d_parent src' = d_parent src \<and> d_current src' = d_current src"
proof -
  note r = rewind_stands [OF src]
  have inv: "data_inv src" "shape_ok src" using src by (auto simp: stands_for_def dest: data_invD)
  have invr: "data_inv (pn_data_rewind src)" using r(1) by (simp add: alike_def)
  have "nodes_of vs \<le> d_size src" using src by (intro nodes_bound [OF _ _ inv(2)]) (auto simp: stands_for_def)
  then obtain F where F: "d_size src + 1 = nodes_of vs + Suc F" by (metis Suc_eq_plus1 add_Suc_right le_Suc_ex)
  have "d_size (pn_data_rewind src) = d_size src" by (simp add: pn_data_rewind_def)
  then obtain d' s1 count' where l: "append_loop (d_size src + 1) mem (- 1) data (pn_data_rewind src) 0 0 =
      append_loop (Suc F) mem (- 1) d' s1 0 count'" "placed data d' vs" "alike (pn_data_rewind src) s1" "next_id s1 = 0"
    using copy_values [OF r(3) wf _ invr r(2) dst, of "- 1" 0 "Suc F" 0] unfolding F by (auto simp del: append_loop.simps)
  have s1: "data_inv s1" "shape_ok s1" using l(3) by (auto simp: alike_def dest: data_invD)
  have stop: "append_loop (Suc F) mem (- 1) d' s1 0 count' = Some (0, d', s1)"
    using l(4) by (simp add: pn_data_next_eq [OF s1(2)])
  have a1: "alike src s1" by (rule alike_trans [OF r(1) l(3)])
  obtain s where "pn_data_restore s1 (pn_data_point src) = Some (True, s)" "alike src s"
    "d_parent s = d_parent src" "d_current s = d_current src"
    using restore_point [OF inv(1) a1] by blast
  then show ?thesis
    using l(1,2) stop by (intro exI [of _ d'] exI [of _ s]) (simp add: pn_data_append_def pn_data_appendn_def)
qed

text \<open>
  A client that builds values with the put functions, entering and leaving the compounds. It is how
  objects that stand for given values come about.
\<close>

fun put_value :: "data_mem \<Rightarrow> amqp_value \<Rightarrow> pn_data \<Rightarrow> (int \<times> pn_data) option"
  and put_values :: "data_mem \<Rightarrow> amqp_value list \<Rightarrow> pn_data \<Rightarrow> (int \<times> pn_data) option" where
  "put_value mem (Atom a) d = put_scalar mem d a"
| "put_value mem (Comp ty aty vs) d = do {
     (err, d) \<leftarrow> (case ty of
         T_LIST \<Rightarrow> pn_data_put_list mem d
       | T_MAP \<Rightarrow> pn_data_put_map mem d
       | T_DESCRIBED \<Rightarrow> pn_data_put_described mem d
       | T_ARRAY \<Rightarrow> pn_data_put_array mem d False aty
       | _ \<Rightarrow> pn_data_put_array mem d True aty);
     if err \<noteq> 0 then Some (err, d)
     else do {
       (err, d) \<leftarrow> put_values mem vs (snd (pn_data_enter d));
       if err \<noteq> 0 then Some (err, d)
       else do {
         (_, d) \<leftarrow> pn_data_exit d;
         Some (0, d)
       }
     }
   }"
| "put_values mem [] d = Some (0, d)"
| "put_values mem (v # vs) d = do {
     (err, d) \<leftarrow> put_value mem v d;
     if err \<noteq> 0 then Some (err, d) else put_values mem vs d
   }"

lemma put_value_placed:
  "value_wf v \<Longrightarrow> data_inv d \<Longrightarrow> next_id d = 0 \<Longrightarrow> granted mem \<Longrightarrow> room_for d (node_count v) (string_room v) \<Longrightarrow>
     \<exists>d'. put_value mem v d = Some (0, d') \<and> placed d d' [v]"
  "\<forall>v \<in> set vs. value_wf v \<Longrightarrow> data_inv d \<Longrightarrow> next_id d = 0 \<Longrightarrow> granted mem \<Longrightarrow> room_for d (nodes_of vs) (strings_of vs) \<Longrightarrow>
     \<exists>d'. put_values mem vs d = Some (0, d') \<and> placed d d' vs"
proof (induction mem v d and mem vs d rule: put_value_put_values.induct)
  case (1 mem a d)
  then show ?case using put_scalar_placed [of d mem a] by simp
next
  case (2 mem ty aty vs d)
  have lim: "d_size d < pni_data_max_nid d" using 2(6) by (simp add: room_for_def)
  have ty: "compound_type ty" "array_type ty \<or> aty = T_UNSET" "ty \<noteq> T_DEFER" using 2(2) by auto
  define put where "put = (case ty of T_LIST \<Rightarrow> pn_data_put_list mem d | T_MAP \<Rightarrow> pn_data_put_map mem d
       | T_DESCRIBED \<Rightarrow> pn_data_put_described mem d | T_ARRAY \<Rightarrow> pn_data_put_array mem d False aty
       | _ \<Rightarrow> pn_data_put_array mem d True aty)"
  have "\<exists>d1. put = Some (0, d1) \<and> placed d d1 [Comp ty aty []]"
    using ty unfolding put_def
    by (cases ty; simp add: pn_data_put_list_def pn_data_put_map_def pn_data_put_described_def pn_data_put_array_def;
        intro put_compound_placed [OF 2(3-5) lim]; simp add: array_type_def)
  then obtain d1 where d1: "put = Some (0, d1)" "placed d d1 [Comp ty aty []]" by blast
  note e = placed_entered [OF 2(3) d1(2)] and q = placedD [OF d1(2)]
  have "room_for (snd (pn_data_enter d1)) (nodes_of vs) (strings_of vs)"
    using 2(6) e(1,4) q(1,8) by (auto simp: room_for_def same_limits_def pni_data_max_nid_def buf_len_def)
  moreover have "\<forall>v \<in> set vs. value_wf v" using 2(2) by simp
  ultimately obtain d3 where d3: "put_values mem vs (snd (pn_data_enter d1)) = Some (0, d3)" "placed (snd (pn_data_enter d1)) d3 vs"
    using 2(1) [OF d1(1) [unfolded put_def] refl _ _ e(2,3) 2(5)] by auto
  from placed_children [OF 2(3) d1(2) d3(2)] obtain d4 where
    "pn_data_exit d3 = Some (True, d4)" "placed d d4 [Comp ty aty vs]" by blast
  with d1(1) d3(1) show ?case unfolding put_value.simps put_def [symmetric] by simp
next
  case (3 mem d)
  then show ?case using placed_Nil by auto
next
  case (4 mem v vs d)
  have rm: "room_for d (node_count v) (string_room v)" using 4(7) by (auto simp: room_for_def)
  then obtain d1 where d1: "put_value mem v d = Some (0, d1)" "placed d d1 [v]"
    using 4(1) [OF _ 4(4-6)] 4(3) by auto
  note q = placedD [OF d1(2)]
  have "room_for d1 (nodes_of vs) (strings_of vs)"
    using room_for_split(2) [OF _ q(1), of "node_count v" "nodes_of vs" "string_room v" "strings_of vs"] 4(7) q(3,8) by simp
  then obtain d2 where "put_values mem vs d1 = Some (0, d2)" "placed d1 d2 vs"
    using 4(2) [OF d1(1) refl] 4(3,6) q(2,4) by auto
  then show ?case using d1 placed_Cons [OF 4(4) d1(2)] by auto
qed

lemma new_empty:
  "data_inv (pn_data_new mem 0)" "next_id (pn_data_new mem 0) = 0" "room_for (pn_data_new mem 0) n s = (n \<le> 65535 \<and> s \<le> 2 ^ 31)"
  "d_size (pn_data_new mem 0) = 0" "d_parent (pn_data_new mem 0) = 0" "d_current (pn_data_new mem 0) = 0"
  "d_base_parent (pn_data_new mem 0) = 0" "d_base_current (pn_data_new mem 0) = 0"
  using new_inv [of 0 mem]
  by (simp_all add: pn_data_new_def next_id_def room_for_def pni_data_max_nid_def buf_len_def)

lemma stands_for_ex:
  assumes "\<forall>v \<in> set vs. value_wf v" "nodes_of vs \<le> 65535" "strings_of vs \<le> 2 ^ 31" "granted mem"
  shows "\<exists>d. put_values mem vs (pn_data_new mem 0) = Some (0, d) \<and> stands_for (pn_data_rewind d) vs"
  using put_value_placed(2) [OF assms(1) new_empty(1,2) assms(4)] assms(2,3) placed_stands_for new_empty(3-8) by metis

text \<open>
  C37: Copying an object into another one succeeds whenever the values fit under the limits of the
  target and memory is granted. The target then stands for the same values, whatever it held before;
  the source keeps its values and its position.
\<close>

theorem pn_data_copy_correct:
  assumes "stands_for src vs" "\<forall>v \<in> set vs. value_wf v" "data_inv data" "granted mem"
    and "nodes_of vs \<le> pni_data_max_nid data" "strings_of vs \<le> 2 ^ 31"
      "d_max_buf_size data = 0 \<or> strings_of vs \<le> d_max_buf_size data"
  shows "\<exists>data' src'. pn_data_copy mem data src = Some (0, data', src') \<and> stands_for data' vs \<and>
    reps src' (d_size src) 0 0 (if d_size src = 0 then 0 else 1) vs \<and> pn_data_point src' = pn_data_point src"
proof -
  have "room_for (pn_data_clear data) (nodes_of vs) (strings_of vs)"
    using assms(5-7) by (simp add: room_for_def clear_facts)
  then obtain d' s' where c: "pn_data_append mem (pn_data_clear data) src = Some (0, d', s')"
    "placed (pn_data_clear data) d' vs" "alike src s'" "d_parent s' = d_parent src" "d_current s' = d_current src"
    using append_placed [OF assms(1,2) clear_inv [OF assms(3)] clear_facts(2) assms(4)] by blast
  moreover have "stands_for (pn_data_rewind d') vs"
    using placed_stands_for [OF c(2)] by (simp add: clear_facts)
  moreover have "reps s' (d_size src) 0 0 (if d_size src = 0 then 0 else 1) vs"
    using alike_rep(2) [OF c(3)] assms(1) by (simp add: stands_for_def)
  ultimately show ?thesis by (simp add: pn_data_copy_def pn_data_point_def)
qed

theorem pn_data_copy_correct_witness:
  "\<exists>src data' src'. stands_for src [Comp T_LIST T_UNSET [Atom (PN_STRING (Some [97])), Atom PN_NULL]] \<and>
     pn_data_copy plain_mem (pn_data_new plain_mem 0) src = Some (0, data', src') \<and>
     stands_for data' [Comp T_LIST T_UNSET [Atom (PN_STRING (Some [97])), Atom PN_NULL]]"
proof -
  have g: "granted plain_mem" by (simp add: granted_def plain_mem_def)
  obtain d where "stands_for (pn_data_rewind d) [Comp T_LIST T_UNSET [Atom (PN_STRING (Some [97])), Atom PN_NULL]]"
    using stands_for_ex [OF _ _ _ g, of "[Comp T_LIST T_UNSET [Atom (PN_STRING (Some [97])), Atom PN_NULL]]"] by auto
  from this pn_data_copy_correct [OF this _ new_empty(1) g] show ?thesis
    by (auto simp: pni_data_max_nid_def pn_data_new_def)
qed

end
