(* ===== verification/Traversal.thy ===== *)
theory Traversal
  imports Data_Copy
begin

text \<open>
  The traversal of the nodes of a data object, \<open>pni_data_traverse\<close> of \<open>core/codec.c\<close>, which calls a
  visitor when it enters and when it leaves a node. On an object that stands for a sequence of values
  the calls follow the structure of the values, and the traversal stops.
\<close>

section \<open>Traversal\<close>

text \<open>
  A visitor works on its own context and may change the node it is called for. Both loops are partial
  functions: a traversal that does not stop is \<open>None\<close>.
\<close>

type_synonym 'c visitor = "'c \<Rightarrow> pn_data \<Rightarrow> nat \<Rightarrow> (int \<times> 'c \<times> pn_data) option"

partial_function (option) traverse_up ::
  "'c visitor \<Rightarrow> 'c \<Rightarrow> pn_data \<Rightarrow> nat \<Rightarrow> (int \<times> nat \<times> 'c \<times> pn_data) option" where
  "traverse_up exit ctx data parent =
     (if parent = 0 then Some (0, 0, ctx, data)
      else do {
        (err, ctx, data) \<leftarrow> exit ctx data parent;
        if err \<noteq> 0 then Some (err, 0, ctx, data)
        else do {
          node \<leftarrow> rd data parent;
          if nd_next node \<noteq> 0 then Some (0, nd_next node, ctx, data)
          else traverse_up exit ctx data (nd_parent node)
        }
      })"

partial_function (option) traverse_loop ::
  "'c visitor \<Rightarrow> 'c visitor \<Rightarrow> 'c \<Rightarrow> pn_data \<Rightarrow> nat \<Rightarrow> (int \<times> 'c \<times> pn_data) option" where
  "traverse_loop enter exit ctx data i =
     (if i = 0 then Some (0, ctx, data)
      else do {
        node \<leftarrow> rd data i;
        let parent = nd_parent node;
        (err, ctx, data) \<leftarrow> enter ctx data i;
        if err \<noteq> 0 then Some (err, ctx, data)
        else do {
          node \<leftarrow> rd data i;
          if pni_node_get_down node \<noteq> 0 then traverse_loop enter exit ctx data (pni_node_get_down node)
          else do {
            (err, ctx, data) \<leftarrow> exit ctx data i;
            if err \<noteq> 0 then Some (err, ctx, data)
            else if nd_next node \<noteq> 0 then traverse_loop enter exit ctx data (nd_next node)
            else do {
              (err, next, ctx, data) \<leftarrow> traverse_up exit ctx data parent;
              if err \<noteq> 0 then Some (err, ctx, data) else traverse_loop enter exit ctx data next
            }
          }
        }
      })"

declare traverse_up.simps [code] traverse_loop.simps [code]

definition pni_data_traverse ::
  "pn_data \<Rightarrow> 'c visitor \<Rightarrow> 'c visitor \<Rightarrow> 'c \<Rightarrow> (int \<times> 'c \<times> pn_data) option" where
  "pni_data_traverse data enter exit ctx =
     traverse_loop enter exit ctx data (if d_size data \<noteq> 0 then 1 else 0)"


section \<open>What a visitor may change\<close>

text \<open>Objects that are equal up to the bookkeeping fields of compound nodes, the order of the ring buffer and the error.\<close>

definition similar :: "pn_data \<Rightarrow> pn_data \<Rightarrow> bool" where
  "similar d d' \<longleftrightarrow> data_inv d' \<and> d_size d' = d_size d \<and> content d' = content d \<and> (d_buf d' = None \<longleftrightarrow> d_buf d = None) \<and>
     d_parent d' = d_parent d \<and> d_current d' = d_current d \<and> d_base_parent d' = d_base_parent d \<and>
     d_base_current d' = d_base_current d \<and> d_max_nid d' = d_max_nid d \<and> d_max_buf_size d' = d_max_buf_size d \<and>
     (\<forall>i. 0 < i \<and> i \<le> d_size d \<longrightarrow> like (nd d' i) (nd d i))"

lemma similarD:
  assumes "similar d d'"
  shows "data_inv d'" "d_size d' = d_size d" "content d' = content d" "d_parent d' = d_parent d"
    "d_current d' = d_current d" "d_base_parent d' = d_base_parent d" "d_base_current d' = d_base_current d"
    "0 < i \<Longrightarrow> i \<le> d_size d \<Longrightarrow> like (nd d' i) (nd d i)"
  using assms unfolding similar_def by auto

lemma similar_refl: "data_inv d \<Longrightarrow> similar d d"
  by (simp add: similar_def)

lemma similar_trans: "similar d d1 \<Longrightarrow> similar d1 d2 \<Longrightarrow> similar d d2"
  unfolding similar_def using like_trans by auto

lemma similar_node:
  assumes "similar d d'" "0 < i" "i \<le> d_size d"
  shows "nd_type (nd d' i) = nd_type (nd d i)" "nd_array_type (nd d' i) = nd_array_type (nd d i)"
    "nd_next (nd d' i) = nd_next (nd d i)" "nd_prev (nd d' i) = nd_prev (nd d i)"
    "nd_parent (nd d' i) = nd_parent (nd d i)" "pni_node_get_down (nd d' i) = pni_node_get_down (nd d i)"
  using likeD [OF similarD(8) [OF assms]] like_down [OF similarD(8) [OF assms]] by simp_all

lemma similar_rep:
  assumes "similar d d'" "hi \<le> d_size d"
  shows "rep d hi i v \<Longrightarrow> rep d' hi i v" "reps d hi p c i vs \<Longrightarrow> reps d' hi p c i vs"
proof -
  note l = similarD(8) [OF assms(1)]
  have e: "extends d d'" using similarD(3) [OF assms(1)] by (auto simp: extends_def)
  show "rep d' hi i v" if r: "rep d hi i v"
    using rep_root [OF r] assms(2) l by (intro rep_frame(1) [OF r _ _ e]) (auto intro: like_next)
  show "reps d' hi p c i vs" if r: "reps d hi p c i vs"
    using assms(2) l by (intro rep_frame(2) [OF r _ e]) auto
qed

section \<open>Successful visits\<close>

text \<open>
  \<open>visit enter exit v i s s'\<close>: visiting the value \<open>v\<close> at node \<open>i\<close> and everything below it takes the
  context and the object from \<open>s\<close> to \<open>s'\<close> without an error.
\<close>

inductive visit :: "'c visitor \<Rightarrow> 'c visitor \<Rightarrow> amqp_value \<Rightarrow> nat \<Rightarrow> 'c \<Rightarrow> pn_data \<Rightarrow> 'c \<Rightarrow> pn_data \<Rightarrow> bool"
  and visits :: "'c visitor \<Rightarrow> 'c visitor \<Rightarrow> amqp_value list \<Rightarrow> nat \<Rightarrow> 'c \<Rightarrow> pn_data \<Rightarrow> 'c \<Rightarrow> pn_data \<Rightarrow> bool"
  for enter exit where
  Visit_Atom: "enter c d i = Some (0, c1, d1) \<Longrightarrow> similar d d1 \<Longrightarrow> exit c1 d1 i = Some (0, c2, d2) \<Longrightarrow> similar d1 d2 \<Longrightarrow>
     visit enter exit (Atom a) i c d c2 d2"
| Visit_Comp: "enter c d i = Some (0, c1, d1) \<Longrightarrow> similar d d1 \<Longrightarrow>
     visits enter exit vs (pni_node_get_down (nd d i)) c1 d1 c2 d2 \<Longrightarrow>
     exit c2 d2 i = Some (0, c3, d3) \<Longrightarrow> similar d2 d3 \<Longrightarrow> visit enter exit (Comp ty aty vs) i c d c3 d3"
| Visits_Nil: "data_inv d \<Longrightarrow> visits enter exit [] i c d c d"
| Visits_Cons: "visit enter exit v i c d c1 d1 \<Longrightarrow> visits enter exit vs (nd_next (nd d i)) c1 d1 c2 d2 \<Longrightarrow>
     visits enter exit (v # vs) i c d c2 d2"

lemma visits_similar:
  "visit enter exit v i c d c' d' \<Longrightarrow> similar d d'"
  "visits enter exit vs i c d c' d' \<Longrightarrow> similar d d'"
  by (induction rule: visit_visits.inducts) (blast intro: similar_trans similar_refl)+

text \<open>What is left after the subtree of a node, and after a chain of siblings.\<close>

definition traverse_resume :: "'c visitor \<Rightarrow> 'c visitor \<Rightarrow> 'c \<Rightarrow> pn_data \<Rightarrow> nat \<Rightarrow> (int \<times> 'c \<times> pn_data) option" where
  "traverse_resume enter exit c d p = do {
     (err, next, c, d) \<leftarrow> traverse_up exit c d p;
     if err \<noteq> 0 then Some (err, c, d) else traverse_loop enter exit c d next
   }"

definition traverse_after :: "'c visitor \<Rightarrow> 'c visitor \<Rightarrow> 'c \<Rightarrow> pn_data \<Rightarrow> nat \<Rightarrow> (int \<times> 'c \<times> pn_data) option" where
  "traverse_after enter exit c d i =
     (if nd_next (nd d i) \<noteq> 0 then traverse_loop enter exit c d (nd_next (nd d i))
      else traverse_resume enter exit c d (nd_parent (nd d i)))"

lemma traverse_zero [simp]:
  "traverse_loop enter exit c d 0 = Some (0, c, d)" "traverse_up exit c d 0 = Some (0, 0, c, d)"
  by (simp_all add: traverse_loop.simps traverse_up.simps)

lemma traverse_resume_exit:
  assumes "exit c d i = Some (0, c', d')" "similar d d'" "0 < i" "i \<le> d_size d"
  shows "traverse_resume enter exit c d i = traverse_after enter exit c' d' i"
proof -
  have "in_nodes d' i" using shape_okD(9) [OF data_invD(1) [OF similarD(1) [OF assms(2)]]] assms(3,4) similarD(2) [OF assms(2)] by simp
  then have "traverse_up exit c d i =
      (if nd_next (nd d' i) \<noteq> 0 then Some (0, nd_next (nd d' i), c', d') else traverse_up exit c' d' (nd_parent (nd d' i)))"
    using assms(1,3) by (subst traverse_up.simps) (simp add: rd_in)
  then show ?thesis by (simp add: traverse_resume_def traverse_after_def)
qed

lemma similar_in_nodes: "similar d d' \<Longrightarrow> 0 < i \<Longrightarrow> i \<le> d_size d \<Longrightarrow> in_nodes d' i"
  using shape_okD(9) [OF data_invD(1) [OF similarD(1)], of d d' i] similarD(2) by simp

lemma traverse_loop_down:
  assumes "enter c d i = Some (0, c1, d1)" "data_inv d" "similar d d1" "0 < i" "i \<le> d_size d"
    and "pni_node_get_down (nd d i) \<noteq> 0"
  shows "traverse_loop enter exit c d i = traverse_loop enter exit c1 d1 (pni_node_get_down (nd d i))"
  using assms(1,4,6) similar_in_nodes [OF similar_refl [OF assms(2)] assms(4,5)] similar_in_nodes [OF assms(3-5)]
    similar_node [OF assms(3-5)]
  by (subst traverse_loop.simps) (simp add: rd_in)

lemma traverse_loop_leaf:
  assumes "enter c d i = Some (0, c1, d1)" "data_inv d" "similar d d1" "0 < i" "i \<le> d_size d"
    and "pni_node_get_down (nd d i) = 0" "exit c1 d1 i = Some (0, c2, d2)" "similar d1 d2"
  shows "traverse_loop enter exit c d i = traverse_after enter exit c2 d2 i"
  using assms(1,4,6,7) similar_in_nodes [OF similar_refl [OF assms(2)] assms(4,5)] similar_in_nodes [OF assms(3-5)]
    similar_node [OF assms(3-5)] similar_node [OF similar_trans [OF assms(3,8)] assms(4,5)]
  by (subst traverse_loop.simps) (simp add: rd_in traverse_after_def traverse_resume_def)

lemma traverse_visits:
  "visit enter exit v i c d c' d' \<Longrightarrow> rep d hi i v \<Longrightarrow> hi \<le> d_size d \<Longrightarrow> data_inv d \<Longrightarrow>
     traverse_loop enter exit c d i = traverse_after enter exit c' d' i"
  "visits enter exit vs i c d c' d' \<Longrightarrow> reps d hi p pr i vs \<Longrightarrow> hi \<le> d_size d \<Longrightarrow> data_inv d \<Longrightarrow> vs \<noteq> [] \<Longrightarrow>
     traverse_loop enter exit c d i = traverse_resume enter exit c' d' p"
proof (induction arbitrary: and p pr rule: visit_visits.inducts)
  case (Visit_Atom c d i c1 d1 c2 d2 a)
  have i: "0 < i" "i \<le> d_size d" using Visit_Atom(5,6) by auto
  have "atom_node d (nd d i) a" using Visit_Atom(5) by simp
  then have "\<not> compound_type (nd_type (nd d i))" by (cases a) (simp_all add: atom_node_def)
  then have "pni_node_get_down (nd d i) = 0" by (simp add: pni_node_get_down_def)
  from traverse_loop_leaf [where enter = enter and exit = exit, OF Visit_Atom(1) Visit_Atom(7) Visit_Atom(3) i this Visit_Atom(2,4)] show ?case .
next
  case (Visit_Comp c d i c1 d1 vs c2 d2 c3 d3 ty aty)
  have i: "0 < i" "i \<le> d_size d" using Visit_Comp(7,8) by auto
  have r: "reps d hi i 0 (pni_node_get_down (nd d i)) vs" using rep_compound_down [OF Visit_Comp(7)] .
  note sim = visits_similar(2) [OF Visit_Comp(2)]
  show ?case
  proof (cases "vs = []")
    case True
    then have "c2 = c1" "d2 = d1" using Visit_Comp(2) by (auto elim: visits.cases)
    then show ?thesis
      using True r Visit_Comp(1,2,4-6) Visit_Comp(9) i by (intro traverse_loop_leaf [where enter = enter and exit = exit]) auto
  next
    case False
    have "pni_node_get_down (nd d i) \<noteq> 0" using r False by (cases vs) auto
    then have "traverse_loop enter exit c d i = traverse_loop enter exit c1 d1 (pni_node_get_down (nd d i))"
      using traverse_loop_down [where enter = enter, OF Visit_Comp(1) Visit_Comp(9) Visit_Comp(5) i] by blast
    also have "\<dots> = traverse_resume enter exit c2 d2 i"
      using Visit_Comp(3) [OF similar_rep(2) [OF Visit_Comp(5) Visit_Comp(8) r] _ _ False]
        similarD(1,2) [OF Visit_Comp(5)] Visit_Comp(8) by simp
    also have "\<dots> = traverse_after enter exit c3 d3 i"
      using similarD(2) [OF Visit_Comp(5)] similarD(2) [OF sim] i
      by (intro traverse_resume_exit [where exit = exit, OF Visit_Comp(4,6)]) simp_all
    finally show ?thesis .
  qed
next
  case (Visits_Nil d i c)
  then show ?case by simp
next
  case (Visits_Cons v i c d c1 d1 vs c2 d2)
  have r: "rep d hi i v" "reps d hi p i (nd_next (nd d i)) vs" "nd_parent (nd d i) = p" using Visits_Cons(5) by auto
  have i: "0 < i" "i \<le> d_size d" using rep_root [OF r(1)] Visits_Cons(6) by auto
  note sim = visits_similar(1) [OF Visits_Cons(1)]
  note n = similar_node [OF sim i]
  have loop: "traverse_loop enter exit c d i = traverse_after enter exit c1 d1 i"
    by (rule Visits_Cons(2) [OF r(1) Visits_Cons(6,7)])
  show ?case
  proof (cases "vs = []")
    case True
    then have "c2 = c1" "d2 = d1" using Visits_Cons(3) by (auto elim: visits.cases)
    then show ?thesis using loop True r n by (simp add: traverse_after_def)
  next
    case False
    then have "nd_next (nd d i) \<noteq> 0" using r(2) by (cases vs) auto
    then show ?thesis
      using loop n Visits_Cons(4) [OF similar_rep(2) [OF sim Visits_Cons(6) r(2)] _ _ False]
        similarD(1,2) [OF sim] Visits_Cons(6) by (simp add: traverse_after_def)
  qed
qed

text \<open>The traversal of an object that stands for values is a visit of these values; in particular it stops.\<close>

theorem pni_data_traverse_visits:
  assumes "visits enter exit vs (if d_size d = 0 then 0 else 1) c d c' d'" "stands_for d vs"
  shows "pni_data_traverse d enter exit c = Some (0, c', d')"
proof -
  have d: "data_inv d" "reps d (d_size d) 0 0 (if d_size d = 0 then 0 else 1) vs" using assms(2) by (auto simp: stands_for_def)
  show ?thesis
  proof (cases "vs = []")
    case True
    then have "c' = c" "d' = d" using assms(1) by (auto elim: visits.cases)
    then show ?thesis using d(2) True by (simp add: pni_data_traverse_def split: if_splits)
  next
    case False
    have "traverse_loop enter exit c d (if d_size d = 0 then 0 else 1) = traverse_resume enter exit c' d' 0"
      by (rule traverse_visits(2) [OF assms(1) d(2) order_refl d(1) False])
    then show ?thesis
      by (simp add: pni_data_traverse_def traverse_resume_def split: if_splits)
  qed
qed

end
