(* ===== verification/Encoder.thy ===== *)
theory Encoder
  imports Traversal Emitters
begin

text \<open>
  The encoder of data objects, \<open>core/encoder.c\<close>, a visitor of the nodes in the traversal of \<open>core/codec.c\<close>. The encoder keeps its output, a position that also moves where nothing can be
  written any more, and the number of nulls it holds back at the end of a described list. It is called
  once without an output to find the size. The error object of the encoder, which nobody reads, is left
  out. A write outside the output is the result \<open>None\<close>.
\<close>

unbundle bit_operations_syntax

section \<open>The encoder\<close>

record pn_encoder =
  enc_output :: "byte list option"
  enc_position :: nat
  enc_size :: nat
  enc_null_count :: nat

definition pn_encoder_initialize :: pn_encoder where
  "pn_encoder_initialize = \<lparr>enc_output = None, enc_position = 0, enc_size = 0, enc_null_count = 0\<rparr>"

text \<open>A type that has no code gives \<open>PN_ERR\<close> as a byte.\<close>

fun pn_type2code :: "pn_type \<Rightarrow> byte" where
  "pn_type2code T_NULL = PNE_NULL"
| "pn_type2code T_BOOL = PNE_BOOLEAN"
| "pn_type2code T_UBYTE = PNE_UBYTE"
| "pn_type2code T_BYTE = PNE_BYTE"
| "pn_type2code T_USHORT = PNE_USHORT"
| "pn_type2code T_SHORT = PNE_SHORT"
| "pn_type2code T_UINT = PNE_UINT"
| "pn_type2code T_INT = PNE_INT"
| "pn_type2code T_CHAR = PNE_UTF32"
| "pn_type2code T_FLOAT = PNE_FLOAT"
| "pn_type2code T_LONG = PNE_LONG"
| "pn_type2code T_TIMESTAMP = PNE_MS64"
| "pn_type2code T_DOUBLE = PNE_DOUBLE"
| "pn_type2code T_DECIMAL32 = PNE_DECIMAL32"
| "pn_type2code T_DECIMAL64 = PNE_DECIMAL64"
| "pn_type2code T_DECIMAL128 = PNE_DECIMAL128"
| "pn_type2code T_UUID = PNE_UUID"
| "pn_type2code T_ULONG = PNE_ULONG"
| "pn_type2code T_BINARY = PNE_VBIN32"
| "pn_type2code T_STRING = PNE_STR32_UTF8"
| "pn_type2code T_SYMBOL = PNE_SYM32"
| "pn_type2code T_LIST = PNE_LIST32"
| "pn_type2code T_ARRAY = PNE_ARRAY32"
| "pn_type2code T_MAP = PNE_MAP32"
| "pn_type2code T_DESCRIBED = PNE_DESCRIPTOR"
| "pn_type2code _ = word_of_int PN_ERR"

definition pn_node2code :: "pni_node \<Rightarrow> byte" where
  "pn_node2code node =
     (case nd_type node of
        T_LONG \<Rightarrow> if - 128 \<le> sint (as_64 (nd_u node)) \<and> sint (as_64 (nd_u node)) \<le> 127 then PNE_SMALLLONG else PNE_LONG
      | T_INT \<Rightarrow> if - 128 \<le> sint (as_32 (nd_u node)) \<and> sint (as_32 (nd_u node)) \<le> 127 then PNE_SMALLINT else PNE_INT
      | T_ULONG \<Rightarrow> if as_64 (nd_u node) = 0 then PNE_ULONG0
                   else if as_64 (nd_u node) < 256 then PNE_SMALLULONG else PNE_ULONG
      | T_UINT \<Rightarrow> if as_32 (nd_u node) = 0 then PNE_UINT0
                  else if as_32 (nd_u node) < 256 then PNE_SMALLUINT else PNE_UINT
      | T_BOOL \<Rightarrow> if as_bool (nd_u node) then PNE_TRUE else PNE_FALSE
      | T_STRING \<Rightarrow> if snd (as_bytes (nd_u node)) < 256 then PNE_STR8_UTF8 else PNE_STR32_UTF8
      | T_SYMBOL \<Rightarrow> if snd (as_bytes (nd_u node)) < 256 then PNE_SYM8 else PNE_SYM32
      | T_BINARY \<Rightarrow> if snd (as_bytes (nd_u node)) < 256 then PNE_VBIN8 else PNE_VBIN32
      | T_ARRAY_DESCRIBED \<Rightarrow> PNE_ARRAY32
      | ty \<Rightarrow> pn_type2code ty)"

definition pn_encoder_remaining :: "pn_encoder \<Rightarrow> nat" where
  "pn_encoder_remaining e = (if enc_size e > enc_position e then enc_size e - enc_position e else 0)"

text \<open>Store bytes at the position if they all fit; advance in any case.\<close>

definition encoder_put :: "pn_encoder \<Rightarrow> byte list \<Rightarrow> pn_encoder option" where
  "encoder_put e bs = do {
     e \<leftarrow> (if bs \<noteq> [] \<and> length bs \<le> pn_encoder_remaining e then do {
             out \<leftarrow> enc_output e;
             if enc_position e + length bs \<le> length out
             then Some (e\<lparr>enc_output := Some (memcpy_at out (enc_position e) bs)\<rparr>) else None
           }
           else Some e);
     Some (e\<lparr>enc_position := wrap64 (enc_position e + length bs)\<rparr>)
   }"

definition pn_encoder_writef8 :: "pn_encoder \<Rightarrow> byte \<Rightarrow> pn_encoder option" where
  "pn_encoder_writef8 e value = encoder_put e [value]"

definition pn_encoder_writef16 :: "pn_encoder \<Rightarrow> u16 \<Rightarrow> pn_encoder option" where
  "pn_encoder_writef16 e value = encoder_put e [ucast (0xFF AND drop_bit 8 value), ucast (0xFF AND value)]"

definition pn_encoder_writef32 :: "pn_encoder \<Rightarrow> u32 \<Rightarrow> pn_encoder option" where
  "pn_encoder_writef32 e value =
     encoder_put e [ucast (0xFF AND drop_bit 24 value), ucast (0xFF AND drop_bit 16 value),
       ucast (0xFF AND drop_bit 8 value), ucast (0xFF AND value)]"

definition pn_encoder_writef64 :: "pn_encoder \<Rightarrow> u64 \<Rightarrow> pn_encoder option" where
  "pn_encoder_writef64 e value =
     encoder_put e [ucast (0xFF AND drop_bit 56 value), ucast (0xFF AND drop_bit 48 value),
       ucast (0xFF AND drop_bit 40 value), ucast (0xFF AND drop_bit 32 value),
       ucast (0xFF AND drop_bit 24 value), ucast (0xFF AND drop_bit 16 value),
       ucast (0xFF AND drop_bit 8 value), ucast (0xFF AND value)]"

definition pn_encoder_writef128 :: "pn_encoder \<Rightarrow> byte list \<Rightarrow> pn_encoder option" where
  "pn_encoder_writef128 e value = encoder_put e (take 16 value)"

definition pn_encoder_writev8 :: "pn_encoder \<Rightarrow> byte list \<Rightarrow> pn_encoder option" where
  "pn_encoder_writev8 e value = do {
     e \<leftarrow> pn_encoder_writef8 e (word_of_nat (length value));
     encoder_put e value
   }"

definition pn_encoder_writev32 :: "pn_encoder \<Rightarrow> byte list \<Rightarrow> pn_encoder option" where
  "pn_encoder_writev32 e value = do {
     e \<leftarrow> pn_encoder_writef32 e (word_of_nat (length value));
     encoder_put e value
   }"

section \<open>Where a node stands\<close>

definition pn_is_in_array :: "pni_node option \<Rightarrow> pni_node \<Rightarrow> bool" where
  "pn_is_in_array parent node =
     (case parent of
        None \<Rightarrow> False
      | Some p \<Rightarrow> if nd_type p = T_ARRAY then True
                  else if nd_type p = T_ARRAY_DESCRIBED then nd_prev node \<noteq> 0 else False)"

definition pn_is_first_in_array :: "pn_data \<Rightarrow> pni_node \<Rightarrow> pni_node \<Rightarrow> bool option" where
  "pn_is_first_in_array data parent node =
     (if nd_prev node = 0 then Some (nd_type parent \<noteq> T_ARRAY_DESCRIBED)
      else if nd_type parent = T_ARRAY_DESCRIBED then map_option (\<lambda>p. nd_prev p = 0) (rd data (nd_prev node))
      else Some False)"

definition node_or_null :: "pn_data \<Rightarrow> nat \<Rightarrow> pni_node option option" where
  "node_or_null data i = (if i = 0 then Some None else map_option Some (rd data i))"

definition pn_is_in_described_list :: "pn_data \<Rightarrow> pni_node option \<Rightarrow> bool option" where
  "pn_is_in_described_list data parent =
     (case parent of
        None \<Rightarrow> Some False
      | Some p \<Rightarrow>
          if nd_type p \<noteq> T_LIST then Some False
          else do {
            grandparent \<leftarrow> node_or_null data (nd_parent p);
            case grandparent of
              None \<Rightarrow> Some False
            | Some g \<Rightarrow> Some (nd_type g = T_DESCRIBED \<and> nd_prev p \<noteq> 0)
          })"

section \<open>Entering a node\<close>

fun write_nulls :: "nat \<Rightarrow> pn_encoder \<Rightarrow> pn_encoder option" where
  "write_nulls 0 e = Some e"
| "write_nulls (Suc n) e = do { e \<leftarrow> pn_encoder_writef8 e PNE_NULL; write_nulls n e }"

text \<open>The code of the value: chosen, and written where the encoding has one.\<close>

definition enter_code :: "pn_encoder \<Rightarrow> pn_data \<Rightarrow> pni_node option \<Rightarrow> pni_node \<Rightarrow> (byte \<times> pn_encoder) option" where
  "enter_code e data parent node =
     (if pn_is_in_array parent node then do {
        p \<leftarrow> parent;
        let code = pn_type2code (nd_array_type p);
        first \<leftarrow> pn_is_first_in_array data p node;
        e \<leftarrow> (if first then pn_encoder_writef8 e code else Some e);
        Some (code, e)
      }
      else do {
        let code = pn_node2code node;
        in_described_list \<leftarrow> pn_is_in_described_list data parent;
        if in_described_list then
          if code = PNE_NULL then Some (code, e\<lparr>enc_null_count := wrap32 (enc_null_count e + 1)\<rparr>)
          else do {
            e \<leftarrow> write_nulls (enc_null_count e) e;
            let e = e\<lparr>enc_null_count := 0\<rparr>;
            e \<leftarrow> pn_encoder_writef8 e code;
            Some (code, e)
          }
        else do {
          e \<leftarrow> pn_encoder_writef8 e code;
          Some (code, e)
        }
      })"

text \<open>A string node: its bytes in the string buffer.\<close>

definition enter_bytes :: "pn_data \<Rightarrow> nat \<Rightarrow> nat \<Rightarrow> (byte list \<times> pn_data) option" where
  "enter_bytes data off sz = map_option (\<lambda>(bs, data). (bytes_data bs, data)) (pni_node_bytes data off sz)"

text \<open>Open a compound: note the position in the node, leave the size out, write the count.\<close>

definition enter_compound :: "pn_encoder \<Rightarrow> pn_data \<Rightarrow> nat \<Rightarrow> nat \<Rightarrow> (pn_encoder \<times> pn_data) option" where
  "enter_compound e data i count = do {
     data \<leftarrow> wr data i (\<lambda>node. let (down, children, _) = as_compound (nd_u node)
                            in node\<lparr>nd_u := As_compound down children (word_of_nat (enc_position e))\<rparr>);
     let e = e\<lparr>enc_position := wrap64 (enc_position e + 4)\<rparr>;
     e \<leftarrow> pn_encoder_writef32 e (word_of_nat count);
     Some (e, data)
   }"

definition enter_payload :: "pn_encoder \<Rightarrow> pn_data \<Rightarrow> nat \<Rightarrow> pni_node \<Rightarrow> byte \<Rightarrow> (int \<times> pn_encoder \<times> pn_data) option" where
  "enter_payload e data i node code =
     (let u = nd_u node; (off, sz) = as_bytes u; children = fst (snd (as_compound u));
          ok = map_option (\<lambda>e. (0, e, data))
      in if code \<in> {PNE_DESCRIPTOR, PNE_NULL, PNE_TRUE, PNE_FALSE} then Some (0, e, data)
      else if code = PNE_BOOLEAN then ok (pn_encoder_writef8 e (of_bool (as_bool u)))
      else if code \<in> {PNE_UBYTE, PNE_BYTE} then ok (pn_encoder_writef8 e (as_8 u))
      else if code \<in> {PNE_USHORT, PNE_SHORT} then ok (pn_encoder_writef16 e (as_16 u))
      else if code = PNE_UINT0 then Some (0, e, data)
      else if code \<in> {PNE_SMALLUINT, PNE_SMALLINT} then ok (pn_encoder_writef8 e (ucast (as_32 u)))
      else if code \<in> {PNE_UINT, PNE_INT, PNE_UTF32, PNE_FLOAT, PNE_DECIMAL32} then ok (pn_encoder_writef32 e (as_32 u))
      else if code = PNE_ULONG0 then Some (0, e, data)
      else if code \<in> {PNE_ULONG, PNE_LONG, PNE_MS64, PNE_DOUBLE, PNE_DECIMAL64} then ok (pn_encoder_writef64 e (as_64 u))
      else if code \<in> {PNE_SMALLULONG, PNE_SMALLLONG} then ok (pn_encoder_writef8 e (ucast (as_64 u)))
      else if code \<in> {PNE_DECIMAL128, PNE_UUID} then do {
        (bs, data) \<leftarrow> enter_bytes data off 16;
        e \<leftarrow> pn_encoder_writef128 e bs;
        Some (0, e, data)
      }
      else if code \<in> {PNE_VBIN8, PNE_STR8_UTF8, PNE_SYM8} then do {
        (bs, data) \<leftarrow> enter_bytes data off sz;
        e \<leftarrow> pn_encoder_writev8 e bs;
        Some (0, e, data)
      }
      else if code \<in> {PNE_VBIN32, PNE_STR32_UTF8, PNE_SYM32} then do {
        (bs, data) \<leftarrow> enter_bytes data off sz;
        e \<leftarrow> pn_encoder_writev32 e bs;
        Some (0, e, data)
      }
      else if code = PNE_ARRAY32 then do {
        let described = (nd_type node = T_ARRAY_DESCRIBED);
        (e, data) \<leftarrow> enter_compound e data i (if described then sub32 children 1 else children);
        e \<leftarrow> (if described then pn_encoder_writef8 e 0 else Some e);
        Some (0, e, data)
      }
      else if code \<in> {PNE_LIST32, PNE_MAP32} then do {
        (e, data) \<leftarrow> enter_compound e data i children;
        Some (0, e, data)
      }
      else Some (PN_ERR, e, data\<lparr>d_error := PN_ERR\<rparr>))"

definition pni_encoder_enter :: "pn_encoder visitor" where
  "pni_encoder_enter e data i = do {
     node \<leftarrow> rd data i;
     parent \<leftarrow> node_or_null data (nd_parent node);
     (code, e) \<leftarrow> enter_code e data parent node;
     (_, buf) \<leftarrow> pn_buffer_bytes (d_buf data);
     enter_payload e (data\<lparr>d_buf := buf\<rparr>) i node code
   }"

section \<open>Leaving a node\<close>

text \<open>
  A compound is first written with a header of 8 bytes. On leaving it either the size is filled in, or
  the contents move to the header of 2 bytes of the compact encoding.
\<close>

definition slide :: "pn_encoder \<Rightarrow> nat \<Rightarrow> nat \<Rightarrow> nat \<Rightarrow> pn_encoder option" where
  "slide e start content_size effective_count = do {
     e \<leftarrow> (case enc_output e of
            None \<Rightarrow> Some e
          | Some out \<Rightarrow>
              if sub32 start 1 < length out \<and> start + 8 + content_size \<le> length out then
                let out = out[sub32 start 1 := out ! sub32 start 1 - 0x10];
                    out = out[start := word_of_nat (1 + content_size)];
                    out = out[start + 1 := word_of_nat effective_count]
                in Some (e\<lparr>enc_output := Some (memcpy_at out (start + 2) (take content_size (drop (start + 8) out)))\<rparr>)
              else None);
     Some (e\<lparr>enc_position := wrap64 (wrap32 (start + 2) + content_size)\<rparr>)
   }"

definition backfill :: "pn_encoder \<Rightarrow> nat \<Rightarrow> nat \<Rightarrow> pn_encoder option" where
  "backfill e start effective_count = do {
     let pos = enc_position e;
     let e = e\<lparr>enc_position := start\<rparr>;
     e \<leftarrow> pn_encoder_writef32 e (word_of_nat (sub64 (sub64 pos start) 4));
     e \<leftarrow> (if enc_null_count e \<noteq> 0 then pn_encoder_writef32 e (word_of_nat effective_count) else Some e);
     Some (e\<lparr>enc_position := pos\<rparr>)
   }"

definition close_compound :: "pn_encoder \<Rightarrow> nat \<Rightarrow> nat \<Rightarrow> bool \<Rightarrow> pn_encoder option" where
  "close_compound e start effective_count may_be_small =
     (let content_size = sub64 (sub64 (enc_position e) start) 8
      in if content_size \<le> 255 \<and> effective_count \<le> 255 \<and> may_be_small then
           if enc_output e = None \<or> wrap64 (wrap32 (start + 8) + content_size) \<le> enc_size e
           then slide e start content_size effective_count
           else Some e
         else backfill e start effective_count)"

definition pni_encoder_exit :: "pn_encoder visitor" where
  "pni_encoder_exit e data i = do {
     node \<leftarrow> rd data i;
     parent \<leftarrow> node_or_null data (nd_parent node);
     let (_, children, scratch) = as_compound (nd_u node);
     if nd_type node = T_LIST \<and> sub32 children (enc_null_count e) = 0 \<and> \<not> pn_is_in_array parent node then do {
       let e = e\<lparr>enc_position := sub32 (unat scratch) 1\<rparr>;
       e \<leftarrow> pn_encoder_writef8 e PNE_LIST0;
       Some (0, e\<lparr>enc_null_count := 0\<rparr>, data)
     }
     else if nd_type node \<in> {T_ARRAY, T_ARRAY_DESCRIBED, T_LIST, T_MAP} then do {
       e \<leftarrow> (if nd_type node = T_ARRAY_DESCRIBED \<and> children = 1 \<or> nd_type node = T_ARRAY \<and> children = 0
             then pn_encoder_writef8 e (pn_type2code (nd_array_type node)) else Some e);
       let effective_count = sub32 (pni_node_get_children node) (enc_null_count e);
       e \<leftarrow> close_compound e (unat scratch) effective_count
             (nd_type node \<noteq> T_ARRAY_DESCRIBED \<and> \<not> pn_is_in_array parent node);
       Some (0, e\<lparr>enc_null_count := 0\<rparr>, data)
     }
     else Some (0, e, data)
   }"

section \<open>The entry points\<close>

definition pn_encoder_encode :: "pn_encoder \<Rightarrow> pn_data \<Rightarrow> byte list option \<Rightarrow> nat \<Rightarrow> (int \<times> pn_encoder \<times> pn_data) option" where
  "pn_encoder_encode e src dst n = do {
     let e = e\<lparr>enc_output := dst, enc_position := 0, enc_size := n\<rparr>;
     (err, e, src) \<leftarrow> pni_data_traverse src pni_encoder_enter pni_encoder_exit e;
     if err \<noteq> 0 then Some (err, e, src)
     else if enc_position e > n then Some (PN_OVERFLOW, e, src\<lparr>d_error := PN_OVERFLOW\<rparr>)
     else Some (int (enc_position e), e, src)
   }"

definition pn_encoder_size :: "pn_encoder \<Rightarrow> pn_data \<Rightarrow> (int \<times> pn_encoder \<times> pn_data) option" where
  "pn_encoder_size e src = do {
     let e = e\<lparr>enc_output := None, enc_position := 0, enc_size := 0\<rparr>;
     let save = pn_data_point src;
     (err, e, src) \<leftarrow> pni_data_traverse src pni_encoder_enter pni_encoder_exit e;
     (_, src) \<leftarrow> pn_data_restore src save;
     Some (if err \<noteq> 0 then err else int (enc_position e), e, src)
   }"

text \<open>The caller's memory and the object afterwards.\<close>

definition pn_data_encode :: "pn_data \<Rightarrow> byte list option \<Rightarrow> nat \<Rightarrow> (int \<times> byte list option \<times> pn_data) option" where
  "pn_data_encode data bytes n = do {
     (r, e, data) \<leftarrow> pn_encoder_encode pn_encoder_initialize data bytes n;
     Some (r, enc_output e, data)
   }"

definition pn_data_encoded_size :: "pn_data \<Rightarrow> (int \<times> pn_data) option" where
  "pn_data_encoded_size data = do {
     (r, _, data) \<leftarrow> pn_encoder_size pn_encoder_initialize data;
     Some (r, data)
   }"

end
