(* ===== verification/Encoder_Spec.thy ===== *)
theory Encoder_Spec
  imports Encoder
begin

text \<open>
  What the encoder writes for a value. A tape is a byte string together with the room that is needed
  to produce it: compounds are first written with the header of the 32-bit encoding, so that the room
  may exceed the bytes that remain. \<open>wrote t m e e'\<close> says that the encoder has gone from \<open>e\<close> to \<open>e'\<close> writing
  the tape \<open>t\<close>, or, if the room was missing, that its position is past the end, and that it moved by at most \<open>m\<close>.
\<close>

section \<open>Tapes\<close>

type_synonym tape = "byte list \<times> nat"

definition lit :: "byte list \<Rightarrow> tape" where
  "lit bs = (bs, length bs)"

definition cat :: "tape \<Rightarrow> tape \<Rightarrow> tape" where
  "cat t u = (fst t @ fst u, max (snd t) (length (fst t) + snd u))"

definition tapes :: "tape list \<Rightarrow> tape" where
  "tapes ts = foldr cat ts (lit [])"

lemma tapes_simps [simp]: "tapes [] = lit []" "tapes (t # ts) = cat t (tapes ts)"
  by (simp_all add: tapes_def)

lemma lit_simps [simp]: "fst (lit bs) = bs" "snd (lit bs) = length bs"
  by (simp_all add: lit_def)

lemma fst_cat [simp]: "fst (cat t u) = fst t @ fst u"
  by (simp add: cat_def)

lemma cat_lits [simp]: "cat (lit bs) (lit cs) = lit (bs @ cs)"
  by (simp add: cat_def lit_def)

lemma cat_Nil [simp]: "cat (lit []) t = t"
  by (simp add: cat_def lit_def)

lemma cat_assoc: "cat (cat t u) w = cat t (cat u w)"
  by (simp add: cat_def add_ac max_add_distrib_right)

lemma fst_tapes: "fst (tapes ts) = concat (map fst ts)"
  by (induction ts) simp_all

section \<open>The encoding of values\<close>

definition small_signed :: "int \<Rightarrow> bool" where
  "small_signed n \<longleftrightarrow> - 128 \<le> n \<and> n \<le> 127"

fun enc_atom :: "pn_atom \<Rightarrow> byte list" where
  "enc_atom PN_NULL = [PNE_NULL]"
| "enc_atom (PN_BOOL b) = enc_bool b"
| "enc_atom (PN_UBYTE x) = [PNE_UBYTE, x]"
| "enc_atom (PN_BYTE x) = [PNE_BYTE, x]"
| "enc_atom (PN_USHORT x) = PNE_USHORT # pni_write16 x"
| "enc_atom (PN_SHORT x) = PNE_SHORT # pni_write16 x"
| "enc_atom (PN_UINT x) = enc_uint x"
| "enc_atom (PN_INT x) = (if small_signed (sint x) then [PNE_SMALLINT, ucast x] else PNE_INT # pni_write32 x)"
| "enc_atom (PN_CHAR x) = PNE_UTF32 # pni_write32 x"
| "enc_atom (PN_ULONG x) = enc_ulong x"
| "enc_atom (PN_LONG x) = (if small_signed (sint x) then [PNE_SMALLLONG, ucast x] else PNE_LONG # enc_be64 x)"
| "enc_atom (PN_TIMESTAMP x) = PNE_MS64 # enc_be64 x"
| "enc_atom (PN_FLOAT x) = PNE_FLOAT # pni_write32 x"
| "enc_atom (PN_DOUBLE x) = PNE_DOUBLE # enc_be64 x"
| "enc_atom (PN_DECIMAL32 x) = PNE_DECIMAL32 # pni_write32 x"
| "enc_atom (PN_DECIMAL64 x) = PNE_DECIMAL64 # enc_be64 x"
| "enc_atom (PN_DECIMAL128 bs) = PNE_DECIMAL128 # bs"
| "enc_atom (PN_UUID bs) = PNE_UUID # bs"
| "enc_atom (PN_BINARY bs) = enc_var PNE_VBIN8 PNE_VBIN32 (bytes_data bs)"
| "enc_atom (PN_STRING bs) = enc_var PNE_STR8_UTF8 PNE_STR32_UTF8 (bytes_data bs)"
| "enc_atom (PN_SYMBOL bs) = enc_var PNE_SYM8 PNE_SYM32 (bytes_data bs)"

definition enc_counted :: "byte list \<Rightarrow> byte list" where
  "enc_counted bs = pni_write32 (word_of_nat (length bs)) @ bs"

text \<open>An element of an array has no code of its own and always the widest form.\<close>

fun elem_atom :: "pn_atom \<Rightarrow> byte list" where
  "elem_atom PN_NULL = []"
| "elem_atom (PN_BOOL b) = [of_bool b]"
| "elem_atom (PN_UBYTE x) = [x]"
| "elem_atom (PN_BYTE x) = [x]"
| "elem_atom (PN_USHORT x) = pni_write16 x"
| "elem_atom (PN_SHORT x) = pni_write16 x"
| "elem_atom (PN_UINT x) = pni_write32 x"
| "elem_atom (PN_INT x) = pni_write32 x"
| "elem_atom (PN_CHAR x) = pni_write32 x"
| "elem_atom (PN_ULONG x) = enc_be64 x"
| "elem_atom (PN_LONG x) = enc_be64 x"
| "elem_atom (PN_TIMESTAMP x) = enc_be64 x"
| "elem_atom (PN_FLOAT x) = pni_write32 x"
| "elem_atom (PN_DOUBLE x) = enc_be64 x"
| "elem_atom (PN_DECIMAL32 x) = pni_write32 x"
| "elem_atom (PN_DECIMAL64 x) = enc_be64 x"
| "elem_atom (PN_DECIMAL128 bs) = bs"
| "elem_atom (PN_UUID bs) = bs"
| "elem_atom (PN_BINARY bs) = enc_counted (bytes_data bs)"
| "elem_atom (PN_STRING bs) = enc_counted (bytes_data bs)"
| "elem_atom (PN_SYMBOL bs) = enc_counted (bytes_data bs)"

text \<open>
  Compounds: the 32-bit header (size and count), and the compact encoding that replaces it when
  contents and count are at most 255. The size byte of the compact encoding counts one more, and wraps.
\<close>

definition wide :: "nat \<Rightarrow> tape \<Rightarrow> tape" where
  "wide n t = (pni_write32 (word_of_nat (4 + length (fst t))) @ pni_write32 (word_of_nat n) @ fst t, 8 + snd t)"

definition compact :: "byte \<Rightarrow> nat \<Rightarrow> tape \<Rightarrow> tape" where
  "compact code n t =
     (if length (fst t) \<le> 255 \<and> n \<le> 255
      then ([code - 0x10, word_of_nat (1 + length (fst t)), word_of_nat n] @ fst t, 9 + snd t)
      else cat (lit [code]) (wide n t))"

text \<open>\<open>tape_of el v\<close>: the tape of a value, as an element of an array if \<open>el\<close>.\<close>

fun tape_of :: "bool \<Rightarrow> amqp_value \<Rightarrow> tape" where
  "tape_of el (Atom a) = lit (if el then elem_atom a else enc_atom a)"
| "tape_of el (Comp T_DESCRIBED aty vs) =
     cat (lit (if el then [] else [PNE_DESCRIPTOR])) (tapes (map (tape_of False) vs))"
| "tape_of el (Comp T_ARRAY aty vs) =
     (let t = cat (lit [pn_type2code aty]) (tapes (map (tape_of True) vs))
      in if el then wide (length vs) t else compact PNE_ARRAY32 (length vs) t)"
| "tape_of el (Comp T_ARRAY_DESCRIBED aty (v # vs)) =
     cat (lit (if el then [] else [PNE_ARRAY32]))
       (wide (length vs) (cat (lit [0]) (cat (tape_of False v) (cat (lit [pn_type2code aty]) (tapes (map (tape_of True) vs))))))"
| "tape_of el (Comp T_LIST aty vs) =
     (if el then wide (length vs) (tapes (map (tape_of False) vs))
      else if vs = [] then lit [PNE_LIST0]
      else compact PNE_LIST32 (length vs) (tapes (map (tape_of False) vs)))"
| "tape_of el (Comp T_MAP aty vs) =
     (if el then wide (length vs) (tapes (map (tape_of False) vs))
      else compact PNE_MAP32 (length vs) (tapes (map (tape_of False) vs)))"
| "tape_of el (Comp _ aty vs) = lit []"

abbreviation encoding :: "amqp_value list \<Rightarrow> byte list" where
  "encoding vs \<equiv> fst (tapes (map (tape_of False) vs))"

abbreviation encoding_room :: "amqp_value list \<Rightarrow> nat" where
  "encoding_room vs \<equiv> snd (tapes (map (tape_of False) vs))"

section \<open>Normal values\<close>

text \<open>A list that is the value of a descriptor loses the nulls at its end.\<close>

definition drop_nulls :: "amqp_value list \<Rightarrow> amqp_value list" where
  "drop_nulls vs = rev (dropWhile (\<lambda>v. v = Atom PN_NULL) (rev vs))"

fun normal :: "bool \<Rightarrow> amqp_value \<Rightarrow> amqp_value" where
  "normal body (Atom a) = Atom a"
| "normal body (Comp ty aty vs) =
     Comp ty aty
       (if ty = T_DESCRIBED then (case vs of [] \<Rightarrow> [] | v # ws \<Rightarrow> normal False v # map (normal True) ws)
        else if ty = T_LIST \<and> body then drop_nulls (map (normal False) vs)
        else map (normal False) vs)"

section \<open>Regular values\<close>

text \<open>The elements of an array have its element type, and a described array has a descriptor.\<close>

fun value_type :: "amqp_value \<Rightarrow> pn_type" where
  "value_type (Atom a) = atom_type a"
| "value_type (Comp ty aty vs) = pni_type_external ty"

definition element_type :: "pn_type \<Rightarrow> bool" where
  "element_type ty \<longleftrightarrow> ty \<notin> {T_UNSET, T_DESCRIBED, T_ARRAY_DESCRIBED, T_DEFER, T_INVALID}"

fun regular :: "amqp_value \<Rightarrow> bool" where
  "regular (Atom a) = atom_wf a"
| "regular (Comp ty aty vs) =
     (compound_type ty \<and> ty \<noteq> T_DEFER \<and> (array_type ty \<or> aty = T_UNSET) \<and> (array_type ty \<longrightarrow> element_type aty) \<and>
      (ty = T_ARRAY_DESCRIBED \<longrightarrow> vs \<noteq> []) \<and>
      (\<forall>v \<in> set (if ty = T_ARRAY_DESCRIBED then tl vs else vs). ty = T_ARRAY \<or> ty = T_ARRAY_DESCRIBED \<longrightarrow> value_type v = aty) \<and>
      (\<forall>v \<in> set vs. regular v))"

section \<open>Writing\<close>

definition encoder_wf :: "pn_encoder \<Rightarrow> bool" where
  "encoder_wf e \<longleftrightarrow> (case enc_output e of None \<Rightarrow> enc_size e = 0 | Some out \<Rightarrow> length out = enc_size e)"

definition wrote :: "tape \<Rightarrow> nat \<Rightarrow> pn_encoder \<Rightarrow> pn_encoder \<Rightarrow> bool" where
  "wrote t m e e' \<longleftrightarrow> enc_size e' = enc_size e \<and> encoder_wf e' \<and> enc_position e' \<le> enc_position e + m \<and>
     (case enc_output e of
        None \<Rightarrow> enc_output e' = None \<and> enc_position e' = enc_position e + length (fst t)
      | Some out \<Rightarrow>
          \<exists>out'. enc_output e' = Some out' \<and> take (enc_position e) out' = take (enc_position e) out \<and>
            (if enc_position e + snd t \<le> enc_size e
             then enc_position e' = enc_position e + length (fst t) \<and>
               take (length (fst t)) (drop (enc_position e) out') = fst t
             else enc_size e < enc_position e'))"

definition tape_ok :: "tape \<Rightarrow> bool" where
  "tape_ok t \<longleftrightarrow> length (fst t) \<le> snd t"

lemma tape_ok_simps [simp]: "tape_ok (lit bs)" "tape_ok t \<Longrightarrow> tape_ok u \<Longrightarrow> tape_ok (cat t u)"
  by (auto simp: tape_ok_def cat_def)

lemma tapes_ok: "\<forall>t \<in> set ts. tape_ok t \<Longrightarrow> tape_ok (tapes ts)"
  by (induction ts) simp_all

lemma wrote_refl: "encoder_wf e \<Longrightarrow> wrote (lit []) 0 e e"
  by (auto simp: wrote_def split: option.splits)

lemma wrote_mono: "wrote t m e e' \<Longrightarrow> m \<le> m' \<Longrightarrow> wrote t m' e e'"
  by (auto simp: wrote_def)

lemma wroteD:
  assumes "wrote t m e e'"
  shows "enc_size e' = enc_size e" "encoder_wf e'" "enc_position e' \<le> enc_position e + m"
  using assms by (simp_all add: wrote_def)

lemma take_take_eq: "take a xs = take a ys \<Longrightarrow> b \<le> a \<Longrightarrow> take b xs = take b ys"
  by (metis min_absorb1 take_take)

lemma wrote_cat:
  assumes t: "wrote t m e e1" "tape_ok t" and u: "wrote u n e1 e2" "tape_ok u" and e: "encoder_wf e"
  shows "wrote (cat t u) (m + n) e e2"
proof (cases "enc_output e")
  case None
  then show ?thesis using t(1) u(1) by (auto simp: wrote_def)
next
  case (Some out)
  obtain out1 where o1: "enc_output e1 = Some out1" "take (enc_position e) out1 = take (enc_position e) out"
    "if enc_position e + snd t \<le> enc_size e
     then enc_position e1 = enc_position e + length (fst t) \<and> take (length (fst t)) (drop (enc_position e) out1) = fst t
     else enc_size e < enc_position e1"
    using t(1) Some by (auto simp: wrote_def)
  obtain out2 where o2: "enc_output e2 = Some out2" "take (enc_position e1) out2 = take (enc_position e1) out1"
    "if enc_position e1 + snd u \<le> enc_size e1
     then enc_position e2 = enc_position e1 + length (fst u) \<and> take (length (fst u)) (drop (enc_position e1) out2) = fst u
     else enc_size e1 < enc_position e2"
    using u(1) o1(1) by (auto simp: wrote_def)
  note sz = wroteD(1) [OF t(1)] wroteD(1) [OF u(1)]
  have len: "length out1 = enc_size e" "length out2 = enc_size e" "length out = enc_size e"
    using o1(1) o2(1) wroteD(1,2) [OF t(1)] wroteD(1,2) [OF u(1)] e Some by (simp_all add: encoder_wf_def)
  show ?thesis
  proof (cases "enc_position e + snd t \<le> enc_size e")
    case False
    then have "enc_size e < enc_position e1" using o1(3) by simp
    then have "out2 = out1" "enc_size e < enc_position e2" using o2 len sz by (auto split: if_splits)
    then show ?thesis
      using False Some o1 o2 wroteD [OF t(1)] wroteD [OF u(1)] by (auto simp: wrote_def cat_def)
  next
    case True
    then have p1: "enc_position e1 = enc_position e + length (fst t)"
      "take (length (fst t)) (drop (enc_position e) out1) = fst t" using o1(3) by simp_all
    have pre: "take (enc_position e) out2 = take (enc_position e) out"
      using take_take_eq [OF o2(2), of "enc_position e"] o1(2) p1(1) by simp
    have mid: "take (length (fst t)) (drop (enc_position e) out2) = fst t"
      using o2(2) p1 by (simp add: take_drop add.commute)
    show ?thesis
    proof (cases "enc_position e1 + snd u \<le> enc_size e")
      case True
      then have "enc_position e2 = enc_position e1 + length (fst u)" "take (length (fst u)) (drop (enc_position e1) out2) = fst u"
        using o2(3) sz by simp_all
      then show ?thesis
        using True \<open>enc_position e + snd t \<le> enc_size e\<close> Some o2(1) pre mid p1(1) wroteD [OF t(1)] wroteD [OF u(1)]
        by (auto simp: wrote_def cat_def take_add add.commute)
    next
      case False
      then show ?thesis
        using Some o2 pre p1(1) wroteD [OF t(1)] wroteD [OF u(1)] by (auto simp: wrote_def cat_def)
    qed
  qed
qed

lemma encoder_put_wrote:
  assumes "encoder_wf e" "enc_position e + length bs < 2 ^ 64"
  shows "\<exists>e'. encoder_put e bs = Some e' \<and> wrote (lit bs) (length bs) e e' \<and> enc_null_count e' = enc_null_count e \<and>
    enc_position e' = enc_position e + length bs"
proof (cases "enc_output e")
  case None
  then have "\<not> (bs \<noteq> [] \<and> length bs \<le> pn_encoder_remaining e)"
    using assms(1) by (simp add: encoder_wf_def pn_encoder_remaining_def)
  then have "encoder_put e bs = Some (e\<lparr>enc_position := enc_position e + length bs\<rparr>)"
    using assms(2) by (auto simp: encoder_put_def wrap_simps)
  then show ?thesis using assms(1) None by (auto simp: wrote_def encoder_wf_def)
next
  case (Some out)
  then have len: "length out = enc_size e" using assms(1) by (simp add: encoder_wf_def)
  show ?thesis
  proof (cases "bs \<noteq> [] \<and> length bs \<le> pn_encoder_remaining e")
    case True
    then have fit: "enc_position e + length bs \<le> length out"
      using len by (auto simp: pn_encoder_remaining_def split: if_splits)
    have "encoder_put e bs = Some (e\<lparr>enc_output := Some (memcpy_at out (enc_position e) bs), enc_position := enc_position e + length bs\<rparr>)"
      using True fit Some assms(2) by (simp add: encoder_put_def wrap_simps)
    then show ?thesis using fit len Some by (auto simp: wrote_def encoder_wf_def mem_simps memcpy_at_def)
  next
    case False
    then have "encoder_put e bs = Some (e\<lparr>enc_position := enc_position e + length bs\<rparr>)"
      using assms(2) by (auto simp: encoder_put_def wrap_simps)
    moreover have "length bs = 0 \<or> enc_size e < enc_position e + length bs"
      using False by (cases bs) (auto simp: pn_encoder_remaining_def split: if_splits)
    ultimately show ?thesis using Some assms(1) by (auto simp: wrote_def encoder_wf_def)
  qed
qed

end
