(* ===== verification/Encoder_Writes.thy ===== *)
theory Encoder_Writes
  imports Encoder_Spec
begin

text \<open>
  The steps of the encoder: the payload of a scalar is the rest of its encoding, and a compound whose
  header and contents have been written is closed in the compact or in the wide encoding. Where the room
  is missing the position stays past the end of the output.
\<close>

section \<open>Scalars\<close>

lemma write_puts:
  "pn_encoder_writef8 e b = encoder_put e [b]"
  "pn_encoder_writef16 e u = encoder_put e (pni_write16 u)"
  "pn_encoder_writef32 e w = encoder_put e (pni_write32 w)"
  "pn_encoder_writef64 e v = encoder_put e (enc_be64 v)"
  by (simp_all only: pn_encoder_writef8_def pn_encoder_writef16_def pn_encoder_writef32_def
      pn_encoder_writef64_def pni_write16_def pni_write32_def enc_be64_def write_be64)

definition puts :: "byte list \<Rightarrow> pn_encoder \<Rightarrow> pn_encoder \<Rightarrow> bool" where
  "puts bs e e' \<longleftrightarrow> wrote (lit bs) (length bs) e e' \<and> enc_null_count e' = enc_null_count e \<and>
     enc_position e' = enc_position e + length bs"

lemma encoder_put_puts:
  "encoder_wf e \<Longrightarrow> enc_position e + length bs < 2 ^ 64 \<Longrightarrow> \<exists>e'. encoder_put e bs = Some e' \<and> puts bs e e'"
  using encoder_put_wrote by (simp add: puts_def)

lemma puts_wf: "puts bs e e' \<Longrightarrow> encoder_wf e'"
  by (simp add: puts_def wrote_def)

lemma puts_trans:
  assumes "encoder_wf e" "puts bs e e1" "puts cs e1 e2"
  shows "puts (bs @ cs) e e2"
  using assms wrote_cat [of "lit bs" "length bs" e e1 "lit cs" "length cs" e2] by (auto simp: puts_def)

lemma encoder_put_two:
  assumes "encoder_wf e" "enc_position e + length bs + length cs < 2 ^ 64"
  shows "\<exists>e'. encoder_put e bs \<bind> (\<lambda>e. encoder_put e cs) = Some e' \<and> puts (bs @ cs) e e'"
proof -
  obtain e1 where e1: "encoder_put e bs = Some e1" "puts bs e e1"
    using encoder_put_puts [OF assms(1), of bs] assms(2) by auto
  have "enc_position e1 = enc_position e + length bs" using e1(2) by (simp add: puts_def)
  then obtain e2 where "encoder_put e1 cs = Some e2" "puts cs e1 e2"
    using encoder_put_puts [OF puts_wf [OF e1(2)], of cs] assms(2) by auto
  then show ?thesis using e1 puts_trans [OF assms(1)] by auto
qed

lemma encoder_put_Nil: "enc_position e < 2 ^ 64 \<Longrightarrow> encoder_put e [] = Some e"
  by (simp add: encoder_put_def wrap_simps)

lemma enter_payload_scalar:
  assumes "nd_type x = atom_type a" "nd_u x = atom_payload a" "atom_bytes a = None" "enc_position e < 2 ^ 64"
  shows "\<exists>bs. enc_atom a = pn_node2code x # bs \<and>
      enter_payload e d i x (pn_node2code x) = map_option (\<lambda>e. (0, e, d)) (encoder_put e bs)"
    "enter_payload e d i x (pn_type2code (atom_type a)) = map_option (\<lambda>e. (0, e, d)) (encoder_put e (elem_atom a))"
  using assms
  by (cases a; simp add: pn_node2code_def enter_payload_def write_puts encoder_put_Nil enc_bool_def enc_uint_def
      enc_ulong_def small_signed_def)+

text \<open>Reading the string buffer.\<close>

lemma alike_similar:
  assumes "alike d (d\<lparr>d_buf := Some b\<rparr>)" "d_buf d \<noteq> None"
  shows "similar d (d\<lparr>d_buf := Some b\<rparr>)"
  using assms by (simp add: similar_def alike_def)

lemma buffer_similar:
  assumes "data_inv d"
  shows "\<exists>bs buf. pn_buffer_bytes (d_buf d) = Some (bs, buf) \<and> similar d (d\<lparr>d_buf := buf\<rparr>)"
proof (cases "d_buf d")
  case None
  then have "pn_buffer_bytes (d_buf d) = Some (None, d_buf d)" by (simp add: pn_buffer_bytes_def)
  moreover have "similar d (d\<lparr>d_buf := d_buf d\<rparr>)" using similar_refl [OF assms] by simp
  ultimately show ?thesis by blast
next
  case (Some b)
  obtain b' where "pni_node_bytes d 0 (length []) = Some (Some [], d\<lparr>d_buf := Some b'\<rparr>)" "alike d (d\<lparr>d_buf := Some b'\<rparr>)"
    using string_read [OF assms, of 0 "[]"] Some by auto
  then have "\<exists>bs. pn_buffer_bytes (d_buf d) = Some (bs, Some b')"
    by (auto simp: pni_node_bytes_def bind_eq_Some_conv split: option.splits if_splits
        dest!: arg_cong [of _ _ d_buf])
  then show ?thesis using alike_similar Some \<open>alike d (d\<lparr>d_buf := Some b'\<rparr>)\<close> by blast
qed

lemma string_node_read:
  assumes inv: "data_inv d" and i: "0 < i" "i \<le> d_size d" and a: "atom_node d (nd d i) a" "atom_bytes a = Some bs"
  shows "\<exists>off d'. nd_u (nd d i) = As_bytes off (length bs) \<and> enter_bytes d off (length bs) = Some (bs, d') \<and> similar d d' \<and> d_nodes d' = d_nodes d"
proof -
  obtain off where off: "nd_u (nd d i) = As_bytes off (length bs)" "off + length bs \<le> buf_len d"
    "take (length bs) (drop off (content d)) = bs" using a by (auto simp: atom_node_def)
  have ty: "string_type (nd_type (nd d i))" using a atom_string_type by (auto simp: atom_node_def)
  have b: "d_buf d \<noteq> None"
    using data_invD(2) [OF inv i] off(1) ty by (cases "nd_type (nd d i)") (auto simp: typed_nd_def payload_ok_def)
  obtain b' where "pni_node_bytes d off (length bs) = Some (Some bs, d\<lparr>d_buf := Some b'\<rparr>)" "alike d (d\<lparr>d_buf := Some b'\<rparr>)"
    using string_read [OF inv off(2,3) b] by blast
  then show ?thesis using off(1) alike_similar [OF _ b] by (auto simp: enter_bytes_def bytes_data_def)
qed

lemma bind_result: "m \<bind> (\<lambda>e. Some (0, e, d')) = map_option (\<lambda>e. (0, e, d')) m"
  by (cases m) simp_all

lemma enter_payload_string:
  assumes a: "nd_type x = atom_type a" "nd_u x = As_bytes off (length bs)" "atom_bytes a = Some bs" "atom_wf a"
    and r: "enter_bytes d off (length bs) = Some (bs, d')" and e: "enc_position e < 2 ^ 64"
  shows "\<exists>pre. enc_atom a = pn_node2code x # pre @ bs \<and> enter_payload e d i x (pn_node2code x) =
      map_option (\<lambda>e. (0, e, d')) (encoder_put e pre \<bind> (\<lambda>e. encoder_put e bs))"
    "\<exists>pre. elem_atom a = pre @ bs \<and> enter_payload e d i x (pn_type2code (atom_type a)) =
      map_option (\<lambda>e. (0, e, d')) (encoder_put e pre \<bind> (\<lambda>e. encoder_put e bs))"
proof -
  note unf = pn_node2code_def enter_payload_def write_puts enc_var_def enc_counted_def bind_result
      pn_encoder_writef128_def pn_encoder_writev8_def pn_encoder_writev32_def
  have n: "encoder_put e [] = Some e" using e by (rule encoder_put_Nil)
  consider "a = PN_BINARY (Some bs)" | "a = PN_STRING (Some bs)" | "a = PN_SYMBOL (Some bs)"
    | "a = PN_UUID bs" "length bs = 16" | "a = PN_DECIMAL128 bs" "length bs = 16"
    using a(3,4) by (cases a) (auto simp: bytes_data_def)
  then have "(\<exists>pre. enc_atom a = pn_node2code x # pre @ bs \<and> enter_payload e d i x (pn_node2code x) =
      map_option (\<lambda>e. (0, e, d')) (encoder_put e pre \<bind> (\<lambda>e. encoder_put e bs))) \<and>
    (\<exists>pre. elem_atom a = pre @ bs \<and> enter_payload e d i x (pn_type2code (atom_type a)) =
      map_option (\<lambda>e. (0, e, d')) (encoder_put e pre \<bind> (\<lambda>e. encoder_put e bs)))"
  proof cases
    case 1
    then show ?thesis using a(1,2) r by (simp add: unf)
  next
    case 2
    then show ?thesis using a(1,2) r by (simp add: unf)
  next
    case 3
    then show ?thesis using a(1,2) r by (simp add: unf)
  next
    case 4
    then show ?thesis using a(1,2) r n by (simp add: unf)
  next
    case 5
    then show ?thesis using a(1,2) r n by (simp add: unf)
  qed
  then show "\<exists>pre. enc_atom a = pn_node2code x # pre @ bs \<and> enter_payload e d i x (pn_node2code x) =
      map_option (\<lambda>e. (0, e, d')) (encoder_put e pre \<bind> (\<lambda>e. encoder_put e bs))"
    "\<exists>pre. elem_atom a = pre @ bs \<and> enter_payload e d i x (pn_type2code (atom_type a)) =
      map_option (\<lambda>e. (0, e, d')) (encoder_put e pre \<bind> (\<lambda>e. encoder_put e bs))"
    by blast+
qed

definition full :: "amqp_value \<Rightarrow> nat" where
  "full v = 18 * node_count v + string_room v"

lemma write_lengths [simp]: "length (pni_write16 u) = 2" "length (pni_write32 w) = 4" "length (enc_be64 x) = 8"
  by (simp_all add: pni_write16_def pni_write32_def enc_be64_def)

lemma atom_lengths:
  assumes "atom_wf a"
  shows "length (enc_atom a) \<le> full (Atom a)" "length (elem_atom a) \<le> full (Atom a)"
  using assms by (cases a; simp add: full_def enc_bool_def enc_uint_def enc_ulong_def enc_var_def enc_counted_def)+

lemma enter_payload_atom:
  assumes inv: "data_inv d" and i: "0 < i" "i \<le> d_size d" and a: "atom_node d (nd d i) a" "atom_wf a"
    and e: "encoder_wf e" "enc_position e + full (Atom a) < 2 ^ 33"
  shows "\<exists>bs e' d'. enc_atom a = pn_node2code (nd d i) # bs \<and>
      enter_payload e d i (nd d i) (pn_node2code (nd d i)) = Some (0, e', d') \<and> puts bs e e' \<and> similar d d' \<and> d_nodes d' = d_nodes d"
    "\<exists>e' d'. enter_payload e d i (nd d i) (pn_type2code (atom_type a)) = Some (0, e', d') \<and>
      puts (elem_atom a) e e' \<and> similar d d' \<and> d_nodes d' = d_nodes d"
proof -
  note len = atom_lengths [OF a(2)]
  have p: "enc_position e < 2 ^ 64" using e(2) by simp
  have "(\<exists>bs e' d'. enc_atom a = pn_node2code (nd d i) # bs \<and>
      enter_payload e d i (nd d i) (pn_node2code (nd d i)) = Some (0, e', d') \<and> puts bs e e' \<and> similar d d' \<and> d_nodes d' = d_nodes d) \<and>
    (\<exists>e' d'. enter_payload e d i (nd d i) (pn_type2code (atom_type a)) = Some (0, e', d') \<and>
      puts (elem_atom a) e e' \<and> similar d d' \<and> d_nodes d' = d_nodes d)"
  proof (cases "atom_bytes a")
    case None
    have n: "nd_type (nd d i) = atom_type a" "nd_u (nd d i) = atom_payload a" using a None by (simp_all add: atom_node_def)
    obtain bs where bs: "enc_atom a = pn_node2code (nd d i) # bs"
      "enter_payload e d i (nd d i) (pn_node2code (nd d i)) = map_option (\<lambda>e. (0, e, d)) (encoder_put e bs)"
      using enter_payload_scalar(1) [OF n None p] by blast
    have "length bs \<le> length (enc_atom a)" using bs(1) by simp
    then obtain e1 where "encoder_put e bs = Some e1" "puts bs e e1"
      using encoder_put_puts [OF e(1), of bs] e(2) len by auto
    moreover obtain e2 where "encoder_put e (elem_atom a) = Some e2" "puts (elem_atom a) e e2"
      using encoder_put_puts [OF e(1), of "elem_atom a"] e(2) len by auto
    ultimately show ?thesis
      using bs enter_payload_scalar(2) [OF n None p] similar_refl [OF inv] by auto
  next
    case (Some bs)
    have n: "nd_type (nd d i) = atom_type a" using a by (simp add: atom_node_def)
    obtain off d' where r: "nd_u (nd d i) = As_bytes off (length bs)" "enter_bytes d off (length bs) = Some (bs, d')" "similar d d' \<and> d_nodes d' = d_nodes d"
      using string_node_read [OF inv i a(1) Some] by blast
    obtain pre1 where p1: "enc_atom a = pn_node2code (nd d i) # pre1 @ bs" "enter_payload e d i (nd d i) (pn_node2code (nd d i)) =
        map_option (\<lambda>e. (0, e, d')) (encoder_put e pre1 \<bind> (\<lambda>e. encoder_put e bs))"
      using enter_payload_string(1) [OF n r(1) Some a(2) r(2) p] by blast
    obtain pre2 where p2: "elem_atom a = pre2 @ bs" "enter_payload e d i (nd d i) (pn_type2code (atom_type a)) =
        map_option (\<lambda>e. (0, e, d')) (encoder_put e pre2 \<bind> (\<lambda>e. encoder_put e bs))"
      using enter_payload_string(2) [OF n r(1) Some a(2) r(2) p] by blast
    have l: "length pre1 + length bs < length (enc_atom a)" "length pre2 + length bs = length (elem_atom a)"
      using p1(1) p2(1) by simp_all
    obtain e1 where "encoder_put e pre1 \<bind> (\<lambda>e. encoder_put e bs) = Some e1" "puts (pre1 @ bs) e e1"
      using encoder_put_two [OF e(1), of pre1 bs] e(2) l(1) len(1) by auto
    moreover obtain e2 where "encoder_put e pre2 \<bind> (\<lambda>e. encoder_put e bs) = Some e2" "puts (pre2 @ bs) e e2"
      using encoder_put_two [OF e(1), of pre2 bs] e(2) l(2) len(2) by auto
    ultimately show ?thesis using p1 p2 r(3) by auto
  qed
  then show "\<exists>bs e' d'. enc_atom a = pn_node2code (nd d i) # bs \<and>
      enter_payload e d i (nd d i) (pn_node2code (nd d i)) = Some (0, e', d') \<and> puts bs e e' \<and> similar d d' \<and> d_nodes d' = d_nodes d"
    "\<exists>e' d'. enter_payload e d i (nd d i) (pn_type2code (atom_type a)) = Some (0, e', d') \<and>
      puts (elem_atom a) e e' \<and> similar d d' \<and> d_nodes d' = d_nodes d"
    by blast+
qed

section \<open>Closing a compound\<close>

lemma wrote_fits:
  assumes "wrote t m e e'" "enc_output e = Some out" "encoder_wf e" "tape_ok t" "enc_position e + snd t \<le> enc_size e"
  shows "enc_position e' = enc_position e + length (fst t)"
    "\<exists>rest. enc_output e' = Some (take (enc_position e) out @ fst t @ rest) \<and>
       enc_size e = enc_position e + length (fst t) + length rest"
proof -
  obtain out' where o: "enc_output e' = Some out'" "take (enc_position e) out' = take (enc_position e) out"
    "enc_position e' = enc_position e + length (fst t)" "take (length (fst t)) (drop (enc_position e) out') = fst t"
    using assms by (auto simp: wrote_def)
  show "enc_position e' = enc_position e + length (fst t)" by (rule o(3))
  have len: "length out' = enc_size e" using o(1) wroteD(1,2) [OF assms(1)] by (simp add: encoder_wf_def)
  have "out' = take (enc_position e) out' @ take (length (fst t)) (drop (enc_position e) out') @
      drop (enc_position e + length (fst t)) out'"
    by (metis append_take_drop_id drop_drop add.commute)
  moreover have "length (drop (enc_position e + length (fst t)) out') = enc_size e - (enc_position e + length (fst t))"
    using len by simp
  ultimately show "\<exists>rest. enc_output e' = Some (take (enc_position e) out @ fst t @ rest) \<and>
       enc_size e = enc_position e + length (fst t) + length rest"
    using o assms(4,5) by (intro exI [of _ "drop (enc_position e + length (fst t)) out'"]) (simp add: tape_ok_def)
qed

lemma encoder_wf_simps [simp]:
  "encoder_wf (e\<lparr>enc_position := p\<rparr>) = encoder_wf e" "encoder_wf (e\<lparr>enc_null_count := k\<rparr>) = encoder_wf e"
  by (simp_all add: encoder_wf_def split: option.split)

lemma encoder_put_fits:
  assumes "encoder_wf e" "enc_output e = Some out" "enc_position e + length bs \<le> enc_size e" "enc_position e + length bs < 2 ^ 64"
  shows "encoder_put e bs = Some (e\<lparr>enc_output := Some (memcpy_at out (enc_position e) bs), enc_position := enc_position e + length bs\<rparr>)"
proof (cases "bs = []")
  case True
  then have "encoder_put e bs = Some e" using assms(4) by (simp add: encoder_put_Nil)
  then show ?thesis using True assms(2) by (cases e) simp
next
  case False
  then have "0 < length bs" by simp
  then have "enc_position e < enc_size e" using assms(3) by linarith
  then show ?thesis
    using False assms by (auto simp: encoder_put_def pn_encoder_remaining_def encoder_wf_def wrap_simps)
qed

text \<open>Writing bytes over bytes already written.\<close>

lemma wrote_patch:
  assumes w: "wrote t m e e'" "tape_ok t" and wf: "encoder_wf e" and t: "fst t = xs @ ys @ zs" "length ys' = length ys"
    and pos: "enc_position e + length (fst t) < 2 ^ 64"
  shows "\<exists>e2. encoder_put (e'\<lparr>enc_position := enc_position e + length xs\<rparr>) ys' = Some e2 \<and>
    enc_null_count e2 = enc_null_count e' \<and> enc_position e2 = enc_position e + length xs + length ys \<and>
    wrote (xs @ ys' @ zs, snd t) m e (e2\<lparr>enc_position := enc_position e'\<rparr>)"
proof -
  let ?e = "e'\<lparr>enc_position := enc_position e + length xs\<rparr>"
  have wf1: "encoder_wf ?e" using wroteD(2) [OF w(1)] by simp
  have "length xs + length ys \<le> length (fst t)" using t(1) by simp
  then obtain e2 where e2: "encoder_put ?e ys' = Some e2" "puts ys' ?e e2"
    using encoder_put_puts [OF wf1, of ys'] pos t(2) by auto
  have f: "enc_null_count e2 = enc_null_count e'" "enc_position e2 = enc_position e + length xs + length ys"
    "wrote (lit ys') (length ys') ?e e2"
    using e2(2) t(2) by (simp_all add: puts_def)
  have "wrote (xs @ ys' @ zs, snd t) m e (e2\<lparr>enc_position := enc_position e'\<rparr>)"
  proof (cases "enc_output e")
    case None
    then show ?thesis using w(1) f(3) t by (auto simp: wrote_def)
  next
    case (Some out)
    then obtain out1 where o1: "enc_output e' = Some out1" "take (enc_position e) out1 = take (enc_position e) out"
      using w(1) by (auto simp: wrote_def)
    show ?thesis
    proof (cases "enc_position e + snd t \<le> enc_size e")
      case False
      obtain out2 where o2: "enc_output e2 = Some out2"
        "take (enc_position e + length xs) out2 = take (enc_position e + length xs) out1"
        using f(3) o1(1) by (auto simp: wrote_def)
      have "take (enc_position e) out2 = take (enc_position e) out"
        using take_take_eq [OF o2(2), of "enc_position e"] o1(2) by simp
      then show ?thesis using False w(1) Some f(3) o1 o2 by (auto simp: wrote_def)
    next
      case True
      obtain rest where r: "out1 = take (enc_position e) out @ (xs @ ys @ zs) @ rest"
        "enc_position e' = enc_position e + length (fst t)" "enc_size e = enc_position e + length (fst t) + length rest"
        using wrote_fits [OF w(1) Some wf w(2) True] o1(1) t(1) by auto
      have lout: "length (take (enc_position e) out) = enc_position e"
        using Some wf r(3) by (simp add: encoder_wf_def)
      have fit: "enc_position ?e + length ys' \<le> enc_size ?e" using r(3) t wroteD(1) [OF w(1)] by simp
      have "enc_output e2 = Some (memcpy_at out1 (enc_position e + length xs) ys')"
        using encoder_put_fits [OF wf1 _ fit] e2(1) o1(1) pos t by auto
      also have "memcpy_at out1 (enc_position e + length xs) ys' = take (enc_position e) out @ (xs @ ys' @ zs) @ rest"
        using lout t(2) unfolding r(1) by (simp add: memcpy_at_def)
      finally show ?thesis
        using True w(1) Some f(3) r t lout by (auto simp: wrote_def)
    qed
  qed
  with e2(1) f(1,2) show ?thesis by blast
qed

text \<open>The header that a compound is opened with: room for the size, and the count.\<close>

lemma skip_wrote:
  assumes "encoder_wf e" "enc_position e + 4 < 2 ^ 64"
  shows "\<exists>j. length j = 4 \<and> puts j e (e\<lparr>enc_position := wrap64 (enc_position e + 4)\<rparr>)"
proof (cases "enc_output e")
  case None
  then show ?thesis using assms by (intro exI [of _ "replicate 4 0"]) (simp add: puts_def wrote_def wrap_simps)
next
  case (Some out)
  show ?thesis
  proof (cases "enc_position e + 4 \<le> enc_size e")
    case True
    then show ?thesis
      using Some assms by (intro exI [of _ "take 4 (drop (enc_position e) out)"]) (auto simp: puts_def wrote_def wrap_simps encoder_wf_def)
  next
    case False
    then show ?thesis using Some assms by (intro exI [of _ "replicate 4 0"]) (auto simp: puts_def wrote_def wrap_simps)
  qed
qed

lemma like_scratch:
  assumes "nd_u x = As_compound down n s"
  shows "like (x\<lparr>nd_u := As_compound down n s'\<rparr>) x"
  using assms by (simp add: like_def strip_def)

lemma set_scratch_similar:
  assumes inv: "data_inv d" and i: "0 < i" "i \<le> d_size d" and u: "nd_u (nd d i) = As_compound down n s"
  shows "similar d (set_nd i ((nd d i)\<lparr>nd_u := As_compound down n s'\<rparr>) d)" (is "similar d ?d")
proof -
  have sh: "shape_ok d" and ii: "in_nodes d i" using inv i by (auto dest: data_invD simp: shape_okD(9))
  have n: "nd ?d j = (if j = i then (nd d i)\<lparr>nd_u := As_compound down n s'\<rparr> else nd d j)" if "0 < j" for j
    using nd_set_nd [OF ii that] .
  have l: "like (nd ?d j) (nd d j)" if "0 < j" for j using n [OF that] like_scratch [OF u] by simp
  have lk: "links_ok ?d j" if "0 < j" "j \<le> d_size d" for j
  proof -
    have "links_ok d j" using shape_okD(8) [OF sh that] .
    then show ?thesis
      using likeD [OF l] like_down [OF l] that unfolding links_ok_def Let_def by (metis set_nd_fields(7) gr_zeroI)
  qed
  have cur: "cursor_ok ?d p c" if "cursor_ok d p c" for p c
    using that likeD(5) [OF l] by (cases "c = 0") (auto simp: cursor_ok_def)
  have "buf_ok ?d" using shape_okD(7) [OF sh] by (simp add: buf_ok_def)
  then have "shape_ok ?d"
    using sh lk cur by (simp add: shape_ok_def)
  moreover have "typed_nd ?d j" if "0 < j" "j \<le> d_size d" for j
    using data_invD(2) [OF inv that] n [OF that(1)] u data_invD(2) [OF inv i]
    by (cases "j = i"; cases "nd_type (nd d i)") (auto simp: typed_nd_def payload_ok_def buf_len_def)
  ultimately have "data_inv ?d" by (simp add: data_inv_def)
  then show ?thesis using l by (simp add: similar_def content_def)
qed

lemma enter_compound_wrote:
  assumes inv: "data_inv d" and i: "0 < i" "i \<le> d_size d" and u: "nd_u (nd d i) = As_compound down n s"
    and e: "encoder_wf e" "enc_position e + 8 < 2 ^ 32"
  shows "\<exists>e' d' j. enter_compound e d i count = Some (e', d') \<and> similar d d' \<and> length j = 4 \<and>
    nd_u (nd d' i) = As_compound down n (word_of_nat (enc_position e)) \<and>
    (\<forall>k. 0 < k \<and> k \<noteq> i \<longrightarrow> nd d' k = nd d k) \<and> puts (j @ pni_write32 (word_of_nat count)) e e'"
proof -
  let ?e = "e\<lparr>enc_position := wrap64 (enc_position e + 4)\<rparr>"
  have ii: "in_nodes d i" using inv i by (auto dest: data_invD simp: shape_okD(9))
  obtain j where j: "length j = 4" "puts j e ?e" using skip_wrote [OF e(1)] e(2) by auto
  have "enc_position ?e = enc_position e + 4" using e(2) by (simp add: wrap_simps)
  then obtain e' where e': "encoder_put ?e (pni_write32 (word_of_nat count)) = Some e'" "puts (pni_write32 (word_of_nat count)) ?e e'"
    using encoder_put_puts [of ?e "pni_write32 (word_of_nat count)"] e by auto
  define d' where "d' = set_nd i ((nd d i)\<lparr>nd_u := As_compound down n (word_of_nat (enc_position e))\<rparr>) d"
  have "enter_compound e d i count = Some (e', d')"
    using ii u e'(1) by (simp add: enter_compound_def wr_in write_puts d'_def)
  moreover have "similar d d'" unfolding d'_def by (rule set_scratch_similar [OF inv i u])
  moreover have "nd_u (nd d' i) = As_compound down n (word_of_nat (enc_position e))"
    using ii i by (simp add: d'_def nd_set_nd)
  moreover have "\<forall>k. 0 < k \<and> k \<noteq> i \<longrightarrow> nd d' k = nd d k" using ii by (simp add: d'_def nd_set_nd)
  ultimately show ?thesis using j puts_trans [OF e(1) j(2) e'(2)] by blast
qed

lemma wrote_overflow:
  assumes "wrote t m e e'" "enc_output e = Some out" "enc_size e < enc_position e + snd t" "snd u = snd t"
  shows "wrote u m e e'"
  using assms by (auto simp: wrote_def)

lemma wrote_sizing:
  assumes "wrote t m e e'" "enc_output e = None" "length (fst u) = length (fst t)"
  shows "wrote u m e e'"
  using assms by (auto simp: wrote_def)

lemma backfill_wrote:
  assumes w: "wrote t m e e3" "tape_ok t" and wf: "encoder_wf e" and t: "fst t = j @ pni_write32 (word_of_nat hc) @ body" "length j = 4"
    and pos: "enc_position e + m < 2 ^ 32" "enc_position e + length (fst t) < 2 ^ 32"
  shows "\<exists>e4. backfill e3 (enc_position e) ec = Some e4 \<and> enc_null_count e4 = enc_null_count e3 \<and>
    wrote (pni_write32 (word_of_nat (4 + length body)) @
      pni_write32 (word_of_nat (if enc_null_count e3 \<noteq> 0 then ec else hc)) @ body, snd t) m e e4"
proof -
  let ?v = "pni_write32 (word_of_nat (sub64 (sub64 (enc_position e3) (enc_position e)) 4))"
  let ?n = "pni_write32 (word_of_nat (if enc_null_count e3 \<noteq> 0 then ec else hc))"
  let ?t1 = "(?v @ pni_write32 (word_of_nat hc) @ body, snd t)"
  have p64: "enc_position e + length (fst t) < 2 ^ 64" using pos by simp
  obtain e1 where e1: "encoder_put (e3\<lparr>enc_position := enc_position e\<rparr>) ?v = Some e1" "enc_null_count e1 = enc_null_count e3"
    "enc_position e1 = enc_position e + 4" "wrote ?t1 m e (e1\<lparr>enc_position := enc_position e3\<rparr>)"
    using wrote_patch [OF w wf, of "[]" j "pni_write32 (word_of_nat hc) @ body" ?v] t p64 by auto
  have ok1: "tape_ok ?t1" using w(2) t by (simp add: tape_ok_def)
  have "\<exists>e4. backfill e3 (enc_position e) ec = Some e4 \<and> enc_null_count e4 = enc_null_count e3 \<and> wrote (?v @ ?n @ body, snd t) m e e4"
  proof (cases "enc_null_count e3 = 0")
    case True
    then show ?thesis using e1 by (simp add: backfill_def write_puts)
  next
    case False
    have same: "e1\<lparr>enc_position := enc_position e3, enc_position := enc_position e + length ?v\<rparr> = e1"
      using e1(3) by (cases e1) simp
    obtain e2 where e2: "encoder_put e1 (pni_write32 (word_of_nat ec)) = Some e2" "enc_null_count e2 = enc_null_count e1"
      "wrote (?v @ pni_write32 (word_of_nat ec) @ body, snd t) m e (e2\<lparr>enc_position := enc_position e3\<rparr>)"
      using wrote_patch [OF e1(4) ok1 wf, of ?v "pni_write32 (word_of_nat hc)" body "pni_write32 (word_of_nat ec)"] t p64 same
      by auto
    then show ?thesis using e1(1,2) False by (simp add: backfill_def write_puts)
  qed
  then obtain e4 where e4: "backfill e3 (enc_position e) ec = Some e4" "enc_null_count e4 = enc_null_count e3"
    "wrote (?v @ ?n @ body, snd t) m e e4" by blast
  have "wrote (pni_write32 (word_of_nat (4 + length body)) @ ?n @ body, snd t) m e e4"
  proof (cases "enc_output e = None \<or> enc_position e + snd t \<le> enc_size e")
    case True
    then have "enc_position e3 = enc_position e + length (fst t)"
      using w(1) by (auto simp: wrote_def split: option.splits)
    then have "sub64 (sub64 (enc_position e3) (enc_position e)) 4 = 4 + length body"
      using pos(2) t by (simp add: wrap_simps)
    then show ?thesis using e4(3) by simp
  next
    case False
    then show ?thesis using e4(3) wrote_overflow [OF e4(3)] by auto
  qed
  with e4 show ?thesis by blast
qed

lemma drop_three: "drop (3 + n) (a # b # c # xs) = drop n xs"
  by (simp add: numeral_3_eq_3)

lemma slide_wrote:
  assumes w: "wrote t m e e3" "tape_ok t" and wf: "encoder_wf e" and t: "fst t = c # j @ pni_write32 cnt @ body" "length j = 4"
    and pos: "enc_position e + length (fst t) < 2 ^ 32" and fits: "enc_output e = None \<or> enc_position e + snd t \<le> enc_size e"
  shows "\<exists>e4. slide e3 (enc_position e + 1) (length body) ec = Some e4 \<and> enc_null_count e4 = enc_null_count e3 \<and>
    wrote ([c - 0x10, word_of_nat (1 + length body), word_of_nat ec] @ body, snd t) m e e4"
proof -
  have len: "length (fst t) = 9 + length body" using t by simp
  have p3: "enc_position e3 = enc_position e + length (fst t)" using w(1) fits by (auto simp: wrote_def split: option.splits)
  have m: "length (fst t) \<le> m" using wroteD(3) [OF w(1)] p3 by simp
  have w64: "wrap64 (wrap32 (enc_position e + 1 + 2) + length body) = enc_position e + 3 + length body"
    "sub32 (enc_position e + 1) 1 = enc_position e"
    using pos len by (simp_all add: wrap_simps)
  show ?thesis
  proof (cases "enc_output e")
    case None
    then have "enc_output e3 = None" using w(1) by (auto simp: wrote_def)
    then show ?thesis
      using None w64 w(1) m len by (auto simp: slide_def wrote_def)
  next
    case (Some out)
    then have fit: "enc_position e + snd t \<le> enc_size e" using fits by simp
    obtain rest where r: "enc_output e3 = Some (take (enc_position e) out @ fst t @ rest)"
      "enc_size e = enc_position e + length (fst t) + length rest"
      using wrote_fits(2) [OF w(1) Some wf w(2) fit] by blast
    define A where "A = take (enc_position e) out"
    have lA: "length A = enc_position e" using Some wf r(2) by (simp add: A_def encoder_wf_def)
    obtain j0 j1 j' where j: "j = j0 # j1 # j'" "length j' = 2"
      using t(2) by (auto simp: length_Suc_conv numeral_eq_Suc)
    let ?out = "A @ fst t @ rest"
    let ?o = "A @ [c - 0x10, word_of_nat (1 + length body), word_of_nat ec] @ j' @ pni_write32 cnt @ body @ rest"
    have upd: "?out[enc_position e := ?out ! enc_position e - 0x10, enc_position e + 1 := word_of_nat (1 + length body),
        enc_position e + 1 + 1 := word_of_nat ec] = ?o"
      unfolding lA [symmetric] t(1) j(1) by (simp add: list_update_append nth_append)
    have mv: "memcpy_at ?o (enc_position e + 1 + 2) (take (length body) (drop (enc_position e + 1 + 8) ?o)) =
        A @ [c - 0x10, word_of_nat (1 + length body), word_of_nat ec] @ body @ drop (length body) (j' @ pni_write32 cnt @ body @ rest)"
      using j(2) unfolding lA [symmetric] by (simp add: memcpy_at_def drop_three)
    have "slide e3 (enc_position e + 1) (length body) ec = Some (e3\<lparr>enc_output := Some (A @ [c - 0x10, word_of_nat (1 + length body), word_of_nat ec] @ body @
        drop (length body) (j' @ pni_write32 cnt @ body @ rest)), enc_position := enc_position e + 3 + length body\<rparr>)"
      using r(1) upd mv lA len w64 unfolding slide_def A_def [symmetric] Let_def by simp
    then show ?thesis
      using Some w(1) r fit lA len m wroteD(1,2) [OF w(1)] j(2) by (auto simp: wrote_def encoder_wf_def A_def)
  qed
qed

lemma tape_ok_wide [simp]: "tape_ok t \<Longrightarrow> tape_ok (wide n t)"
  by (simp add: tape_ok_def wide_def)

lemma tape_ok_compact [simp]: "tape_ok t \<Longrightarrow> tape_ok (compact c n t)"
  by (simp add: compact_def) (simp add: tape_ok_def)

lemma snd_compact: "snd (compact c n t) = 9 + snd t"
  by (simp add: compact_def cat_def wide_def)

lemma close_backfill:
  assumes wf: "encoder_wf e1" and hdr: "puts (j @ pni_write32 (word_of_nat hc)) e1 e2" "length j = 4"
    and t: "wrote t m e2 e3" "tape_ok t" "length (fst t) \<le> m" and pos: "enc_position e1 + 8 + m < 2 ^ 32"
    and n: "(if enc_null_count e3 \<noteq> 0 then ec else hc) = n"
  shows "\<exists>e4. backfill e3 (enc_position e1) ec = Some e4 \<and> enc_null_count e4 = enc_null_count e3 \<and>
    wrote (wide n t) (8 + m) e1 e4"
proof -
  have w: "wrote (cat (lit (j @ pni_write32 (word_of_nat hc))) t) (8 + m) e1 e3"
    using wrote_cat [OF _ _ t(1,2) wf, of "lit (j @ pni_write32 (word_of_nat hc))" 8] hdr by (simp add: puts_def)
  have "tape_ok (cat (lit (j @ pni_write32 (word_of_nat hc))) t)" using t(2) by simp
  from backfill_wrote [OF w this wf, of j hc "fst t" ec] t pos n hdr(2) show ?thesis
    by (simp add: wide_def cat_def)
qed

lemma content_size:
  assumes "p < 2 ^ 32" "s + 8 < 2 ^ 32"
  shows "s + 8 \<le> p \<Longrightarrow> sub64 (sub64 p s) 8 = p - s - 8" "p < s + 8 \<Longrightarrow> 255 < sub64 (sub64 p s) 8"
proof -
  show "s + 8 \<le> p \<Longrightarrow> sub64 (sub64 p s) 8 = p - s - 8" using assms by (simp add: wrap_simps)
  assume a: "p < s + 8"
  show "255 < sub64 (sub64 p s) 8"
  proof (cases "s \<le> p")
    case True
    then have "sub64 p s = p - s" using assms(1) by (simp add: wrap_simps)
    moreover have "sub64 (p - s) 8 = p - s + 2 ^ 64 - 8" using a True by (simp add: sub64_def)
    ultimately show ?thesis by simp
  next
    case False
    then have s: "sub64 p s = p + 2 ^ 64 - s" using assms by (simp add: sub64_def)
    have "sub64 (p + 2 ^ 64 - s) 8 = p + 2 ^ 64 - s - 8" using False assms by (intro sub64_diff) simp_all
    then show ?thesis using s assms by simp
  qed
qed

lemma close_elem:
  assumes wf: "encoder_wf e1" and hdr: "puts (j @ pni_write32 (word_of_nat hc)) e1 e2" "length j = 4"
    and t: "wrote t m e2 e3" "tape_ok t" "length (fst t) \<le> m" and pos: "enc_position e1 + 8 + m < 2 ^ 32"
    and n: "(if enc_null_count e3 \<noteq> 0 then ec else hc) = n"
  shows "\<exists>e4. close_compound e3 (enc_position e1) ec False = Some e4 \<and> enc_null_count e4 = enc_null_count e3 \<and>
    wrote (wide n t) (8 + m) e1 e4"
  using close_backfill [OF assms] by (simp add: close_compound_def)

lemma close_plain:
  assumes wf: "encoder_wf e" and c: "puts [c] e e1" and hdr: "puts (j @ pni_write32 (word_of_nat hc)) e1 e2" "length j = 4"
    and t: "wrote t m e2 e3" "tape_ok t" "length (fst t) \<le> m" and pos: "enc_position e + 9 + m < 2 ^ 32"
    and n: "(if enc_null_count e3 \<noteq> 0 then ec else hc) = n" "ec = n"
  shows "\<exists>e4. close_compound e3 (enc_position e1) ec True = Some e4 \<and> enc_null_count e4 = enc_null_count e3 \<and>
    wrote (compact c n t) (9 + m) e e4"
proof -
  have wf1: "encoder_wf e1" by (rule puts_wf [OF c])
  have p1: "enc_position e1 = enc_position e + 1" using c by (simp add: puts_def)
  have p2: "enc_position e2 = enc_position e + 9" using hdr p1 by (simp add: puts_def)
  let ?hdr = "c # j @ pni_write32 (word_of_nat hc)"
  have "puts ?hdr e e2" using puts_trans [OF wf c hdr(1)] by simp
  then have all: "wrote (cat (lit ?hdr) t) (9 + m) e e3"
    using wrote_cat [OF _ _ t(1,2) wf, of "lit ?hdr" 9] hdr(2) by (simp add: puts_def)
  have ok: "tape_ok (cat (lit ?hdr) t)" using t(2) by simp
  have p3: "enc_position e3 < 2 ^ 32" using wroteD(3) [OF t(1)] p2 pos by simp
  have start: "enc_position e1 + 8 < 2 ^ 32" using p1 pos by simp
  obtain e5 where e5: "backfill e3 (enc_position e1) ec = Some e5" "enc_null_count e5 = enc_null_count e3" "wrote (wide n t) (8 + m) e1 e5"
    using close_backfill [OF wf1 hdr t _ n(1)] pos p1 by auto
  have w5: "wrote (cat (lit [c]) (wide n t)) (9 + m) e e5"
    using wrote_cat [OF _ _ e5(3) _ wf, of "lit [c]" 1] c t(2) by (simp add: puts_def)
  let ?cs = "sub64 (sub64 (enc_position e3) (enc_position e1)) 8"
  show ?thesis
  proof (cases "enc_output e = None \<or> enc_position e + (9 + snd t) \<le> enc_size e")
    case True
    then have e3: "enc_position e3 = enc_position e + 9 + length (fst t)"
      using all hdr(2) by (auto simp: wrote_def cat_def split: option.splits)
    then have cs: "?cs = length (fst t)" using content_size(1) [OF p3 start] p1 by simp
    show ?thesis
    proof (cases "length (fst t) \<le> 255 \<and> n \<le> 255")
      case small: True
      have fit: "enc_output e = None \<or> enc_position e + snd (cat (lit ?hdr) t) \<le> enc_size e"
        using True hdr(2) by (simp add: cat_def)
      obtain e4 where e4: "slide e3 (enc_position e + 1) (length (fst t)) ec = Some e4" "enc_null_count e4 = enc_null_count e3"
        "wrote ([c - 0x10, word_of_nat (1 + length (fst t)), word_of_nat ec] @ fst t, snd (cat (lit ?hdr) t)) (9 + m) e e4"
        using slide_wrote [OF all ok wf, of c j "word_of_nat hc" "fst t" ec] fit hdr(2) pos t(3) by auto
      have "enc_output e3 = None \<or> wrap64 (wrap32 (enc_position e1 + 8) + length (fst t)) \<le> enc_size e3"
        using True all e3 p1 p3 t(2) wroteD(1) [OF all]
        by (auto simp: wrote_def wrap_simps tape_ok_def split: option.splits)
      then have "close_compound e3 (enc_position e1) ec True = Some e4"
        using small cs n(2) e4(1) p1 by (simp add: close_compound_def)
      moreover have "compact c n t = ([c - 0x10, word_of_nat (1 + length (fst t)), word_of_nat ec] @ fst t, snd (cat (lit ?hdr) t))"
        using small n(2) hdr(2) by (simp add: compact_def cat_def)
      ultimately show ?thesis using e4(2,3) by auto
    next
      case False
      then have "close_compound e3 (enc_position e1) ec True = Some e5"
        using cs n(2) e5(1) by (auto simp: close_compound_def)
      moreover have "compact c n t = cat (lit [c]) (wide n t)" using False by (auto simp: compact_def)
      ultimately show ?thesis using e5(2) w5 by auto
    qed
  next
    case False
    then obtain out where out: "enc_output e = Some out" "enc_size e < enc_position e + (9 + snd t)" by auto
    have over: "wrote (compact c n t) (9 + m) e e4" if "wrote u (9 + m) e e4" "snd u = 9 + snd t" for u e4
      using that out by (intro wrote_overflow [OF that(1) out(1)]) (simp_all add: snd_compact)
    have big: "enc_size e < enc_position e3" "enc_output e3 \<noteq> None"
      using all out hdr(2) by (auto simp: wrote_def cat_def)
    show ?thesis
    proof (cases "?cs \<le> 255 \<and> ec \<le> 255")
      case True
      have ge: "enc_position e1 + 8 \<le> enc_position e3"
        using content_size(2) [OF p3 start] True by (meson not_le)
      then have "wrap64 (wrap32 (enc_position e1 + 8) + ?cs) = enc_position e3"
        using content_size(1) [OF p3 start ge] start p3 by (simp add: wrap_simps)
      then have "close_compound e3 (enc_position e1) ec True = Some e3"
        using True big wroteD(1) [OF all] by (auto simp: close_compound_def)
      then show ?thesis using over [OF all] hdr(2) by (simp add: cat_def)
    next
      case False
      then have "close_compound e3 (enc_position e1) ec True = Some e5" using e5(1) by (auto simp: close_compound_def)
      then show ?thesis using e5(2) over [OF w5] by (simp add: cat_def wide_def)
    qed
  qed
qed

end
