(* ===== verification/Encoder_Correct.thy ===== *)
theory Encoder_Correct
  imports Encoder_Writes
begin

text \<open>
  The encoder writes the encoding of the values an object stands for. The proof follows the traversal:
  for every value, entering its node, visiting its children and leaving it writes the tape of the
  normal form of the value, in each of the three places where a value may stand (on its own, as an
  element of an array, in a list that is the value of a descriptor).
\<close>

section \<open>Places\<close>

definition parent_of :: "pn_data \<Rightarrow> nat \<Rightarrow> pni_node option" where
  "parent_of d i = (if nd_parent (nd d i) = 0 then None else Some (nd d (nd_parent (nd d i))))"

definition in_array :: "pn_data \<Rightarrow> nat \<Rightarrow> bool" where
  "in_array d i \<longleftrightarrow> pn_is_in_array (parent_of d i) (nd d i)"

definition is_body :: "pn_data \<Rightarrow> nat \<Rightarrow> bool" where
  "is_body d i \<longleftrightarrow> nd_parent (nd d i) \<noteq> 0 \<and> nd_type (nd d (nd_parent (nd d i))) = T_DESCRIBED \<and> nd_prev (nd d i) \<noteq> 0"

definition in_body_list :: "pn_data \<Rightarrow> nat \<Rightarrow> bool" where
  "in_body_list d i \<longleftrightarrow> nd_parent (nd d i) \<noteq> 0 \<and> nd_type (nd d (nd_parent (nd d i))) = T_LIST \<and> is_body d (nd_parent (nd d i))"

lemma parent_range:
  assumes "data_inv d" "0 < i" "i \<le> d_size d"
  shows "nd_parent (nd d i) \<le> d_size d" "nd_parent (nd d i) \<noteq> 0 \<Longrightarrow> in_nodes d (nd_parent (nd d i))"
    "in_nodes d i" "nd_prev (nd d i) \<le> d_size d" "nd_prev (nd d i) \<noteq> 0 \<Longrightarrow> in_nodes d (nd_prev (nd d i))"
proof -
  have sh: "shape_ok d" using assms(1) by (rule data_invD)
  show p: "nd_parent (nd d i) \<le> d_size d" "nd_prev (nd d i) \<le> d_size d"
    using links_okD(1,2) [OF shape_okD(8) [OF sh assms(2,3)]] assms(3) by simp_all
  show "nd_parent (nd d i) \<noteq> 0 \<Longrightarrow> in_nodes d (nd_parent (nd d i))" "in_nodes d i"
    "nd_prev (nd d i) \<noteq> 0 \<Longrightarrow> in_nodes d (nd_prev (nd d i))"
    using shape_okD(9) [OF sh] p assms by auto
qed

lemma node_or_null_parent:
  assumes "data_inv d" "0 < i" "i \<le> d_size d"
  shows "node_or_null d (nd_parent (nd d i)) = Some (parent_of d i)"
  using parent_range(2) [OF assms] by (auto simp: node_or_null_def parent_of_def rd_in)

lemma in_described_list_eq:
  assumes "data_inv d" "0 < i" "i \<le> d_size d"
  shows "pn_is_in_described_list d (parent_of d i) = Some (in_body_list d i)"
proof (cases "nd_parent (nd d i) = 0")
  case True
  then show ?thesis by (simp add: pn_is_in_described_list_def parent_of_def in_body_list_def)
next
  case False
  then show ?thesis
    using node_or_null_parent [OF assms(1), of "nd_parent (nd d i)"] parent_range(1) [OF assms]
    by (auto simp: pn_is_in_described_list_def parent_of_def in_body_list_def is_body_def)
qed

lemma similar_places:
  assumes s: "similar d d'" and inv: "data_inv d" and i: "0 < i" "i \<le> d_size d"
  shows "in_array d' i = in_array d i" "is_body d' i = is_body d i" "in_body_list d' i = in_body_list d i"
proof -
  have body: "is_body d' j = is_body d j" if j: "0 < j" "j \<le> d_size d" for j
    using similar_node [OF s j] similar_node [OF s, of "nd_parent (nd d j)"] parent_range(1) [OF inv j]
    by (cases "nd_parent (nd d j) = 0") (auto simp: is_body_def)
  show "is_body d' i = is_body d i" by (rule body [OF i])
  show "in_array d' i = in_array d i" "in_body_list d' i = in_body_list d i"
    using similar_node [OF s i] similar_node [OF s, of "nd_parent (nd d i)"] parent_range(1) [OF inv i]
      body [of "nd_parent (nd d i)"]
    by (cases "nd_parent (nd d i) = 0"; auto simp: in_array_def parent_of_def pn_is_in_array_def in_body_list_def)+
qed

section \<open>Entering\<close>

definition after_code :: "byte \<Rightarrow> pn_encoder \<Rightarrow> pn_data \<Rightarrow> nat \<Rightarrow> (int \<times> pn_encoder \<times> pn_data) option" where
  "after_code code e d i = do {
     (_, buf) \<leftarrow> pn_buffer_bytes (d_buf d);
     enter_payload e (d\<lparr>d_buf := buf\<rparr>) i (nd d i) code
   }"

lemma enter_split:
  assumes "data_inv d" "0 < i" "i \<le> d_size d" "enter_code e d (parent_of d i) (nd d i) = Some (code, e1)"
  shows "pni_encoder_enter e d i = after_code code e1 d i"
  using assms(4) node_or_null_parent [OF assms(1-3)] parent_range(3) [OF assms(1-3)]
  by (simp add: pni_encoder_enter_def after_code_def rd_in)

text \<open>Everything that a visit of a value does after its code.\<close>

definition keeps :: "nat \<Rightarrow> pn_data \<Rightarrow> pn_data \<Rightarrow> bool" where
  "keeps p d d' \<longleftrightarrow> (\<forall>j. 0 < j \<and> j \<le> p \<longrightarrow> nd d' j = nd d j)"

lemma keeps_refl [simp]: "keeps p d d" "keeps p d (d\<lparr>d_buf := b\<rparr>)"
  by (simp_all add: keeps_def)

lemma keeps_trans: "keeps p d d1 \<Longrightarrow> keeps p d1 d2 \<Longrightarrow> keeps p d d2"
  by (simp add: keeps_def)

lemma keeps_mono: "keeps p d d' \<Longrightarrow> q \<le> p \<Longrightarrow> keeps q d d'"
  by (simp add: keeps_def)

abbreviation evisit :: "amqp_value \<Rightarrow> nat \<Rightarrow> pn_encoder \<Rightarrow> pn_data \<Rightarrow> pn_encoder \<Rightarrow> pn_data \<Rightarrow> bool" where
  "evisit \<equiv> visit pni_encoder_enter pni_encoder_exit"

abbreviation evisits :: "amqp_value list \<Rightarrow> nat \<Rightarrow> pn_encoder \<Rightarrow> pn_data \<Rightarrow> pn_encoder \<Rightarrow> pn_data \<Rightarrow> bool" where
  "evisits \<equiv> visits pni_encoder_enter pni_encoder_exit"

definition core :: "byte \<Rightarrow> amqp_value \<Rightarrow> nat \<Rightarrow> pn_encoder \<Rightarrow> pn_data \<Rightarrow> pn_encoder \<Rightarrow> pn_data \<Rightarrow> bool" where
  "core code v i e1 d e4 d4 \<longleftrightarrow> (\<exists>e2 d2 e3 d3. after_code code e1 d i = Some (0, e2, d2) \<and> similar d d2 \<and>
     (case v of Atom _ \<Rightarrow> e3 = e2 \<and> d3 = d2 | Comp _ _ vs \<Rightarrow> evisits vs (pni_node_get_down (nd d i)) e2 d2 e3 d3) \<and>
     pni_encoder_exit e3 d3 i = Some (0, e4, d4) \<and> similar d3 d4 \<and> keeps (i - 1) d d4)"

lemma core_visit:
  assumes "data_inv d" "0 < i" "i \<le> d_size d" "enter_code e d (parent_of d i) (nd d i) = Some (code, e1)"
    and "core code v i e1 d e4 d4"
  shows "evisit v i e d e4 d4" "keeps (i - 1) d d4"
proof -
  obtain e2 d2 e3 d3 where c: "pni_encoder_enter e d i = Some (0, e2, d2)" "similar d d2"
    "case v of Atom _ \<Rightarrow> e3 = e2 \<and> d3 = d2 | Comp _ _ vs \<Rightarrow> evisits vs (pni_node_get_down (nd d i)) e2 d2 e3 d3"
    "pni_encoder_exit e3 d3 i = Some (0, e4, d4)" "similar d3 d4"
    using assms(5) enter_split [OF assms(1-4)] unfolding core_def by auto
  show "evisit v i e d e4 d4"
    using c by (cases v) (auto intro: Visit_Atom [where enter = pni_encoder_enter] Visit_Comp [where enter = pni_encoder_enter])
  show "keeps (i - 1) d d4" using assms(5) by (auto simp: core_def)
qed

lemma write_nulls_puts:
  assumes "encoder_wf e" "enc_position e + n < 2 ^ 64"
  shows "\<exists>e'. write_nulls n e = Some e' \<and> puts (replicate n PNE_NULL) e e'"
  using assms
proof (induction n arbitrary: e)
  case 0
  then show ?case using wrote_refl [of e] by (simp add: puts_def)
next
  case (Suc n)
  obtain e1 where e1: "encoder_put e [PNE_NULL] = Some e1" "puts [PNE_NULL] e e1"
    using encoder_put_puts [OF Suc.prems(1), of "[PNE_NULL]"] Suc.prems(2) by auto
  have "enc_position e1 + n < 2 ^ 64" using e1(2) Suc.prems(2) by (simp add: puts_def)
  then obtain e2 where "write_nulls n e1 = Some e2" "puts (replicate n PNE_NULL) e1 e2"
    using Suc.IH [OF puts_wf [OF e1(2)]] by blast
  then show ?case using e1 puts_trans [OF Suc.prems(1) e1(2)] by (simp add: write_puts)
qed

lemma wrote_null_count [simp]:
  "wrote t m (e\<lparr>enc_null_count := k\<rparr>) e' = wrote t m e e'" "wrote t m e (e'\<lparr>enc_null_count := k\<rparr>) = wrote t m e e'"
  by (auto simp: wrote_def split: option.split)

lemma puts_null_count: "puts bs e e' \<Longrightarrow> puts bs (e\<lparr>enc_null_count := k\<rparr>) (e'\<lparr>enc_null_count := k\<rparr>)"
  by (auto simp: puts_def wrote_def split: option.splits)

section \<open>One value\<close>

definition at :: "pn_data \<Rightarrow> nat \<Rightarrow> amqp_value \<Rightarrow> bool" where
  "at d i v \<longleftrightarrow> data_inv d \<and> (\<exists>hi. rep d hi i v \<and> hi \<le> d_size d)"

lemma atD:
  assumes "at d i v"
  shows "data_inv d" "0 < i" "i \<le> d_size d"
  using assms rep_root by (fastforce simp: at_def)+

lemma at_similar: "at d i v \<Longrightarrow> similar d d' \<Longrightarrow> at d' i v"
  unfolding at_def using similar_rep(1) similarD(1,2) by metis

definition encodes_plain :: "amqp_value \<Rightarrow> bool" where
  "encodes_plain v \<longleftrightarrow> (\<forall>e e1 d i. at d i v \<longrightarrow> encoder_wf e \<longrightarrow> enc_null_count e = 0 \<longrightarrow> \<not> in_array d i \<longrightarrow>
     enc_position e + full v < 2 ^ 32 \<longrightarrow> encoder_put e [pn_node2code (nd d i)] = Some e1 \<longrightarrow>
     (\<exists>e4 d4. core (pn_node2code (nd d i)) v i e1 d e4 d4 \<and> enc_null_count e4 = 0 \<and>
       wrote (tape_of False (normal (is_body d i) v)) (full v) e e4))"

definition encodes_elem :: "amqp_value \<Rightarrow> bool" where
  "encodes_elem v \<longleftrightarrow> (\<forall>e d i. at d i v \<longrightarrow> encoder_wf e \<longrightarrow> enc_null_count e = 0 \<longrightarrow> in_array d i \<longrightarrow>
     enc_position e + full v < 2 ^ 32 \<longrightarrow>
     (\<exists>e4 d4. core (pn_type2code (value_type v)) v i e d e4 d4 \<and> enc_null_count e4 = 0 \<and>
       wrote (tape_of True (normal False v)) (full v) e e4))"

lemma plain_visit:
  assumes v: "encodes_plain v" "at d i v" and e: "encoder_wf e" "enc_null_count e = 0" "enc_position e + full v < 2 ^ 32"
    and p: "\<not> in_array d i" "\<not> in_body_list d i"
  shows "\<exists>e' d'. evisit v i e d e' d' \<and> keeps (i - 1) d d' \<and> enc_null_count e' = 0 \<and>
    wrote (tape_of False (normal (is_body d i) v)) (full v) e e'"
proof -
  note d = atD [OF v(2)]
  obtain e1 where e1: "encoder_put e [pn_node2code (nd d i)] = Some e1"
    using encoder_put_puts [OF e(1), of "[pn_node2code (nd d i)]"] e(3) by auto
  have "enter_code e d (parent_of d i) (nd d i) = Some (pn_node2code (nd d i), e1)"
    using p e1 in_described_list_eq [OF d] by (simp add: enter_code_def in_array_def write_puts)
  moreover obtain e4 d4 where "core (pn_node2code (nd d i)) v i e1 d e4 d4" "enc_null_count e4 = 0"
    "wrote (tape_of False (normal (is_body d i) v)) (full v) e e4"
    using v e p(1) e1 unfolding encodes_plain_def by blast
  ultimately show ?thesis using core_visit [OF d] by blast
qed

lemma tape_ok_of [simp]: "tape_ok (tape_of el v)"
proof (induction el v rule: tape_of.induct)
qed (simp_all add: tapes_ok Let_def)

lemma body_list_visit:
  assumes v: "encodes_plain v" "at d i v" and e: "encoder_wf e" "enc_null_count e = k" "enc_position e + k + full v < 2 ^ 32"
    and p: "\<not> in_array d i" "in_body_list d i" "pn_node2code (nd d i) \<noteq> PNE_NULL"
  shows "\<exists>e' d'. evisit v i e d e' d' \<and> keeps (i - 1) d d' \<and> enc_null_count e' = 0 \<and>
    wrote (cat (lit (replicate k PNE_NULL)) (tape_of False (normal False v))) (k + full v) e e'"
proof -
  note d = atD [OF v(2)]
  have body: "is_body d i = False" using p(2) by (simp add: is_body_def in_body_list_def)
  obtain e0 where e0: "write_nulls k e = Some e0" "puts (replicate k PNE_NULL) e e0"
    using write_nulls_puts [OF e(1), of k] e(3) by auto
  let ?e0 = "e0\<lparr>enc_null_count := 0\<rparr>"
  have wf0: "encoder_wf ?e0" using puts_wf [OF e0(2)] by simp
  have pos0: "enc_position ?e0 = enc_position e + k" using e0(2) by (simp add: puts_def)
  obtain e1 where e1: "encoder_put ?e0 [pn_node2code (nd d i)] = Some e1"
    using encoder_put_puts [OF wf0, of "[pn_node2code (nd d i)]"] e(3) pos0 by auto
  have "enter_code e d (parent_of d i) (nd d i) = Some (pn_node2code (nd d i), e1)"
    using p e(2) e0(1) e1 in_described_list_eq [OF d] by (simp add: enter_code_def in_array_def write_puts)
  moreover obtain e4 d4 where c: "core (pn_node2code (nd d i)) v i e1 d e4 d4" "enc_null_count e4 = 0"
    "wrote (tape_of False (normal False v)) (full v) ?e0 e4"
    using v wf0 p(1) e1 e(3) pos0 body unfolding encodes_plain_def by fastforce
  moreover have "wrote (lit (replicate k PNE_NULL)) k e ?e0"
    using puts_null_count [OF e0(2), of 0] e0(2) unfolding puts_def wrote_def by (auto split: option.splits)
  ultimately show ?thesis
    using core_visit [OF d] wrote_cat [OF _ _ c(3) _ e(1), of "lit (replicate k PNE_NULL)" k] by fastforce
qed

lemma elem_visit:
  assumes v: "encodes_elem v" "at d i v" and e: "encoder_wf e" "enc_null_count e = 0" "enc_position e + of_bool first + full v < 2 ^ 32"
    and p: "in_array d i" "nd_array_type (nd d (nd_parent (nd d i))) = value_type v"
      "pn_is_first_in_array d (nd d (nd_parent (nd d i))) (nd d i) = Some first"
  shows "\<exists>e' d'. evisit v i e d e' d' \<and> keeps (i - 1) d d' \<and> enc_null_count e' = 0 \<and>
    wrote (cat (lit (if first then [pn_type2code (value_type v)] else [])) (tape_of True (normal False v))) (of_bool first + full v) e e'"
proof -
  note d = atD [OF v(2)]
  let ?c = "if first then [pn_type2code (value_type v)] else []"
  have par: "parent_of d i = Some (nd d (nd_parent (nd d i)))"
    using p(1) by (auto simp: in_array_def pn_is_in_array_def parent_of_def split: if_splits)
  have "length ?c \<le> 1" by simp
  then obtain e1 where e1: "encoder_put e ?c = Some e1" "puts ?c e e1"
    using encoder_put_puts [OF e(1), of ?c] e(3) by fastforce
  have "enter_code e d (parent_of d i) (nd d i) = Some (pn_type2code (value_type v), e1)"
    using p par e1(1) e(3) by (cases first) (auto simp: enter_code_def in_array_def write_puts encoder_put_Nil)
  moreover obtain e4 d4 where c: "core (pn_type2code (value_type v)) v i e1 d e4 d4" "enc_null_count e4 = 0"
    "wrote (tape_of True (normal False v)) (full v) e1 e4"
    using v puts_wf [OF e1(2)] p(1) e e1(2) unfolding encodes_elem_def puts_def by (fastforce split: if_splits)
  ultimately show ?thesis
    using core_visit [OF d] wrote_cat [OF _ _ c(3) _ e(1), of "lit ?c" "length ?c"] e1(2)
    by (fastforce simp: puts_def split: if_splits)
qed

lemma exit_other:
  assumes "data_inv d" "0 < i" "i \<le> d_size d" "nd_type (nd d i) \<notin> {T_ARRAY, T_ARRAY_DESCRIBED, T_LIST, T_MAP}"
  shows "pni_encoder_exit e d i = Some (0, e, d)"
  using assms(4) node_or_null_parent [OF assms(1-3)] parent_range(3) [OF assms(1-3)]
  by (auto simp: pni_encoder_exit_def rd_in split: prod.split)

lemma code_null:
  assumes "at d i v"
  shows "pn_node2code (nd d i) = PNE_NULL \<longleftrightarrow> v = Atom PN_NULL"
proof (cases v)
  case (Atom a)
  then have "atom_node d (nd d i) a" using assms by (auto simp: at_def)
  then show ?thesis using Atom by (cases a) (auto simp: atom_node_def pn_node2code_def)
next
  case (Comp ty aty vs)
  then have "nd_type (nd d i) = ty" "compound_type ty" using assms by (auto simp: at_def)
  then show ?thesis using Comp by (cases ty) (auto simp: pn_node2code_def)
qed

lemma null_visit:
  assumes v: "at d i (Atom PN_NULL)" and k: "enc_null_count e + 1 < 2 ^ 32" and p: "\<not> in_array d i" "in_body_list d i"
  shows "\<exists>d'. evisit (Atom PN_NULL) i e d (e\<lparr>enc_null_count := enc_null_count e + 1\<rparr>) d' \<and> keeps (i - 1) d d'"
proof -
  note d = atD [OF v]
  let ?e = "e\<lparr>enc_null_count := enc_null_count e + 1\<rparr>"
  have code: "pn_node2code (nd d i) = PNE_NULL" using code_null [OF v] by simp
  have c: "enter_code e d (parent_of d i) (nd d i) = Some (PNE_NULL, ?e)"
    using p code k in_described_list_eq [OF d] by (simp add: enter_code_def in_array_def wrap_simps)
  obtain bs buf where b: "pn_buffer_bytes (d_buf d) = Some (bs, buf)" "similar d (d\<lparr>d_buf := buf\<rparr>)"
    using buffer_similar [OF d(1)] by blast
  have "after_code PNE_NULL ?e d i = Some (0, ?e, d\<lparr>d_buf := buf\<rparr>)" using b by (simp add: after_code_def enter_payload_def)
  moreover have "nd_type (nd d i) = T_NULL" using v by (auto simp: at_def atom_node_def)
  then have "pni_encoder_exit ?e (d\<lparr>d_buf := buf\<rparr>) i = Some (0, ?e, d\<lparr>d_buf := buf\<rparr>)"
    using similarD(1,2) [OF b(2)] d by (intro exit_other) simp_all
  ultimately have "core PNE_NULL (Atom PN_NULL) i ?e d ?e (d\<lparr>d_buf := buf\<rparr>)"
    using b(2) similar_refl [OF similarD(1) [OF b(2)]] by (simp add: core_def)
  from core_visit [OF d c this] show ?thesis by blast
qed

section \<open>Lists of values\<close>

lemma reps_at:
  assumes "reps d hi p c i (v # vs)" "hi \<le> d_size d" "data_inv d"
  shows "at d i v" "nd_parent (nd d i) = p" "nd_prev (nd d i) = c" "p < i" "reps d hi p i (nd_next (nd d i)) vs"
  using assms by (auto simp: at_def)

lemma normal_null [simp]: "normal b v = Atom PN_NULL \<longleftrightarrow> v = Atom PN_NULL"
  by (cases v) auto

lemma tapes_append: "tapes (xs @ ys) = cat (tapes xs) (tapes ys)"
  by (induction xs) (simp_all add: cat_assoc)

lemma tapes_replicate: "tapes (replicate k (lit [b])) = lit (replicate k b)"
  by (induction k) simp_all

abbreviation fulls :: "amqp_value list \<Rightarrow> nat" where
  "fulls vs \<equiv> sum_list (map full vs)"

text \<open>Children that stand on their own; the flags say whether the parent is a descriptor and whether a child came before.\<close>

fun normal_children :: "bool \<Rightarrow> bool \<Rightarrow> amqp_value list \<Rightarrow> amqp_value list" where
  "normal_children desc later [] = []"
| "normal_children desc later (v # vs) = normal (desc \<and> later) v # normal_children desc True vs"

definition plain_parent :: "pn_data \<Rightarrow> nat \<Rightarrow> bool" where
  "plain_parent d p \<longleftrightarrow> p = 0 \<or> \<not> array_type (nd_type (nd d p)) \<and> \<not> (nd_type (nd d p) = T_LIST \<and> is_body d p)"

lemma plain_list:
  assumes "\<forall>v \<in> set vs. encodes_plain v" "reps d hi p c i vs" "hi \<le> d_size d" "data_inv d" "p \<le> d_size d" "plain_parent d p"
    and "encoder_wf e" "enc_null_count e = 0" "enc_position e + fulls vs < 2 ^ 32"
    and desc: "desc \<longleftrightarrow> p \<noteq> 0 \<and> nd_type (nd d p) = T_DESCRIBED"
  shows "\<exists>e' d'. evisits vs i e d e' d' \<and> keeps p d d' \<and> enc_null_count e' = 0 \<and>
    wrote (tapes (map (tape_of False) (normal_children desc (c \<noteq> 0) vs))) (fulls vs) e e'"
  using assms
proof (induction vs arbitrary: c i d e)
  case Nil
  then show ?case using Visits_Nil [where enter = pni_encoder_enter] wrote_refl [of e] by fastforce
next
  case (Cons v vs)
  note r = reps_at [OF Cons.prems(2-4)]
  have v: "encodes_plain v" "enc_position e + full v < 2 ^ 32" using Cons.prems(1,9) by simp_all
  have place: "\<not> in_array d i" "\<not> in_body_list d i" "is_body d i \<longleftrightarrow> desc \<and> c \<noteq> 0"
    using Cons.prems(6) r(2,3) desc Cons.prems(10)
    by (auto simp: in_array_def pn_is_in_array_def parent_of_def in_body_list_def is_body_def plain_parent_def array_type_def)
  obtain e1 d1 where e1: "evisit v i e d e1 d1" "keeps (i - 1) d d1" "enc_null_count e1 = 0"
    "wrote (tape_of False (normal (desc \<and> c \<noteq> 0) v)) (full v) e e1"
    using plain_visit [OF v(1) r(1) Cons.prems(7,8) v(2) place(1,2)] place(3) by auto
  note s = visits_similar(1) [OF e1(1)]
  have "plain_parent d1 p" "desc \<longleftrightarrow> p \<noteq> 0 \<and> nd_type (nd d1 p) = T_DESCRIBED"
    using Cons.prems(5,6,10) similar_node [OF s, of p] similar_places(2) [OF s Cons.prems(4), of p]
    by (cases "p = 0"; auto simp: plain_parent_def)+
  then obtain e2 d2 where e2: "evisits vs (nd_next (nd d i)) e1 d1 e2 d2" "keeps p d1 d2" "enc_null_count e2 = 0"
    "wrote (tapes (map (tape_of False) (normal_children desc (i \<noteq> 0) vs))) (fulls vs) e1 e2"
    using Cons.IH [of d1 i "nd_next (nd d i)" e1] Cons.prems(1,3,5,9) similarD(1,2) [OF s] similar_rep(2) [OF s Cons.prems(3) r(5)]
      wroteD(2,3) [OF e1(4)] e1(3) by auto
  have "evisits (v # vs) i e d e2 d2" using Visits_Cons [where enter = pni_encoder_enter] e1(1) e2(1) by blast
  moreover have "keeps p d d2" using keeps_trans [OF keeps_mono [OF e1(2)] e2(2)] r(4) by simp
  moreover have "i \<noteq> 0" using atD [OF r(1)] by simp
  ultimately show ?case
    using e2(3) wrote_cat [OF e1(4) _ e2(4) _ Cons.prems(7)] by (fastforce simp: tapes_ok)
qed

text \<open>Children of a list that is the value of a descriptor: nulls are held back.\<close>

fun hold_nulls :: "nat \<Rightarrow> amqp_value list \<Rightarrow> amqp_value list \<times> nat" where
  "hold_nulls k [] = ([], k)"
| "hold_nulls k (v # vs) =
     (if v = Atom PN_NULL then hold_nulls (k + 1) vs
      else let (ws, k') = hold_nulls 0 vs in (replicate k (Atom PN_NULL) @ v # ws, k'))"

lemma hold_nulls_eq: "fst (hold_nulls k vs) @ replicate (snd (hold_nulls k vs)) (Atom PN_NULL) = replicate k (Atom PN_NULL) @ vs"
  by (induction k vs rule: hold_nulls.induct) (auto simp: replicate_app_Cons_same split: prod.splits)

lemma hold_nulls_last: "fst (hold_nulls k vs) = [] \<or> last (fst (hold_nulls k vs)) \<noteq> Atom PN_NULL"
  by (induction k vs rule: hold_nulls.induct) (auto split: prod.splits)

lemma hold_nulls_drop:
  "fst (hold_nulls 0 vs) = drop_nulls vs" "snd (hold_nulls 0 vs) + length (drop_nulls vs) = length vs"
proof -
  let ?ws = "fst (hold_nulls 0 vs)" and ?k = "snd (hold_nulls 0 vs)"
  have eq: "vs = ?ws @ replicate ?k (Atom PN_NULL)" using hold_nulls_eq [of 0 vs] by simp
  have "dropWhile (\<lambda>v. v = Atom PN_NULL) (rev (?ws @ replicate ?k (Atom PN_NULL))) = rev ?ws"
    using hold_nulls_last [of 0 vs] by (cases ?ws rule: rev_cases) (simp_all add: dropWhile_append3)
  then show 1: "?ws = drop_nulls vs" by (metis eq drop_nulls_def rev_rev_ident)
  show "?k + length (drop_nulls vs) = length vs" using arg_cong [OF eq, of length] 1 by simp
qed

lemma body_list:
  assumes "\<forall>v \<in> set vs. encodes_plain v" "reps d hi p c i vs" "hi \<le> d_size d" "data_inv d" "0 < p" "p \<le> d_size d"
    and "nd_type (nd d p) = T_LIST" "is_body d p"
    and "encoder_wf e" "enc_null_count e = k" "enc_position e + k + fulls vs < 2 ^ 32"
  shows "\<exists>e' d'. evisits vs i e d e' d' \<and> keeps p d d' \<and> enc_null_count e' = snd (hold_nulls k (map (normal False) vs)) \<and>
    wrote (tapes (map (tape_of False) (fst (hold_nulls k (map (normal False) vs))))) (k + fulls vs) e e'"
  using assms
proof (induction vs arbitrary: c i d e k)
  case Nil
  then show ?case
    using Visits_Nil [where enter = pni_encoder_enter] wrote_mono [OF wrote_refl [of e], of k] by fastforce
next
  case (Cons v vs)
  note r = reps_at [OF Cons.prems(2-4)]
  have place: "\<not> in_array d i" "in_body_list d i"
    using Cons.prems(5,7,8) r(2,3) by (auto simp: in_array_def pn_is_in_array_def parent_of_def in_body_list_def)
  have rest: "nd_type (nd d1 p) = T_LIST" "is_body d1 p" if "similar d d1" for d1
    using that Cons.prems(5-8) similar_node(1) [OF that, of p] similar_places(2) [OF that Cons.prems(4), of p] by auto
  show ?case
  proof (cases "v = Atom PN_NULL")
    case True
    let ?e = "e\<lparr>enc_null_count := enc_null_count e + 1\<rparr>"
    have f: "full v = 18" using True by (simp add: full_def)
    have "enc_null_count e + 1 < 2 ^ 32" using Cons.prems(10,11) f by simp
    then obtain d1 where d1: "evisit v i e d ?e d1" "keeps (i - 1) d d1"
      using null_visit [OF _ _ place, of e] r(1) True by blast
    note s = visits_similar(1) [OF d1(1)]
    obtain e2 d2 where e2: "evisits vs (nd_next (nd d i)) ?e d1 e2 d2" "keeps p d1 d2"
      "enc_null_count e2 = snd (hold_nulls (k + 1) (map (normal False) vs))"
      "wrote (tapes (map (tape_of False) (fst (hold_nulls (k + 1) (map (normal False) vs))))) (k + 1 + fulls vs) ?e e2"
      using Cons.IH [of d1 i "nd_next (nd d i)" ?e "k + 1"] Cons.prems(1,3,5,6,9-11) similarD(1,2) [OF s] similar_rep(2) [OF s Cons.prems(3) r(5)]
        rest [OF s] f by auto
    have "evisits (v # vs) i e d e2 d2" using Visits_Cons [where enter = pni_encoder_enter] d1(1) e2(1) by blast
    moreover have "keeps p d d2" using keeps_trans [OF keeps_mono [OF d1(2)] e2(2)] r(4) by simp
    moreover have "wrote (tapes (map (tape_of False) (fst (hold_nulls (k + 1) (map (normal False) vs))))) (k + fulls (v # vs)) e e2"
      using wrote_mono [OF e2(4), of "k + fulls (v # vs)"] f by simp
    ultimately show ?thesis using e2(3) True by auto
  next
    case False
    have code: "pn_node2code (nd d i) \<noteq> PNE_NULL" using code_null [OF r(1)] False by blast
    have v: "encodes_plain v" "enc_position e + k + full v < 2 ^ 32" using Cons.prems(1,11) by simp_all
    obtain e1 d1 where e1: "evisit v i e d e1 d1" "keeps (i - 1) d d1" "enc_null_count e1 = 0"
      "wrote (cat (lit (replicate k PNE_NULL)) (tape_of False (normal False v))) (k + full v) e e1"
      using body_list_visit [OF v(1) r(1) Cons.prems(9,10) v(2) place code] by blast
    note s = visits_similar(1) [OF e1(1)]
    obtain e2 d2 where e2: "evisits vs (nd_next (nd d i)) e1 d1 e2 d2" "keeps p d1 d2"
      "enc_null_count e2 = snd (hold_nulls 0 (map (normal False) vs))"
      "wrote (tapes (map (tape_of False) (fst (hold_nulls 0 (map (normal False) vs))))) (0 + fulls vs) e1 e2"
      using Cons.IH [of d1 i "nd_next (nd d i)" e1 0] Cons.prems(1,3,5,6,11) similarD(1,2) [OF s] similar_rep(2) [OF s Cons.prems(3) r(5)]
        rest [OF s] wroteD(2,3) [OF e1(4)] e1(3) by auto
    have "evisits (v # vs) i e d e2 d2" using Visits_Cons [where enter = pni_encoder_enter] e1(1) e2(1) by blast
    moreover have "keeps p d d2" using keeps_trans [OF keeps_mono [OF e1(2)] e2(2)] r(4) by simp
    moreover have "wrote (tapes (map (tape_of False) (fst (hold_nulls k (map (normal False) (v # vs)))))) (k + fulls (v # vs)) e e2"
      using wrote_cat [OF e1(4) _ e2(4) _ Cons.prems(9)] False
      by (simp add: tapes_ok tapes_append tapes_replicate cat_assoc add.assoc case_prod_unfold Let_def)
    ultimately show ?thesis using e2(3) False by (auto split: prod.splits)
  qed
qed

text \<open>Elements of an array: the first one is preceded by the code they share.\<close>

definition first_element :: "pn_data \<Rightarrow> nat \<Rightarrow> nat \<Rightarrow> bool" where
  "first_element d p c \<longleftrightarrow>
     (if c = 0 then nd_type (nd d p) \<noteq> T_ARRAY_DESCRIBED else nd_type (nd d p) = T_ARRAY_DESCRIBED \<and> nd_prev (nd d c) = 0)"

lemma first_element_eq:
  assumes "at d i v"
  shows "pn_is_first_in_array d (nd d (nd_parent (nd d i))) (nd d i) =
    Some (first_element d (nd_parent (nd d i)) (nd_prev (nd d i)))"
  using parent_range(5) [OF atD [OF assms]] by (auto simp: pn_is_first_in_array_def first_element_def rd_in)

lemma elem_list:
  assumes "\<forall>v \<in> set vs. encodes_elem v \<and> value_type v = aty" "reps d hi p c i vs" "hi \<le> d_size d" "data_inv d" "0 < p" "p \<le> d_size d"
    and "array_type (nd_type (nd d p))" "nd_array_type (nd d p) = aty" "nd_type (nd d p) = T_ARRAY_DESCRIBED \<Longrightarrow> c \<noteq> 0"
    and "encoder_wf e" "enc_null_count e = 0" "enc_position e + of_bool f + fulls vs < 2 ^ 32"
    and "f \<longleftrightarrow> vs \<noteq> [] \<and> first_element d p c"
  shows "\<exists>e' d'. evisits vs i e d e' d' \<and> keeps p d d' \<and> enc_null_count e' = 0 \<and>
    wrote (cat (lit (if f then [pn_type2code aty] else [])) (tapes (map (tape_of True) (map (normal False) vs)))) (of_bool f + fulls vs) e e'"
  using assms
proof (induction vs arbitrary: c i d e f)
  case Nil
  then show ?case using Visits_Nil [where enter = pni_encoder_enter] wrote_refl [of e] by fastforce
next
  case (Cons v vs)
  note r = reps_at [OF Cons.prems(2-4)]
  have v: "encodes_elem v" "value_type v = aty" "enc_position e + of_bool f + full v < 2 ^ 32" using Cons.prems(1,12) by simp_all
  have place: "in_array d i" "nd_array_type (nd d (nd_parent (nd d i))) = value_type v"
    "pn_is_first_in_array d (nd d (nd_parent (nd d i))) (nd d i) = Some f"
    using Cons.prems(5,7-9,13) r(2,3) v(2) first_element_eq [OF r(1)]
    by (auto simp: in_array_def pn_is_in_array_def parent_of_def array_type_def)
  obtain e1 d1 where e1: "evisit v i e d e1 d1" "keeps (i - 1) d d1" "enc_null_count e1 = 0"
    "wrote (cat (lit (if f then [pn_type2code aty] else [])) (tape_of True (normal False v))) (of_bool f + full v) e e1"
    using elem_visit [OF v(1) r(1) Cons.prems(10,11) v(3) place] v(2) by auto
  note s = visits_similar(1) [OF e1(1)]
  have n: "array_type (nd_type (nd d1 p))" "nd_array_type (nd d1 p) = aty" "nd_type (nd d1 p) = nd_type (nd d p)" "nd_prev (nd d1 i) = c"
    using Cons.prems(5-8) similar_node [OF s, of p] similar_node [OF s, of i] atD [OF r(1)] r(3) by auto
  have i0: "i \<noteq> 0" using atD [OF r(1)] by simp
  have nf: "\<not> first_element d1 p i" using n(3,4) i0 Cons.prems(9) by (auto simp: first_element_def)
  obtain e2 d2 where e2: "evisits vs (nd_next (nd d i)) e1 d1 e2 d2" "keeps p d1 d2" "enc_null_count e2 = 0"
    "wrote (tapes (map (tape_of True) (map (normal False) vs))) (fulls vs) e1 e2"
    using Cons.IH [of d1 i "nd_next (nd d i)" e1 False] Cons.prems(1,3,5,6,12) similarD(1,2) [OF s] similar_rep(2) [OF s Cons.prems(3) r(5)]
      wroteD(2,3) [OF e1(4)] e1(3) n nf i0 by (auto split: if_splits)
  have "evisits (v # vs) i e d e2 d2" using Visits_Cons [where enter = pni_encoder_enter] e1(1) e2(1) by blast
  moreover have "keeps p d d2" using keeps_trans [OF keeps_mono [OF e1(2)] e2(2)] r(4) by simp
  ultimately show ?case
    using e2(3) wrote_cat [OF e1(4) _ e2(4) _ Cons.prems(10)] by (fastforce simp: tapes_ok cat_assoc add.assoc)
qed

section \<open>Scalars\<close>

lemma atom_core:
  assumes v: "at d i (Atom a)" and p: "\<And>d'. similar d d' \<Longrightarrow> nd d' i = nd d i \<Longrightarrow> atom_node d' (nd d' i) a \<Longrightarrow>
      \<exists>e2 d2. enter_payload e1 d' i (nd d' i) code = Some (0, e2, d2) \<and> puts bs e1 e2 \<and> similar d' d2 \<and> d_nodes d2 = d_nodes d'"
  shows "\<exists>e2 d2. core code (Atom a) i e1 d e2 d2 \<and> puts bs e1 e2"
proof -
  note d = atD [OF v]
  obtain xs buf where b: "pn_buffer_bytes (d_buf d) = Some (xs, buf)" "similar d (d\<lparr>d_buf := buf\<rparr>)"
    using buffer_similar [OF d(1)] by blast
  let ?d = "d\<lparr>d_buf := buf\<rparr>"
  have "atom_node ?d (nd ?d i) a" using at_similar [OF v b(2)] by (auto simp: at_def)
  then obtain e2 d2 where e2: "enter_payload e1 ?d i (nd d i) code = Some (0, e2, d2)" "puts bs e1 e2" "similar ?d d2" "d_nodes d2 = d_nodes ?d"
    using p [OF b(2)] by auto
  have s: "similar d d2" using similar_trans [OF b(2) e2(3)] .
  have "nd_type (nd d i) = atom_type a" using v by (auto simp: at_def atom_node_def)
  then have "nd_type (nd d2 i) \<notin> {T_ARRAY, T_ARRAY_DESCRIBED, T_LIST, T_MAP}"
    using similar_node(1) [OF s d(2,3)] by (cases a) auto
  then have "pni_encoder_exit e2 d2 i = Some (0, e2, d2)"
    using similarD(1,2) [OF s] d by (intro exit_other) simp_all
  moreover have "keeps (i - 1) d d2" using e2(4) by (simp add: keeps_def nd_def)
  ultimately show ?thesis
    using b(1) e2 s similar_refl [OF similarD(1) [OF s]] by (auto simp: core_def after_code_def)
qed

lemma put_puts: "encoder_put e bs = Some e1 \<Longrightarrow> encoder_wf e \<Longrightarrow> enc_position e + length bs < 2 ^ 64 \<Longrightarrow> puts bs e e1"
  using encoder_put_puts by fastforce

lemma encodes_atom_plain:
  assumes "atom_wf a"
  shows "encodes_plain (Atom a)"
  unfolding encodes_plain_def
proof (intro allI impI)
  fix e e1 d i
  assume h: "at d i (Atom a)" "encoder_wf e" "enc_null_count e = 0" "\<not> in_array d i" "enc_position e + full (Atom a) < 2 ^ 32"
    "encoder_put e [pn_node2code (nd d i)] = Some e1"
  have c: "puts [pn_node2code (nd d i)] e e1" using put_puts [OF h(6,2)] h(5) by simp
  note d = atD [OF h(1)]
  have "\<exists>e2 d2. core (pn_node2code (nd d i)) (Atom a) i e1 d e2 d2 \<and> puts (tl (enc_atom a)) e1 e2"
  proof (rule atom_core [OF h(1)])
    fix d' assume d': "similar d d'" "nd d' i = nd d i" "atom_node d' (nd d' i) a"
    have "enc_position e1 + full (Atom a) < 2 ^ 33" using c h(5) by (simp add: puts_def)
    from enter_payload_atom(1) [OF similarD(1) [OF d'(1)] d(2) _ d'(3) assms puts_wf [OF c] this]
    show "\<exists>e2 d2. enter_payload e1 d' i (nd d' i) (pn_node2code (nd d i)) = Some (0, e2, d2) \<and>
        puts (tl (enc_atom a)) e1 e2 \<and> similar d' d2 \<and> d_nodes d2 = d_nodes d'"
      using similarD(2) [OF d'(1)] d(3) d'(2) by auto
  qed
  then obtain e2 d2 where e2: "core (pn_node2code (nd d i)) (Atom a) i e1 d e2 d2" "puts (tl (enc_atom a)) e1 e2" by blast
  have "atom_node d (nd d i) a" using h(1) by (auto simp: at_def)
  then have "enc_atom a = pn_node2code (nd d i) # tl (enc_atom a)"
    using enter_payload_atom(1) [OF d _ assms h(2)] h(5) by fastforce
  then have p: "puts (enc_atom a) e e2" using puts_trans [OF h(2) c e2(2)] by simp
  have "wrote (tape_of False (normal (is_body d i) (Atom a))) (full (Atom a)) e e2"
    using wrote_mono [OF _ atom_lengths(1) [OF assms]] p by (simp add: puts_def)
  moreover have "enc_null_count e2 = 0" using p h(3) by (simp add: puts_def)
  ultimately show "\<exists>e4 d4. core (pn_node2code (nd d i)) (Atom a) i e1 d e4 d4 \<and> enc_null_count e4 = 0 \<and>
      wrote (tape_of False (normal (is_body d i) (Atom a))) (full (Atom a)) e e4" using e2(1) by blast
qed

lemma encodes_atom_elem:
  assumes "atom_wf a"
  shows "encodes_elem (Atom a)"
  unfolding encodes_elem_def
proof (intro allI impI)
  fix e d i
  assume h: "at d i (Atom a)" "encoder_wf e" "enc_null_count e = 0" "in_array d i" "enc_position e + full (Atom a) < 2 ^ 32"
  note d = atD [OF h(1)]
  have "\<exists>e2 d2. core (pn_type2code (atom_type a)) (Atom a) i e d e2 d2 \<and> puts (elem_atom a) e e2"
  proof (rule atom_core [OF h(1)])
    fix d' assume d': "similar d d'" "nd d' i = nd d i" "atom_node d' (nd d' i) a"
    show "\<exists>e2 d2. enter_payload e d' i (nd d' i) (pn_type2code (atom_type a)) = Some (0, e2, d2) \<and>
        puts (elem_atom a) e e2 \<and> similar d' d2 \<and> d_nodes d2 = d_nodes d'"
      using enter_payload_atom(2) [OF similarD(1) [OF d'(1)] d(2) _ d'(3) assms h(2)] similarD(2) [OF d'(1)] d(3) h(5) by simp
  qed
  then obtain e2 d2 where e2: "core (pn_type2code (atom_type a)) (Atom a) i e d e2 d2" "puts (elem_atom a) e e2" by blast
  have "wrote (tape_of True (normal False (Atom a))) (full (Atom a)) e e2"
    using wrote_mono [OF _ atom_lengths(2) [OF assms]] e2(2) by (simp add: puts_def)
  moreover have "enc_null_count e2 = 0" using e2(2) h(3) by (simp add: puts_def)
  ultimately show "\<exists>e4 d4. core (pn_type2code (value_type (Atom a))) (Atom a) i e d e4 d4 \<and> enc_null_count e4 = 0 \<and>
      wrote (tape_of True (normal False (Atom a))) (full (Atom a)) e e4" using e2(1) by auto
qed

section \<open>Compounds\<close>

lemma full_Comp: "full (Comp ty aty vs) = 18 + fulls vs"
  by (simp add: full_def) (induction vs; simp add: full_def)

definition sized_type :: "pn_type \<Rightarrow> bool" where
  "sized_type ty \<longleftrightarrow> ty \<in> {T_LIST, T_MAP, T_ARRAY, T_ARRAY_DESCRIBED}"

definition header_count :: "pn_type \<Rightarrow> nat \<Rightarrow> nat" where
  "header_count ty n = (if ty = T_ARRAY_DESCRIBED then sub32 n 1 else n)"

lemma comp_node:
  assumes "at d i (Comp ty aty vs)"
  shows "nd_type (nd d i) = ty" "compound_type ty" "array_type ty \<Longrightarrow> nd_array_type (nd d i) = aty"
    "nd_u (nd d i) = As_compound (pni_node_get_down (nd d i)) (length vs) (snd (snd (as_compound (nd_u (nd d i)))))"
    "\<exists>hi. reps d hi i 0 (pni_node_get_down (nd d i)) vs \<and> hi \<le> d_size d"
  using assms unfolding at_def by (auto simp: pni_node_get_down_def)

lemma comp_code:
  assumes "at d i (Comp ty aty vs)" "ty \<noteq> T_DEFER"
  shows "pn_node2code (nd d i) = pn_type2code (pni_type_external ty)"
  using comp_node(1,2) [OF assms(1)] assms(2) by (cases ty) (auto simp: pn_node2code_def pni_type_external_def)

lemma enter_payload_sized:
  "enter_payload e d i x PNE_LIST32 = map_option (Pair 0) (enter_compound e d i (fst (snd (as_compound (nd_u x)))))"
  "enter_payload e d i x PNE_MAP32 = map_option (Pair 0) (enter_compound e d i (fst (snd (as_compound (nd_u x)))))"
  "nd_type x = T_ARRAY \<Longrightarrow>
     enter_payload e d i x PNE_ARRAY32 = map_option (Pair 0) (enter_compound e d i (fst (snd (as_compound (nd_u x)))))"
  "nd_type x = T_ARRAY_DESCRIBED \<Longrightarrow> enter_payload e d i x PNE_ARRAY32 = do {
     (e, d) \<leftarrow> enter_compound e d i (sub32 (fst (snd (as_compound (nd_u x)))) 1);
     e \<leftarrow> encoder_put e [0];
     Some (0, e, d)
   }"
  by (simp_all add: enter_payload_def case_prod_unfold Let_def write_puts map_conv_bind_option comp_def)

lemma open_compound:
  assumes v: "at d i (Comp ty aty vs)" "sized_type ty" and e: "encoder_wf e1" "enc_position e1 + 9 < 2 ^ 32"
  shows "\<exists>e2 e2' d2 j. after_code (pn_type2code (pni_type_external ty)) e1 d i = Some (0, e2', d2) \<and> similar d d2 \<and>
    keeps (i - 1) d d2 \<and> length j = 4 \<and>
    nd_u (nd d2 i) = As_compound (pni_node_get_down (nd d i)) (length vs) (word_of_nat (enc_position e1)) \<and>
    puts (j @ pni_write32 (word_of_nat (header_count ty (length vs)))) e1 e2 \<and>
    (if ty = T_ARRAY_DESCRIBED then puts [0] e2 e2' else e2' = e2)"
proof -
  note d = atD [OF v(1)] and n = comp_node [OF v(1)]
  obtain xs buf where b: "pn_buffer_bytes (d_buf d) = Some (xs, buf)" "similar d (d\<lparr>d_buf := buf\<rparr>)"
    using buffer_similar [OF d(1)] by blast
  let ?d = "d\<lparr>d_buf := buf\<rparr>"
  have i: "i \<le> d_size ?d" and u: "nd_u (nd ?d i) = As_compound (pni_node_get_down (nd d i)) (length vs) (snd (snd (as_compound (nd_u (nd d i)))))"
    using d(3) n(4) by simp_all
  obtain e2 d2 j where o: "enter_compound e1 ?d i (header_count ty (length vs)) = Some (e2, d2)" "similar ?d d2" "length j = 4"
    "nd_u (nd d2 i) = As_compound (pni_node_get_down (nd d i)) (length vs) (word_of_nat (enc_position e1))"
    "\<forall>k. 0 < k \<and> k \<noteq> i \<longrightarrow> nd d2 k = nd ?d k" "puts (j @ pni_write32 (word_of_nat (header_count ty (length vs)))) e1 e2"
    using enter_compound_wrote [OF similarD(1) [OF b(2)] d(2) i u e(1), of "header_count ty (length vs)"] e(2) by auto
  have ac: "fst (snd (as_compound (nd_u (nd d i)))) = length vs" by (subst n(4)) simp
  have p2: "enc_position e2 + 1 < 2 ^ 64" using o(3,6) e(2) by (simp add: puts_def)
  obtain e2' where e2': "encoder_put e2 [0] = Some e2'" "puts [0] e2 e2'"
    using encoder_put_puts [OF puts_wf [OF o(6)], of "[0]"] p2 by auto
  define e3 where "e3 = (if ty = T_ARRAY_DESCRIBED then e2' else e2)"
  have "enter_payload e1 ?d i (nd d i) (pn_type2code (pni_type_external ty)) = Some (0, e3, d2)"
  proof (cases "ty = T_ARRAY_DESCRIBED")
    case True
    then show ?thesis using o(1) n(1) ac e2'(1) by (simp add: enter_payload_sized(4) header_count_def pni_type_external_def e3_def del: PNE_ARRAY32_def)
  next
    case False
    then have "enter_payload e1 ?d i (nd d i) (pn_type2code (pni_type_external ty)) =
        map_option (Pair 0) (enter_compound e1 ?d i (length vs))"
      using v(2) n(1) ac enter_payload_sized(1,2) [of e1 ?d i "nd d i"] enter_payload_sized(3) [of "nd d i" e1 ?d i]
      by (cases ty) (simp_all add: sized_type_def pni_type_external_def)
    then show ?thesis using False o(1) by (simp add: header_count_def e3_def)
  qed
  then have "after_code (pn_type2code (pni_type_external ty)) e1 d i = Some (0, e3, d2)"
    using b(1) by (simp add: after_code_def)
  moreover have "keeps (i - 1) d d2" unfolding keeps_def
  proof (intro allI impI)
    fix k assume "0 < k \<and> k \<le> i - 1"
    then have "k \<noteq> i" "0 < k" using d(2) by auto
    then show "nd d2 k = nd d k" using o(5) by simp
  qed
  ultimately show ?thesis
    using o similar_trans [OF b(2) o(2)] e2'(2) e3_def by (intro exI [of _ e2] exI [of _ e3]) auto
qed

text \<open>What stands after the header of a compound.\<close>

definition contents :: "pn_type \<Rightarrow> pn_type \<Rightarrow> amqp_value list \<Rightarrow> tape" where
  "contents ty aty ws =
     (if ty = T_ARRAY then cat (lit [pn_type2code aty]) (tapes (map (tape_of True) ws))
      else if ty = T_ARRAY_DESCRIBED then
        cat (lit [0]) (cat (tape_of False (hd ws)) (cat (lit [pn_type2code aty]) (tapes (map (tape_of True) (tl ws)))))
      else tapes (map (tape_of False) ws))"

lemma tape_contents_simps [simp]:
  "contents T_ARRAY aty ws = cat (lit [pn_type2code aty]) (tapes (map (tape_of True) ws))"
  "contents T_ARRAY_DESCRIBED aty (w # ws) =
     cat (lit [0]) (cat (tape_of False w) (cat (lit [pn_type2code aty]) (tapes (map (tape_of True) ws))))"
  "\<not> array_type ty \<Longrightarrow> contents ty aty ws = tapes (map (tape_of False) ws)"
  by (simp_all add: contents_def array_type_def)

lemma contents_ok [simp]: "tape_ok (contents ty aty ws)"
  by (simp add: contents_def tapes_ok)

lemma normal_children_False: "normal_children False b vs = map (normal False) vs"
  by (induction vs arbitrary: b) simp_all

lemma normal_children_True: "normal_children True True vs = map (normal True) vs"
  by (induction vs) simp_all

definition late_code :: "pn_type \<Rightarrow> nat \<Rightarrow> bool" where
  "late_code ty n \<longleftrightarrow> ty = T_ARRAY_DESCRIBED \<and> n = 1 \<or> ty = T_ARRAY \<and> n = 0"

lemma children_list:
  assumes v: "at d i (Comp T_LIST aty vs)" and ch: "\<forall>v \<in> set vs. encodes_plain v"
    and e: "encoder_wf e" "enc_null_count e = 0" "enc_position e + fulls vs < 2 ^ 32"
  shows "\<exists>e' d' ws. evisits vs (pni_node_get_down (nd d i)) e d e' d' \<and> keeps i d d' \<and>
    Comp T_LIST aty ws = normal (is_body d i) (Comp T_LIST aty vs) \<and> enc_null_count e' + length ws = length vs \<and>
    wrote (contents T_LIST aty ws) (fulls vs) e e'"
proof -
  note d = atD [OF v] and n = comp_node [OF v]
  obtain hi where r: "reps d hi i 0 (pni_node_get_down (nd d i)) vs" "hi \<le> d_size d" using n(5) by blast
  show ?thesis
  proof (cases "is_body d i")
    case True
    from body_list [OF ch r d(1-3) n(1) True e(1,2)] e(3)
    obtain e' d' where "evisits vs (pni_node_get_down (nd d i)) e d e' d'" "keeps i d d'"
      "enc_null_count e' = snd (hold_nulls 0 (map (normal False) vs))"
      "wrote (tapes (map (tape_of False) (fst (hold_nulls 0 (map (normal False) vs))))) (fulls vs) e e'" by auto
    then show ?thesis
      using True hold_nulls_drop [of "map (normal False) vs"]
      by (intro exI [of _ e'] exI [of _ d'] exI [of _ "drop_nulls (map (normal False) vs)"]) (simp add: array_type_def)
  next
    case False
    have "plain_parent d i" using False n(1) by (simp add: plain_parent_def array_type_def)
    from plain_list [OF ch r d(1) d(3) this e, of False] n(1)
    obtain e' d' where "evisits vs (pni_node_get_down (nd d i)) e d e' d'" "keeps i d d'" "enc_null_count e' = 0"
      "wrote (tapes (map (tape_of False) (map (normal False) vs))) (fulls vs) e e'"
      by (auto simp: normal_children_False simp del: map_map)
    then show ?thesis using False by (intro exI [of _ e'] exI [of _ d'] exI [of _ "map (normal False) vs"]) (simp add: array_type_def)
  qed
qed

lemma children_plain:
  assumes v: "at d i (Comp ty aty vs)" "ty = T_MAP \<or> ty = T_DESCRIBED" and ch: "\<forall>v \<in> set vs. encodes_plain v"
    and e: "encoder_wf e" "enc_null_count e = 0" "enc_position e + fulls vs < 2 ^ 32"
  shows "\<exists>e' d' ws. evisits vs (pni_node_get_down (nd d i)) e d e' d' \<and> keeps i d d' \<and>
    Comp ty aty ws = normal b (Comp ty aty vs) \<and> length ws = length vs \<and> enc_null_count e' = 0 \<and>
    wrote (contents ty aty ws) (fulls vs) e e'"
proof -
  note d = atD [OF v(1)] and n = comp_node [OF v(1)]
  obtain hi where r: "reps d hi i 0 (pni_node_get_down (nd d i)) vs" "hi \<le> d_size d" using n(5) by blast
  have pp: "plain_parent d i" using v(2) n(1) by (auto simp: plain_parent_def array_type_def)
  from plain_list [OF ch r d(1) d(3) pp e, of "ty = T_DESCRIBED"] n(1) d(2)
  obtain e' d' where e': "evisits vs (pni_node_get_down (nd d i)) e d e' d'" "keeps i d d'" "enc_null_count e' = 0"
    "wrote (tapes (map (tape_of False) (normal_children (ty = T_DESCRIBED) False vs))) (fulls vs) e e'" by auto
  define ws where "ws = normal_children (ty = T_DESCRIBED) False vs"
  have "Comp ty aty ws = normal b (Comp ty aty vs)" "length ws = length vs"
    using v(2) by (cases vs; auto simp: ws_def normal_children_False normal_children_True)+
  moreover have "contents ty aty ws = tapes (map (tape_of False) ws)" using v(2) by (auto simp: array_type_def)
  ultimately show ?thesis using e' unfolding ws_def by (intro exI [of _ e'] exI [of _ d'] exI [of _ ws]) (simp add: ws_def)
qed

lemma children_array:
  assumes v: "at d i (Comp T_ARRAY aty vs)" and ch: "\<forall>v \<in> set vs. encodes_elem v \<and> value_type v = aty"
    and e: "encoder_wf e" "enc_null_count e = 0" "enc_position e + 1 + fulls vs < 2 ^ 32"
  shows "\<exists>e' e'' d'. evisits vs (pni_node_get_down (nd d i)) e d e' d' \<and> keeps i d d' \<and> enc_null_count e'' = 0 \<and>
    (if vs = [] then encoder_put e' [pn_type2code aty] = Some e'' else e'' = e') \<and>
    wrote (contents T_ARRAY aty (map (normal False) vs)) (1 + fulls vs) e e''"
proof -
  note d = atD [OF v] and n = comp_node [OF v]
  obtain hi where r: "reps d hi i 0 (pni_node_get_down (nd d i)) vs" "hi \<le> d_size d" using n(5) by blast
  have arr: "array_type (nd_type (nd d i))" "nd_array_type (nd d i) = aty" using n(1,3) by (simp_all add: array_type_def)
  show ?thesis
  proof (cases "vs = []")
    case True
    obtain e'' where "encoder_put e [pn_type2code aty] = Some e''" "puts [pn_type2code aty] e e''"
      using encoder_put_puts [OF e(1), of "[pn_type2code aty]"] e(3) by auto
    then show ?thesis
      using True e(2) Visits_Nil [OF d(1), of pni_encoder_enter pni_encoder_exit] by (fastforce simp: puts_def)
  next
    case False
    have "first_element d i 0" using n(1) by (simp add: first_element_def)
    with elem_list [OF ch r d(1-3) arr _ e(1,2), of True] False e(3) n(1) show ?thesis by (auto simp del: map_map)
  qed
qed

lemma children_described_array:
  assumes v: "at d i (Comp T_ARRAY_DESCRIBED aty (w # vs))" and w: "encodes_plain w"
    and ch: "\<forall>v \<in> set vs. encodes_elem v \<and> value_type v = aty"
    and e: "encoder_wf e" "enc_null_count e = 0" "puts [0] e e1" "enc_position e + 2 + fulls (w # vs) < 2 ^ 32"
  shows "\<exists>e' e'' d'. evisits (w # vs) (pni_node_get_down (nd d i)) e1 d e' d' \<and> keeps i d d' \<and> enc_null_count e'' = 0 \<and>
    (if vs = [] then encoder_put e' [pn_type2code aty] = Some e'' else e'' = e') \<and>
    wrote (contents T_ARRAY_DESCRIBED aty (map (normal False) (w # vs))) (2 + fulls (w # vs)) e e''"
proof -
  note d = atD [OF v] and n = comp_node [OF v]
  let ?k = "pni_node_get_down (nd d i)"
  obtain hi where r: "reps d hi i 0 ?k (w # vs)" "hi \<le> d_size d" using n(5) by blast
  note q = reps_at [OF r d(1)]
  have k: "0 < ?k" "?k \<le> d_size d" using atD [OF q(1)] by auto
  have place: "\<not> in_array d ?k" "\<not> in_body_list d ?k" "is_body d ?k = False"
    using q(2,3) n(1) d(2) by (auto simp: in_array_def pn_is_in_array_def parent_of_def in_body_list_def is_body_def)
  have p1: "enc_position e1 = enc_position e + 1" "enc_null_count e1 = 0" using e(2,3) by (simp_all add: puts_def)
  have wf1: "encoder_wf e1" using puts_wf [OF e(3)] .
  obtain e2 d2 where e2: "evisit w ?k e1 d e2 d2" "keeps (?k - 1) d d2" "enc_null_count e2 = 0"
    "wrote (tape_of False (normal False w)) (full w) e1 e2"
    using plain_visit [OF w q(1) wf1 p1(2) _ place(1,2)] p1(1) e(4) place(3) by auto
  note s = visits_similar(1) [OF e2(1)]
  have arr: "array_type (nd_type (nd d2 i))" "nd_array_type (nd d2 i) = aty" "nd_type (nd d2 i) = T_ARRAY_DESCRIBED" "nd_prev (nd d2 ?k) = 0"
    using n(1,3) similar_node [OF s d(2,3)] similar_node [OF s k] q(3) by (simp_all add: array_type_def)
  have first: "first_element d2 i ?k" using arr(3,4) k by (simp add: first_element_def)
  have wf2: "encoder_wf e2" and p2: "enc_position e2 + 1 + fulls vs < 2 ^ 32" using wroteD(2,3) [OF e2(4)] p1 e(4) by simp_all
  have r2: "reps d2 hi i ?k (nd_next (nd d ?k)) vs" "hi \<le> d_size d2" "i \<le> d_size d2"
    using similar_rep(2) [OF s r(2) q(5)] similarD(2) [OF s] r(2) d(3) by simp_all
  have head: "wrote (cat (lit [0]) (tape_of False (normal False w))) (1 + full w) e e2"
    using wrote_cat [OF _ _ e2(4) _ e(1), of "lit [0]" 1] e(3) by (simp add: puts_def)
  have "\<exists>e' e'' d'. evisits vs (nd_next (nd d ?k)) e2 d2 e' d' \<and> keeps i d2 d' \<and> enc_null_count e'' = 0 \<and>
    (if vs = [] then encoder_put e' [pn_type2code aty] = Some e'' else e'' = e') \<and>
    wrote (cat (lit [pn_type2code aty]) (tapes (map (tape_of True) (map (normal False) vs)))) (1 + fulls vs) e2 e''"
  proof (cases "vs = []")
    case True
    obtain e'' where "encoder_put e2 [pn_type2code aty] = Some e''" "puts [pn_type2code aty] e2 e''"
      using encoder_put_puts [OF wf2, of "[pn_type2code aty]"] p2 by auto
    then show ?thesis
      using True e2(3) Visits_Nil [OF similarD(1) [OF s], of pni_encoder_enter pni_encoder_exit] by (fastforce simp: puts_def)
  next
    case False
    with elem_list [OF ch r2(1,2) similarD(1) [OF s] d(2) r2(3) arr(1,2) _ wf2 e2(3), of True] p2 k first
    show ?thesis by (auto simp del: map_map)
  qed
  then obtain e' e'' d' where e': "evisits vs (nd_next (nd d ?k)) e2 d2 e' d'" "keeps i d2 d'" "enc_null_count e'' = 0"
    "if vs = [] then encoder_put e' [pn_type2code aty] = Some e'' else e'' = e'"
    "wrote (cat (lit [pn_type2code aty]) (tapes (map (tape_of True) (map (normal False) vs)))) (1 + fulls vs) e2 e''" by blast
  have "evisits (w # vs) ?k e1 d e' d'" using Visits_Cons [where enter = pni_encoder_enter] e2(1) e'(1) by blast
  moreover have "keeps i d d'" using keeps_trans [OF keeps_mono [OF e2(2)] e'(2)] q(4) by simp
  moreover have "wrote (contents T_ARRAY_DESCRIBED aty (map (normal False) (w # vs))) (2 + fulls (w # vs)) e e''"
    using wrote_cat [OF head _ e'(5) _ e(1)] by (simp add: tapes_ok cat_assoc add.assoc del: map_map)
  ultimately show ?thesis using e'(3,4) by blast
qed

section \<open>Closing compounds\<close>

lemma exit_sized:
  assumes d: "data_inv d" "0 < i" "i \<le> d_size d" and ty: "nd_type (nd d i) = ty" "sized_type ty"
    and u: "nd_u (nd d i) = As_compound down n s" and l: "\<not> (ty = T_LIST \<and> sub32 n (enc_null_count e) = 0 \<and> \<not> in_array d i)"
  shows "pni_encoder_exit e d i = do {
      e \<leftarrow> (if late_code ty n then encoder_put e [pn_type2code (nd_array_type (nd d i))] else Some e);
      e \<leftarrow> close_compound e (unat s) (sub32 n (enc_null_count e)) (ty \<noteq> T_ARRAY_DESCRIBED \<and> \<not> in_array d i);
      Some (0, e\<lparr>enc_null_count := 0\<rparr>, d)
    }"
proof -
  have c: "compound_type ty" using ty(2) by (auto simp: sized_type_def)
  then have ch: "pni_node_get_children (nd d i) = n" using ty(1) u by (simp add: pni_node_get_children_def)
  have "ty \<in> {T_ARRAY, T_ARRAY_DESCRIBED, T_LIST, T_MAP}" using ty(2) by (auto simp: sized_type_def)
  then show ?thesis
    using node_or_null_parent [OF d] parent_range(3) [OF d] ty(1) u l ch
    unfolding pni_encoder_exit_def late_code_def by (auto simp: rd_in in_array_def write_puts)
qed

lemma exit_list0:
  assumes d: "data_inv d" "0 < i" "i \<le> d_size d" and ty: "nd_type (nd d i) = T_LIST"
    and u: "nd_u (nd d i) = As_compound down n s" and l: "sub32 n (enc_null_count e) = 0" "\<not> in_array d i"
  shows "pni_encoder_exit e d i = do {
      e \<leftarrow> encoder_put (e\<lparr>enc_position := sub32 (unat s) 1\<rparr>) [PNE_LIST0];
      Some (0, e\<lparr>enc_null_count := 0\<rparr>, d)
    }"
  using node_or_null_parent [OF d] parent_range(3) [OF d] ty u l
  unfolding pni_encoder_exit_def by (simp add: rd_in in_array_def write_puts)

lemma wrote_rewind: "wrote t m e e' \<Longrightarrow> wrote (lit []) 0 e (e'\<lparr>enc_position := enc_position e\<rparr>)"
  by (auto simp: wrote_def split: option.splits)

definition element_count :: "pn_type \<Rightarrow> nat \<Rightarrow> nat" where
  "element_count ty n = (if ty = T_ARRAY_DESCRIBED then n - 1 else n)"

lemma tape_sized:
  assumes "sized_type ty" "ty = T_ARRAY_DESCRIBED \<Longrightarrow> ws \<noteq> []"
  shows "tape_of True (Comp ty aty ws) = wide (element_count ty (length ws)) (contents ty aty ws)"
    "ty = T_ARRAY_DESCRIBED \<Longrightarrow> tape_of False (Comp ty aty ws) =
       cat (lit [PNE_ARRAY32]) (wide (element_count ty (length ws)) (contents ty aty ws))"
    "ty \<noteq> T_ARRAY_DESCRIBED \<Longrightarrow> \<not> (ty = T_LIST \<and> ws = []) \<Longrightarrow>
       tape_of False (Comp ty aty ws) = compact (pn_type2code (pni_type_external ty)) (length ws) (contents ty aty ws)"
  using assms by (auto simp: sized_type_def element_count_def array_type_def pni_type_external_def neq_Nil_conv Let_def)

text \<open>The contents of a compound between the header and the closing.\<close>

lemma compound_contents:
  assumes v: "at d i (Comp ty aty vs)" "sized_type ty" "regular (Comp ty aty vs)"
    and ch: "\<forall>v \<in> set vs. encodes_plain v \<and> encodes_elem v"
    and e: "encoder_wf e" "enc_null_count e = 0" "enc_position e + 2 + fulls vs < 2 ^ 32"
    and e1: "if ty = T_ARRAY_DESCRIBED then puts [0] e e1 else e1 = e"
  shows "\<exists>e' e'' d' ws. evisits vs (pni_node_get_down (nd d i)) e1 d e' d' \<and> keeps i d d' \<and>
    (if late_code ty (length vs) then encoder_put e' [pn_type2code aty] = Some e'' else e'' = e') \<and>
    enc_null_count e' = enc_null_count e'' \<and> enc_null_count e'' + length ws = length vs \<and> (ty \<noteq> T_LIST \<longrightarrow> enc_null_count e'' = 0) \<and>
    Comp ty aty ws = normal (is_body d i) (Comp ty aty vs) \<and> wrote (contents ty aty ws) (2 + fulls vs) e e''"
proof -
  have pos: "enc_position e + fulls vs < 2 ^ 32" "enc_position e + 1 + fulls vs < 2 ^ 32" using e(3) by simp_all
  have mono: "wrote t (2 + fulls vs) e e''" if "wrote t m e e''" "m \<le> 2 + fulls vs" for t m e''
    using wrote_mono that by blast
  have put_nc: "enc_null_count e' = enc_null_count e''" if "encoder_put e' bs = Some e''" for e' e'' bs
    using that by (auto simp: encoder_put_def bind_eq_Some_conv split: if_splits)
  consider "ty = T_LIST" | "ty = T_MAP" | "ty = T_ARRAY" | "ty = T_ARRAY_DESCRIBED" using v(2) by (auto simp: sized_type_def)
  then show ?thesis
  proof cases
    case 1
    obtain e' d' ws where "evisits vs (pni_node_get_down (nd d i)) e d e' d'" "keeps i d d'"
      "Comp T_LIST aty ws = normal (is_body d i) (Comp T_LIST aty vs)" "enc_null_count e' + length ws = length vs"
      "wrote (contents T_LIST aty ws) (fulls vs) e e'"
      using children_list [OF v(1) [unfolded 1] _ e(1,2) pos(1)] ch by blast
    then show ?thesis using 1 e1 mono
      by (intro exI [of _ e'] exI [of _ e'] exI [of _ d'] exI [of _ ws]) (simp add: late_code_def)
  next
    case 2
    obtain e' d' ws where "evisits vs (pni_node_get_down (nd d i)) e d e' d'" "keeps i d d'"
      "Comp T_MAP aty ws = normal (is_body d i) (Comp T_MAP aty vs)" "length ws = length vs" "enc_null_count e' = 0"
      "wrote (contents T_MAP aty ws) (fulls vs) e e'"
      using children_plain [OF v(1) [unfolded 2] _ _ e(1,2) pos(1)] ch by blast
    then show ?thesis using 2 e1 mono
      by (intro exI [of _ e'] exI [of _ e'] exI [of _ d'] exI [of _ ws]) (simp add: late_code_def)
  next
    case 3
    have "\<forall>v \<in> set vs. encodes_elem v \<and> value_type v = aty" using ch v(3) 3 by auto
    from children_array [OF v(1) [unfolded 3] this e(1,2) pos(2)]
    obtain e' e'' d' where r: "evisits vs (pni_node_get_down (nd d i)) e d e' d'" "keeps i d d'" "enc_null_count e'' = 0"
      "if vs = [] then encoder_put e' [pn_type2code aty] = Some e'' else e'' = e'"
      "wrote (contents T_ARRAY aty (map (normal False) vs)) (1 + fulls vs) e e''" by blast
    have "enc_null_count e' = enc_null_count e''" using r(4) put_nc by (auto split: if_splits)
    then show ?thesis using r 3 e1 mono [OF r(5)]
      by (intro exI [of _ e'] exI [of _ e''] exI [of _ d'] exI [of _ "map (normal False) vs"]) (simp add: late_code_def del: tape_contents_simps)
  next
    case 4
    obtain w us where vs: "vs = w # us" using v(3) 4 by (cases vs) auto
    have p0: "puts [0] e e1" using e1 4 by simp
    have "\<forall>v \<in> set us. encodes_elem v \<and> value_type v = aty" "encodes_plain w" using ch v(3) 4 vs by auto
    from children_described_array [OF v(1) [unfolded 4 vs] this(2,1) e(1,2) p0 e(3) [unfolded vs]]
    obtain e' e'' d' where r: "evisits vs (pni_node_get_down (nd d i)) e1 d e' d'" "keeps i d d'" "enc_null_count e'' = 0"
      "if us = [] then encoder_put e' [pn_type2code aty] = Some e'' else e'' = e'"
      "wrote (contents T_ARRAY_DESCRIBED aty (map (normal False) vs)) (2 + fulls vs) e e''" unfolding vs by blast
    have "enc_null_count e' = enc_null_count e''" using r(4) put_nc by (auto split: if_splits)
    then show ?thesis using r 4 vs
      by (intro exI [of _ e'] exI [of _ e''] exI [of _ d'] exI [of _ "map (normal False) vs"]) (simp add: late_code_def del: tape_contents_simps)
  qed
qed

lemma lengths_le:
  assumes "\<forall>v \<in> set vs. length (fst (f v)) \<le> full v"
  shows "length (fst (tapes (map f vs))) \<le> fulls vs"
  using assms by (induction vs) auto

lemma drop_nulls_lengths: "length (fst (tapes (map f (drop_nulls vs)))) \<le> length (fst (tapes (map f vs)))"
proof -
  have "vs = drop_nulls vs @ replicate (snd (hold_nulls 0 vs)) (Atom PN_NULL)"
    using hold_nulls_eq [of 0 vs] hold_nulls_drop(1) [of vs] by simp
  then have "tapes (map f vs) = cat (tapes (map f (drop_nulls vs))) (tapes (map f (replicate (snd (hold_nulls 0 vs)) (Atom PN_NULL))))"
    by (metis map_append tapes_append)
  then show ?thesis by simp
qed

lemma contents_length:
  assumes "\<And>v el b. v \<in> set vs \<Longrightarrow> length (fst (tape_of el (normal b v))) \<le> full v"
    and "Comp ty aty ws = normal b (Comp ty aty vs)" "ty = T_ARRAY_DESCRIBED \<Longrightarrow> vs \<noteq> []"
  shows "length (fst (contents ty aty ws)) \<le> 2 + fulls vs"
proof (cases "array_type ty")
  case True
  then have ws: "ws = map (normal False) vs" using assms(2) by (auto simp: array_type_def)
  show ?thesis
  proof (cases "ty = T_ARRAY")
    case True
    then show ?thesis using lengths_le [of vs "tape_of True \<circ> normal False"] assms(1) ws by simp
  next
    case False
    then have ad: "ty = T_ARRAY_DESCRIBED" using \<open>array_type ty\<close> by (simp add: array_type_def)
    then obtain v us where vs: "vs = v # us" using assms(3) by (cases vs) auto
    have "length (fst (tape_of False (normal False v))) \<le> full v" using assms(1) vs by simp
    moreover have "length (fst (tapes (map (tape_of True \<circ> normal False) us))) \<le> fulls us"
      using assms(1) vs by (intro lengths_le) simp
    ultimately show ?thesis using ws vs ad by simp
  qed
next
  case False
  have k: "length (fst (tapes (map (tape_of False) (map (normal False) vs)))) \<le> fulls vs"
    using lengths_le [of vs "tape_of False \<circ> normal False"] assms(1) by simp
  have "length (fst (tapes (map (tape_of False) ws))) \<le> fulls vs"
  proof (cases "ty = T_DESCRIBED")
    case True
    then show ?thesis
      using assms(1,2) lengths_le [of "tl vs" "tape_of False \<circ> normal True"]
      by (cases vs) (auto intro!: add_mono)
  next
    case False
    then show ?thesis
      using assms(2) k order_trans [OF drop_nulls_lengths k] by (auto split: if_splits)
  qed
  then show ?thesis using False by simp
qed

lemma wide_length: "length (fst (wide n t)) = 8 + length (fst t)"
  by (simp add: wide_def)

lemma compact_length: "length (fst (compact c n t)) \<le> 9 + length (fst t)"
  by (simp add: compact_def wide_length)

lemma tape_sized_length:
  assumes "sized_type ty" "ty = T_ARRAY_DESCRIBED \<Longrightarrow> ws \<noteq> []"
  shows "length (fst (tape_of el (Comp ty aty ws))) \<le> 9 + length (fst (contents ty aty ws))"
proof (cases "el \<or> ty = T_ARRAY_DESCRIBED")
  case True
  then show ?thesis using tape_sized(1,2) [OF assms, of aty] by (cases el) (auto simp: wide_length)
next
  case False
  show ?thesis
  proof (cases "ty = T_LIST \<and> ws = []")
    case True
    then show ?thesis using False by simp
  next
    case nonempty: False
    then have "tape_of el (Comp ty aty ws) = compact (pn_type2code (pni_type_external ty)) (length ws) (contents ty aty ws)"
      using tape_sized(3) [OF assms, of aty] False by simp
    then show ?thesis by (simp add: compact_length)
  qed
qed

lemma tape_length: "regular v \<Longrightarrow> length (fst (tape_of el (normal b v))) \<le> full v"
proof (induction v arbitrary: el b)
  case (Atom a)
  then show ?case using atom_lengths [of a] by simp
next
  case (Comp ty aty vs)
  define ws where "ws = (case normal b (Comp ty aty vs) of Comp _ _ ws \<Rightarrow> ws)"
  have ws: "Comp ty aty ws = normal b (Comp ty aty vs)" by (simp add: ws_def)
  have ne: "ty = T_ARRAY_DESCRIBED \<Longrightarrow> vs \<noteq> []" using Comp.prems by simp
  then have ne': "ty = T_ARRAY_DESCRIBED \<Longrightarrow> ws \<noteq> []" by (simp add: ws_def)
  have len: "length (fst (contents ty aty ws)) \<le> 2 + fulls vs"
    using Comp.IH Comp.prems by (intro contents_length [OF _ ws ne]) auto
  show ?case
  proof (cases "sized_type ty")
    case True
    show ?thesis
      using len order_trans [OF tape_sized_length [OF True ne', of el aty]] unfolding ws [symmetric] full_Comp by simp
  next
    case False
    then have "ty = T_DESCRIBED" using Comp.prems by (cases ty) (auto simp: sized_type_def)
    then show ?thesis using len unfolding ws [symmetric] full_Comp by (simp add: array_type_def)
  qed
qed

lemma sized_body:
  assumes v: "at d i (Comp ty aty vs)" "sized_type ty" "regular (Comp ty aty vs)"
    and ch: "\<forall>v \<in> set vs. encodes_plain v \<and> encodes_elem v"
    and e: "encoder_wf e1" "enc_null_count e1 = 0" "enc_position e1 + 10 + fulls vs < 2 ^ 32"
  shows "\<exists>e2' d2 e3 d3 ws e2 e3' j. after_code (pn_type2code (pni_type_external ty)) e1 d i = Some (0, e2', d2) \<and> similar d d2 \<and>
    evisits vs (pni_node_get_down (nd d i)) e2' d2 e3 d3 \<and> similar d d3 \<and> keeps (i - 1) d d3 \<and>
    nd_u (nd d3 i) = As_compound (pni_node_get_down (nd d i)) (length vs) (word_of_nat (enc_position e1)) \<and>
    (if late_code ty (length vs) then encoder_put e3 [pn_type2code aty] = Some e3' else e3' = e3) \<and>
    enc_null_count e3 = enc_null_count e3' \<and> enc_null_count e3' + length ws = length vs \<and> (ty \<noteq> T_LIST \<longrightarrow> enc_null_count e3' = 0) \<and>
    Comp ty aty ws = normal (is_body d i) (Comp ty aty vs) \<and> length j = 4 \<and>
    puts (j @ pni_write32 (word_of_nat (header_count ty (length vs)))) e1 e2 \<and> wrote (contents ty aty ws) (2 + fulls vs) e2 e3'"
proof -
  note d = atD [OF v(1)]
  obtain e2 e2' d2 j where o: "after_code (pn_type2code (pni_type_external ty)) e1 d i = Some (0, e2', d2)" "similar d d2"
    "keeps (i - 1) d d2" "length j = 4"
    "nd_u (nd d2 i) = As_compound (pni_node_get_down (nd d i)) (length vs) (word_of_nat (enc_position e1))"
    "puts (j @ pni_write32 (word_of_nat (header_count ty (length vs)))) e1 e2"
    "if ty = T_ARRAY_DESCRIBED then puts [0] e2 e2' else e2' = e2"
    using open_compound [OF v(1,2) e(1)] e(3) by auto
  have p2: "enc_position e2 + 2 + fulls vs < 2 ^ 32" "enc_null_count e2 = 0" "encoder_wf e2"
    using o(4,6) e(2,3) puts_wf [OF o(6)] by (simp_all add: puts_def)
  have down: "pni_node_get_down (nd d2 i) = pni_node_get_down (nd d i)" "is_body d2 i = is_body d i"
    using similar_node(6) [OF o(2) d(2,3)] similar_places(2) [OF o(2) d] by simp_all
  obtain e3 e3' d3 ws where c: "evisits vs (pni_node_get_down (nd d i)) e2' d2 e3 d3" "keeps i d2 d3"
    "if late_code ty (length vs) then encoder_put e3 [pn_type2code aty] = Some e3' else e3' = e3"
    "enc_null_count e3 = enc_null_count e3'" "enc_null_count e3' + length ws = length vs" "ty \<noteq> T_LIST \<longrightarrow> enc_null_count e3' = 0"
    "Comp ty aty ws = normal (is_body d i) (Comp ty aty vs)" "wrote (contents ty aty ws) (2 + fulls vs) e2 e3'"
    using compound_contents [OF at_similar [OF v(1) o(2)] v(2,3) ch p2(3,2,1) o(7)] unfolding down by blast
  have "nd d3 i = nd d2 i" using c(2) d(2) by (simp add: keeps_def)
  moreover have "keeps (i - 1) d d3" using keeps_trans [OF o(3) keeps_mono [OF c(2)]] by simp
  moreover have "similar d d3" using similar_trans [OF o(2) visits_similar(2) [OF c(1)]] .
  ultimately show ?thesis using o c by (intro exI conjI) (assumption | simp)+
qed

lemma count_simps:
  assumes "k + m = n" "n < 2 ^ 16"
  shows "sub32 n k = m"
  using assms by (intro sub32_diff [THEN trans]) simp_all

lemma comp_short: "at d i (Comp ty aty vs) \<Longrightarrow> length vs < 2 ^ 16"
proof -
  assume v: "at d i (Comp ty aty vs)"
  obtain hi where r: "reps d hi i 0 (pni_node_get_down (nd d i)) vs" "hi \<le> d_size d" using comp_node(5) [OF v] by blast
  have sh: "shape_ok d" using atD(1) [OF v] by (rule data_invD)
  have "length vs \<le> nodes_of vs"
  proof (induction vs)
    case (Cons v vs)
    then show ?case using node_count_pos [of v] by (simp del: node_count_pos)
  qed simp
  also have "\<dots> \<le> hi" by (rule nodes_bound [OF r sh])
  finally show ?thesis using r(2) shape_okD(2,3) [OF sh] by simp
qed

text \<open>The header holds the count that the encoding has in the end, unless nulls were held back.\<close>

lemma final_count:
  assumes "k + length ws = length vs" "length vs < 2 ^ 16" "ty \<noteq> T_LIST \<longrightarrow> k = 0" "ty = T_ARRAY_DESCRIBED \<Longrightarrow> vs \<noteq> []"
  shows "(if k \<noteq> 0 then sub32 (length vs) k else header_count ty (length vs)) = element_count ty (length ws)"
proof (cases "k = 0")
  case True
  then have "length ws = length vs" using assms(1) by simp
  moreover have "sub32 (length vs) 1 = length vs - 1" if "ty = T_ARRAY_DESCRIBED"
    using assms(2) assms(4) [OF that] by (intro sub32_diff) (simp_all add: Suc_le_eq)
  ultimately show ?thesis using True by (simp add: header_count_def element_count_def)
next
  case False
  then show ?thesis using assms(3) count_simps [OF assms(1,2)] by (simp add: element_count_def)
qed

lemma sized_close:
  assumes d: "data_inv d" "0 < i" "i \<le> d_size d" and ty: "nd_type (nd d i) = ty" "sized_type ty" "array_type ty \<Longrightarrow> nd_array_type (nd d i) = aty"
    and u: "nd_u (nd d i) = As_compound down n (word_of_nat p)" "p < 2 ^ 32"
    and l: "\<not> (ty = T_LIST \<and> sub32 n (enc_null_count e) = 0 \<and> \<not> in_array d i)"
    and put: "if late_code ty n then encoder_put e [pn_type2code aty] = Some e' else e' = e" "enc_null_count e = enc_null_count e'"
    and cl: "close_compound e' p (sub32 n (enc_null_count e')) (ty \<noteq> T_ARRAY_DESCRIBED \<and> \<not> in_array d i) = Some e4"
  shows "pni_encoder_exit e d i = Some (0, e4\<lparr>enc_null_count := 0\<rparr>, d)"
proof -
  have s: "unat (word_of_nat p :: u32) = p" using u(2) by (simp add: wrap_simps)
  have "late_code ty n \<Longrightarrow> array_type ty" by (auto simp: late_code_def array_type_def)
  then have "(if late_code ty n then encoder_put e [pn_type2code (nd_array_type (nd d i))] else Some e) = Some e'"
    using put(1) ty(3) by (simp split: if_splits)
  then show ?thesis
    unfolding exit_sized [OF d ty(1,2) u(1) l] s by (simp only: cl bind.simps)
qed

lemma encodes_sized_elem:
  assumes v: "sized_type ty" "regular (Comp ty aty vs)" and ch: "\<forall>v \<in> set vs. encodes_plain v \<and> encodes_elem v"
  shows "encodes_elem (Comp ty aty vs)"
  unfolding encodes_elem_def
proof (intro allI impI)
  fix e d i
  assume h: "at d i (Comp ty aty vs)" "encoder_wf e" "enc_null_count e = 0" "in_array d i" "enc_position e + full (Comp ty aty vs) < 2 ^ 32"
  note d = atD [OF h(1)] and n = comp_node [OF h(1)]
  have body: "is_body d i = False" using h(4) by (auto simp: in_array_def pn_is_in_array_def parent_of_def is_body_def split: if_splits)
  obtain e2' d2 e3 d3 ws e2 e3' j where b: "after_code (pn_type2code (pni_type_external ty)) e d i = Some (0, e2', d2)" "similar d d2"
    "evisits vs (pni_node_get_down (nd d i)) e2' d2 e3 d3" "similar d d3" "keeps (i - 1) d d3"
    "nd_u (nd d3 i) = As_compound (pni_node_get_down (nd d i)) (length vs) (word_of_nat (enc_position e))"
    "if late_code ty (length vs) then encoder_put e3 [pn_type2code aty] = Some e3' else e3' = e3"
    "enc_null_count e3 = enc_null_count e3'" "enc_null_count e3' + length ws = length vs" "ty \<noteq> T_LIST \<longrightarrow> enc_null_count e3' = 0"
    "Comp ty aty ws = normal False (Comp ty aty vs)" "length j = 4"
    "puts (j @ pni_write32 (word_of_nat (header_count ty (length vs)))) e e2" "wrote (contents ty aty ws) (2 + fulls vs) e2 e3'"
    using sized_body [OF h(1) v ch h(2,3)] h(5) unfolding full_Comp body by fastforce
  have ne: "ty = T_ARRAY_DESCRIBED \<Longrightarrow> vs \<noteq> []" using v(2) by simp
  have ne': "ty = T_ARRAY_DESCRIBED \<Longrightarrow> ws \<noteq> []" using b(9,10) ne by auto
  have len: "length (fst (contents ty aty ws)) \<le> 2 + fulls vs"
    using tape_length v(2) by (intro contents_length [OF _ b(11) ne]) auto
  have pos: "enc_position e + 8 + (2 + fulls vs) < 2 ^ 32" using h(5) by (simp add: full_Comp)
  have cnt: "(if enc_null_count e3' \<noteq> 0 then sub32 (length vs) (enc_null_count e3') else header_count ty (length vs)) =
      element_count ty (length ws)"
    using final_count [OF b(9) comp_short [OF h(1)] b(10)] ne by blast
  obtain e4 where e4: "close_compound e3' (enc_position e) (sub32 (length vs) (enc_null_count e3')) False = Some e4"
    "wrote (wide (element_count ty (length ws)) (contents ty aty ws)) (8 + (2 + fulls vs)) e e4"
    using close_elem [OF h(2) b(13,12,14) contents_ok len pos cnt] by blast
  have d3: "data_inv d3" "i \<le> d_size d3" "nd_type (nd d3 i) = ty" "array_type ty \<Longrightarrow> nd_array_type (nd d3 i) = aty" "in_array d3 i"
    using similarD(1,2) [OF b(4)] d similar_node [OF b(4) d(2,3)] n(1,3) similar_places(1) [OF b(4) d] h(4) by auto
  have "pni_encoder_exit e3 d3 i = Some (0, e4\<lparr>enc_null_count := 0\<rparr>, d3)"
    using d3(5) e4(1) pos by (intro sized_close [OF d3(1) d(2) d3(2,3) v(1) d3(4) b(6) _ _ b(7,8)]) simp_all
  then have "core (pn_type2code (pni_type_external ty)) (Comp ty aty vs) i e d (e4\<lparr>enc_null_count := 0\<rparr>) d3"
    unfolding core_def using b(1-3,5) similar_refl [OF d3(1)] by fastforce
  moreover have "wrote (tape_of True (normal False (Comp ty aty vs))) (full (Comp ty aty vs)) e (e4\<lparr>enc_null_count := 0\<rparr>)"
    using wrote_mono [OF e4(2), of "full (Comp ty aty vs)"] tape_sized(1) [OF v(1), of ws aty] ne'
    unfolding b(11) [symmetric] by (simp add: full_Comp)
  ultimately show "\<exists>e4 d4. core (pn_type2code (value_type (Comp ty aty vs))) (Comp ty aty vs) i e d e4 d4 \<and> enc_null_count e4 = 0 \<and>
      wrote (tape_of True (normal False (Comp ty aty vs))) (full (Comp ty aty vs)) e e4"
    by (intro exI [of _ "e4\<lparr>enc_null_count := 0\<rparr>"] exI [of _ d3]) simp
qed

lemma list0_close:
  assumes d: "data_inv d" "0 < i" "i \<le> d_size d" and ty: "nd_type (nd d i) = T_LIST"
    and u: "nd_u (nd d i) = As_compound down n (word_of_nat (enc_position e + 1))" and p: "enc_position e + 1 < 2 ^ 32"
    and l: "sub32 n (enc_null_count e3) = 0" "\<not> in_array d i" and w: "wrote t m e e3" "encoder_wf e"
  shows "\<exists>e4. pni_encoder_exit e3 d i = Some (0, e4, d) \<and> enc_null_count e4 = 0 \<and> wrote (lit [PNE_LIST0]) 1 e e4"
proof -
  have s: "sub32 (unat (word_of_nat (enc_position e + 1) :: u32)) 1 = enc_position e"
    using p by (simp add: wrap_simps del: of_nat_add of_nat_Suc)
  let ?e = "e3\<lparr>enc_position := enc_position e\<rparr>"
  have wf: "encoder_wf ?e" using wroteD(2) [OF w(1)] by simp
  obtain e4 where e4: "encoder_put ?e [PNE_LIST0] = Some e4" "puts [PNE_LIST0] ?e e4"
    using encoder_put_puts [OF wf, of "[PNE_LIST0]"] p by auto
  have "wrote (cat (lit []) (lit [PNE_LIST0])) (0 + 1) e e4"
    using wrote_cat [OF wrote_rewind [OF w(1)] _ _ _ w(2), of "lit [PNE_LIST0]" 1 e4] e4(2) by (simp add: puts_def)
  then show ?thesis using exit_list0 [OF d ty u l] e4(1) s by simp
qed

lemma encodes_sized_plain:
  assumes v: "sized_type ty" "regular (Comp ty aty vs)" and ch: "\<forall>v \<in> set vs. encodes_plain v \<and> encodes_elem v"
  shows "encodes_plain (Comp ty aty vs)"
  unfolding encodes_plain_def
proof (intro allI impI)
  fix e e1 d i
  assume h: "at d i (Comp ty aty vs)" "encoder_wf e" "enc_null_count e = 0" "\<not> in_array d i" "enc_position e + full (Comp ty aty vs) < 2 ^ 32"
    "encoder_put e [pn_node2code (nd d i)] = Some e1"
  define code where "code = pn_type2code (pni_type_external ty)"
  note d = atD [OF h(1)] and n = comp_node [OF h(1)]
  have "ty \<noteq> T_DEFER" using v(1) by (auto simp: sized_type_def)
  then have code: "pn_node2code (nd d i) = code" unfolding code_def by (rule comp_code [OF h(1)])
  have c: "puts [code] e e1" using put_puts [OF h(6,2)] h(5) code by simp
  have p1: "enc_position e1 = enc_position e + 1" "enc_null_count e1 = 0" "encoder_wf e1"
    using c h(3) puts_wf [OF c] by (simp_all add: puts_def)
  have pos1: "enc_position e1 + 10 + fulls vs < 2 ^ 32" using h(5) p1(1) by (simp add: full_Comp)
  let ?b = "is_body d i"
  obtain e2' d2 e3 d3 ws e2 e3' j where b: "after_code code e1 d i = Some (0, e2', d2)" "similar d d2"
    "evisits vs (pni_node_get_down (nd d i)) e2' d2 e3 d3" "similar d d3" "keeps (i - 1) d d3"
    "nd_u (nd d3 i) = As_compound (pni_node_get_down (nd d i)) (length vs) (word_of_nat (enc_position e1))"
    "if late_code ty (length vs) then encoder_put e3 [pn_type2code aty] = Some e3' else e3' = e3"
    "enc_null_count e3 = enc_null_count e3'" "enc_null_count e3' + length ws = length vs" "ty \<noteq> T_LIST \<longrightarrow> enc_null_count e3' = 0"
    "Comp ty aty ws = normal ?b (Comp ty aty vs)" "length j = 4"
    "puts (j @ pni_write32 (word_of_nat (header_count ty (length vs)))) e1 e2" "wrote (contents ty aty ws) (2 + fulls vs) e2 e3'"
    using sized_body [OF h(1) v ch p1(3,2) pos1] unfolding code_def by blast
  have ne: "ty = T_ARRAY_DESCRIBED \<Longrightarrow> vs \<noteq> []" using v(2) by simp
  have ne': "ty = T_ARRAY_DESCRIBED \<Longrightarrow> ws \<noteq> []" using b(9,10) ne by auto
  have len: "length (fst (contents ty aty ws)) \<le> 2 + fulls vs"
    using tape_length v(2) by (intro contents_length [OF _ b(11) ne]) auto
  have pos: "enc_position e1 + 8 + (2 + fulls vs) < 2 ^ 32" "enc_position e + 9 + (2 + fulls vs) < 2 ^ 32"
    using pos1 p1(1) by simp_all
  have cnt: "(if enc_null_count e3' \<noteq> 0 then sub32 (length vs) (enc_null_count e3') else header_count ty (length vs)) =
      element_count ty (length ws)"
    using final_count [OF b(9) comp_short [OF h(1)] b(10)] ne by blast
  have d3: "data_inv d3" "i \<le> d_size d3" "nd_type (nd d3 i) = ty" "array_type ty \<Longrightarrow> nd_array_type (nd d3 i) = aty" "\<not> in_array d3 i"
    using similarD(1,2) [OF b(4)] d similar_node [OF b(4) d(2,3)] n(1,3) similar_places(1) [OF b(4) d] h(4) by auto
  have sub: "sub32 (length vs) (enc_null_count e3') = length ws" by (rule count_simps [OF b(9) comp_short [OF h(1)]])
  have "\<exists>e4. pni_encoder_exit e3 d3 i = Some (0, e4, d3) \<and> enc_null_count e4 = 0 \<and>
      wrote (tape_of False (Comp ty aty ws)) (full (Comp ty aty vs)) e e4"
  proof (cases "ty = T_LIST \<and> ws = []")
    case True
    then have "e3' = e3" using b(7) by (simp add: late_code_def)
    have "wrote (cat (lit (code # j @ pni_write32 (word_of_nat (header_count ty (length vs))))) (contents ty aty ws)) (9 + (2 + fulls vs)) e e3"
      using wrote_cat [OF _ _ b(14) contents_ok h(2), of "lit (code # j @ pni_write32 (word_of_nat (header_count ty (length vs))))" 9]
        puts_trans [OF h(2) c b(13)] b(12) \<open>e3' = e3\<close> by (simp add: puts_def)
    from list0_close [OF d3(1) d(2) d3(2) _ _ _ _ d3(5) this h(2)] True d3(3) b(6) p1(1) pos(1) sub \<open>e3' = e3\<close>
    obtain e4 where "pni_encoder_exit e3 d3 i = Some (0, e4, d3)" "enc_null_count e4 = 0" "wrote (lit [PNE_LIST0]) 1 e e4" by auto
    then show ?thesis using True wrote_mono [of "lit [PNE_LIST0]" 1 e e4] by (simp add: full_Comp)
  next
    case False
    have l: "\<not> (ty = T_LIST \<and> sub32 (length vs) (enc_null_count e3) = 0 \<and> \<not> in_array d3 i)" using False sub b(8) by auto
    have p32: "enc_position e1 < 2 ^ 32" using pos1 by simp
    have ex: "pni_encoder_exit e3 d3 i = Some (0, e4\<lparr>enc_null_count := 0\<rparr>, d3)"
      if "close_compound e3' (enc_position e1) (sub32 (length vs) (enc_null_count e3')) (ty \<noteq> T_ARRAY_DESCRIBED) = Some e4" for e4
      using that d3(5) by (intro sized_close [OF d3(1) d(2) d3(2,3) v(1) d3(4) b(6) p32 l b(7,8)]) simp_all
    show ?thesis
    proof (cases "ty = T_ARRAY_DESCRIBED")
      case True
      obtain e4 where e4: "close_compound e3' (enc_position e1) (sub32 (length vs) (enc_null_count e3')) False = Some e4"
        "wrote (wide (element_count ty (length ws)) (contents ty aty ws)) (8 + (2 + fulls vs)) e1 e4"
        using close_elem [OF p1(3) b(13,12,14) contents_ok len pos(1) cnt] by blast
      have "code = PNE_ARRAY32" using True by (simp add: code_def pni_type_external_def)
      then have "wrote (tape_of False (Comp ty aty ws)) (1 + (8 + (2 + fulls vs))) e e4"
        using wrote_cat [OF _ _ e4(2) _ h(2), of "lit [code]" 1] c tape_sized(2) [OF v(1), of ws aty] ne' True by (simp add: puts_def)
      then have "wrote (tape_of False (Comp ty aty ws)) (full (Comp ty aty vs)) e e4" by (rule wrote_mono) (simp add: full_Comp)
      then show ?thesis using ex [of e4] e4(1) True by (intro exI [of _ "e4\<lparr>enc_null_count := 0\<rparr>"]) simp
    next
      case nad: False
      have cnt': "(if enc_null_count e3' \<noteq> 0 then sub32 (length vs) (enc_null_count e3') else header_count ty (length vs)) = length ws"
        using cnt nad by (simp add: element_count_def)
      obtain e4 where e4: "close_compound e3' (enc_position e1) (sub32 (length vs) (enc_null_count e3')) True = Some e4"
        "wrote (compact code (length ws) (contents ty aty ws)) (9 + (2 + fulls vs)) e e4"
        using close_plain [OF h(2) c b(13,12,14) contents_ok len pos(2) cnt' sub] by blast
      then have "wrote (tape_of False (Comp ty aty ws)) (9 + (2 + fulls vs)) e e4"
        using tape_sized(3) [OF v(1), of ws aty] nad False unfolding code_def by simp
      then have "wrote (tape_of False (Comp ty aty ws)) (full (Comp ty aty vs)) e e4" by (rule wrote_mono) (simp add: full_Comp)
      then show ?thesis using ex [of e4] e4(1) nad by (intro exI [of _ "e4\<lparr>enc_null_count := 0\<rparr>"]) simp
    qed
  qed
  then obtain e4 where e4: "pni_encoder_exit e3 d3 i = Some (0, e4, d3)" "enc_null_count e4 = 0"
    "wrote (tape_of False (Comp ty aty ws)) (full (Comp ty aty vs)) e e4" by blast
  have "core code (Comp ty aty vs) i e1 d e4 d3"
    unfolding core_def using b(1-3,5) e4(1) similar_refl [OF d3(1)] by fastforce
  then show "\<exists>e4 d4. core (pn_node2code (nd d i)) (Comp ty aty vs) i e1 d e4 d4 \<and> enc_null_count e4 = 0 \<and>
      wrote (tape_of False (normal (is_body d i) (Comp ty aty vs))) (full (Comp ty aty vs)) e e4"
    using e4(2,3) unfolding b(11) [symmetric] code by blast
qed

lemma described_core:
  assumes h: "at d i (Comp T_DESCRIBED aty vs)" and ch: "\<forall>v \<in> set vs. encodes_plain v"
    and e: "encoder_wf e1" "enc_null_count e1 = 0" "enc_position e1 + fulls vs < 2 ^ 32"
  shows "\<exists>e4 d4 ws. core PNE_DESCRIPTOR (Comp T_DESCRIBED aty vs) i e1 d e4 d4 \<and> enc_null_count e4 = 0 \<and>
    Comp T_DESCRIBED aty ws = normal b (Comp T_DESCRIBED aty vs) \<and> wrote (tapes (map (tape_of False) ws)) (fulls vs) e1 e4"
proof -
  note d = atD [OF h] and n = comp_node [OF h]
  obtain xs buf where b: "pn_buffer_bytes (d_buf d) = Some (xs, buf)" "similar d (d\<lparr>d_buf := buf\<rparr>)"
    using buffer_similar [OF d(1)] by blast
  let ?d = "d\<lparr>d_buf := buf\<rparr>"
  have ac: "after_code PNE_DESCRIPTOR e1 d i = Some (0, e1, ?d)" using b(1) by (simp add: after_code_def enter_payload_def)
  obtain e4 d4 ws where c: "evisits vs (pni_node_get_down (nd ?d i)) e1 ?d e4 d4" "keeps i ?d d4"
    "Comp T_DESCRIBED aty ws = normal b (Comp T_DESCRIBED aty vs)" "enc_null_count e4 = 0" "wrote (contents T_DESCRIBED aty ws) (fulls vs) e1 e4"
    using children_plain [OF at_similar [OF h b(2)] _ ch e] by blast
  have s: "similar d d4" using similar_trans [OF b(2) visits_similar(2) [OF c(1)]] .
  have "pni_encoder_exit e4 d4 i = Some (0, e4, d4)"
    using similarD(1,2) [OF s] d similar_node(1) [OF s d(2,3)] n(1) by (intro exit_other) simp_all
  moreover have "keeps (i - 1) d d4" using keeps_mono [OF c(2), of "i - 1"] by (simp add: keeps_def)
  ultimately have "core PNE_DESCRIPTOR (Comp T_DESCRIBED aty vs) i e1 d e4 d4"
    unfolding core_def using ac b(2) c(1) similar_refl [OF similarD(1) [OF s]] by fastforce
  then show ?thesis using c(3-5) by (auto simp: array_type_def)
qed

lemma encodes_described_any:
  assumes "\<forall>v \<in> set vs. encodes_plain v"
  shows "encodes_plain (Comp T_DESCRIBED aty vs)" "encodes_elem (Comp T_DESCRIBED aty vs)"
proof -
  show "encodes_plain (Comp T_DESCRIBED aty vs)"
    unfolding encodes_plain_def
  proof (intro allI impI)
    fix e e1 d i
    assume h: "at d i (Comp T_DESCRIBED aty vs)" "encoder_wf e" "enc_null_count e = 0" "\<not> in_array d i"
      "enc_position e + full (Comp T_DESCRIBED aty vs) < 2 ^ 32" "encoder_put e [pn_node2code (nd d i)] = Some e1"
    have code: "pn_node2code (nd d i) = PNE_DESCRIPTOR" using comp_code [OF h(1)] by (simp add: pni_type_external_def)
    have c: "puts [PNE_DESCRIPTOR] e e1" using put_puts [OF h(6,2)] h(5) code by simp
    have p1: "enc_position e1 + fulls vs < 2 ^ 32" "enc_null_count e1 = 0" "encoder_wf e1"
      using c h(3,5) puts_wf [OF c] by (simp_all add: puts_def full_Comp)
    obtain e4 d4 ws where r: "core PNE_DESCRIPTOR (Comp T_DESCRIBED aty vs) i e1 d e4 d4" "enc_null_count e4 = 0"
      "Comp T_DESCRIBED aty ws = normal (is_body d i) (Comp T_DESCRIBED aty vs)" "wrote (tapes (map (tape_of False) ws)) (fulls vs) e1 e4"
      using described_core [OF h(1) assms p1(3,2,1)] by blast
    have "wrote (tape_of False (Comp T_DESCRIBED aty ws)) (1 + fulls vs) e e4"
      using wrote_cat [OF _ _ r(4) _ h(2), of "lit [PNE_DESCRIPTOR]" 1] c by (simp add: puts_def tapes_ok)
    then have "wrote (tape_of False (Comp T_DESCRIBED aty ws)) (18 + fulls vs) e e4" by (rule wrote_mono) simp
    then show "\<exists>e4 d4. core (pn_node2code (nd d i)) (Comp T_DESCRIBED aty vs) i e1 d e4 d4 \<and> enc_null_count e4 = 0 \<and>
        wrote (tape_of False (normal (is_body d i) (Comp T_DESCRIBED aty vs))) (full (Comp T_DESCRIBED aty vs)) e e4"
      using r(1,2) unfolding code r(3) [symmetric] full_Comp by blast
  qed
  show "encodes_elem (Comp T_DESCRIBED aty vs)"
    unfolding encodes_elem_def
  proof (intro allI impI)
    fix e d i
    assume h: "at d i (Comp T_DESCRIBED aty vs)" "encoder_wf e" "enc_null_count e = 0" "in_array d i"
      "enc_position e + full (Comp T_DESCRIBED aty vs) < 2 ^ 32"
    have p: "enc_position e + fulls vs < 2 ^ 32" using h(5) by (simp add: full_Comp)
    obtain e4 d4 ws where r: "core PNE_DESCRIPTOR (Comp T_DESCRIBED aty vs) i e d e4 d4" "enc_null_count e4 = 0"
      "Comp T_DESCRIBED aty ws = normal False (Comp T_DESCRIBED aty vs)" "wrote (tapes (map (tape_of False) ws)) (fulls vs) e e4"
      using described_core [OF h(1) assms h(2,3) p] by blast
    have "value_type (Comp T_DESCRIBED aty vs) = T_DESCRIBED" by (simp add: pni_type_external_def)
    then show "\<exists>e4 d4. core (pn_type2code (value_type (Comp T_DESCRIBED aty vs))) (Comp T_DESCRIBED aty vs) i e d e4 d4 \<and>
        enc_null_count e4 = 0 \<and> wrote (tape_of True (normal False (Comp T_DESCRIBED aty vs))) (full (Comp T_DESCRIBED aty vs)) e e4"
      using r(1,2) wrote_mono [OF r(4), of "18 + fulls vs"] unfolding r(3) [symmetric] full_Comp by auto
  qed
qed

theorem encodes_any: "regular v \<Longrightarrow> encodes_plain v \<and> encodes_elem v"
proof (induction v)
  case (Atom a)
  then show ?case using encodes_atom_plain encodes_atom_elem by simp
next
  case (Comp ty aty vs)
  have ch: "\<forall>v \<in> set vs. encodes_plain v \<and> encodes_elem v" using Comp by simp
  show ?case
  proof (cases "sized_type ty")
    case True
    then show ?thesis using encodes_sized_plain encodes_sized_elem Comp.prems ch by blast
  next
    case False
    then have "ty = T_DESCRIBED" using Comp.prems by (cases ty) (auto simp: sized_type_def)
    then show ?thesis using encodes_described_any ch by blast
  qed
qed

section \<open>Whole objects\<close>

lemma fulls_eq: "fulls vs = 18 * nodes_of vs + strings_of vs"
  by (induction vs) (simp_all add: full_def)

lemma traverse_encodes:
  assumes st: "stands_for d vs" and reg: "\<forall>v \<in> set vs. regular v" and str: "strings_of vs \<le> 2 ^ 31"
    and e: "encoder_wf e" "enc_null_count e = 0" "enc_position e = 0"
  shows "\<exists>e' d'. pni_data_traverse d pni_encoder_enter pni_encoder_exit e = Some (0, e', d') \<and> similar d d' \<and>
    wrote (tapes (map (tape_of False) (map (normal False) vs))) (fulls vs) e e' \<and> fulls vs < 2 ^ 32"
proof -
  have d: "data_inv d" "reps d (d_size d) 0 0 (if d_size d = 0 then 0 else 1) vs" using st by (auto simp: stands_for_def)
  have sh: "shape_ok d" using d(1) by (rule data_invD)
  have "nodes_of vs \<le> 65535" using nodes_bound [OF d(2) order_refl sh] shape_okD(2,3) [OF sh] by simp
  then have small: "fulls vs < 2 ^ 32" using str by (simp add: fulls_eq)
  have "\<forall>v \<in> set vs. encodes_plain v" using reg encodes_any by blast
  from plain_list [OF this d(2) order_refl d(1) _ _ e(1,2), of False] small e(3)
  obtain e' d' where v: "evisits vs (if d_size d = 0 then 0 else 1) e d e' d'"
    "wrote (tapes (map (tape_of False) (map (normal False) vs))) (fulls vs) e e'"
    by (auto simp: plain_parent_def normal_children_False simp del: map_map)
  then show ?thesis using pni_data_traverse_visits [OF v(1) st] visits_similar(2) [OF v(1)] small by blast
qed

lemma pn_data_encode_eq:
  assumes "stands_for d vs" "\<forall>v \<in> set vs. regular v" "strings_of vs \<le> 2 ^ 31" "length out = n"
  shows "\<exists>r out' d'. pn_data_encode d (Some out) n = Some (r, Some out', d') \<and> length out' = n \<and>
    reps d' (d_size d) 0 0 (if d_size d = 0 then 0 else 1) vs \<and>
    (if encoding_room (map (normal False) vs) \<le> n
     then r = int (length (encoding (map (normal False) vs))) \<and>
       take (length (encoding (map (normal False) vs))) out' = encoding (map (normal False) vs)
     else r = PN_OVERFLOW)"
proof -
  let ?e = "\<lparr>enc_output = Some out, enc_position = 0, enc_size = n, enc_null_count = 0\<rparr>"
  have wf: "encoder_wf ?e" using assms(4) by (simp add: encoder_wf_def)
  from traverse_encodes [OF assms(1-3) wf]
  obtain e' d' where t: "pni_data_traverse d pni_encoder_enter pni_encoder_exit ?e = Some (0, e', d')" "similar d d'"
    "wrote (tapes (map (tape_of False) (map (normal False) vs))) (fulls vs) ?e e'" by (auto simp del: map_map)
  have d: "data_inv d" "reps d (d_size d) 0 0 (if d_size d = 0 then 0 else 1) vs" using assms(1) by (auto simp: stands_for_def)
  note w = wroteD(1,2) [OF t(3)]
  have ok: "tape_ok (tapes (map (tape_of False) (map (normal False) vs)))" by (simp add: tapes_ok)
  obtain out' where o: "enc_output e' = Some out'" "length out' = n"
    using t(3) w by (auto simp: wrote_def encoder_wf_def)
  have r: "reps d' (d_size d) 0 0 (if d_size d = 0 then 0 else 1) vs" "reps (d'\<lparr>d_error := er\<rparr>) (d_size d) 0 0 (if d_size d = 0 then 0 else 1) vs" for er
  proof -
    show 1: "reps d' (d_size d) 0 0 (if d_size d = 0 then 0 else 1) vs" using similar_rep(2) [OF t(2) order_refl d(2)] .
    show "reps (d'\<lparr>d_error := er\<rparr>) (d_size d) 0 0 (if d_size d = 0 then 0 else 1) vs"
      by (rule rep_frame(2) [OF 1]) (auto simp: extends_def content_def)
  qed
  show ?thesis
  proof (cases "encoding_room (map (normal False) vs) \<le> n")
    case True
    then have "enc_position e' = length (encoding (map (normal False) vs))"
      "take (length (encoding (map (normal False) vs))) out' = encoding (map (normal False) vs)"
      "enc_position e' \<le> n"
      using t(3) o(1) ok by (auto simp: wrote_def tape_ok_def)
    then have "pn_data_encode d (Some out) n = Some (int (length (encoding (map (normal False) vs))), Some out', d')"
      using t(1) o(1) by (simp add: pn_data_encode_def pn_encoder_encode_def pn_encoder_initialize_def)
    then show ?thesis
      using True r(1) o(2) \<open>take (length (encoding (map (normal False) vs))) out' = encoding (map (normal False) vs)\<close> by (simp del: map_map)
  next
    case False
    then have "n < enc_position e'" using t(3) by (auto simp: wrote_def)
    then have "pn_data_encode d (Some out) n = Some (PN_OVERFLOW, Some out', d'\<lparr>d_error := PN_OVERFLOW\<rparr>)"
      using t(1) o(1) by (simp add: pn_data_encode_def pn_encoder_encode_def pn_encoder_initialize_def)
    then show ?thesis using False r(2) o(2) by (simp del: map_map)
  qed
qed


lemma restore_base:
  "pn_data_restore d p = Some (r, s) \<Longrightarrow> d_base_parent s = d_base_parent d \<and> d_base_current s = d_base_current d"
  by (auto simp: pn_data_restore_def bind_eq_Some_conv Let_def split: if_splits)

lemma pn_data_encoded_size_eq:
  assumes "stands_for d vs" "\<forall>v \<in> set vs. regular v" "strings_of vs \<le> 2 ^ 31"
  shows "\<exists>d'. pn_data_encoded_size d = Some (int (length (encoding (map (normal False) vs))), d') \<and> stands_for d' vs \<and>
    pn_data_point d' = pn_data_point d"
proof -
  let ?e = "\<lparr>enc_output = None, enc_position = 0, enc_size = 0, enc_null_count = 0\<rparr>"
  have wf: "encoder_wf ?e" by (simp add: encoder_wf_def)
  from traverse_encodes [OF assms wf]
  obtain e' d' where t: "pni_data_traverse d pni_encoder_enter pni_encoder_exit ?e = Some (0, e', d')" "similar d d'"
    "wrote (tapes (map (tape_of False) (map (normal False) vs))) (fulls vs) ?e e'" by (auto simp del: map_map)
  have d: "data_inv d" "reps d (d_size d) 0 0 (if d_size d = 0 then 0 else 1) vs" using assms(1) by (auto simp: stands_for_def)
  have inv': "data_inv d'" using similarD(1) [OF t(2)] .
  have pt: "pn_data_point d' = pn_data_point d" using similarD(4,5) [OF t(2)] by (simp add: pn_data_point_def)
  have "alike d' d'" using inv' by (simp add: alike_def)
  from restore_point [OF inv' this] obtain s where s: "pn_data_restore d' (pn_data_point d) = Some (True, s)" "alike d' s"
    "d_parent s = d_parent d'" "d_current s = d_current d'" unfolding pt by blast
  have "pn_data_encoded_size d = Some (int (length (encoding (map (normal False) vs))), s)"
    using t(1,3) s(1) by (simp add: pn_data_encoded_size_def pn_encoder_size_def pn_encoder_initialize_def wrote_def)
  moreover have "stands_for s vs"
    using alike_rep(2) [OF s(2) similar_rep(2) [OF t(2) order_refl d(2)]] s(2) similarD(2,6,7) [OF t(2)] restore_base [OF s(1)] assms(1)
    by (simp add: stands_for_def alike_def)
  moreover have "pn_data_point s = pn_data_point d" using s(3,4) unfolding pt [symmetric] by (simp add: pn_data_point_def)
  ultimately show ?thesis by blast
qed

text \<open>
  C39: The size that \<open>pn_data_encoded_size\<close> returns is not always enough to encode the object: with a
  memory of exactly that size, encoding reports \<open>PN_OVERFLOW\<close> as soon as the transient header of a compound does not fit.
  It is enough exactly when the room for the headers stays within the encoding.
\<close>

theorem pn_data_encoded_size_sufficient:
  assumes "stands_for d vs" "\<forall>v \<in> set vs. regular v" "strings_of vs \<le> 2 ^ 31"
  shows "\<exists>n d1. pn_data_encoded_size d = Some (int n, d1) \<and> n = length (encoding (map (normal False) vs)) \<and> stands_for d1 vs \<and>
    (\<forall>out. length out = n \<longrightarrow> (\<exists>r out' d2. pn_data_encode d1 (Some out) n = Some (r, out', d2) \<and>
      r = (if encoding_room (map (normal False) vs) = n then int n else PN_OVERFLOW)))"
proof -
  let ?n = "length (encoding (map (normal False) vs))"
  obtain d1 where d1: "pn_data_encoded_size d = Some (int ?n, d1)" "stands_for d1 vs"
    using pn_data_encoded_size_eq [OF assms] by blast
  have "tape_ok (tapes (map (tape_of False) (map (normal False) vs)))" by (simp add: tapes_ok)
  then have ok: "?n \<le> encoding_room (map (normal False) vs)" by (simp add: tape_ok_def)
  have "\<exists>r out' d2. pn_data_encode d1 (Some out) ?n = Some (r, out', d2) \<and>
      r = (if encoding_room (map (normal False) vs) = ?n then int ?n else PN_OVERFLOW)" if l: "length out = ?n" for out
    using pn_data_encode_eq [OF d1(2) assms(2,3) l] ok by (auto simp del: map_map split: if_splits)
  then show ?thesis using d1 by blast
qed

text \<open>Witnesses: a list whose encoding has 8 bytes but needs room for 14.\<close>

definition example_list :: amqp_value where
  "example_list = Comp T_LIST T_UNSET [Atom (PN_UINT 5), Atom (PN_STRING (Some [97]))]"

lemma granted_plain: "granted plain_mem"
  by (simp add: granted_def plain_mem_def)

lemma example_list_facts:
  "regular example_list" "strings_of [example_list] \<le> 2 ^ 31" "value_wf example_list" "nodes_of [example_list] \<le> 65535"
  "encoding (map (normal False) [example_list]) = [0xC0, 6, 2, 0x52, 5, 0xA1, 1, 97]"
  "encoding_room (map (normal False) [example_list]) = 14"
  by (simp_all add: example_list_def array_type_def tapes_def cat_def lit_def compact_def enc_uint_def enc_var_def bytes_data_def)

lemma example_list_length: "length (encoding (map (normal False) [example_list])) = 8"
  unfolding example_list_facts(5) by simp

lemma example_list_built: "\<exists>d. stands_for d [example_list]"
  using stands_for_ex [OF _ _ _ granted_plain, of "[example_list]"] example_list_facts by auto


theorem pn_data_encoded_size_sufficient_witness:
  "\<exists>d d1 r out' d2. stands_for d [example_list] \<and> pn_data_encoded_size d = Some (8, d1) \<and>
     pn_data_encode d1 (Some (replicate 8 0)) 8 = Some (PN_OVERFLOW, out', d2)"
proof -
  obtain d where d: "stands_for d [example_list]" using example_list_built by blast
  from pn_data_encoded_size_sufficient [OF d _ example_list_facts(2)] example_list_facts(1)
  obtain n d1 where n: "pn_data_encoded_size d = Some (int n, d1)" "n = 8"
    "\<And>out. length out = n \<Longrightarrow> \<exists>r out' d2. pn_data_encode d1 (Some out) n = Some (r, out', d2) \<and> r = (if 14 = n then int n else PN_OVERFLOW)"
    unfolding example_list_length unfolding example_list_facts(5,6) by auto
  from n(3) [of "replicate 8 0"] n(1,2) d show ?thesis by auto
qed

end
