(* ===== verification/Spec2Isabelle.thy ===== *)
theory Spec2Isabelle
  imports Codec_Roundtrip Dispatcher Autodetect Timer Pn_Map_Correct Raw_Connection_Runs Encoder_Correct
begin

text \<open>Apache Qpid Proton.\<close>

end
